(* ===== verification/Prelude.thy ===== *)
theory Prelude
  imports Main "HOL-Library.Word" "HOL-Library.Tree_Multiset"
begin

text \<open>
  What every component of the development shares: the outcome type of kernel code that
  may stop in \<open>panic\<close> (kern/debug/assert.h), the pointer type of kernel objects, the
  rounding macros of libs/defs.h on 64-bit words, the collections of rewrite rules, and
  generic lemmas on lists and words.
\<close>

unbundle bit_operations_syntax

section \<open>Faults and outcomes\<close>

text \<open>
  \<open>assert(x)\<close> and \<open>panic(...)\<close> never return: both end in \<open>__panic\<close>. An operation that
  can reach one of them returns a value of \<open>fault + 'a\<close>, with \<open>Inl\<close> for the stop.
  \<open>Div_zero\<close> is the undefined division of C, \<open>Undefined\<close> other undefined behaviour, \<open>No_return\<close> a loop or a
  recursion that does not end.
\<close>

datatype fault = Assert_failed string | Panic string | Div_zero | No_return | Undefined string

type_synonym 'a outcome = "fault + 'a"

definition obind :: "'a outcome \<Rightarrow> ('a \<Rightarrow> 'b outcome) \<Rightarrow> 'b outcome" where
  "obind m f = (case m of Inl e \<Rightarrow> Inl e | Inr x \<Rightarrow> f x)"

definition kassert :: "bool \<Rightarrow> string \<Rightarrow> 'a outcome \<Rightarrow> 'a outcome" where
  "kassert c msg k = (if c then k else Inl (Assert_failed msg))"

named_theorems outcome_simps \<open>rewriting of outcomes\<close>
named_theorems kernel_defs \<open>definitions of straight-line kernel code\<close>

lemma obind_Inl [simp, outcome_simps]: "obind (Inl e) f = Inl e"
  by (simp add: obind_def)

lemma obind_Inr [simp, outcome_simps]: "obind (Inr x) f = f x"
  by (simp add: obind_def)

lemma obind_eq_Inr [outcome_simps]: "obind m f = Inr y \<longleftrightarrow> (\<exists>x. m = Inr x \<and> f x = Inr y)"
  by (cases m) (auto simp: obind_def)

lemma kassert_True [simp, outcome_simps]: "c \<Longrightarrow> kassert c msg k = k"
  by (simp add: kassert_def)

lemma kassert_False [simp, outcome_simps]: "\<not> c \<Longrightarrow> kassert c msg k = Inl (Assert_failed msg)"
  by (simp add: kassert_def)

lemma kassert_eq_Inr [outcome_simps]: "kassert c msg k = Inr y \<longleftrightarrow> c \<and> k = Inr y"
  by (simp add: kassert_def)

definition returns :: "'a option \<Rightarrow> 'a outcome" where
  "returns m = (case m of None \<Rightarrow> Inl No_return | Some x \<Rightarrow> Inr x)"

lemma returns_simps [simp, outcome_simps]: "returns None = Inl No_return" "returns (Some x) = Inr x"
  by (simp_all add: returns_def)

lemma returns_eq_Inr [outcome_simps]: "returns m = Inr x \<longleftrightarrow> m = Some x"
  by (cases m) auto

text \<open>
  The body of a loop that is a \<open>partial_function\<close>: \<open>loop_bind\<close> runs a step that may fault and
  goes on with its result; \<open>finish\<close> turns a loop that does not end into a fault.
\<close>

definition loop_bind :: "'a outcome \<Rightarrow> ('a \<Rightarrow> 'b outcome option) \<Rightarrow> 'b outcome option" where
  "loop_bind m f = (case m of Inl e \<Rightarrow> Some (Inl e) | Inr x \<Rightarrow> f x)"

definition finish :: "'a outcome option \<Rightarrow> 'a outcome" where
  "finish m = (case m of None \<Rightarrow> Inl No_return | Some x \<Rightarrow> x)"

lemma loop_bind_simps [simp, outcome_simps]: "loop_bind (Inl e) f = Some (Inl e)" "loop_bind (Inr x) f = f x"
  by (simp_all add: loop_bind_def)

lemma finish_simps [simp, outcome_simps]: "finish None = Inl No_return" "finish (Some x) = x"
  by (simp_all add: finish_def)

text \<open>A counted \<open>for\<close> loop whose body may fault.\<close>

fun for_each :: "('a \<Rightarrow> 's \<Rightarrow> 's outcome) \<Rightarrow> 'a list \<Rightarrow> 's \<Rightarrow> 's outcome" where
  "for_each f [] s = Inr s"
| "for_each f (x # xs) s = obind (f x s) (for_each f xs)"

lemma loop_bind_mono [partial_function_mono]:
  "(\<And>x. mono_option (\<lambda>g. f x g)) \<Longrightarrow> mono_option (\<lambda>g. loop_bind m (\<lambda>x. f x g))"
  by (cases m) (auto simp: monotone_def flat_ord_def)

text \<open>Pointers to kernel objects; 0 is NULL.\<close>

type_synonym ptr = nat

abbreviation (input) NULL :: ptr where "NULL \<equiv> 0"

text \<open>A pointer test stays \<open>p \<noteq> NULL\<close> under simplification instead of turning into \<open>0 < p\<close>.\<close>

declare neq0_conv [iff del] bot_nat_0.not_eq_extremum [simp del]

end
