(* ===== verification/Linked_List.thy ===== *)
theory Linked_List
  imports Prelude
begin

text \<open>
  libs/list.h: the intrusive circular doubly linked list. A store gives every list entry
  its \<open>prev\<close> and \<open>next\<close>; the operations write the store as the C does.
\<close>

section \<open>Entries and operations\<close>

record 'n list_store =
  prev_of :: "'n \<Rightarrow> 'n"
  next_of :: "'n \<Rightarrow> 'n"

definition list_init :: "'n \<Rightarrow> 'n list_store \<Rightarrow> 'n list_store" where
  "list_init elm s = s\<lparr>prev_of := (prev_of s)(elm := elm), next_of := (next_of s)(elm := elm)\<rparr>"

text \<open>The assignments in the order of the code: the two neighbours first, then the entry.\<close>

definition list_add_between :: "'n \<Rightarrow> 'n \<Rightarrow> 'n \<Rightarrow> 'n list_store \<Rightarrow> 'n list_store" where
  "list_add_between elm prev next s =
     (let s1 = s\<lparr>prev_of := (prev_of s)(next := elm)\<rparr>;
          s2 = s1\<lparr>next_of := (next_of s1)(prev := elm)\<rparr>;
          s3 = s2\<lparr>next_of := (next_of s2)(elm := next)\<rparr>
      in s3\<lparr>prev_of := (prev_of s3)(elm := prev)\<rparr>)"

definition list_add_after :: "'n \<Rightarrow> 'n \<Rightarrow> 'n list_store \<Rightarrow> 'n list_store" where
  "list_add_after listelm elm s = list_add_between elm listelm (next_of s listelm) s"

definition list_add :: "'n \<Rightarrow> 'n \<Rightarrow> 'n list_store \<Rightarrow> 'n list_store" where
  "list_add listelm elm s = list_add_after listelm elm s"

definition list_add_before :: "'n \<Rightarrow> 'n \<Rightarrow> 'n list_store \<Rightarrow> 'n list_store" where
  "list_add_before listelm elm s = list_add_between elm (prev_of s listelm) listelm s"

definition list_del_between :: "'n \<Rightarrow> 'n \<Rightarrow> 'n list_store \<Rightarrow> 'n list_store" where
  "list_del_between prev next s =
     (let s1 = s\<lparr>next_of := (next_of s)(prev := next)\<rparr>
      in s1\<lparr>prev_of := (prev_of s1)(next := prev)\<rparr>)"

definition list_del :: "'n \<Rightarrow> 'n list_store \<Rightarrow> 'n list_store" where
  "list_del listelm s = list_del_between (prev_of s listelm) (next_of s listelm) s"

definition list_del_init :: "'n \<Rightarrow> 'n list_store \<Rightarrow> 'n list_store" where
  "list_del_init listelm s = list_init listelm (list_del listelm s)"

definition list_empty :: "'n list_store \<Rightarrow> 'n \<Rightarrow> bool" where
  "list_empty s list = (next_of s list = list)"

definition list_next :: "'n list_store \<Rightarrow> 'n \<Rightarrow> 'n" where
  "list_next s listelm = next_of s listelm"

definition list_prev :: "'n list_store \<Rightarrow> 'n \<Rightarrow> 'n" where
  "list_prev s listelm = prev_of s listelm"

lemmas list_ops = list_init_def list_add_between_def list_add_after_def list_add_def
  list_add_before_def list_del_between_def list_del_def list_del_init_def list_empty_def
  list_next_def list_prev_def Let_def

section \<open>The list a store represents\<close>

text \<open>
  \<open>lseg s a xs b\<close>: following \<open>next\<close> from \<open>a\<close> one meets exactly \<open>xs\<close> and then \<open>b\<close>, and
  the \<open>prev\<close> links lead back. A circular list with head \<open>h\<close> is a segment from \<open>h\<close> to \<open>h\<close>
  whose entries are pairwise different and differ from the head.
\<close>

fun lseg :: "'n list_store \<Rightarrow> 'n \<Rightarrow> 'n list \<Rightarrow> 'n \<Rightarrow> bool" where
  "lseg s a [] b \<longleftrightarrow> next_of s a = b \<and> prev_of s b = a"
| "lseg s a (x # xs) b \<longleftrightarrow> next_of s a = x \<and> prev_of s x = a \<and> lseg s x xs b"

definition clist :: "'n list_store \<Rightarrow> 'n \<Rightarrow> 'n list \<Rightarrow> bool" where
  "clist s h xs \<longleftrightarrow> distinct (h # xs) \<and> lseg s h xs h"

lemma lseg_append: "lseg s a (xs @ x # ys) b \<longleftrightarrow> lseg s a xs x \<and> lseg s x ys b"
  by (induction xs arbitrary: a) auto

text \<open>Writes outside a segment leave it alone.\<close>

lemma lseg_frame:
  assumes "lseg s a xs b"
    and "\<And>n. n \<in> set (a # xs) \<Longrightarrow> next_of s' n = next_of s n"
    and "\<And>n. n \<in> set (xs @ [b]) \<Longrightarrow> prev_of s' n = prev_of s n"
  shows "lseg s' a xs b"
  using assms by (induction xs arbitrary: a) auto

lemma lseg_last: "lseg s a xs b \<Longrightarrow> prev_of s b = last (a # xs)"
  by (induction xs arbitrary: a) auto

lemma lseg_first: "lseg s a xs b \<Longrightarrow> next_of s a = hd (xs @ [b])"
  by (cases xs) auto

lemma clistD:
  assumes "clist s h xs"
  shows "distinct xs" and "h \<notin> set xs" and "lseg s h xs h"
  using assms by (auto simp: clist_def)

lemma clist_next [simp]: "clist s h xs \<Longrightarrow> next_of s h = hd (xs @ [h])"
  by (auto simp: clist_def dest: lseg_first)

lemma clist_prev: "clist s h xs \<Longrightarrow> prev_of s h = last (h # xs)"
  by (auto simp: clist_def dest: lseg_last)

text \<open>The neighbours of an entry, read off the list.\<close>

lemma clist_split_next:
  "clist s h (xs @ x # ys) \<Longrightarrow> next_of s x = hd (ys @ [h])"
  by (auto simp: clist_def lseg_append dest: lseg_first)

lemma clist_split_prev:
  "clist s h (xs @ x # ys) \<Longrightarrow> prev_of s x = last (h # xs)"
  by (auto simp: clist_def lseg_append dest: lseg_last)

lemma clist_init: "clist (list_init h s) h []"
  by (simp add: clist_def list_init_def)

lemma clist_empty_iff: "clist s h xs \<Longrightarrow> list_empty s h \<longleftrightarrow> xs = []"
  by (cases xs) (auto simp: clist_def list_empty_def)

text \<open>
  Insertion: the entry lands between the two neighbours and nothing else moves. The ends
  \<open>a\<close> and \<open>b\<close> may be the same entry, the head of a circular list.
\<close>

lemma lseg_insert:
  assumes seg: "lseg s a (xs @ ys) b" and dist: "distinct (xs @ ys)"
    and ends: "a \<notin> set (xs @ ys)" "b \<notin> set (xs @ ys)"
    and fresh: "e \<notin> set (xs @ ys)" "e \<noteq> a" "e \<noteq> b"
  shows "lseg (list_add_between e (last (a # xs)) (hd (ys @ [b])) s) a (xs @ e # ys) b"
    (is "lseg ?s' a _ b")
proof -
  have left: "lseg ?s' a xs e"
  proof (cases xs rule: rev_cases)
    case Nil
    then show ?thesis using fresh by (auto simp: list_add_between_def Let_def)
  next
    case (snoc us u)
    with seg have "lseg s a us u" by (simp add: lseg_append)
    then have "lseg ?s' a us u"
      by (rule lseg_frame)
        (use snoc dist ends fresh in \<open>cases ys; auto simp: list_add_between_def Let_def\<close>)+
    with snoc fresh dist ends show ?thesis
      by (cases ys) (auto simp: lseg_append list_add_between_def Let_def)
  qed
  have right: "lseg ?s' e ys b"
  proof (cases ys)
    case Nil
    then show ?thesis using fresh by (auto simp: list_add_between_def Let_def)
  next
    case (Cons v vs)
    with seg have "lseg s v vs b" by (simp add: lseg_append)
    then have "lseg ?s' v vs b"
      by (rule lseg_frame)
        (use Cons dist ends fresh in \<open>cases xs rule: rev_cases; auto simp: list_add_between_def Let_def\<close>)+
    with Cons fresh dist ends show ?thesis
      by (auto simp: list_add_between_def Let_def)
  qed
  from left right show ?thesis by (simp add: lseg_append)
qed

lemma clist_add_between:
  assumes "clist s h (xs @ ys)" and "e \<notin> set (h # xs @ ys)"
  shows "clist (list_add_between e (last (h # xs)) (hd (ys @ [h])) s) h (xs @ e # ys)"
  using assms lseg_insert [of s h xs ys h e] by (auto simp: clist_def)

lemma clist_add_head:
  assumes "clist s h xs" and "e \<notin> set (h # xs)"
  shows "clist (list_add h e s) h (e # xs)"
  using clist_add_between [of s h "[]" xs e] assms
  by (simp add: list_add_def list_add_after_def clist_next)

lemma clist_add_after:
  assumes "clist s h (xs @ x # ys)" and "e \<notin> set (h # xs @ x # ys)"
  shows "clist (list_add_after x e s) h (xs @ x # e # ys)"
  using clist_add_between [of s h "xs @ [x]" ys e] assms clist_split_next [OF assms(1)]
  by (simp add: list_add_after_def)

lemma clist_add_tail:
  assumes "clist s h xs" and "e \<notin> set (h # xs)"
  shows "clist (list_add_before h e s) h (xs @ [e])"
  using clist_add_between [of s h xs "[]" e] assms
  by (simp add: list_add_before_def clist_prev)

lemma clist_add_before:
  assumes "clist s h (xs @ x # ys)" and "e \<notin> set (h # xs @ x # ys)"
  shows "clist (list_add_before x e s) h (xs @ e # x # ys)"
  using clist_add_between [of s h xs "x # ys" e] assms clist_split_prev [OF assms(1)]
  by (simp add: list_add_before_def)

text \<open>Deletion: the two neighbours are joined.\<close>

lemma lseg_delete:
  assumes seg: "lseg s a (xs @ e # ys) b" and dist: "distinct (xs @ e # ys)"
    and ends: "a \<notin> set (xs @ e # ys)" "b \<notin> set (xs @ e # ys)"
  shows "lseg (list_del_between (last (a # xs)) (hd (ys @ [b])) s) a (xs @ ys) b"
    (is "lseg ?s' a _ b")
proof -
  have left: "lseg ?s' a xs (hd (ys @ [b]))"
  proof (cases xs rule: rev_cases)
    case Nil
    then show ?thesis by (auto simp: list_del_between_def Let_def)
  next
    case (snoc us u)
    with seg have "lseg s a us u" by (simp add: lseg_append)
    then have "lseg ?s' a us u"
      by (rule lseg_frame)
        (use snoc dist ends in \<open>cases ys; auto simp: list_del_between_def Let_def\<close>)+
    with snoc show ?thesis by (auto simp: lseg_append list_del_between_def Let_def)
  qed
  show ?thesis
  proof (cases ys)
    case Nil
    with left show ?thesis by simp
  next
    case (Cons v vs)
    with seg have "lseg s v vs b" by (simp add: lseg_append)
    then have "lseg ?s' v vs b"
      by (rule lseg_frame)
        (use Cons dist ends in \<open>cases xs rule: rev_cases; auto simp: list_del_between_def Let_def\<close>)+
    with left Cons show ?thesis by (simp add: lseg_append)
  qed
qed

lemma clist_del:
  assumes "clist s h (xs @ e # ys)"
  shows "clist (list_del e s) h (xs @ ys)"
proof -
  have "list_del e s = list_del_between (last (h # xs)) (hd (ys @ [h])) s"
    using clist_split_next [OF assms] clist_split_prev [OF assms] by (simp add: list_del_def)
  then show ?thesis
    using assms lseg_delete [of s h xs e ys h] by (auto simp: clist_def)
qed

lemma clist_frame:
  assumes "clist s h xs"
    and "\<And>n. n \<in> set (h # xs) \<Longrightarrow> next_of s' n = next_of s n"
    and "\<And>n. n \<in> set (h # xs) \<Longrightarrow> prev_of s' n = prev_of s n"
  shows "clist s' h xs"
  using assms lseg_frame [of s h xs h s'] by (auto simp: clist_def)

lemma clist_del_init:
  assumes "clist s h (xs @ e # ys)"
  shows "clist (list_del_init e s) h (xs @ ys)" and "list_empty (list_del_init e s) e"
proof -
  show "clist (list_del_init e s) h (xs @ ys)"
    by (rule clist_frame [OF clist_del [OF assms]])
      (use clistD [OF assms] in \<open>auto simp: list_del_init_def list_init_def\<close>)
  show "list_empty (list_del_init e s) e"
    by (simp add: list_del_init_def list_init_def list_empty_def)
qed

lemma list_init_frame: "clist s h xs \<Longrightarrow> e \<notin> set (h # xs) \<Longrightarrow> clist (list_init e s) h xs"
  by (erule clist_frame) (auto simp: list_init_def)

text \<open>The entry after a prefix, and insertion there: the forms a loop over the list needs.\<close>

lemma clist_next_at: "clist s h (xs @ ys) \<Longrightarrow> next_of s (last (h # xs)) = hd (ys @ [h])"
proof (cases xs rule: rev_cases)
  case (snoc us u)
  then show "clist s h (xs @ ys) \<Longrightarrow> ?thesis" using clist_split_next [of s h us u ys] by simp
qed auto

lemma clist_add_at:
  assumes "clist s h (xs @ ys)" and "e \<notin> set (h # xs @ ys)"
  shows "clist (list_add (last (h # xs)) e s) h (xs @ e # ys)"
  using clist_add_between [OF assms] clist_next_at [OF assms(1)]
  by (simp add: list_add_def list_add_after_def)

lemma clist_prev_at: "clist s h (xs @ y # ys) \<Longrightarrow> list_prev s y = last (h # xs)"
  using clist_split_prev by (fastforce simp: list_prev_def)

end
