(* ===== verification/Skew_Heap_Store.thy ===== *)
theory Skew_Heap_Store
  imports Prelude
begin

text \<open>
  libs/skew_heap.h: the intrusive skew heap behind the stride, SJF and HPF run queues.
  The nodes carry parent, left and right pointers; \<open>None\<close> is NULL. The comparison
  function is an argument, as \<open>compare_f\<close> is in the code. The recursive merge follows
  pointers, so it is a partial function whose \<open>None\<close> means "does not return"; on a
  store that represents trees it always returns, and does what the functional skew heap does.
\<close>

section \<open>Nodes and operations\<close>

record 'n heap_store =
  parent_of :: "'n \<Rightarrow> 'n option"
  left_of :: "'n \<Rightarrow> 'n option"
  right_of :: "'n \<Rightarrow> 'n option"

definition skew_heap_init :: "'n \<Rightarrow> 'n heap_store \<Rightarrow> 'n heap_store" where
  "skew_heap_init a h = h\<lparr>parent_of := (parent_of h)(a := None),
     left_of := (left_of h)(a := None), right_of := (right_of h)(a := None)\<rparr>"

text \<open>\<open>a->left = l; a->right = r; if (l) l->parent = a;\<close>\<close>

definition link_children :: "'n \<Rightarrow> 'n option \<Rightarrow> 'n option \<Rightarrow> 'n heap_store \<Rightarrow> 'n heap_store" where
  "link_children a l r h =
     (let h1 = h\<lparr>left_of := (left_of h)(a := l)\<rparr>;
          h2 = h1\<lparr>right_of := (right_of h1)(a := r)\<rparr>
      in case l of None \<Rightarrow> h2 | Some c \<Rightarrow> h2\<lparr>parent_of := (parent_of h2)(c := Some a)\<rparr>)"

partial_function (option) skew_heap_merge ::
  "('n \<Rightarrow> 'n \<Rightarrow> int) \<Rightarrow> 'n heap_store \<Rightarrow> 'n option \<Rightarrow> 'n option \<Rightarrow> ('n heap_store \<times> 'n option) option"
where
  "skew_heap_merge cmp h a b =
     (case a of None \<Rightarrow> Some (h, b)
      | Some x \<Rightarrow>
        (case b of None \<Rightarrow> Some (h, a)
         | Some y \<Rightarrow>
           if cmp x y = -1 then
             (let r = left_of h x in
              Option.bind (skew_heap_merge cmp h (right_of h x) b)
                (\<lambda>(h1, l). Some (link_children x l r h1, a)))
           else
             (let r = left_of h y in
              Option.bind (skew_heap_merge cmp h a (right_of h y))
                (\<lambda>(h1, l). Some (link_children y l r h1, b)))))"

definition skew_heap_insert ::
  "('n \<Rightarrow> 'n \<Rightarrow> int) \<Rightarrow> 'n heap_store \<Rightarrow> 'n option \<Rightarrow> 'n \<Rightarrow> ('n heap_store \<times> 'n option) option" where
  "skew_heap_insert cmp h a b = skew_heap_merge cmp (skew_heap_init b h) a (Some b)"

definition skew_heap_remove ::
  "('n \<Rightarrow> 'n \<Rightarrow> int) \<Rightarrow> 'n heap_store \<Rightarrow> 'n option \<Rightarrow> 'n \<Rightarrow> ('n heap_store \<times> 'n option) option" where
  "skew_heap_remove cmp h a b =
     (let p = parent_of h b in
      Option.bind (skew_heap_merge cmp h (left_of h b) (right_of h b))
        (\<lambda>(h1, rep).
          let h2 = (case rep of None \<Rightarrow> h1 | Some r \<Rightarrow> h1\<lparr>parent_of := (parent_of h1)(r := p)\<rparr>)
          in case p of
               None \<Rightarrow> Some (h2, rep)
             | Some q \<Rightarrow>
                 (if left_of h2 q = Some b
                  then Some (h2\<lparr>left_of := (left_of h2)(q := rep)\<rparr>, a)
                  else Some (h2\<lparr>right_of := (right_of h2)(q := rep)\<rparr>, a))))"

section \<open>The functional skew heap\<close>

fun smerge :: "('n \<Rightarrow> 'n \<Rightarrow> int) \<Rightarrow> 'n tree \<Rightarrow> 'n tree \<Rightarrow> 'n tree" where
  "smerge cmp Leaf t = t"
| "smerge cmp t Leaf = t"
| "smerge cmp (Node l1 a r1) (Node l2 b r2) =
     (if cmp a b = -1 then Node (smerge cmp r1 (Node l2 b r2)) a l1
      else Node (smerge cmp (Node l1 a r1) r2) b l2)"

definition sinsert :: "('n \<Rightarrow> 'n \<Rightarrow> int) \<Rightarrow> 'n tree \<Rightarrow> 'n \<Rightarrow> 'n tree" where
  "sinsert cmp t b = smerge cmp t (Node Leaf b Leaf)"

fun sremove :: "('n \<Rightarrow> 'n \<Rightarrow> int) \<Rightarrow> 'n tree \<Rightarrow> 'n \<Rightarrow> 'n tree" where
  "sremove cmp Leaf b = Leaf"
| "sremove cmp (Node l a r) b =
     (if a = b then smerge cmp l r else Node (sremove cmp l b) a (sremove cmp r b))"

lemma smerge_Leaf2 [simp]: "smerge cmp t Leaf = t"
  by (cases t) auto

lemma mset_smerge [simp]: "mset_tree (smerge cmp t u) = mset_tree t + mset_tree u"
  by (induction cmp t u rule: smerge.induct) auto

lemma set_smerge [simp]: "set_tree (smerge cmp t u) = set_tree t \<union> set_tree u"
  by (induction cmp t u rule: smerge.induct) auto

lemma size_smerge [simp]: "size (smerge cmp t u) = size t + size u"
  by (induction cmp t u rule: smerge.induct) auto

definition dtree :: "'n tree \<Rightarrow> bool" where
  "dtree t \<longleftrightarrow> distinct (inorder t)"

lemma dtree_Leaf [simp]: "dtree Leaf"
  by (simp add: dtree_def)

lemma dtree_Node [simp]: "dtree (Node l a r) \<longleftrightarrow>
    dtree l \<and> dtree r \<and> a \<notin> set_tree l \<and> a \<notin> set_tree r \<and> set_tree l \<inter> set_tree r = {}"
  by (auto simp: dtree_def)

lemma dtree_smerge [simp]:
  "set_tree t \<inter> set_tree u = {} \<Longrightarrow> dtree (smerge cmp t u) \<longleftrightarrow> dtree t \<and> dtree u"
  by (induction cmp t u rule: smerge.induct) auto

lemma sremove_absent [simp]: "b \<notin> set_tree t \<Longrightarrow> sremove cmp t b = t"
  by (induction t) auto

lemma set_sremove: "dtree t \<Longrightarrow> set_tree (sremove cmp t b) = set_tree t - {b}"
  by (induction t) auto

lemma dtree_sremove: "dtree t \<Longrightarrow> dtree (sremove cmp t b)"
  by (induction t) (auto simp: set_sremove)

lemma mset_sremove:
  "dtree t \<Longrightarrow> b \<in> set_tree t \<Longrightarrow> add_mset b (mset_tree (sremove cmp t b)) = mset_tree t"
proof (induction t)
  case (Node l a r)
  consider "a = b" | "a \<noteq> b" "b \<in> set_tree l" "b \<notin> set_tree r"
    | "a \<noteq> b" "b \<notin> set_tree l" "b \<in> set_tree r"
    using Node.prems by auto
  then show ?case
  proof cases
    case 1
    with Node.prems show ?thesis by simp
  next
    case 2
    with Node.prems Node.IH(1) have "mset_tree l = add_mset b (mset_tree (sremove cmp l b))" by simp
    with 2 show ?thesis by simp
  next
    case 3
    with Node.prems Node.IH(2) have "mset_tree r = add_mset b (mset_tree (sremove cmp r b))" by simp
    with 3 show ?thesis by simp
  qed
qed simp

text \<open>
  Heap order for a comparison whose \<open>-1\<close> means "strictly before": \<open>le\<close> is the preorder
  it decides.
\<close>

fun heap_by :: "('n \<Rightarrow> 'n \<Rightarrow> bool) \<Rightarrow> 'n tree \<Rightarrow> bool" where
  "heap_by le Leaf = True"
| "heap_by le (Node l a r) = ((\<forall>x \<in> set_tree l \<union> set_tree r. le a x) \<and> heap_by le l \<and> heap_by le r)"

definition compares_on :: "'n set \<Rightarrow> ('n \<Rightarrow> 'n \<Rightarrow> int) \<Rightarrow> ('n \<Rightarrow> 'n \<Rightarrow> bool) \<Rightarrow> bool" where
  "compares_on A cmp le \<longleftrightarrow>
     (\<forall>a \<in> A. \<forall>b \<in> A. (cmp a b = -1 \<longrightarrow> le a b) \<and> (cmp a b \<noteq> -1 \<longrightarrow> le b a)) \<and>
     (\<forall>a \<in> A. \<forall>b \<in> A. \<forall>c \<in> A. le a b \<longrightarrow> le b c \<longrightarrow> le a c)"

lemma compares_on_subset: "compares_on A cmp le \<Longrightarrow> B \<subseteq> A \<Longrightarrow> compares_on B cmp le"
  unfolding compares_on_def by (intro conjI ballI impI; meson subsetD)

lemma compares_onD:
  assumes "compares_on A cmp le" "a \<in> A" "b \<in> A"
  shows "cmp a b = -1 \<Longrightarrow> le a b" and "cmp a b \<noteq> -1 \<Longrightarrow> le b a"
    and "c \<in> A \<Longrightarrow> le a b \<Longrightarrow> le b c \<Longrightarrow> le a c"
  using assms unfolding compares_on_def by blast+

lemma heap_by_smerge:
  assumes "compares_on (set_tree t \<union> set_tree u) cmp le" "heap_by le t" "heap_by le u"
  shows "heap_by le (smerge cmp t u)"
  using assms
proof (induction cmp t u rule: smerge.induct)
  case (3 cmp l1 a r1 l2 b r2)
  note C = compares_onD [OF "3.prems"(1)]
  have sub1: "compares_on (set_tree r1 \<union> set_tree (Node l2 b r2)) cmp le"
    and sub2: "compares_on (set_tree (Node l1 a r1) \<union> set_tree r2) cmp le"
    by (rule compares_on_subset [OF "3.prems"(1)]; auto)+
  show ?case
  proof (cases "cmp a b = -1")
    case True
    then have ab: "le a b" by (intro C(1)) auto
    moreover have "le a x" if "x \<in> set_tree l2 \<union> set_tree r2" for x
      by (rule C(3) [OF _ _ _ ab]) (use that "3.prems"(3) in auto)
    ultimately show ?thesis using True "3.IH"(1) [OF True sub1] "3.prems" by auto
  next
    case False
    then have ba: "le b a" by (intro C(2)) auto
    moreover have "le b x" if "x \<in> set_tree l1 \<union> set_tree r1" for x
      by (rule C(3) [OF _ _ _ ba]) (use that "3.prems"(2) in auto)
    ultimately show ?thesis using False "3.IH"(2) [OF False sub2] "3.prems" by auto
  qed
qed auto

lemma heap_by_sremove:
  assumes "compares_on (set_tree t) cmp le" "dtree t" "heap_by le t"
  shows "heap_by le (sremove cmp t b)"
  using assms
proof (induction t)
  case (Node l a r)
  have "compares_on (set_tree l) cmp le" "compares_on (set_tree r) cmp le"
    "compares_on (set_tree l \<union> set_tree r) cmp le"
    by (rule compares_on_subset [OF Node.prems(1)]; auto)+
  with Node show ?case by (auto simp: heap_by_smerge set_sremove)
qed simp

lemma heap_by_cong:
  assumes "\<And>a b. a \<in> set_tree t \<Longrightarrow> b \<in> set_tree t \<Longrightarrow> le a b = le' a b"
  shows "heap_by le t = heap_by le' t"
  using assms by (induction t) auto

lemma smerge_cong:
  assumes "\<And>a b. a \<in> set_tree t \<union> set_tree u \<Longrightarrow> b \<in> set_tree t \<union> set_tree u \<Longrightarrow> cmp a b = cmp' a b"
  shows "smerge cmp t u = smerge cmp' t u"
  using assms by (induction cmp t u rule: smerge.induct) auto

section \<open>The store represents a tree\<close>

text \<open>
  \<open>stree h a t\<close>: following left and right from \<open>a\<close> gives \<open>t\<close>, and every child points back
  to its parent. The parent of the root itself is not constrained; a heap's root has none.
\<close>

fun stree :: "'n heap_store \<Rightarrow> 'n option \<Rightarrow> 'n tree \<Rightarrow> bool" where
  "stree h a Leaf \<longleftrightarrow> a = None"
| "stree h a (Node l x r) \<longleftrightarrow> a = Some x \<and> stree h (left_of h x) l \<and> stree h (right_of h x) r \<and>
     (\<forall>c. left_of h x = Some c \<longrightarrow> parent_of h c = Some x) \<and>
     (\<forall>c. right_of h x = Some c \<longrightarrow> parent_of h c = Some x)"

definition sheap :: "'n heap_store \<Rightarrow> 'n option \<Rightarrow> 'n tree \<Rightarrow> bool" where
  "sheap h a t \<longleftrightarrow> dtree t \<and> stree h a t \<and> (\<forall>x. a = Some x \<longrightarrow> parent_of h x = None)"

lemma stree_None [simp]: "stree h None t \<longleftrightarrow> t = Leaf"
  by (cases t) auto

lemma stree_root: "stree h (Some x) t \<Longrightarrow> \<exists>l r. t = Node l x r"
  by (cases t) auto

lemma stree_root_mem: "stree h (Some x) t \<Longrightarrow> x \<in> set_tree t"
  by (cases t) auto

text \<open>Writes to nodes outside the tree do not matter.\<close>

lemma stree_frame:
  assumes "stree h a t"
    and "\<And>n. n \<in> set_tree t \<Longrightarrow> left_of h' n = left_of h n \<and> right_of h' n = right_of h n"
    and "\<And>n. n \<in> set_tree t \<Longrightarrow> a \<noteq> Some n \<Longrightarrow> parent_of h' n = parent_of h n"
    and "dtree t"
  shows "stree h' a t"
  using assms
proof (induction t arbitrary: a)
  case (Node l x r)
  have kids: "parent_of h' c = Some x" if "left_of h x = Some c \<or> right_of h x = Some c" for c
  proof -
    have "c \<in> set_tree l \<union> set_tree r"
      using that Node.prems(1) by (auto dest: stree_root_mem)
    moreover from this have "parent_of h' c = parent_of h c"
      using Node.prems(1,4) by (intro Node.prems(3)) auto
    ultimately show ?thesis using that Node.prems(1) by auto
  qed
  have "stree h' (left_of h x) l"
    by (rule Node.IH(1)) (use Node.prems in auto)
  moreover have "stree h' (right_of h x) r"
    by (rule Node.IH(2)) (use Node.prems in auto)
  ultimately show ?case using Node.prems(1,2) kids by auto
qed simp

lemma stree_outside:
  assumes "stree h a t" "dtree t" "\<And>n. n \<in> set_tree t \<Longrightarrow>
      left_of h' n = left_of h n \<and> right_of h' n = right_of h n \<and> parent_of h' n = parent_of h n"
  shows "stree h' a t"
  using assms by (intro stree_frame [OF assms(1)]) auto

text \<open>
  What a merge promises: the result is the functional merge, nodes outside the two trees
  are untouched, and the node that became the root keeps the parent it had.
\<close>

definition merge_post :: "'n heap_store \<Rightarrow> 'n heap_store \<Rightarrow> 'n option \<Rightarrow> 'n set \<Rightarrow> 'n tree \<Rightarrow> bool" where
  "merge_post h h' r A t \<longleftrightarrow> stree h' r t \<and>
     (\<forall>n. n \<notin> A \<longrightarrow> left_of h' n = left_of h n \<and> right_of h' n = right_of h n \<and>
        parent_of h' n = parent_of h n) \<and>
     (\<forall>x. r = Some x \<longrightarrow> parent_of h' x = parent_of h x)"

lemma link_children_simps:
  "left_of (link_children a l r h) n = (if n = a then l else left_of h n)"
  "right_of (link_children a l r h) n = (if n = a then r else right_of h n)"
  "parent_of (link_children a l r h) n = (if l = Some n then Some a else parent_of h n)"
  by (auto simp: link_children_def Let_def split: option.splits)

text \<open>One step of the merge: the winner \<open>x\<close> takes the merged tree left and its old left right.\<close>

lemma merge_step:
  assumes x: "stree h (Some x) (Node l x r)" "dtree (Node l x r)"
    and post: "merge_post h h1 m A t" and dt: "dtree t" "set_tree t = A" "A \<inter> insert x (set_tree l) = {}"
  shows "merge_post h (link_children x m (left_of h x) h1) (Some x) (insert x (set_tree l \<union> A)) (Node t x l)"
proof -
  let ?h = "link_children x m (left_of h x) h1"
  have h1: "left_of h1 n = left_of h n" "right_of h1 n = right_of h n" "parent_of h1 n = parent_of h n"
    if "n \<notin> A" for n using post that by (auto simp: merge_post_def)
  have mA: "n \<in> A" if "m = Some n" for n
    using post that dt by (auto simp: merge_post_def dest: stree_root_mem)
  have "stree h1 m t" using post by (simp add: merge_post_def)
  then have t: "stree ?h m t"
    by (rule stree_frame) (use dt in \<open>auto simp: link_children_simps\<close>)
  have l: "stree ?h (left_of h x) l"
  proof (rule stree_outside)
    show "stree h (left_of h x) l" "dtree l" using x by auto
    fix n assume "n \<in> set_tree l"
    then show "left_of ?h n = left_of h n \<and> right_of ?h n = right_of h n \<and> parent_of ?h n = parent_of h n"
      using dt x h1 mA by (auto simp: link_children_simps)
  qed
  have pl: "parent_of ?h c = Some x" if "left_of h x = Some c" for c
  proof -
    have "c \<in> set_tree l" using x that by (auto dest: stree_root_mem)
    then show ?thesis using dt x h1 mA that by (auto simp: link_children_simps)
  qed
  have frame: "left_of ?h n = left_of h n" "right_of ?h n = right_of h n" "parent_of ?h n = parent_of h n"
    if "n \<notin> insert x (set_tree l \<union> A)" for n
    using that h1 mA by (auto simp: link_children_simps)
  have px: "parent_of ?h x = parent_of h x"
    using dt h1 mA by (auto simp: link_children_simps)
  show ?thesis
    unfolding merge_post_def using t l pl frame px by (auto simp: link_children_simps)
qed

text \<open>The pointer merge always returns on trees, and refines the functional merge.\<close>

lemma skew_heap_merge_refines:
  assumes "stree h a t" "stree h b u" "dtree t" "dtree u" "set_tree t \<inter> set_tree u = {}"
  shows "\<exists>h' r. skew_heap_merge cmp h a b = Some (h', r) \<and>
           merge_post h h' r (set_tree t \<union> set_tree u) (smerge cmp t u)"
  using assms
proof (induction cmp t u arbitrary: a b rule: smerge.induct)
  case (1 cmp u)
  then show ?case by (auto simp: skew_heap_merge.simps merge_post_def)
next
  case (2 cmp l x r)
  then show ?case by (auto simp: skew_heap_merge.simps merge_post_def)
next
  case (3 cmp l1 x r1 l2 y r2)
  then have ab: "a = Some x" "b = Some y" by auto
  from "3.prems"(5) have dis: "set_tree r1 \<inter> set_tree (Node l2 y r2) = {}"
      "set_tree (Node l1 x r1) \<inter> set_tree r2 = {}"
      "(set_tree r1 \<union> set_tree (Node l2 y r2)) \<inter> insert x (set_tree l1) = {}"
      "(set_tree (Node l1 x r1) \<union> set_tree r2) \<inter> insert y (set_tree l2) = {}"
    using "3.prems"(3,4) by auto
  show ?case
  proof (cases "cmp x y = -1")
    case True
    obtain h1 m where m: "skew_heap_merge cmp h (right_of h x) b = Some (h1, m)"
      and post: "merge_post h h1 m (set_tree r1 \<union> set_tree (Node l2 y r2)) (smerge cmp r1 (Node l2 y r2))"
      using "3.IH"(1) [OF True _ "3.prems"(2) _ "3.prems"(4) dis(1), of "right_of h x"] "3.prems"(1,3)
      by auto
    have "merge_post h (link_children x m (left_of h x) h1) (Some x)
        (insert x (set_tree l1 \<union> (set_tree r1 \<union> set_tree (Node l2 y r2))))
        (Node (smerge cmp r1 (Node l2 y r2)) x l1)"
      by (rule merge_step [OF _ _ post _ _ dis(3)]) (use "3.prems" ab dis(1) in auto)
    moreover have "insert x (set_tree l1 \<union> (set_tree r1 \<union> set_tree (Node l2 y r2))) =
        set_tree (Node l1 x r1) \<union> set_tree (Node l2 y r2)" by auto
    ultimately show ?thesis
      using True m ab by (simp add: skew_heap_merge.simps [of cmp h "Some x" "Some y"])
  next
    case False
    obtain h1 m where m: "skew_heap_merge cmp h a (right_of h y) = Some (h1, m)"
      and post: "merge_post h h1 m (set_tree (Node l1 x r1) \<union> set_tree r2) (smerge cmp (Node l1 x r1) r2)"
      using "3.IH"(2) [OF False "3.prems"(1) _ "3.prems"(3) _ dis(2), of "right_of h y"] "3.prems"(2,4)
      by auto
    have "merge_post h (link_children y m (left_of h y) h1) (Some y)
        (insert y (set_tree l2 \<union> (set_tree (Node l1 x r1) \<union> set_tree r2)))
        (Node (smerge cmp (Node l1 x r1) r2) y l2)"
      by (rule merge_step [OF _ _ post _ _ dis(4)]) (use "3.prems" ab dis(2) in auto)
    moreover have "insert y (set_tree l2 \<union> (set_tree (Node l1 x r1) \<union> set_tree r2)) =
        set_tree (Node l1 x r1) \<union> set_tree (Node l2 y r2)" by auto
    ultimately show ?thesis
      using False m ab by (simp add: skew_heap_merge.simps [of cmp h "Some x" "Some y"])
  qed
qed

lemma merge_postD:
  assumes "merge_post h h' r A t"
  shows "stree h' r t" and "n \<notin> A \<Longrightarrow> left_of h' n = left_of h n"
    and "n \<notin> A \<Longrightarrow> right_of h' n = right_of h n" and "n \<notin> A \<Longrightarrow> parent_of h' n = parent_of h n"
    and "r = Some x \<Longrightarrow> parent_of h' x = parent_of h x"
  using assms by (auto simp: merge_post_def)

lemma skew_heap_insert_refines:
  assumes "sheap h a t" "b \<notin> set_tree t"
  shows "\<exists>h' r. skew_heap_insert cmp h a b = Some (h', r) \<and> sheap h' r (sinsert cmp t b)"
proof -
  let ?h = "skew_heap_init b h"
  have t: "stree h a t" "dtree t" and root: "\<And>x. a = Some x \<Longrightarrow> parent_of h x = None"
    using assms by (auto simp: sheap_def)
  have st: "stree ?h a t"
    by (rule stree_outside [OF t]) (use assms(2) in \<open>auto simp: skew_heap_init_def\<close>)
  have sb: "stree ?h (Some b) (Node Leaf b Leaf)"
    by (simp add: skew_heap_init_def)
  obtain h' r where m: "skew_heap_merge cmp ?h a (Some b) = Some (h', r)"
    and post: "merge_post ?h h' r (set_tree t \<union> set_tree (Node Leaf b Leaf)) (sinsert cmp t b)"
    using skew_heap_merge_refines [OF st sb t(2), of cmp] assms(2) by (auto simp: sinsert_def)
  have "parent_of h' x = None" if "r = Some x" for x
  proof -
    have "r = a \<or> r = Some b"
      using m by (auto simp: skew_heap_merge.simps [of cmp ?h a "Some b"] split: option.splits if_splits bind_splits)
    then show ?thesis
      using merge_postD(5) [OF post that] that root by (auto simp: skew_heap_init_def)
  qed
  then show ?thesis
    using m merge_postD(1) [OF post] t(2) assms(2)
    by (auto simp: skew_heap_insert_def sheap_def sinsert_def)
qed

text \<open>
  Removal replaces the subtree at \<open>b\<close> by the merge of its children. \<open>relinked\<close> says
  what the code does to the nodes above: only the link of \<open>b\<close>'s parent \<open>q\<close> that led to
  \<open>b\<close> changes, and it now leads to \<open>rep\<close>.
\<close>

definition relinked ::
  "'n heap_store \<Rightarrow> 'n heap_store \<Rightarrow> 'n \<Rightarrow> 'n \<Rightarrow> 'n option \<Rightarrow> 'n set \<Rightarrow> 'n set \<Rightarrow> bool" where
  "relinked h h' q b rep S T \<longleftrightarrow> (\<forall>n \<in> T - S. parent_of h' n = parent_of h n \<and>
     left_of h' n = (if n = q \<and> left_of h q = Some b then rep else left_of h n) \<and>
     right_of h' n = (if n = q \<and> left_of h q \<noteq> Some b then rep else right_of h n))"

definition relink_ok :: "'n heap_store \<Rightarrow> 'n option \<Rightarrow> 'n tree \<Rightarrow> 'n \<Rightarrow> 'n \<Rightarrow> 'n tree \<Rightarrow> 'n tree \<Rightarrow> bool" where
  "relink_ok h a t b q l r \<longleftrightarrow>
     (\<forall>h' rep cmp. stree h' rep (smerge cmp l r) \<longrightarrow> (\<forall>c. rep = Some c \<longrightarrow> parent_of h' c = Some q) \<longrightarrow>
        relinked h h' q b rep (set_tree (Node l b r)) (set_tree t) \<longrightarrow> stree h' a (sremove cmp t b))"

definition sub_at :: "'n heap_store \<Rightarrow> 'n option \<Rightarrow> 'n tree \<Rightarrow> 'n \<Rightarrow> 'n \<Rightarrow> 'n tree \<Rightarrow> 'n tree \<Rightarrow> bool" where
  "sub_at h a t b q l r \<longleftrightarrow> stree h (Some b) (Node l b r) \<and> dtree (Node l b r) \<and>
     set_tree (Node l b r) \<subseteq> set_tree t \<and> parent_of h b = Some q \<and>
     q \<in> set_tree t - set_tree (Node l b r) \<and> (\<forall>x. a = Some x \<longrightarrow> x \<notin> set_tree (Node l b r)) \<and>
     relink_ok h a t b q l r"

lemma relinkedD:
  assumes "relinked h h' q b rep S T" "n \<in> T" "n \<notin> S" "n \<noteq> q"
  shows "left_of h' n = left_of h n" "right_of h' n = right_of h n"
  using assms by (auto simp: relinked_def)

lemma relinkedP:
  "relinked h h' q b rep S T \<Longrightarrow> n \<in> T \<Longrightarrow> n \<notin> S \<Longrightarrow> parent_of h' n = parent_of h n"
  by (auto simp: relinked_def)

lemma relinkedQ:
  assumes "relinked h h' q b rep S T" "q \<in> T" "q \<notin> S"
  shows "left_of h' q = (if left_of h q = Some b then rep else left_of h q)"
    "right_of h' q = (if left_of h q \<noteq> Some b then rep else right_of h q)"
  using assms by (auto simp: relinked_def)

lemma sub_at_left:
  assumes st: "stree h (Some x) (Node u x v)" "dtree (Node u x v)" and b: "left_of h x = Some b"
  shows "\<exists>l r. sub_at h (Some x) (Node u x v) b x l r"
proof -
  from st b have "stree h (Some b) u" by simp
  then obtain l r where u: "u = Node l b r" by (cases u) auto
  let ?S = "set_tree u"
  have out: "x \<notin> ?S" "set_tree v \<inter> ?S = {}" "x \<notin> set_tree v" using st(2) by auto
  have kid: "c \<in> set_tree v" "c \<notin> ?S" if "right_of h x = Some c" for c
    using st out that by (auto dest: stree_root_mem)
  have lb: "left_of h x = Some b \<longleftrightarrow> True"
    using kid b u by auto
  have "stree h' (Some x) (sremove cmp (Node u x v) b)"
    if m: "stree h' rep (smerge cmp l r)" "\<forall>c. rep = Some c \<longrightarrow> parent_of h' c = Some x"
      and re: "relinked h h' x b rep ?S (set_tree (Node u x v))" for h' rep cmp
  proof -
    have "stree h' (right_of h x) v"
    proof (rule stree_outside [of h])
      fix n assume n: "n \<in> set_tree v"
      with out have "n \<notin> ?S" "n \<noteq> x" by auto
      with n show "left_of h' n = left_of h n \<and> right_of h' n = right_of h n \<and> parent_of h' n = parent_of h n"
        using relinkedD [OF re, of n] relinkedP [OF re, of n] by auto
    qed (use st in auto)
    moreover have "parent_of h' c = Some x" if "right_of h x = Some c" for c
      using relinkedP [OF re _ kid(2) [OF that]] kid(1) [OF that] st(1) that by auto
    moreover have "left_of h' x = rep" "right_of h' x = right_of h x"
      using relinkedQ [OF re _ out(1)] lb b by auto
    moreover have "b \<notin> set_tree v" using out(2) u by auto
    moreover have "x \<noteq> b" using out(1) u by auto
    ultimately show ?thesis using m u by simp
  qed
  then have "relink_ok h (Some x) (Node u x v) b x l r" unfolding relink_ok_def u by blast
  moreover have "stree h (Some b) (Node l b r)" "dtree (Node l b r)" "parent_of h b = Some x"
    using st b u by auto
  moreover have "set_tree (Node l b r) \<subseteq> set_tree (Node u x v)" using u by auto
  ultimately have "sub_at h (Some x) (Node u x v) b x l r" using out(1) u unfolding sub_at_def by simp
  then show ?thesis by blast
qed

lemma sub_at_right:
  assumes st: "stree h (Some x) (Node u x v)" "dtree (Node u x v)" and b: "right_of h x = Some b"
  shows "\<exists>l r. sub_at h (Some x) (Node u x v) b x l r"
proof -
  from st b have "stree h (Some b) v" by simp
  then obtain l r where v: "v = Node l b r" by (cases v) auto
  let ?S = "set_tree v"
  have out: "x \<notin> ?S" "set_tree u \<inter> ?S = {}" "x \<notin> set_tree u" using st(2) by auto
  have kid: "c \<in> set_tree u" "c \<notin> ?S" if "left_of h x = Some c" for c
    using st out that by (auto dest: stree_root_mem)
  have lb: "left_of h x = Some b \<longleftrightarrow> False"
    using kid b v by auto
  have "stree h' (Some x) (sremove cmp (Node u x v) b)"
    if m: "stree h' rep (smerge cmp l r)" "\<forall>c. rep = Some c \<longrightarrow> parent_of h' c = Some x"
      and re: "relinked h h' x b rep ?S (set_tree (Node u x v))" for h' rep cmp
  proof -
    have "stree h' (left_of h x) u"
    proof (rule stree_outside [of h])
      fix n assume n: "n \<in> set_tree u"
      with out have "n \<notin> ?S" "n \<noteq> x" by auto
      with n show "left_of h' n = left_of h n \<and> right_of h' n = right_of h n \<and> parent_of h' n = parent_of h n"
        using relinkedD [OF re, of n] relinkedP [OF re, of n] by auto
    qed (use st in auto)
    moreover have "parent_of h' c = Some x" if "left_of h x = Some c" for c
      using relinkedP [OF re _ kid(2) [OF that]] kid(1) [OF that] st(1) that by auto
    moreover have "right_of h' x = rep" "left_of h' x = left_of h x"
      using relinkedQ [OF re _ out(1)] lb b by auto
    moreover have "b \<notin> set_tree u" using out(2) v by auto
    moreover have "x \<noteq> b" using out(1) v by auto
    ultimately show ?thesis using m v by simp
  qed
  then have "relink_ok h (Some x) (Node u x v) b x l r" unfolding relink_ok_def v by blast
  moreover have "stree h (Some b) (Node l b r)" "dtree (Node l b r)" "parent_of h b = Some x"
    using st b v by auto
  moreover have "set_tree (Node l b r) \<subseteq> set_tree (Node u x v)" using v by auto
  ultimately have "sub_at h (Some x) (Node u x v) b x l r" using out(1) v unfolding sub_at_def by simp
  then show ?thesis by blast
qed

lemma sub_at_deeper_left:
  assumes st: "stree h (Some x) (Node u x v)" "dtree (Node u x v)"
    and sub: "sub_at h (left_of h x) u b q l r"
  shows "sub_at h (Some x) (Node u x v) b q l r"
proof -
  let ?S = "set_tree (Node l b r)"
  have S: "?S \<subseteq> set_tree u" "q \<in> set_tree u" "q \<notin> ?S" "b \<in> set_tree u"
    using sub by (auto simp: sub_at_def)
  have D: "x \<notin> set_tree u" "x \<notin> set_tree v" "set_tree u \<inter> set_tree v = {}" using st(2) by simp_all
  have out: "x \<notin> ?S" "set_tree v \<inter> ?S = {}" "x \<noteq> q" "q \<notin> set_tree v" "b \<noteq> x" "b \<notin> set_tree v"
    using S D by blast+
  have root: "c \<in> set_tree u" "c \<notin> ?S" if "left_of h x = Some c" for c
    using sub st(1) that by (auto simp: sub_at_def dest: stree_root_mem)
  have "stree h' (Some x) (sremove cmp (Node u x v) b)"
    if m: "stree h' rep (smerge cmp l r)" "\<forall>c. rep = Some c \<longrightarrow> parent_of h' c = Some q"
      and re: "relinked h h' q b rep ?S (set_tree (Node u x v))" for h' rep cmp
  proof -
    have x: "left_of h' x = left_of h x" "right_of h' x = right_of h x"
      using relinkedD [OF re _ out(1,3)] by auto
    have "relinked h h' q b rep ?S (set_tree u)"
      using re by (auto simp: relinked_def)
    with sub m have "stree h' (left_of h x) (sremove cmp u b)" unfolding sub_at_def relink_ok_def by blast
    moreover have "stree h' (right_of h x) v"
    proof (rule stree_outside [of h])
      fix n assume n: "n \<in> set_tree v"
      with out have "n \<notin> ?S" "n \<noteq> q" by auto
      with n show "left_of h' n = left_of h n \<and> right_of h' n = right_of h n \<and> parent_of h' n = parent_of h n"
        using relinkedD [OF re, of n] relinkedP [OF re, of n] by auto
    qed (use st in auto)
    moreover have "parent_of h' c = Some x" if "left_of h x = Some c" for c
      using relinkedP [OF re _ root(2) [OF that]] root(1) [OF that] st(1) that by auto
    moreover have "parent_of h' c = Some x" if "right_of h x = Some c" for c
    proof -
      have c: "c \<in> set_tree v" using st that by (auto dest: stree_root_mem)
      with out(2) have "c \<notin> ?S" by blast
      with c that show ?thesis using relinkedP [OF re, of c] st(1) by auto
    qed
    ultimately show ?thesis using x out by simp
  qed
  then have "relink_ok h (Some x) (Node u x v) b q l r" unfolding relink_ok_def by blast
  with sub S out show ?thesis unfolding sub_at_def by auto
qed

lemma sub_at_deeper_right:
  assumes st: "stree h (Some x) (Node u x v)" "dtree (Node u x v)"
    and sub: "sub_at h (right_of h x) v b q l r"
  shows "sub_at h (Some x) (Node u x v) b q l r"
proof -
  let ?S = "set_tree (Node l b r)"
  have S: "?S \<subseteq> set_tree v" "q \<in> set_tree v" "q \<notin> ?S" "b \<in> set_tree v"
    using sub by (auto simp: sub_at_def)
  have D: "x \<notin> set_tree u" "x \<notin> set_tree v" "set_tree u \<inter> set_tree v = {}" using st(2) by simp_all
  have out: "x \<notin> ?S" "set_tree u \<inter> ?S = {}" "x \<noteq> q" "q \<notin> set_tree u" "b \<noteq> x" "b \<notin> set_tree u"
    using S D by blast+
  have root: "c \<in> set_tree v" "c \<notin> ?S" if "right_of h x = Some c" for c
    using sub st(1) that by (auto simp: sub_at_def dest: stree_root_mem)
  have "stree h' (Some x) (sremove cmp (Node u x v) b)"
    if m: "stree h' rep (smerge cmp l r)" "\<forall>c. rep = Some c \<longrightarrow> parent_of h' c = Some q"
      and re: "relinked h h' q b rep ?S (set_tree (Node u x v))" for h' rep cmp
  proof -
    have x: "left_of h' x = left_of h x" "right_of h' x = right_of h x"
      using relinkedD [OF re _ out(1,3)] by auto
    have "relinked h h' q b rep ?S (set_tree v)"
      using re by (auto simp: relinked_def)
    with sub m have "stree h' (right_of h x) (sremove cmp v b)" unfolding sub_at_def relink_ok_def by blast
    moreover have "stree h' (left_of h x) u"
    proof (rule stree_outside [of h])
      fix n assume n: "n \<in> set_tree u"
      with out have "n \<notin> ?S" "n \<noteq> q" by auto
      with n show "left_of h' n = left_of h n \<and> right_of h' n = right_of h n \<and> parent_of h' n = parent_of h n"
        using relinkedD [OF re, of n] relinkedP [OF re, of n] by auto
    qed (use st in auto)
    moreover have "parent_of h' c = Some x" if "right_of h x = Some c" for c
      using relinkedP [OF re _ root(2) [OF that]] root(1) [OF that] st(1) that by auto
    moreover have "parent_of h' c = Some x" if "left_of h x = Some c" for c
    proof -
      have c: "c \<in> set_tree u" using st that by (auto dest: stree_root_mem)
      with out(2) have "c \<notin> ?S" by blast
      with c that show ?thesis using relinkedP [OF re, of c] st(1) by auto
    qed
    ultimately show ?thesis using x out by simp
  qed
  then have "relink_ok h (Some x) (Node u x v) b q l r" unfolding relink_ok_def by blast
  with sub S out show ?thesis unfolding sub_at_def by auto
qed

lemma sub_at_exists:
  assumes "stree h a t" "dtree t" "b \<in> set_tree t" "a \<noteq> Some b"
  shows "\<exists>q l r. sub_at h a t b q l r"
  using assms
proof (induction t arbitrary: a)
  case (Node u x v)
  then have a: "a = Some x" by simp
  with Node.prems consider "b \<in> set_tree u" "left_of h x = Some b" | "b \<in> set_tree u" "left_of h x \<noteq> Some b"
    | "b \<in> set_tree v" "right_of h x = Some b" | "b \<in> set_tree v" "right_of h x \<noteq> Some b" by auto
  then show ?case
  proof cases
    case 1
    then show ?thesis using sub_at_left [of h x u v b] Node.prems a by blast
  next
    case 2
    with Node.prems Node.IH(1) [of "left_of h x"] obtain q l r where "sub_at h (left_of h x) u b q l r" by auto
    then show ?thesis using sub_at_deeper_left [of h x u v b q l r] Node.prems a by blast
  next
    case 3
    then show ?thesis using sub_at_right [of h x u v b] Node.prems a by blast
  next
    case 4
    with Node.prems Node.IH(2) [of "right_of h x"] obtain q l r where "sub_at h (right_of h x) v b q l r" by auto
    then show ?thesis using sub_at_deeper_right [of h x u v b q l r] Node.prems a by blast
  qed
qed simp

lemma skew_heap_remove_refines:
  assumes hp: "sheap h a t" and b: "b \<in> set_tree t"
  shows "\<exists>h' r. skew_heap_remove cmp h a b = Some (h', r) \<and> sheap h' r (sremove cmp t b)"
proof (cases "a = Some b")
  case True
  have t: "stree h a t" "dtree t" "parent_of h b = None" using hp True by (auto simp: sheap_def)
  then obtain l r where lr: "t = Node l b r" using True by (cases t) auto
  obtain h1 m where m: "skew_heap_merge cmp h (left_of h b) (right_of h b) = Some (h1, m)"
    and post: "merge_post h h1 m (set_tree l \<union> set_tree r) (smerge cmp l r)"
    using skew_heap_merge_refines [of h "left_of h b" l "right_of h b" r cmp] t lr by auto
  let ?h2 = "case m of None \<Rightarrow> h1 | Some c \<Rightarrow> h1\<lparr>parent_of := (parent_of h1)(c := None)\<rparr>"
  have d: "dtree (smerge cmp l r)" using t lr by simp
  have "stree ?h2 m (smerge cmp l r)"
    by (rule stree_frame [OF merge_postD(1) [OF post] _ _ d]) (auto split: option.splits)
  then have "sheap ?h2 m (sremove cmp t b)"
    using d lr by (auto simp: sheap_def)
  moreover have "skew_heap_remove cmp h a b = Some (?h2, m)"
    using m t(3) by (simp add: skew_heap_remove_def Let_def)
  ultimately show ?thesis by blast
next
  case False
  have t: "stree h a t" "dtree t" using hp by (auto simp: sheap_def)
  obtain q l r where sub: "sub_at h a t b q l r" using sub_at_exists [OF t b False] by blast
  let ?S = "set_tree (Node l b r)"
  have S: "stree h (Some b) (Node l b r)" "dtree (Node l b r)" "?S \<subseteq> set_tree t" "parent_of h b = Some q"
    "q \<in> set_tree t" "q \<notin> ?S" "\<And>x. a = Some x \<Longrightarrow> x \<notin> ?S" "relink_ok h a t b q l r"
    using sub by (auto simp: sub_at_def)
  obtain h1 m where m: "skew_heap_merge cmp h (left_of h b) (right_of h b) = Some (h1, m)"
    and post: "merge_post h h1 m (set_tree l \<union> set_tree r) (smerge cmp l r)"
    using skew_heap_merge_refines [of h "left_of h b" l "right_of h b" r cmp] S(1,2) by auto
  let ?h2 = "case m of None \<Rightarrow> h1 | Some c \<Rightarrow> h1\<lparr>parent_of := (parent_of h1)(c := Some q)\<rparr>"
  let ?h3 = "if left_of ?h2 q = Some b then ?h2\<lparr>left_of := (left_of ?h2)(q := m)\<rparr>
             else ?h2\<lparr>right_of := (right_of ?h2)(q := m)\<rparr>"
  have mS: "c \<in> set_tree l \<union> set_tree r" if "m = Some c" for c
    using stree_root_mem [of h1 c "smerge cmp l r"] merge_postD(1) [OF post] that by simp
  have h2: "left_of ?h2 n = left_of h1 n" "right_of ?h2 n = right_of h1 n"
    "parent_of ?h2 n = (if m = Some n then Some q else parent_of h1 n)" for n
    by (auto split: option.splits)
  have q2: "left_of ?h2 q = left_of h q"
    using h2(1) [of q] merge_postD(2) [OF post, of q] S(6) by simp
  have re: "relinked h ?h3 q b m ?S (set_tree t)"
    unfolding relinked_def
  proof (intro ballI)
    fix n assume "n \<in> set_tree t - ?S"
    then have n: "n \<notin> set_tree l \<union> set_tree r" by simp
    then have "m \<noteq> Some n" using mS by blast
    then have "left_of ?h2 n = left_of h n" "right_of ?h2 n = right_of h n" "parent_of ?h2 n = parent_of h n"
      using h2 [of n] merge_postD(2-4) [OF post n] by simp_all
    then show "parent_of ?h3 n = parent_of h n \<and>
        left_of ?h3 n = (if n = q \<and> left_of h q = Some b then m else left_of h n) \<and>
        right_of ?h3 n = (if n = q \<and> left_of h q \<noteq> Some b then m else right_of h n)"
      by (simp only: q2 if_split) simp
  qed
  have d: "dtree (smerge cmp l r)" using S(2) by simp
  have "stree ?h3 m (smerge cmp l r)"
    by (rule stree_frame [OF merge_postD(1) [OF post] _ _ d]) (use h2 S(6) in auto)
  moreover have "\<forall>c. m = Some c \<longrightarrow> parent_of ?h3 c = Some q" using h2 by auto
  ultimately have "stree ?h3 a (sremove cmp t b)" using S(8) re unfolding relink_ok_def by blast
  moreover have "parent_of ?h3 x = None" if "a = Some x" for x
  proof -
    have "x \<in> set_tree t" using t(1) that by (auto dest: stree_root_mem)
    with relinkedP [OF re] S(7) [OF that] hp that show ?thesis by (auto simp: sheap_def)
  qed
  ultimately have "sheap ?h3 a (sremove cmp t b)" using t(2) by (auto simp: sheap_def dtree_sremove)
  moreover have "skew_heap_remove cmp h a b = Some (?h3, a)"
    using m S(4) by (simp add: skew_heap_remove_def Let_def)
  ultimately show ?thesis by blast
qed

lemma sheap_frame:
  assumes h: "sheap h a t"
    and eq: "\<And>n. n \<in> set_tree t \<Longrightarrow>
      left_of h' n = left_of h n \<and> right_of h' n = right_of h n \<and> parent_of h' n = parent_of h n"
  shows "sheap h' a t"
proof -
  have t: "stree h a t" "dtree t" using h by (simp_all add: sheap_def)
  have "stree h' a t" by (rule stree_outside [OF t eq])
  moreover have "parent_of h' x = None" if "a = Some x" for x
  proof -
    have "x \<in> set_tree t" using t that by (auto dest: stree_root_mem)
    then have "parent_of h' x = parent_of h x" using eq by blast
    with h that show ?thesis by (simp add: sheap_def)
  qed
  ultimately show ?thesis using t by (simp add: sheap_def)
qed

lemma sheap_empty [simp]: "sheap h None Leaf"
  by (simp add: sheap_def)

lemma sheap_root: "sheap h a t \<Longrightarrow> a = (case t of Leaf \<Rightarrow> None | Node l x r \<Rightarrow> Some x)"
  by (cases t) (auto simp: sheap_def)

end
