(* ===== verification/Proc_Types.thy ===== *)
theory Proc_Types
  imports Linked_List Skew_Heap_Store
begin

text \<open>
  The data the scheduler and the process manager share: \<open>struct proc_struct\<close> and the
  structures it embeds (kern/process/proc.h, kern/trap/trap.h), \<open>struct run_queue\<close> and
  \<open>struct sched_class\<close> (kern/schedule/sched.h). A process is a pointer into the store
  \<open>procs\<close>; its \<open>run_link\<close> and \<open>lab6_run_pool\<close> entries live in the list and heap stores
  under that pointer, so \<open>le2proc\<close> is the inverse of the constructor.
\<close>

section \<open>Processes\<close>

datatype proc_state = PROC_UNINIT | PROC_SLEEPING | PROC_RUNNABLE | PROC_ZOMBIE

record cpu_context =
  ctx_ra :: "64 word"
  ctx_sp :: "64 word"
  ctx_s0 :: "64 word"
  ctx_s1 :: "64 word"
  ctx_s2 :: "64 word"
  ctx_s3 :: "64 word"
  ctx_s4 :: "64 word"
  ctx_s5 :: "64 word"
  ctx_s6 :: "64 word"
  ctx_s7 :: "64 word"
  ctx_s8 :: "64 word"
  ctx_s9 :: "64 word"
  ctx_s10 :: "64 word"
  ctx_s11 :: "64 word"

definition zero_context :: cpu_context where
  "zero_context = \<lparr>ctx_ra = 0, ctx_sp = 0, ctx_s0 = 0, ctx_s1 = 0, ctx_s2 = 0, ctx_s3 = 0,
     ctx_s4 = 0, ctx_s5 = 0, ctx_s6 = 0, ctx_s7 = 0, ctx_s8 = 0, ctx_s9 = 0, ctx_s10 = 0, ctx_s11 = 0\<rparr>"

text \<open>The one run queue \<open>__rq\<close> of kern/schedule/sched.c, as the target of \<open>proc->rq\<close>.\<close>

datatype rq_ref = The_rq

record proc_struct =
  state :: proc_state
  pid :: int
  runs :: int
  kstack :: "64 word"
  need_resched :: bool
  parent :: ptr
  mm :: ptr
  ctx :: cpu_context
  tf :: "64 word"
  pgdir :: "64 word"
  flags :: "32 word"
  name :: "8 word list"
  exit_code :: int
  wait_state :: "32 word"
  cptr :: ptr
  yptr :: ptr
  optr :: ptr
  rq :: "rq_ref option"
  time_slice :: int
  lab6_stride :: "32 word"
  lab6_priority :: "32 word"

definition PROC_NAME_LEN :: nat where "PROC_NAME_LEN = 15"
definition MAX_PROCESS :: int where "MAX_PROCESS = 4096"
definition MAX_PID :: int where "MAX_PID = MAX_PROCESS * 2"

definition PF_EXITING :: "32 word" where "PF_EXITING = 1"
definition WT_INTERRUPTED :: "32 word" where "WT_INTERRUPTED = 0x80000000"
definition WT_CHILD :: "32 word" where "WT_CHILD = 1 OR WT_INTERRUPTED"

section \<open>Run queue and scheduling class\<close>

datatype run_entry = Run_list | Run_link ptr

fun le2proc :: "run_entry \<Rightarrow> ptr" where
  "le2proc (Run_link p) = p"

record run_queue =
  proc_num :: "32 word"
  max_time_slice :: int
  lab6_run_pool :: "ptr option"

definition MAX_TIME_SLICE :: int where "MAX_TIME_SLICE = 5"

record sched =
  procs :: "ptr \<Rightarrow> proc_struct"
  run_links :: "run_entry list_store"
  run_pool :: "ptr heap_store"
  runq :: run_queue

text \<open>\<open>struct sched_class\<close>: a name and five function pointers.\<close>

record 's sched_class =
  sc_name :: string
  sc_init :: "'s \<Rightarrow> 's"
  sc_enqueue :: "ptr \<Rightarrow> 's \<Rightarrow> 's outcome"
  sc_dequeue :: "ptr \<Rightarrow> 's \<Rightarrow> 's outcome"
  sc_pick_next :: "'s \<Rightarrow> (ptr \<times> 's) outcome"
  sc_proc_tick :: "ptr \<Rightarrow> 's \<Rightarrow> 's"

definition upd_proc :: "ptr \<Rightarrow> (proc_struct \<Rightarrow> proc_struct) \<Rightarrow> 'a sched_scheme \<Rightarrow> 'a sched_scheme" where
  "upd_proc p f s = s\<lparr>procs := (procs s)(p := f (procs s p))\<rparr>"

definition upd_runq :: "(run_queue \<Rightarrow> run_queue) \<Rightarrow> 'a sched_scheme \<Rightarrow> 'a sched_scheme" where
  "upd_runq f s = s\<lparr>runq := f (runq s)\<rparr>"

lemma upd_proc_simps [simp]:
  "procs (upd_proc p f s) q = (if q = p then f (procs s p) else procs s q)"
  "run_links (upd_proc p f s) = run_links s" "run_pool (upd_proc p f s) = run_pool s"
  "runq (upd_proc p f s) = runq s" "sched.more (upd_proc p f s) = sched.more s"
  by (simp_all add: upd_proc_def)

lemma upd_runq_simps [simp]:
  "procs (upd_runq f s) = procs s" "run_links (upd_runq f s) = run_links s"
  "run_pool (upd_runq f s) = run_pool s" "runq (upd_runq f s) = f (runq s)"
  "sched.more (upd_runq f s) = sched.more s"
  by (simp_all add: upd_runq_def)

section \<open>What a scheduling class promises the framework\<close>

text \<open>
  A scheduling operation may change the scheduling fields of the process it handles and
  nothing else of any process, nor the rest of the kernel state.
\<close>

definition same_core :: "proc_struct \<Rightarrow> proc_struct \<Rightarrow> bool" where
  "same_core a b \<longleftrightarrow> (\<exists>r t d. b = a\<lparr>rq := r, time_slice := t, lab6_stride := d\<rparr>)"

definition sched_frame :: "ptr \<Rightarrow> 'a sched_scheme \<Rightarrow> 'a sched_scheme \<Rightarrow> bool" where
  "sched_frame p s s' \<longleftrightarrow> (\<forall>q. q \<noteq> p \<longrightarrow> procs s' q = procs s q) \<and>
     same_core (procs s p) (procs s' p) \<and> sched.more s' = sched.more s"

text \<open>Two states that agree on everything the queue of \<open>A\<close> depends on.\<close>

definition same_queue :: "ptr set \<Rightarrow> 'a sched_scheme \<Rightarrow> 'a sched_scheme \<Rightarrow> bool" where
  "same_queue A s s' \<longleftrightarrow> run_links s' = run_links s \<and> run_pool s' = run_pool s \<and> runq s' = runq s \<and>
     (\<forall>q \<in> A. rq (procs s' q) = rq (procs s q) \<and> lab6_stride (procs s' q) = lab6_stride (procs s q) \<and>
        lab6_priority (procs s' q) = lab6_priority (procs s q) \<and> pid (procs s' q) = pid (procs s q))"

lemma same_core_refl [simp]: "same_core a a"
  unfolding same_core_def by (rule exI [of _ "rq a"], rule exI [of _ "time_slice a"], rule exI [of _ "lab6_stride a"]) simp

lemma same_core_update [simp]:
  "same_core a (a\<lparr>rq := r\<rparr>)" "same_core a (a\<lparr>time_slice := t\<rparr>)" "same_core a (a\<lparr>lab6_stride := d\<rparr>)"
proof -
  show "same_core a (a\<lparr>rq := r\<rparr>)" unfolding same_core_def
    by (rule exI [of _ r], rule exI [of _ "time_slice a"], rule exI [of _ "lab6_stride a"]) simp
  show "same_core a (a\<lparr>time_slice := t\<rparr>)" unfolding same_core_def
    by (rule exI [of _ "rq a"], rule exI [of _ t], rule exI [of _ "lab6_stride a"]) simp
  show "same_core a (a\<lparr>lab6_stride := d\<rparr>)" unfolding same_core_def
    by (rule exI [of _ "rq a"], rule exI [of _ "time_slice a"], rule exI [of _ d]) simp
qed

lemma same_core_trans: "same_core a b \<Longrightarrow> same_core b c \<Longrightarrow> same_core a c"
  unfolding same_core_def by (elim exE) force

lemma same_core_fields:
  assumes "same_core a b"
  shows "state b = state a" "pid b = pid a" "runs b = runs a" "kstack b = kstack a"
    "need_resched b = need_resched a" "parent b = parent a" "mm b = mm a" "flags b = flags a"
    "wait_state b = wait_state a" "exit_code b = exit_code a" "cptr b = cptr a" "yptr b = yptr a"
    "optr b = optr a" "lab6_priority b = lab6_priority a" "name b = name a" "pgdir b = pgdir a" "tf b = tf a"
  using assms by (auto simp: same_core_def)

text \<open>The fields that neither the scheduler nor a context switch ever writes.\<close>

definition same_proc :: "proc_struct \<Rightarrow> proc_struct \<Rightarrow> bool" where
  "same_proc a b \<longleftrightarrow> parent b = parent a \<and> cptr b = cptr a \<and> yptr b = yptr a \<and> optr b = optr a \<and> mm b = mm a \<and>
     kstack b = kstack a \<and> flags b = flags a \<and> pgdir b = pgdir a \<and> tf b = tf a \<and> name b = name a \<and> lab6_priority b = lab6_priority a"

lemma same_proc_refl [simp]: "same_proc a a"
  by (simp add: same_proc_def)

lemma same_proc_trans: "same_proc a b \<Longrightarrow> same_proc b c \<Longrightarrow> same_proc a c"
  by (simp add: same_proc_def)

lemma same_core_proc: "same_core a b \<Longrightarrow> same_proc a b"
  by (simp add: same_proc_def same_core_fields)

lemma sched_frame_refl [simp]: "sched_frame p s s"
  by (simp add: sched_frame_def)

lemma sched_frame_trans: "sched_frame p s t \<Longrightarrow> sched_frame p t u \<Longrightarrow> sched_frame p s u"
  by (auto simp: sched_frame_def intro: same_core_trans)

lemma sched_frame_core: "sched_frame p s t \<Longrightarrow> same_core (procs s q) (procs t q)"
  by (cases "q = p") (auto simp: sched_frame_def)

text \<open>
  \<open>rep s Q\<close>: the run queue holds exactly the processes of \<open>Q\<close>. \<open>ready s p\<close>: \<open>p\<close> is in a
  condition to be enqueued. The bound is that of the 32-bit counter \<open>proc_num\<close>.
\<close>

definition rq_limit :: nat where "rq_limit = 2 ^ 32 - 1"

locale run_queue_class =
  fixes init :: "'a sched_scheme \<Rightarrow> 'a sched_scheme"
    and enqueue :: "ptr \<Rightarrow> 'a sched_scheme \<Rightarrow> 'a sched_scheme outcome"
    and dequeue :: "ptr \<Rightarrow> 'a sched_scheme \<Rightarrow> 'a sched_scheme outcome"
    and pick_next :: "'a sched_scheme \<Rightarrow> (ptr \<times> 'a sched_scheme) outcome"
    and rep :: "'a sched_scheme \<Rightarrow> ptr set \<Rightarrow> bool"
    and ready :: "'a sched_scheme \<Rightarrow> ptr \<Rightarrow> bool"
  assumes init_rep: "rep (init s) {}"
    and init_frame: "procs (init s) = procs s" "sched.more (init s) = sched.more s"
    and rep_finite: "rep s Q \<Longrightarrow> finite Q"
    and rep_stable: "rep s Q \<Longrightarrow> same_queue Q s s' \<Longrightarrow> rep s' Q"
    and ready_stable: "ready s p \<Longrightarrow> same_queue {p} s s' \<Longrightarrow> ready s' p"
    and enqueue_ok: "rep s Q \<Longrightarrow> p \<notin> Q \<Longrightarrow> p \<noteq> NULL \<Longrightarrow> ready s p \<Longrightarrow> card Q < rq_limit \<Longrightarrow>
      \<exists>s'. enqueue p s = Inr s' \<and> rep s' (insert p Q) \<and> sched_frame p s s' \<and>
        (\<forall>q. q \<noteq> p \<longrightarrow> q \<notin> Q \<longrightarrow> ready s q \<longrightarrow> ready s' q)"
    and pick_none: "rep s {} \<Longrightarrow> pick_next s = Inr (NULL, s)"
    and pick_some: "rep s Q \<Longrightarrow> Q \<noteq> {} \<Longrightarrow>
      \<exists>p s1 s2. pick_next s = Inr (p, s1) \<and> p \<in> Q \<and> p \<noteq> NULL \<and> dequeue p s1 = Inr s2 \<and> rep s2 (Q - {p}) \<and>
        sched_frame p s s1 \<and> sched_frame p s s2 \<and> ready s2 p \<and>
        (\<forall>q. q \<notin> Q \<longrightarrow> ready s q \<longrightarrow> ready s2 q)"

end
