(* ===== verification/Cpu_State.thy ===== *)
theory Cpu_State
  imports Proc_Types
begin

text \<open>
  The processor state the kernel switches: interrupt enable (kern/driver/intr.c,
  kern/sync/sync.h), the address-translation register (\<open>lsatp\<close> of libs/riscv.h), the
  callee-saved registers exchanged by \<open>switch_to\<close> (kern/process/switch.S), and
  \<open>proc_run\<close> (kern/process/proc.c). The state extends that of the scheduler.
\<close>

record cpu = sched +
  current :: ptr
  idleproc :: ptr
  sstatus :: "64 word"
  satp :: "64 word"
  regs :: cpu_context

definition SSTATUS_SIE :: "64 word" where "SSTATUS_SIE = 2"
definition SSTATUS_SPIE :: "64 word" where "SSTATUS_SPIE = 0x20"
definition SSTATUS_SPP :: "64 word" where "SSTATUS_SPP = 0x100"

section \<open>Interrupts\<close>

definition intr_enable :: "'a cpu_scheme \<Rightarrow> 'a cpu_scheme" where
  "intr_enable s = s\<lparr>sstatus := sstatus s OR SSTATUS_SIE\<rparr>"

definition intr_disable :: "'a cpu_scheme \<Rightarrow> 'a cpu_scheme" where
  "intr_disable s = s\<lparr>sstatus := sstatus s AND NOT SSTATUS_SIE\<rparr>"

definition intr_save :: "'a cpu_scheme \<Rightarrow> bool \<times> 'a cpu_scheme" where
  "intr_save s = (if sstatus s AND SSTATUS_SIE \<noteq> 0 then (True, intr_disable s) else (False, s))"

definition intr_restore :: "bool \<Rightarrow> 'a cpu_scheme \<Rightarrow> 'a cpu_scheme" where
  "intr_restore flag s = (if flag then intr_enable s else s)"

section \<open>Address space and context switch\<close>

definition lsatp :: "64 word \<Rightarrow> 'a cpu_scheme \<Rightarrow> 'a cpu_scheme" where
  "lsatp pgdir_pa s = s\<lparr>satp := 0x8000000000000000 OR drop_bit 12 pgdir_pa\<rparr>"

text \<open>\<open>switch_to\<close> stores the callee-saved registers in one context and loads the other.\<close>

definition switch_to :: "ptr \<Rightarrow> ptr \<Rightarrow> 'a cpu_scheme \<Rightarrow> 'a cpu_scheme" where
  "switch_to prev next s =
     (let s1 = upd_proc prev (\<lambda>p. p\<lparr>ctx := regs s\<rparr>) s
      in s1\<lparr>regs := ctx (procs s1 next)\<rparr>)"

text \<open>
  \<open>proc_run\<close> up to the return of \<open>switch_to\<close>, which happens in the context of the new process:
  what follows in the code (restoring the interrupt flag) belongs to an activation that
  the old process resumes later.
\<close>

definition proc_run :: "ptr \<Rightarrow> 'a cpu_scheme \<Rightarrow> 'a cpu_scheme" where
  "proc_run proc s =
     (if proc \<noteq> current s then
        let prev = current s;
            s1 = snd (intr_save s);
            s2 = s1\<lparr>current := proc\<rparr>;
            s3 = lsatp (pgdir (procs s2 proc)) s2
        in switch_to prev proc s3
      else s)"

section \<open>What the operations leave alone\<close>

lemma intr_frame [simp]:
  "procs (snd (intr_save s)) = procs s" "run_links (snd (intr_save s)) = run_links s"
  "run_pool (snd (intr_save s)) = run_pool s" "runq (snd (intr_save s)) = runq s"
  "current (snd (intr_save s)) = current s" "idleproc (snd (intr_save s)) = idleproc s"
  "satp (snd (intr_save s)) = satp s" "regs (snd (intr_save s)) = regs s"
  "cpu.more (snd (intr_save s)) = cpu.more s"
  by (simp_all add: intr_save_def intr_disable_def)

lemma intr_restore_frame [simp]:
  "procs (intr_restore f s) = procs s" "run_links (intr_restore f s) = run_links s"
  "run_pool (intr_restore f s) = run_pool s" "runq (intr_restore f s) = runq s"
  "current (intr_restore f s) = current s" "idleproc (intr_restore f s) = idleproc s"
  "satp (intr_restore f s) = satp s" "regs (intr_restore f s) = regs s"
  "cpu.more (intr_restore f s) = cpu.more s"
  by (simp_all add: intr_restore_def intr_enable_def)

lemma SIE_disabled: "(w AND NOT SSTATUS_SIE) AND SSTATUS_SIE = (0 :: 64 word)"
  by (simp add: bit_eq_iff bit_simps)

lemma SIE_or_restore: "w AND SSTATUS_SIE \<noteq> 0 \<Longrightarrow> (w AND NOT SSTATUS_SIE) OR SSTATUS_SIE = (w :: 64 word)"
proof -
  assume a: "w AND SSTATUS_SIE \<noteq> 0"
  have bits: "bit SSTATUS_SIE n \<longleftrightarrow> n = 1" for n by (auto simp: SSTATUS_SIE_def bit_2_iff)
  have "bit w 1"
  proof (rule ccontr)
    assume "\<not> bit w 1"
    then have "w AND SSTATUS_SIE = 0" by (intro bit_eqI) (auto simp: bit_simps bits)
    with a show False by simp
  qed
  then show "(w AND NOT SSTATUS_SIE) OR SSTATUS_SIE = w"
    by (intro bit_eqI) (auto simp: bit_simps bits)
qed

text \<open>Inside the critical section interrupts are off; leaving it restores the status word.\<close>

lemma intr_save_off: "sstatus (snd (intr_save s)) AND SSTATUS_SIE = 0"
  by (simp add: intr_save_def intr_disable_def SIE_disabled)

lemma intr_save_restore: "intr_save s = (f, s1) \<Longrightarrow> sstatus s2 = sstatus s1 \<Longrightarrow> sstatus (intr_restore f s2) = sstatus s"
  by (auto simp: intr_save_def intr_restore_def intr_disable_def intr_enable_def SIE_or_restore split: if_splits)

lemma switch_to_simps [simp]:
  "run_links (switch_to p q s) = run_links s" "run_pool (switch_to p q s) = run_pool s"
  "runq (switch_to p q s) = runq s" "current (switch_to p q s) = current s"
  "idleproc (switch_to p q s) = idleproc s" "sstatus (switch_to p q s) = sstatus s"
  "satp (switch_to p q s) = satp s" "cpu.more (switch_to p q s) = cpu.more s"
  "procs (switch_to p q s) = (procs s)(p := (procs s p)\<lparr>ctx := regs s\<rparr>)"
  by (simp_all add: switch_to_def Let_def upd_proc_def)

lemma lsatp_simps [simp]:
  "procs (lsatp w s) = procs s" "run_links (lsatp w s) = run_links s" "run_pool (lsatp w s) = run_pool s"
  "runq (lsatp w s) = runq s" "current (lsatp w s) = current s" "idleproc (lsatp w s) = idleproc s"
  "sstatus (lsatp w s) = sstatus s" "regs (lsatp w s) = regs s" "cpu.more (lsatp w s) = cpu.more s"
  by (simp_all add: lsatp_def)

lemma proc_run_simps [simp]:
  "run_links (proc_run p s) = run_links s" "run_pool (proc_run p s) = run_pool s"
  "runq (proc_run p s) = runq s" "current (proc_run p s) = p" "idleproc (proc_run p s) = idleproc s"
  "cpu.more (proc_run p s) = cpu.more s"
  "procs (proc_run p s) = (if p = current s then procs s
     else (procs s)(current s := (procs s (current s))\<lparr>ctx := regs s\<rparr>))"
  by (auto simp: proc_run_def Let_def)

lemma cpu_of_more:
  fixes s s' :: "'a cpu_scheme"
  assumes "sched.more s' = sched.more s"
  shows "current s' = current s" "idleproc s' = idleproc s" "sstatus s' = sstatus s" "satp s' = satp s"
    "regs s' = regs s" "cpu.more s' = cpu.more s"
  using assms by (cases s; cases s'; simp)+

lemma cpu_moreI:
  fixes s s' :: "'a cpu_scheme"
  assumes "current s' = current s" "idleproc s' = idleproc s" "sstatus s' = sstatus s" "satp s' = satp s"
    "regs s' = regs s" "cpu.more s' = cpu.more s"
  shows "sched.more s' = sched.more s"
  using assms by (cases s; cases s'; simp)

end
