(* ===== verification/Sched_Queue.thy ===== *)
theory Sched_Queue
  imports Proc_Types
begin

text \<open>
  The two scheduling classes that keep the runnable processes in the list \<open>run_list\<close>:
  round robin (kern/schedule/default_sched.c, class RR) and first in, first out
  (kern/schedule/default_sched_fifo.c). The list operations refine a queue of process
  pointers: enqueue appends, pick_next reads the front, dequeue removes.
\<close>

section \<open>Assignments the classes share\<close>

text \<open>\<open>if (proc->time_slice == 0 || proc->time_slice > rq->max_time_slice) proc->time_slice = rq->max_time_slice;\<close>\<close>

definition refill_slice :: "ptr \<Rightarrow> 'a sched_scheme \<Rightarrow> 'a sched_scheme" where
  "refill_slice proc s =
     (if time_slice (procs s proc) = 0 \<or> time_slice (procs s proc) > max_time_slice (runq s)
      then upd_proc proc (\<lambda>p. p\<lparr>time_slice := max_time_slice (runq s)\<rparr>) s else s)"

text \<open>\<open>proc->rq = rq; rq->proc_num++;\<close>\<close>

definition join_queue :: "ptr \<Rightarrow> 'a sched_scheme \<Rightarrow> 'a sched_scheme" where
  "join_queue proc s = upd_runq (\<lambda>r. r\<lparr>proc_num := proc_num r + 1\<rparr>)
     (upd_proc proc (\<lambda>p. p\<lparr>rq := Some The_rq\<rparr>) s)"

text \<open>The tick of every preemptive class: count down, and ask for a reschedule at zero.\<close>

definition tick_slice :: "ptr \<Rightarrow> 'a sched_scheme \<Rightarrow> 'a sched_scheme" where
  "tick_slice proc s =
     (let s1 = (if time_slice (procs s proc) > 0
                then upd_proc proc (\<lambda>p. p\<lparr>time_slice := time_slice p - 1\<rparr>) s else s)
      in if time_slice (procs s1 proc) = 0
         then upd_proc proc (\<lambda>p. p\<lparr>need_resched := True\<rparr>) s1 else s1)"

section \<open>Round robin\<close>

definition RR_init :: "'a sched_scheme \<Rightarrow> 'a sched_scheme" where
  "RR_init s = upd_runq (\<lambda>r. r\<lparr>proc_num := 0\<rparr>) (s\<lparr>run_links := list_init Run_list (run_links s)\<rparr>)"

definition RR_enqueue :: "ptr \<Rightarrow> 'a sched_scheme \<Rightarrow> 'a sched_scheme outcome" where
  "RR_enqueue proc s = kassert (list_empty (run_links s) (Run_link proc)) ''list_empty(&(proc->run_link))''
     (let s1 = s\<lparr>run_links := list_add_before Run_list (Run_link proc) (run_links s)\<rparr>;
          s2 = refill_slice proc s1
      in Inr (join_queue proc s2))"

definition RR_dequeue :: "ptr \<Rightarrow> 'a sched_scheme \<Rightarrow> 'a sched_scheme outcome" where
  "RR_dequeue proc s =
     kassert (\<not> list_empty (run_links s) (Run_link proc) \<and> rq (procs s proc) = Some The_rq)
       ''!list_empty(&(proc->run_link)) && proc->rq == rq''
     (Inr (upd_runq (\<lambda>r. r\<lparr>proc_num := proc_num r - 1\<rparr>)
        (s\<lparr>run_links := list_del_init (Run_link proc) (run_links s)\<rparr>)))"

definition RR_pick_next :: "'a sched_scheme \<Rightarrow> (ptr \<times> 'a sched_scheme) outcome" where
  "RR_pick_next s =
     (let le = list_next (run_links s) Run_list
      in if le \<noteq> Run_list then Inr (le2proc le, s) else Inr (NULL, s))"

definition RR_proc_tick :: "ptr \<Rightarrow> 'a sched_scheme \<Rightarrow> 'a sched_scheme" where
  "RR_proc_tick proc s = tick_slice proc s"

definition default_sched_class :: "'a sched_scheme sched_class" where
  "default_sched_class = \<lparr>sc_name = ''RR_scheduler'', sc_init = RR_init, sc_enqueue = RR_enqueue,
     sc_dequeue = RR_dequeue, sc_pick_next = RR_pick_next, sc_proc_tick = RR_proc_tick\<rparr>"

section \<open>First in, first out\<close>

definition FIFO_init :: "'a sched_scheme \<Rightarrow> 'a sched_scheme" where
  "FIFO_init s = upd_runq (\<lambda>r. r\<lparr>lab6_run_pool := None, proc_num := 0\<rparr>)
     (s\<lparr>run_links := list_init Run_list (run_links s)\<rparr>)"

definition FIFO_enqueue :: "ptr \<Rightarrow> 'a sched_scheme \<Rightarrow> 'a sched_scheme outcome" where
  "FIFO_enqueue proc s = kassert (list_empty (run_links s) (Run_link proc)) ''list_empty(&(proc->run_link))''
     (Inr (join_queue proc (s\<lparr>run_links := list_add_before Run_list (Run_link proc) (run_links s)\<rparr>)))"

definition FIFO_dequeue :: "ptr \<Rightarrow> 'a sched_scheme \<Rightarrow> 'a sched_scheme outcome" where
  "FIFO_dequeue proc s =
     kassert (rq (procs s proc) = Some The_rq \<and> proc_num (runq s) > 0) ''proc->rq == rq && rq->proc_num > 0''
     (kassert (\<not> list_empty (run_links s) (Run_link proc)) ''!list_empty(&(proc->run_link))''
     (Inr (upd_runq (\<lambda>r. r\<lparr>proc_num := proc_num r - 1\<rparr>)
        (s\<lparr>run_links := list_del_init (Run_link proc) (run_links s)\<rparr>))))"

definition FIFO_pick_next :: "'a sched_scheme \<Rightarrow> (ptr \<times> 'a sched_scheme) outcome" where
  "FIFO_pick_next s =
     (let le = list_next (run_links s) Run_list
      in if le \<noteq> Run_list then Inr (le2proc le, s) else Inr (NULL, s))"

definition FIFO_proc_tick :: "ptr \<Rightarrow> 'a sched_scheme \<Rightarrow> 'a sched_scheme" where
  "FIFO_proc_tick proc s = s"

definition fifo_sched_class :: "'a sched_scheme sched_class" where
  "fifo_sched_class = \<lparr>sc_name = ''FIFO_scheduler'', sc_init = FIFO_init, sc_enqueue = FIFO_enqueue,
     sc_dequeue = FIFO_dequeue, sc_pick_next = FIFO_pick_next, sc_proc_tick = FIFO_proc_tick\<rparr>"

section \<open>The queue of processes\<close>

text \<open>\<open>run_list\<close> links exactly the processes of \<open>q\<close>, in this order, and the counter agrees.\<close>

definition run_fifo :: "'a sched_scheme \<Rightarrow> ptr list \<Rightarrow> bool" where
  "run_fifo s q \<longleftrightarrow> clist (run_links s) Run_list (map Run_link q) \<and> NULL \<notin> set q \<and>
     (\<forall>p \<in> set q. rq (procs s p) = Some The_rq) \<and> proc_num (runq s) = of_nat (length q) \<and>
     length q \<le> rq_limit"

definition unlinked :: "'a sched_scheme \<Rightarrow> ptr \<Rightarrow> bool" where
  "unlinked s p \<longleftrightarrow> list_empty (run_links s) (Run_link p)"

definition fifo_rep :: "'a sched_scheme \<Rightarrow> ptr set \<Rightarrow> bool" where
  "fifo_rep s Q \<longleftrightarrow> (\<exists>q. run_fifo s q \<and> set q = Q)"

lemma run_fifo_distinct: "run_fifo s q \<Longrightarrow> distinct q"
  by (auto simp: run_fifo_def clist_def distinct_map)

lemma tick_slice_simps [simp]:
  "q \<noteq> p \<Longrightarrow> procs (tick_slice p s) q = procs s q"
  "run_links (tick_slice p s) = run_links s" "run_pool (tick_slice p s) = run_pool s"
  "runq (tick_slice p s) = runq s" "sched.more (tick_slice p s) = sched.more s"
  by (simp_all add: tick_slice_def Let_def)

lemma refill_slice_simps [simp]:
  "run_links (refill_slice p s) = run_links s" "run_pool (refill_slice p s) = run_pool s"
  "runq (refill_slice p s) = runq s" "sched.more (refill_slice p s) = sched.more s"
  "rq (procs (refill_slice p s) q) = rq (procs s q)"
  by (simp_all add: refill_slice_def)

lemma join_queue_simps [simp]:
  "run_links (join_queue p s) = run_links s" "run_pool (join_queue p s) = run_pool s"
  "runq (join_queue p s) = (runq s)\<lparr>proc_num := proc_num (runq s) + 1\<rparr>"
  "sched.more (join_queue p s) = sched.more s"
  "procs (join_queue p s) q = (if q = p then (procs s p)\<lparr>rq := Some The_rq\<rparr> else procs s q)"
  by (simp_all add: join_queue_def)

lemma refill_frame [simp]: "sched_frame p s (refill_slice p s)"
  by (simp add: sched_frame_def refill_slice_def)

lemma join_frame [simp]: "sched_frame p s (join_queue p s)"
  by (simp add: sched_frame_def)

lemma run_fifo_same_queue:
  assumes "run_fifo s q" "same_queue (set q) s s'"
  shows "run_fifo s' q"
  using assms by (auto simp: run_fifo_def same_queue_def)

lemma unlinked_same_queue: "unlinked s p \<Longrightarrow> same_queue {p} s s' \<Longrightarrow> unlinked s' p"
  by (simp add: unlinked_def same_queue_def)

text \<open>What linking a process in and taking it out does to the list part of the queue.\<close>

lemma run_fifo_enqueue:
  assumes q: "run_fifo s q" and p: "p \<notin> set q" "p \<noteq> NULL" and lim: "length q < rq_limit"
    and links: "run_links s' = list_add_before Run_list (Run_link p) (run_links s)"
    and num: "proc_num (runq s') = proc_num (runq s) + 1"
    and rqs: "rq (procs s' p) = Some The_rq" "\<And>x. x \<noteq> p \<Longrightarrow> procs s' x = procs s x"
  shows "run_fifo s' (q @ [p])"
proof -
  have "clist (run_links s') Run_list (map Run_link q @ [Run_link p])"
    unfolding links by (rule clist_add_tail) (use q p in \<open>auto simp: run_fifo_def\<close>)
  moreover have "\<And>x. x \<in> set q \<Longrightarrow> procs s' x = procs s x" using rqs(2) p(1) by metis
  ultimately show ?thesis using q p lim num rqs(1) by (auto simp: run_fifo_def)
qed

lemma unlinked_enqueue:
  assumes "run_fifo s q" "x \<notin> set q" "x \<noteq> p" "unlinked s x"
    and links: "run_links s' = list_add_before Run_list (Run_link p) (run_links s)"
  shows "unlinked s' x"
proof -
  have "prev_of (run_links s) Run_list \<noteq> Run_link x"
    using assms clist_prev [of "run_links s" Run_list "map Run_link q"]
    by (cases q rule: rev_cases) (auto simp: run_fifo_def)
  with assms show ?thesis by (auto simp: unlinked_def list_ops)
qed

lemma run_fifo_dequeue:
  assumes q: "run_fifo s (xs @ p # ys)"
    and links: "run_links s' = list_del_init (Run_link p) (run_links s)"
    and num: "proc_num (runq s') = proc_num (runq s) - 1" and same: "procs s' = procs s"
  shows "run_fifo s' (xs @ ys)" and "unlinked s' p"
proof -
  have c: "clist (run_links s) Run_list (map Run_link xs @ Run_link p # map Run_link ys)"
    using q by (simp add: run_fifo_def)
  show "run_fifo s' (xs @ ys)"
    using q num same clist_del_init(1) [OF c] by (auto simp: run_fifo_def links)
  show "unlinked s' p"
    using clist_del_init(2) [OF c] by (simp add: unlinked_def links)
qed

lemma unlinked_dequeue:
  assumes q: "run_fifo s (xs @ p # ys)" "x \<notin> set (xs @ p # ys)" "unlinked s x"
    and links: "run_links s' = list_del_init (Run_link p) (run_links s)"
  shows "unlinked s' x"
proof -
  have c: "clist (run_links s) Run_list (map Run_link xs @ Run_link p # map Run_link ys)"
    using q by (simp add: run_fifo_def)
  have "prev_of (run_links s) (Run_link p) \<noteq> Run_link x"
    using clist_split_prev [OF c] assms(2) by (cases xs rule: rev_cases) auto
  with assms show ?thesis by (auto simp: unlinked_def list_ops)
qed

lemma run_fifo_linked:
  assumes "run_fifo s q" "p \<in> set q"
  shows "\<not> list_empty (run_links s) (Run_link p)" and "rq (procs s p) = Some The_rq"
    and "0 < proc_num (runq s)"
proof -
  obtain xs ys where q: "q = xs @ p # ys" using assms(2) by (meson split_list)
  have c: "clist (run_links s) Run_list (map Run_link xs @ Run_link p # map Run_link ys)"
    using assms q by (simp add: run_fifo_def)
  show "\<not> list_empty (run_links s) (Run_link p)"
    using clist_split_next [OF c] clistD(1) [OF c] by (cases ys) (auto simp: list_empty_def)
  show "rq (procs s p) = Some The_rq" using assms by (simp add: run_fifo_def)
  have "0 < length q" "length q < 2 ^ 32" using assms by (auto simp: run_fifo_def rq_limit_def)
  then have "(of_nat (length q) :: 32 word) \<noteq> 0"
    by (simp add: word_of_nat_eq_0_iff unat_of_nat take_bit_nat_eq_self dvd_imp_le nat_dvd_not_less)
  with assms(1) show "0 < proc_num (runq s)"
    by (simp add: run_fifo_def word_neq_0_conv)
qed

lemma run_fifo_front:
  assumes "run_fifo s q"
  shows "list_next (run_links s) Run_list = (case q of [] \<Rightarrow> Run_list | p # _ \<Rightarrow> Run_link p)"
  using assms by (cases q) (auto simp: run_fifo_def list_next_def dest!: clist_next)

section \<open>The operations on a queue\<close>

lemma RR_enqueue_queue:
  assumes "run_fifo s q" "p \<notin> set q" "p \<noteq> NULL" "unlinked s p" "length q < rq_limit"
  obtains s' where "RR_enqueue p s = Inr s'" "run_fifo s' (q @ [p])" "sched_frame p s s'"
    "run_links s' = list_add_before Run_list (Run_link p) (run_links s)"
proof -
  let ?s1 = "s\<lparr>run_links := list_add_before Run_list (Run_link p) (run_links s)\<rparr>"
  let ?s' = "join_queue p (refill_slice p ?s1)"
  have fr: "sched_frame p ?s1 ?s'"
    by (rule sched_frame_trans [OF refill_frame join_frame])
  show ?thesis
  proof (rule that)
    show "RR_enqueue p s = Inr ?s'" using assms by (simp add: RR_enqueue_def unlinked_def)
    show "run_fifo ?s' (q @ [p])"
      by (rule run_fifo_enqueue [OF assms(1-3,5)]) (use fr in \<open>auto simp: sched_frame_def\<close>)
    show "sched_frame p s ?s'" using fr by (simp add: sched_frame_def)
  qed simp
qed

lemma FIFO_enqueue_queue:
  assumes "run_fifo s q" "p \<notin> set q" "p \<noteq> NULL" "unlinked s p" "length q < rq_limit"
  obtains s' where "FIFO_enqueue p s = Inr s'" "run_fifo s' (q @ [p])" "sched_frame p s s'"
    "run_links s' = list_add_before Run_list (Run_link p) (run_links s)"
proof -
  let ?s1 = "s\<lparr>run_links := list_add_before Run_list (Run_link p) (run_links s)\<rparr>"
  let ?s' = "join_queue p ?s1"
  have fr: "sched_frame p ?s1 ?s'" by (rule join_frame)
  show ?thesis
  proof (rule that)
    show "FIFO_enqueue p s = Inr ?s'" using assms by (simp add: FIFO_enqueue_def unlinked_def)
    show "run_fifo ?s' (q @ [p])"
      by (rule run_fifo_enqueue [OF assms(1-3,5)]) (use fr in \<open>auto simp: sched_frame_def\<close>)
    show "sched_frame p s ?s'" using fr by (simp add: sched_frame_def)
  qed simp
qed

definition unlink_proc :: "ptr \<Rightarrow> 'a sched_scheme \<Rightarrow> 'a sched_scheme" where
  "unlink_proc p s = upd_runq (\<lambda>r. r\<lparr>proc_num := proc_num r - 1\<rparr>)
     (s\<lparr>run_links := list_del_init (Run_link p) (run_links s)\<rparr>)"

lemma unlink_proc_queue:
  assumes "run_fifo s (xs @ p # ys)"
  shows "run_fifo (unlink_proc p s) (xs @ ys)" "unlinked (unlink_proc p s) p"
    "sched_frame p s (unlink_proc p s)"
    "x \<notin> set (xs @ p # ys) \<Longrightarrow> unlinked s x \<Longrightarrow> unlinked (unlink_proc p s) x"
  using run_fifo_dequeue [OF assms, of "unlink_proc p s"] unlinked_dequeue [OF assms, of x "unlink_proc p s"]
  by (simp_all add: unlink_proc_def sched_frame_def)

lemma RR_dequeue_queue: "run_fifo s q \<Longrightarrow> p \<in> set q \<Longrightarrow> RR_dequeue p s = Inr (unlink_proc p s)"
  by (simp add: RR_dequeue_def unlink_proc_def run_fifo_linked)

lemma FIFO_dequeue_queue: "run_fifo s q \<Longrightarrow> p \<in> set q \<Longrightarrow> FIFO_dequeue p s = Inr (unlink_proc p s)"
  by (simp add: FIFO_dequeue_def unlink_proc_def run_fifo_linked)

lemma RR_pick_queue: "run_fifo s q \<Longrightarrow> RR_pick_next s = Inr (case q of [] \<Rightarrow> NULL | p # _ \<Rightarrow> p, s)"
  by (simp add: RR_pick_next_def run_fifo_front split: list.split)

lemma FIFO_pick_queue: "run_fifo s q \<Longrightarrow> FIFO_pick_next s = Inr (case q of [] \<Rightarrow> NULL | p # _ \<Rightarrow> p, s)"
  by (simp add: FIFO_pick_next_def run_fifo_front split: list.split)

lemma fifo_init:
  "run_fifo (RR_init s) []" "run_fifo (FIFO_init s) []"
  by (simp_all add: run_fifo_def RR_init_def FIFO_init_def clist_init)

section \<open>Both classes keep the contract of a scheduling class\<close>

lemma fifo_rep_dequeue:
  assumes "run_fifo s (p # q)"
  shows "p \<in> set (p # q) \<and> p \<noteq> NULL \<and> fifo_rep (unlink_proc p s) (set (p # q) - {p}) \<and>
    sched_frame p s s \<and> sched_frame p s (unlink_proc p s) \<and> unlinked (unlink_proc p s) p \<and>
    (\<forall>x. x \<notin> set (p # q) \<longrightarrow> unlinked s x \<longrightarrow> unlinked (unlink_proc p s) x)"
proof -
  have "set (p # q) - {p} = set q" using run_fifo_distinct [OF assms] by auto
  moreover have "p \<noteq> NULL" using assms by (auto simp: run_fifo_def)
  ultimately show ?thesis
    using unlink_proc_queue [of s "[]" p q] assms by (auto simp: fifo_rep_def)
qed

interpretation rr: run_queue_class RR_init RR_enqueue RR_dequeue RR_pick_next fifo_rep unlinked
proof
  fix s s' :: "'a sched_scheme" and Q p
  show "fifo_rep (RR_init s) {}" using fifo_init by (auto simp: fifo_rep_def)
  show "procs (RR_init s) = procs s" "sched.more (RR_init s) = sched.more s" by (simp_all add: RR_init_def)
  show "finite Q" if "fifo_rep s Q" using that by (auto simp: fifo_rep_def)
  show "fifo_rep s' Q" if "fifo_rep s Q" "same_queue Q s s'"
    using that run_fifo_same_queue by (auto simp: fifo_rep_def)
  show "unlinked s' p" if "unlinked s p" "same_queue {p} s s'"
    using that by (rule unlinked_same_queue)
  show "\<exists>s'. RR_enqueue p s = Inr s' \<and> fifo_rep s' (insert p Q) \<and> sched_frame p s s' \<and>
      (\<forall>q. q \<noteq> p \<longrightarrow> q \<notin> Q \<longrightarrow> unlinked s q \<longrightarrow> unlinked s' q)"
    if pre: "fifo_rep s Q" "p \<notin> Q" "p \<noteq> NULL" "unlinked s p" "card Q < rq_limit"
  proof -
    obtain q where q: "run_fifo s q" "set q = Q" using pre by (auto simp: fifo_rep_def)
    then have "length q = card Q" using run_fifo_distinct distinct_card by force
    with q pre obtain s' where s': "RR_enqueue p s = Inr s'" "run_fifo s' (q @ [p])" "sched_frame p s s'"
        "run_links s' = list_add_before Run_list (Run_link p) (run_links s)"
      by (metis RR_enqueue_queue)
    then have "fifo_rep s' (insert p Q)" using q by (auto simp: fifo_rep_def intro!: exI [of _ "q @ [p]"])
    with s' q show ?thesis using unlinked_enqueue [OF q(1) _ _ _ s'(4)] by blast
  qed
  show "RR_pick_next s = Inr (NULL, s)" if "fifo_rep s {}"
    using that by (auto simp: fifo_rep_def dest: RR_pick_queue)
  show "\<exists>p s1 s2. RR_pick_next s = Inr (p, s1) \<and> p \<in> Q \<and> p \<noteq> NULL \<and> RR_dequeue p s1 = Inr s2 \<and>
      fifo_rep s2 (Q - {p}) \<and> sched_frame p s s1 \<and> sched_frame p s s2 \<and> unlinked s2 p \<and>
      (\<forall>q. q \<notin> Q \<longrightarrow> unlinked s q \<longrightarrow> unlinked s2 q)"
    if pre: "fifo_rep s Q" "Q \<noteq> {}"
  proof -
    obtain p q where q: "run_fifo s (p # q)" "set (p # q) = Q"
      using pre unfolding fifo_rep_def by (metis list.exhaust list.set(1))
    then show ?thesis
      using fifo_rep_dequeue [OF q(1)] RR_dequeue_queue [OF q(1), of p] RR_pick_queue [OF q(1)]
      by (intro exI [of _ p] exI [of _ s] exI [of _ "unlink_proc p s"]) simp
  qed
qed

interpretation fifo: run_queue_class FIFO_init FIFO_enqueue FIFO_dequeue FIFO_pick_next fifo_rep unlinked
proof
  fix s s' :: "'a sched_scheme" and Q p
  show "fifo_rep (FIFO_init s) {}" using fifo_init by (auto simp: fifo_rep_def)
  show "procs (FIFO_init s) = procs s" "sched.more (FIFO_init s) = sched.more s" by (simp_all add: FIFO_init_def)
  show "finite Q" if "fifo_rep s Q" using that by (auto simp: fifo_rep_def)
  show "fifo_rep s' Q" if "fifo_rep s Q" "same_queue Q s s'" using that by (rule rr.rep_stable)
  show "unlinked s' p" if "unlinked s p" "same_queue {p} s s'" using that by (rule rr.ready_stable)
  show "\<exists>s'. FIFO_enqueue p s = Inr s' \<and> fifo_rep s' (insert p Q) \<and> sched_frame p s s' \<and>
      (\<forall>q. q \<noteq> p \<longrightarrow> q \<notin> Q \<longrightarrow> unlinked s q \<longrightarrow> unlinked s' q)"
    if pre: "fifo_rep s Q" "p \<notin> Q" "p \<noteq> NULL" "unlinked s p" "card Q < rq_limit"
  proof -
    obtain q where q: "run_fifo s q" "set q = Q" using pre by (auto simp: fifo_rep_def)
    then have "length q = card Q" using run_fifo_distinct distinct_card by force
    with q pre obtain s' where s': "FIFO_enqueue p s = Inr s'" "run_fifo s' (q @ [p])" "sched_frame p s s'"
        "run_links s' = list_add_before Run_list (Run_link p) (run_links s)"
      by (metis FIFO_enqueue_queue)
    then have "fifo_rep s' (insert p Q)" using q by (auto simp: fifo_rep_def intro!: exI [of _ "q @ [p]"])
    with s' q show ?thesis using unlinked_enqueue [OF q(1) _ _ _ s'(4)] by blast
  qed
  show "FIFO_pick_next s = Inr (NULL, s)" if "fifo_rep s {}"
    using that by (auto simp: fifo_rep_def dest: FIFO_pick_queue)
  show "\<exists>p s1 s2. FIFO_pick_next s = Inr (p, s1) \<and> p \<in> Q \<and> p \<noteq> NULL \<and> FIFO_dequeue p s1 = Inr s2 \<and>
      fifo_rep s2 (Q - {p}) \<and> sched_frame p s s1 \<and> sched_frame p s s2 \<and> unlinked s2 p \<and>
      (\<forall>q. q \<notin> Q \<longrightarrow> unlinked s q \<longrightarrow> unlinked s2 q)"
    if pre: "fifo_rep s Q" "Q \<noteq> {}"
  proof -
    obtain p q where q: "run_fifo s (p # q)" "set (p # q) = Q"
      using pre unfolding fifo_rep_def by (metis list.exhaust list.set(1))
    then show ?thesis
      using fifo_rep_dequeue [OF q(1)] FIFO_dequeue_queue [OF q(1), of p] FIFO_pick_queue [OF q(1)]
      by (intro exI [of _ p] exI [of _ s] exI [of _ "unlink_proc p s"]) simp
  qed
qed

end
