(* ===== verification/Sched_Heap.thy ===== *)
theory Sched_Heap
  imports Sched_Queue
begin

text \<open>
  The three scheduling classes that keep the runnable processes in the skew heap
  \<open>lab6_run_pool\<close>: stride (kern/schedule/default_sched_stride.c, built with
  \<open>USE_SKEW_HEAP\<close> 1), shortest job first (default_sched_sjf.c) and highest priority first
  (default_sched_hpf.c). Their enqueue and dequeue differ in the comparison function only.
\<close>

section \<open>Comparison functions\<close>

text \<open>The C compares \<open>proc->lab6_stride\<close> by the sign of the 32-bit difference.\<close>

definition proc_stride_comp_f :: "(ptr \<Rightarrow> proc_struct) \<Rightarrow> ptr \<Rightarrow> ptr \<Rightarrow> int" where
  "proc_stride_comp_f ps a b =
     (let c = sint (lab6_stride (ps a) - lab6_stride (ps b))
      in if c > 0 then 1 else if c = 0 then 0 else -1)"

definition proc_prio_comp_f :: "(ptr \<Rightarrow> proc_struct) \<Rightarrow> ptr \<Rightarrow> ptr \<Rightarrow> int" where
  "proc_prio_comp_f ps a b =
     (let p = ps a; q = ps b in
      if lab6_priority p > lab6_priority q then -1
      else if lab6_priority p < lab6_priority q then 1
      else if pid p < pid q then -1
      else if pid p > pid q then 1 else 0)"

definition proc_sjf_comp_f :: "(ptr \<Rightarrow> proc_struct) \<Rightarrow> ptr \<Rightarrow> ptr \<Rightarrow> int" where
  "proc_sjf_comp_f ps a b =
     (let p = ps a; q = ps b in
      if lab6_priority p < lab6_priority q then -1
      else if lab6_priority p > lab6_priority q then 1
      else if pid p < pid q then -1
      else if pid p > pid q then 1 else 0)"

section \<open>Heap assignments the classes share\<close>

text \<open>\<open>rq->lab6_run_pool = skew_heap_insert(rq->lab6_run_pool, &(proc->lab6_run_pool), compare)\<close>\<close>

definition pool_insert ::
  "((ptr \<Rightarrow> proc_struct) \<Rightarrow> ptr \<Rightarrow> ptr \<Rightarrow> int) \<Rightarrow> ptr \<Rightarrow> 'a sched_scheme \<Rightarrow> 'a sched_scheme outcome" where
  "pool_insert cmp proc s =
     obind (returns (skew_heap_insert (cmp (procs s)) (run_pool s) (lab6_run_pool (runq s)) proc))
       (\<lambda>(h, r). Inr (upd_runq (\<lambda>q. q\<lparr>lab6_run_pool := r\<rparr>) (s\<lparr>run_pool := h\<rparr>)))"

definition pool_remove ::
  "((ptr \<Rightarrow> proc_struct) \<Rightarrow> ptr \<Rightarrow> ptr \<Rightarrow> int) \<Rightarrow> ptr \<Rightarrow> 'a sched_scheme \<Rightarrow> 'a sched_scheme outcome" where
  "pool_remove cmp proc s =
     obind (returns (skew_heap_remove (cmp (procs s)) (run_pool s) (lab6_run_pool (runq s)) proc))
       (\<lambda>(h, r). Inr (upd_runq (\<lambda>q. q\<lparr>lab6_run_pool := r\<rparr>) (s\<lparr>run_pool := h\<rparr>)))"

definition pool_init :: "'a sched_scheme \<Rightarrow> 'a sched_scheme" where
  "pool_init s = upd_runq (\<lambda>r. r\<lparr>lab6_run_pool := None, proc_num := 0\<rparr>)
     (s\<lparr>run_links := list_init Run_list (run_links s)\<rparr>)"

definition pool_enqueue ::
  "((ptr \<Rightarrow> proc_struct) \<Rightarrow> ptr \<Rightarrow> ptr \<Rightarrow> int) \<Rightarrow> ptr \<Rightarrow> 'a sched_scheme \<Rightarrow> 'a sched_scheme outcome" where
  "pool_enqueue cmp proc s = obind (pool_insert cmp proc s) (\<lambda>s1. Inr (join_queue proc (refill_slice proc s1)))"

definition pool_dequeue ::
  "((ptr \<Rightarrow> proc_struct) \<Rightarrow> ptr \<Rightarrow> ptr \<Rightarrow> int) \<Rightarrow> ptr \<Rightarrow> 'a sched_scheme \<Rightarrow> 'a sched_scheme outcome" where
  "pool_dequeue cmp proc s =
     kassert (rq (procs s proc) = Some The_rq \<and> proc_num (runq s) > 0) ''proc->rq == rq && rq->proc_num > 0''
     (obind (pool_remove cmp proc s) (\<lambda>s1. Inr (upd_runq (\<lambda>r. r\<lparr>proc_num := proc_num r - 1\<rparr>) s1)))"

definition pool_top :: "'a sched_scheme \<Rightarrow> (ptr \<times> 'a sched_scheme) outcome" where
  "pool_top s = (case lab6_run_pool (runq s) of None \<Rightarrow> Inr (NULL, s) | Some p \<Rightarrow> Inr (p, s))"

section \<open>Stride\<close>

definition BIG_STRIDE :: "32 word" where "BIG_STRIDE = push_bit 30 1"

definition stride_init :: "'a sched_scheme \<Rightarrow> 'a sched_scheme" where
  "stride_init s = pool_init s"

definition stride_enqueue :: "ptr \<Rightarrow> 'a sched_scheme \<Rightarrow> 'a sched_scheme outcome" where
  "stride_enqueue proc s = pool_enqueue proc_stride_comp_f proc s"

definition stride_dequeue :: "ptr \<Rightarrow> 'a sched_scheme \<Rightarrow> 'a sched_scheme outcome" where
  "stride_dequeue proc s = pool_dequeue proc_stride_comp_f proc s"

definition stride_pick_next :: "'a sched_scheme \<Rightarrow> (ptr \<times> 'a sched_scheme) outcome" where
  "stride_pick_next s =
     (if proc_num (runq s) = 0 then Inr (NULL, s)
      else case lab6_run_pool (runq s) of
        None \<Rightarrow> Inr (NULL, s)
      | Some proc \<Rightarrow>
          if lab6_priority (procs s proc) = 0 then Inl Div_zero
          else Inr (proc, upd_proc proc
                 (\<lambda>p. p\<lparr>lab6_stride := lab6_stride p + BIG_STRIDE div lab6_priority p\<rparr>) s))"

definition stride_proc_tick :: "ptr \<Rightarrow> 'a sched_scheme \<Rightarrow> 'a sched_scheme" where
  "stride_proc_tick proc s = tick_slice proc s"

definition stride_sched_class :: "'a sched_scheme sched_class" where
  "stride_sched_class = \<lparr>sc_name = ''stride_scheduler'', sc_init = stride_init, sc_enqueue = stride_enqueue,
     sc_dequeue = stride_dequeue, sc_pick_next = stride_pick_next, sc_proc_tick = stride_proc_tick\<rparr>"

section \<open>Highest priority first\<close>

definition HPF_init :: "'a sched_scheme \<Rightarrow> 'a sched_scheme" where
  "HPF_init s = pool_init s"

definition HPF_enqueue :: "ptr \<Rightarrow> 'a sched_scheme \<Rightarrow> 'a sched_scheme outcome" where
  "HPF_enqueue proc s = pool_enqueue proc_prio_comp_f proc s"

definition HPF_dequeue :: "ptr \<Rightarrow> 'a sched_scheme \<Rightarrow> 'a sched_scheme outcome" where
  "HPF_dequeue proc s = pool_dequeue proc_prio_comp_f proc s"

definition HPF_pick_next :: "'a sched_scheme \<Rightarrow> (ptr \<times> 'a sched_scheme) outcome" where
  "HPF_pick_next s = pool_top s"

definition HPF_proc_tick :: "ptr \<Rightarrow> 'a sched_scheme \<Rightarrow> 'a sched_scheme" where
  "HPF_proc_tick proc s = tick_slice proc s"

definition hpf_sched_class :: "'a sched_scheme sched_class" where
  "hpf_sched_class = \<lparr>sc_name = ''HPF_scheduler'', sc_init = HPF_init, sc_enqueue = HPF_enqueue,
     sc_dequeue = HPF_dequeue, sc_pick_next = HPF_pick_next, sc_proc_tick = HPF_proc_tick\<rparr>"

section \<open>Shortest job first\<close>

definition SJF_init :: "'a sched_scheme \<Rightarrow> 'a sched_scheme" where
  "SJF_init s = pool_init s"

definition SJF_enqueue :: "ptr \<Rightarrow> 'a sched_scheme \<Rightarrow> 'a sched_scheme outcome" where
  "SJF_enqueue proc s = pool_enqueue proc_sjf_comp_f proc s"

definition SJF_dequeue :: "ptr \<Rightarrow> 'a sched_scheme \<Rightarrow> 'a sched_scheme outcome" where
  "SJF_dequeue proc s = pool_dequeue proc_sjf_comp_f proc s"

definition SJF_pick_next :: "'a sched_scheme \<Rightarrow> (ptr \<times> 'a sched_scheme) outcome" where
  "SJF_pick_next s = pool_top s"

definition SJF_proc_tick :: "ptr \<Rightarrow> 'a sched_scheme \<Rightarrow> 'a sched_scheme" where
  "SJF_proc_tick proc s = tick_slice proc s"

definition sjf_sched_class :: "'a sched_scheme sched_class" where
  "sjf_sched_class = \<lparr>sc_name = ''SJF_scheduler'', sc_init = SJF_init, sc_enqueue = SJF_enqueue,
     sc_dequeue = SJF_dequeue, sc_pick_next = SJF_pick_next, sc_proc_tick = SJF_proc_tick\<rparr>"

section \<open>The heap of processes\<close>

definition pool_tree :: "'a sched_scheme \<Rightarrow> ptr tree \<Rightarrow> bool" where
  "pool_tree s t \<longleftrightarrow> sheap (run_pool s) (lab6_run_pool (runq s)) t \<and> NULL \<notin> set_tree t \<and>
     (\<forall>p \<in> set_tree t. rq (procs s p) = Some The_rq) \<and> proc_num (runq s) = of_nat (size t) \<and>
     size t \<le> rq_limit"

lemma pool_treeD:
  assumes "pool_tree s t"
  shows "dtree t" "sheap (run_pool s) (lab6_run_pool (runq s)) t" "NULL \<notin> set_tree t"
    "p \<in> set_tree t \<Longrightarrow> rq (procs s p) = Some The_rq" "proc_num (runq s) = of_nat (size t)" "size t \<le> rq_limit"
  using assms by (auto simp: pool_tree_def sheap_def)

lemma dtree_card: "dtree t \<Longrightarrow> card (set_tree t) = size t"
  by (metis dtree_def distinct_card length_inorder set_inorder)

lemma of_nat_rq_eq_0: "n \<le> rq_limit \<Longrightarrow> (of_nat n :: 32 word) = 0 \<longleftrightarrow> n = 0"
  by (auto simp: rq_limit_def word_of_nat_eq_0_iff dest: dvd_imp_le)

lemma pool_tree_num: "pool_tree s t \<Longrightarrow> proc_num (runq s) = 0 \<longleftrightarrow> t = Leaf"
  using of_nat_rq_eq_0 [of "size t"] by (simp add: pool_tree_def eq_size_0)

lemma pool_tree_root:
  "pool_tree s t \<Longrightarrow> lab6_run_pool (runq s) = (case t of Leaf \<Rightarrow> None | Node l p r \<Rightarrow> Some p)"
  using sheap_root [of "run_pool s" "lab6_run_pool (runq s)" t] by (simp add: pool_tree_def)

lemma pool_init_tree [simp]: "pool_tree (pool_init s) Leaf"
  by (simp add: pool_tree_def pool_init_def)

lemma pool_init_simps [simp]: "procs (pool_init s) = procs s" "sched.more (pool_init s) = sched.more s"
  by (simp_all add: pool_init_def)

lemma pool_tree_stable: "pool_tree s t \<Longrightarrow> same_queue (set_tree t) s s' \<Longrightarrow> pool_tree s' t"
  by (simp add: pool_tree_def same_queue_def)

lemma refill_procs: "procs (refill_slice p s) q =
    (if q = p \<and> (time_slice (procs s p) = 0 \<or> time_slice (procs s p) > max_time_slice (runq s))
     then (procs s p)\<lparr>time_slice := max_time_slice (runq s)\<rparr> else procs s q)"
  by (simp add: refill_slice_def)

lemma size_sinsert [simp]: "size (sinsert cmp t p) = Suc (size t)"
  and set_sinsert [simp]: "set_tree (sinsert cmp t p) = insert p (set_tree t)"
  by (simp_all add: sinsert_def)

lemma dtree_sinsert: "dtree t \<Longrightarrow> p \<notin> set_tree t \<Longrightarrow> dtree (sinsert cmp t p)"
  by (simp add: sinsert_def)

lemma pool_enqueue_tree:
  assumes t: "pool_tree s t" and p: "p \<notin> set_tree t" "p \<noteq> NULL" and lim: "size t < rq_limit"
  obtains s' where "pool_enqueue cmp p s = Inr s'" "pool_tree s' (sinsert (cmp (procs s)) t p)"
    "sched_frame p s s'" "lab6_stride (procs s' p) = lab6_stride (procs s p)"
proof -
  obtain h r where h: "skew_heap_insert (cmp (procs s)) (run_pool s) (lab6_run_pool (runq s)) p = Some (h, r)"
      "sheap h r (sinsert (cmp (procs s)) t p)"
    using skew_heap_insert_refines [OF pool_treeD(2) [OF t] p(1), of "cmp (procs s)"] by blast
  let ?s1 = "upd_runq (\<lambda>q. q\<lparr>lab6_run_pool := r\<rparr>) (s\<lparr>run_pool := h\<rparr>)"
  let ?s' = "join_queue p (refill_slice p ?s1)"
  have fr: "sched_frame p ?s1 ?s'" by (rule sched_frame_trans [OF refill_frame join_frame])
  show ?thesis
  proof (rule that)
    show "pool_enqueue cmp p s = Inr ?s'" by (simp add: pool_enqueue_def pool_insert_def h(1))
    show "pool_tree ?s' (sinsert (cmp (procs s)) t p)"
      using t p lim h(2) by (auto simp: pool_tree_def refill_procs)
    show "sched_frame p s ?s'" using fr by (simp add: sched_frame_def)
    show "lab6_stride (procs ?s' p) = lab6_stride (procs s p)" by (simp add: refill_procs)
  qed
qed

lemma size_sremove: "dtree t \<Longrightarrow> b \<in> set_tree t \<Longrightarrow> Suc (size (sremove cmp t b)) = size t"
  using mset_sremove [of t b cmp] by (metis size_add_mset size_mset_tree)

lemma pool_dequeue_tree:
  assumes t: "pool_tree s t" and p: "p \<in> set_tree t"
  obtains s' where "pool_dequeue cmp p s = Inr s'" "pool_tree s' (sremove (cmp (procs s)) t p)"
    "procs s' = procs s" "sched.more s' = sched.more s"
proof -
  obtain h r where h: "skew_heap_remove (cmp (procs s)) (run_pool s) (lab6_run_pool (runq s)) p = Some (h, r)"
      "sheap h r (sremove (cmp (procs s)) t p)"
    using skew_heap_remove_refines [OF pool_treeD(2) [OF t] p, of "cmp (procs s)"] by blast
  let ?s1 = "upd_runq (\<lambda>q. q\<lparr>lab6_run_pool := r\<rparr>) (s\<lparr>run_pool := h\<rparr>)"
  let ?s' = "upd_runq (\<lambda>r. r\<lparr>proc_num := proc_num r - 1\<rparr>) ?s1"
  have size: "Suc (size (sremove (cmp (procs s)) t p)) = size t"
    using pool_treeD(1) [OF t] p by (rule size_sremove)
  have num: "(of_nat (size t) :: 32 word) - 1 = of_nat (size (sremove (cmp (procs s)) t p))"
    unfolding size [symmetric] by simp
  have "proc_num (runq s) \<noteq> 0" using pool_tree_num [OF t] p by auto
  then have "pool_dequeue cmp p s = Inr ?s'"
    by (simp add: pool_dequeue_def pool_remove_def h(1) pool_treeD(4) [OF t p] word_neq_0_conv)
  moreover have "pool_tree ?s' (sremove (cmp (procs s)) t p)"
    using t h(2) num size by (auto simp: pool_tree_def set_sremove pool_treeD(1) [OF t])
  ultimately show ?thesis by (rule that) simp_all
qed

lemma pool_top_tree: "pool_tree s t \<Longrightarrow> pool_top s = Inr (case t of Leaf \<Rightarrow> NULL | Node l p r \<Rightarrow> p, s)"
  by (simp add: pool_top_def pool_tree_root split: tree.split)

section \<open>The contract of the heap classes\<close>

text \<open>
  A heap class with comparison \<open>cmp\<close> that decides the preorder \<open>le\<close>, where \<open>le\<close> depends only
  on fields no scheduling operation changes: its queue is a set with a best element on top.
\<close>

definition pool_rep :: "((ptr \<Rightarrow> proc_struct) \<Rightarrow> ptr \<Rightarrow> ptr \<Rightarrow> bool) \<Rightarrow> 'a sched_scheme \<Rightarrow> ptr set \<Rightarrow> bool" where
  "pool_rep le s Q \<longleftrightarrow> (\<exists>t. pool_tree s t \<and> heap_by (le (procs s)) t \<and> set_tree t = Q)"

definition always_ready :: "'a sched_scheme \<Rightarrow> ptr \<Rightarrow> bool" where
  "always_ready s p = True"

text \<open>A scheduling class whose pick is a least process of the queue in the order \<open>le\<close>.\<close>

locale priority_class = run_queue_class +
  fixes le :: "(ptr \<Rightarrow> proc_struct) \<Rightarrow> ptr \<Rightarrow> ptr \<Rightarrow> bool"
  assumes pick_best: "rep s Q \<Longrightarrow> pick_next s = Inr (p, s') \<Longrightarrow> q \<in> Q \<Longrightarrow> q \<noteq> p \<Longrightarrow> le (procs s) p q"

locale pool_class =
  fixes cmp :: "(ptr \<Rightarrow> proc_struct) \<Rightarrow> ptr \<Rightarrow> ptr \<Rightarrow> int"
    and le :: "(ptr \<Rightarrow> proc_struct) \<Rightarrow> ptr \<Rightarrow> ptr \<Rightarrow> bool"
  assumes decides: "compares_on A (cmp ps) (le ps)"
    and stable: "pid (ps' a) = pid (ps a) \<Longrightarrow> pid (ps' b) = pid (ps b) \<Longrightarrow>
      lab6_priority (ps' a) = lab6_priority (ps a) \<Longrightarrow> lab6_priority (ps' b) = lab6_priority (ps b) \<Longrightarrow>
      le ps' a b = le ps a b"
begin

lemma le_core:
  "same_core (ps a) (ps' a) \<Longrightarrow> same_core (ps b) (ps' b) \<Longrightarrow> le ps' a b = le ps a b"
  by (rule stable) (simp_all add: same_core_fields)

lemma heap_frame: "sched_frame p s s' \<Longrightarrow> heap_by (le (procs s')) t = heap_by (le (procs s)) t"
  by (rule heap_by_cong) (simp add: le_core sched_frame_core)

lemma rep_stable: "pool_rep le s Q \<Longrightarrow> same_queue Q s s' \<Longrightarrow> pool_rep le s' Q"
proof -
  assume s: "same_queue Q s s'" and "pool_rep le s Q"
  then obtain t where t: "pool_tree s t" "heap_by (le (procs s)) t" "set_tree t = Q"
    by (auto simp: pool_rep_def)
  have "heap_by (le (procs s')) t = heap_by (le (procs s)) t"
    by (rule heap_by_cong, rule stable) (use s t(3) in \<open>auto simp: same_queue_def\<close>)
  with t s pool_tree_stable show "pool_rep le s' Q" by (auto simp: pool_rep_def)
qed

lemma enqueue_ok:
  assumes "pool_rep le s Q" "p \<notin> Q" "p \<noteq> NULL" "card Q < rq_limit"
  shows "\<exists>s'. pool_enqueue cmp p s = Inr s' \<and> pool_rep le s' (insert p Q) \<and> sched_frame p s s'"
proof -
  obtain t where t: "pool_tree s t" "heap_by (le (procs s)) t" "set_tree t = Q"
    using assms(1) by (auto simp: pool_rep_def)
  have "size t < rq_limit" using assms(4) dtree_card [OF pool_treeD(1) [OF t(1)]] t(3) by simp
  with t assms(2,3) obtain s' where s': "pool_enqueue cmp p s = Inr s'"
      "pool_tree s' (sinsert (cmp (procs s)) t p)" "sched_frame p s s'"
    using pool_enqueue_tree [OF t(1), of p cmp] by metis
  have "heap_by (le (procs s)) (sinsert (cmp (procs s)) t p)"
    unfolding sinsert_def by (rule heap_by_smerge [OF decides]) (use t(2) in auto)
  then have "heap_by (le (procs s')) (sinsert (cmp (procs s)) t p)" using heap_frame [OF s'(3)] by simp
  with s' t(3) show ?thesis by (auto simp: pool_rep_def intro!: exI [of _ "sinsert (cmp (procs s)) t p"])
qed

lemma dequeue_ok:
  assumes "pool_rep le s Q" "p \<in> Q"
  shows "\<exists>s'. pool_dequeue cmp p s = Inr s' \<and> pool_rep le s' (Q - {p}) \<and> procs s' = procs s \<and>
    sched.more s' = sched.more s"
proof -
  obtain t where t: "pool_tree s t" "heap_by (le (procs s)) t" "set_tree t = Q"
    using assms(1) by (auto simp: pool_rep_def)
  obtain s' where s': "pool_dequeue cmp p s = Inr s'" "pool_tree s' (sremove (cmp (procs s)) t p)"
      "procs s' = procs s" "sched.more s' = sched.more s"
    using pool_dequeue_tree [OF t(1), of p cmp] t(3) assms(2) by metis
  have "heap_by (le (procs s)) (sremove (cmp (procs s)) t p)"
    by (rule heap_by_sremove [OF decides pool_treeD(1) [OF t(1)] t(2)])
  with s' t(3) set_sremove [OF pool_treeD(1) [OF t(1)]] show ?thesis
    by (auto simp: pool_rep_def intro!: exI [of _ "sremove (cmp (procs s)) t p"])
qed

lemma top_ok:
  assumes "pool_rep le s Q" "Q \<noteq> {}"
  obtains p where "pool_top s = Inr (p, s)" "p \<in> Q" "p \<noteq> NULL" "\<And>q. q \<in> Q \<Longrightarrow> q \<noteq> p \<Longrightarrow> le (procs s) p q"
proof -
  obtain t where t: "pool_tree s t" "heap_by (le (procs s)) t" "set_tree t = Q"
    using assms(1) by (auto simp: pool_rep_def)
  with assms(2) obtain l p r where "t = Node l p r" by (cases t) auto
  with t show ?thesis
    using pool_top_tree [OF t(1)] pool_treeD(3) [OF t(1)] by (intro that [of p]) auto
qed

lemma top_empty: "pool_rep le s {} \<Longrightarrow> pool_top s = Inr (NULL, s)"
  using pool_top_tree by (fastforce simp: pool_rep_def)

end

sublocale pool_class \<subseteq> pc: priority_class pool_init "pool_enqueue cmp" "pool_dequeue cmp" pool_top
  "pool_rep le" always_ready le
proof
  fix s s' :: "'a sched_scheme" and Q p q
  show "pool_rep le (pool_init s) {}" by (auto simp: pool_rep_def intro!: exI [of _ Leaf])
  show "procs (pool_init s) = procs s" "sched.more (pool_init s) = sched.more s" by simp_all
  show "finite Q" if "pool_rep le s Q" using that by (auto simp: pool_rep_def)
  show "pool_rep le s' Q" if "pool_rep le s Q" "same_queue Q s s'" using that by (rule rep_stable)
  show "always_ready s' p" if "always_ready s p" "same_queue {p} s s'" by (simp add: always_ready_def)
  show "\<exists>s'. pool_enqueue cmp p s = Inr s' \<and> pool_rep le s' (insert p Q) \<and> sched_frame p s s' \<and>
      (\<forall>q. q \<noteq> p \<longrightarrow> q \<notin> Q \<longrightarrow> always_ready s q \<longrightarrow> always_ready s' q)"
    if "pool_rep le s Q" "p \<notin> Q" "p \<noteq> NULL" "always_ready s p" "card Q < rq_limit"
    using enqueue_ok [OF that(1-3,5)] by (simp add: always_ready_def)
  show "pool_top s = Inr (NULL, s)" if "pool_rep le s {}" using that by (rule top_empty)
  show "\<exists>p s1 s2. pool_top s = Inr (p, s1) \<and> p \<in> Q \<and> p \<noteq> NULL \<and> pool_dequeue cmp p s1 = Inr s2 \<and>
      pool_rep le s2 (Q - {p}) \<and> sched_frame p s s1 \<and> sched_frame p s s2 \<and> always_ready s2 p \<and>
      (\<forall>q. q \<notin> Q \<longrightarrow> always_ready s q \<longrightarrow> always_ready s2 q)"
    if pre: "pool_rep le s Q" "Q \<noteq> {}"
  proof -
    obtain p where p: "pool_top s = Inr (p, s)" "p \<in> Q" "p \<noteq> NULL" using top_ok [OF pre] by metis
    then obtain s2 where "pool_dequeue cmp p s = Inr s2" "pool_rep le s2 (Q - {p})" "procs s2 = procs s"
        "sched.more s2 = sched.more s"
      using dequeue_ok [OF pre(1)] by metis
    with p show ?thesis
      by (intro exI [of _ p] exI [of _ s] exI [of _ s2]) (simp add: always_ready_def sched_frame_def)
  qed
  show "le (procs s) p q" if "pool_rep le s Q" "pool_top s = Inr (p, s')" "q \<in> Q" "q \<noteq> p"
    using that top_ok [OF that(1)] by (metis Inr_inject empty_iff prod.inject)
qed

section \<open>The orders of SJF and HPF\<close>

text \<open>
  The keys the two comparison functions order processes by, as linear orders: shorter jobs
  first for SJF, higher priorities first for HPF, the smaller pid on a tie.
\<close>

datatype sjf_key = Sjf_key "32 word" int
datatype hpf_key = Hpf_key "32 word" int

instantiation sjf_key :: linorder
begin

fun less_eq_sjf_key :: "sjf_key \<Rightarrow> sjf_key \<Rightarrow> bool" where
  "less_eq_sjf_key (Sjf_key a i) (Sjf_key b j) \<longleftrightarrow> a < b \<or> a = b \<and> i \<le> j"

definition less_sjf_key :: "sjf_key \<Rightarrow> sjf_key \<Rightarrow> bool" where
  "less_sjf_key x y \<longleftrightarrow> x \<le> y \<and> \<not> y \<le> x"

instance
proof
  fix x y z :: sjf_key
  show "x < y \<longleftrightarrow> x \<le> y \<and> \<not> y \<le> x" by (simp add: less_sjf_key_def)
  show "x \<le> x" by (cases x) simp
  show "x \<le> y \<Longrightarrow> y \<le> z \<Longrightarrow> x \<le> z" by (cases x; cases y; cases z) auto
  show "x \<le> y \<Longrightarrow> y \<le> x \<Longrightarrow> x = y" by (cases x; cases y) auto
  show "x \<le> y \<or> y \<le> x" by (cases x; cases y) auto
qed

end

instantiation hpf_key :: linorder
begin

fun less_eq_hpf_key :: "hpf_key \<Rightarrow> hpf_key \<Rightarrow> bool" where
  "less_eq_hpf_key (Hpf_key a i) (Hpf_key b j) \<longleftrightarrow> a > b \<or> a = b \<and> i \<le> j"

definition less_hpf_key :: "hpf_key \<Rightarrow> hpf_key \<Rightarrow> bool" where
  "less_hpf_key x y \<longleftrightarrow> x \<le> y \<and> \<not> y \<le> x"

instance
proof
  fix x y z :: hpf_key
  show "x < y \<longleftrightarrow> x \<le> y \<and> \<not> y \<le> x" by (simp add: less_hpf_key_def)
  show "x \<le> x" by (cases x) simp
  show "x \<le> y \<Longrightarrow> y \<le> z \<Longrightarrow> x \<le> z" by (cases x; cases y; cases z) auto
  show "x \<le> y \<Longrightarrow> y \<le> x \<Longrightarrow> x = y" by (cases x; cases y) auto
  show "x \<le> y \<or> y \<le> x" by (cases x; cases y) auto
qed

end

definition sjf_key :: "proc_struct \<Rightarrow> sjf_key" where
  "sjf_key p = Sjf_key (lab6_priority p) (pid p)"

definition hpf_key :: "proc_struct \<Rightarrow> hpf_key" where
  "hpf_key p = Hpf_key (lab6_priority p) (pid p)"

definition sjf_le :: "(ptr \<Rightarrow> proc_struct) \<Rightarrow> ptr \<Rightarrow> ptr \<Rightarrow> bool" where
  "sjf_le ps a b \<longleftrightarrow> sjf_key (ps a) \<le> sjf_key (ps b)"

definition hpf_le :: "(ptr \<Rightarrow> proc_struct) \<Rightarrow> ptr \<Rightarrow> ptr \<Rightarrow> bool" where
  "hpf_le ps a b \<longleftrightarrow> hpf_key (ps a) \<le> hpf_key (ps b)"

lemma compares_on_key:
  fixes key :: "'n \<Rightarrow> 'k :: linorder"
  assumes "\<And>a b. cmp a b = -1 \<longleftrightarrow> key a < key b"
  shows "compares_on A cmp (\<lambda>a b. key a \<le> key b)"
  unfolding compares_on_def assms not_less by (meson less_imp_le order_trans)

lemma sjf_comp_key: "proc_sjf_comp_f ps a b =
    (if sjf_key (ps a) < sjf_key (ps b) then -1 else if sjf_key (ps b) < sjf_key (ps a) then 1 else 0)"
  by (cases "lab6_priority (ps a)" "lab6_priority (ps b)" rule: linorder_cases;
      cases "pid (ps a)" "pid (ps b)" rule: linorder_cases)
    (simp_all add: less_not_sym less_imp_neq [THEN not_sym] less_imp_neq proc_sjf_comp_f_def sjf_key_def less_sjf_key_def Let_def)

lemma hpf_comp_key: "proc_prio_comp_f ps a b =
    (if hpf_key (ps a) < hpf_key (ps b) then -1 else if hpf_key (ps b) < hpf_key (ps a) then 1 else 0)"
  by (cases "lab6_priority (ps a)" "lab6_priority (ps b)" rule: linorder_cases;
      cases "pid (ps a)" "pid (ps b)" rule: linorder_cases)
    (simp_all add: less_not_sym less_imp_neq [THEN not_sym] less_imp_neq proc_prio_comp_f_def hpf_key_def less_hpf_key_def Let_def)

interpretation sjf_pool: pool_class proc_sjf_comp_f sjf_le
proof
  fix A ps ps' a b
  show "compares_on A (proc_sjf_comp_f ps) (sjf_le ps)"
    using compares_on_key [of "proc_sjf_comp_f ps" "\<lambda>a. sjf_key (ps a)" A]
    by (simp add: sjf_comp_key sjf_le_def [abs_def])
  show "sjf_le ps' a b = sjf_le ps a b"
    if "pid (ps' a) = pid (ps a)" "pid (ps' b) = pid (ps b)"
      "lab6_priority (ps' a) = lab6_priority (ps a)" "lab6_priority (ps' b) = lab6_priority (ps b)"
    using that by (simp add: sjf_le_def sjf_key_def)
qed

interpretation hpf_pool: pool_class proc_prio_comp_f hpf_le
proof
  fix A ps ps' a b
  show "compares_on A (proc_prio_comp_f ps) (hpf_le ps)"
    using compares_on_key [of "proc_prio_comp_f ps" "\<lambda>a. hpf_key (ps a)" A]
    by (simp add: hpf_comp_key hpf_le_def [abs_def])
  show "hpf_le ps' a b = hpf_le ps a b"
    if "pid (ps' a) = pid (ps a)" "pid (ps' b) = pid (ps b)"
      "lab6_priority (ps' a) = lab6_priority (ps a)" "lab6_priority (ps' b) = lab6_priority (ps b)"
    using that by (simp add: hpf_le_def hpf_key_def)
qed

lemma SJF_class_eqs:
  "SJF_init = pool_init" "SJF_enqueue = pool_enqueue proc_sjf_comp_f"
  "SJF_dequeue = pool_dequeue proc_sjf_comp_f" "SJF_pick_next = pool_top"
  by (simp_all add: fun_eq_iff SJF_init_def SJF_enqueue_def SJF_dequeue_def SJF_pick_next_def)

lemma HPF_class_eqs:
  "HPF_init = pool_init" "HPF_enqueue = pool_enqueue proc_prio_comp_f"
  "HPF_dequeue = pool_dequeue proc_prio_comp_f" "HPF_pick_next = pool_top"
  by (simp_all add: fun_eq_iff HPF_init_def HPF_enqueue_def HPF_dequeue_def HPF_pick_next_def)

interpretation sjf: priority_class SJF_init SJF_enqueue SJF_dequeue SJF_pick_next "pool_rep sjf_le" always_ready sjf_le
  unfolding SJF_class_eqs by (rule sjf_pool.pc.priority_class_axioms)

interpretation hpf: priority_class HPF_init HPF_enqueue HPF_dequeue HPF_pick_next "pool_rep hpf_le" always_ready hpf_le
  unfolding HPF_class_eqs by (rule hpf_pool.pc.priority_class_axioms)

end
