(* ===== verification/Sched_Stride.thy ===== *)
theory Sched_Stride
  imports Sched_Heap
begin

text \<open>
  Stride scheduling: the class keeps the contract of a scheduling class whatever the
  strides are, and while all strides lie within one window of width \<open>BIG_STRIDE\<close> the
  wrapping 32-bit comparison is a consistent order, the pick is a process of least
  stride, and the window moves with it.
\<close>

section \<open>The contract\<close>

definition stride_rep :: "'a sched_scheme \<Rightarrow> ptr set \<Rightarrow> bool" where
  "stride_rep s Q \<longleftrightarrow> (\<exists>t. pool_tree s t \<and> set_tree t = Q) \<and> (\<forall>p \<in> Q. lab6_priority (procs s p) \<noteq> 0)"

definition has_priority :: "'a sched_scheme \<Rightarrow> ptr \<Rightarrow> bool" where
  "has_priority s p \<longleftrightarrow> lab6_priority (procs s p) \<noteq> 0"

lemma stride_pick_tree:
  assumes t: "pool_tree s (Node l p r)" and pr: "lab6_priority (procs s p) \<noteq> 0"
  shows "stride_pick_next s = Inr (p, upd_proc p
    (\<lambda>x. x\<lparr>lab6_stride := lab6_stride x + BIG_STRIDE div lab6_priority x\<rparr>) s)"
  using pool_tree_num [OF t] pool_tree_root [OF t] pr by (simp add: stride_pick_next_def)

lemma stride_pick_empty: "pool_tree s Leaf \<Longrightarrow> stride_pick_next s = Inr (NULL, s)"
  using pool_tree_num [of s Leaf] by (simp add: stride_pick_next_def)

lemma has_priority_frame: "sched_frame p s s' \<Longrightarrow> has_priority s' q = has_priority s q"
  using sched_frame_core [of p s s' q] by (simp add: has_priority_def same_core_fields)

lemma stride_rep_frame:
  assumes "pool_tree s' t" "sched_frame p s s'" "\<And>q. q \<in> set_tree t \<Longrightarrow> has_priority s q"
  shows "stride_rep s' (set_tree t)"
  using assms has_priority_frame [OF assms(2)] by (auto simp: stride_rep_def has_priority_def)

interpretation stride: run_queue_class stride_init stride_enqueue stride_dequeue stride_pick_next
  stride_rep has_priority
proof
  fix s s' :: "'a sched_scheme" and Q p
  show "stride_rep (stride_init s) {}"
    by (auto simp: stride_rep_def stride_init_def intro: exI [of _ Leaf])
  show "procs (stride_init s) = procs s" "sched.more (stride_init s) = sched.more s"
    by (simp_all add: stride_init_def)
  show "finite Q" if "stride_rep s Q" using that by (auto simp: stride_rep_def)
  show "stride_rep s' Q" if st: "stride_rep s Q" "same_queue Q s s'"
  proof -
    obtain t where t: "pool_tree s t" "set_tree t = Q" using st(1) by (auto simp: stride_rep_def)
    then have "pool_tree s' t" using st(2) pool_tree_stable by blast
    with t st show ?thesis by (auto simp: stride_rep_def same_queue_def)
  qed
  show "has_priority s' p" if "has_priority s p" "same_queue {p} s s'"
    using that by (simp add: has_priority_def same_queue_def)
  show "\<exists>s'. stride_enqueue p s = Inr s' \<and> stride_rep s' (insert p Q) \<and> sched_frame p s s' \<and>
      (\<forall>q. q \<noteq> p \<longrightarrow> q \<notin> Q \<longrightarrow> has_priority s q \<longrightarrow> has_priority s' q)"
    if pre: "stride_rep s Q" "p \<notin> Q" "p \<noteq> NULL" "has_priority s p" "card Q < rq_limit"
  proof -
    obtain t where t: "pool_tree s t" "set_tree t = Q" using pre(1) by (auto simp: stride_rep_def)
    have "size t < rq_limit" using pre(5) t dtree_card [OF pool_treeD(1)] by metis
    then obtain s' where s': "stride_enqueue p s = Inr s'"
        "pool_tree s' (sinsert (proc_stride_comp_f (procs s)) t p)" "sched_frame p s s'"
      using pool_enqueue_tree [OF t(1), of p] t(2) pre(2,3) unfolding stride_enqueue_def by metis
    have "stride_rep s' (set_tree (sinsert (proc_stride_comp_f (procs s)) t p))"
      by (rule stride_rep_frame [OF s'(2,3)]) (use pre(1,4) t(2) in \<open>auto simp: stride_rep_def has_priority_def\<close>)
    with s' t(2) show ?thesis by (auto simp: has_priority_frame)
  qed
  show "stride_pick_next s = Inr (NULL, s)" if "stride_rep s {}"
    using that stride_pick_empty by (fastforce simp: stride_rep_def)
  show "\<exists>p s1 s2. stride_pick_next s = Inr (p, s1) \<and> p \<in> Q \<and> p \<noteq> NULL \<and> stride_dequeue p s1 = Inr s2 \<and>
      stride_rep s2 (Q - {p}) \<and> sched_frame p s s1 \<and> sched_frame p s s2 \<and> has_priority s2 p \<and>
      (\<forall>q. q \<notin> Q \<longrightarrow> has_priority s q \<longrightarrow> has_priority s2 q)"
    if pre: "stride_rep s Q" "Q \<noteq> {}"
  proof -
    obtain t where t: "pool_tree s t" "set_tree t = Q" using pre(1) by (auto simp: stride_rep_def)
    with pre(2) obtain l p r where node: "t = Node l p r" by (cases t) auto
    let ?s1 = "upd_proc p (\<lambda>x. x\<lparr>lab6_stride := lab6_stride x + BIG_STRIDE div lab6_priority x\<rparr>) s"
    have pQ: "p \<in> Q" "p \<noteq> NULL" using node t pool_treeD(3) [OF t(1)] by auto
    have pick: "stride_pick_next s = Inr (p, ?s1)"
      using t node pre(1) by (intro stride_pick_tree [of s l p r]) (auto simp: stride_rep_def)
    have fr1: "sched_frame p s ?s1" by (simp add: sched_frame_def)
    have t1: "pool_tree ?s1 t" using t(1) by (simp add: pool_tree_def)
    obtain s2 where s2: "stride_dequeue p ?s1 = Inr s2" "procs s2 = procs ?s1" "sched.more s2 = sched.more ?s1"
        "pool_tree s2 (sremove (proc_stride_comp_f (procs ?s1)) t p)"
      using pool_dequeue_tree [OF t1 pQ(1) [folded t(2)], of proc_stride_comp_f] unfolding stride_dequeue_def by blast
    have fr2: "sched_frame p s s2" using fr1 s2(2,3) by (simp add: sched_frame_def)
    have "stride_rep s2 (set_tree (sremove (proc_stride_comp_f (procs ?s1)) t p))"
      by (rule stride_rep_frame [OF s2(4) fr2])
        (use pre(1) t(2) set_sremove [OF pool_treeD(1) [OF t(1)]] in \<open>auto simp: stride_rep_def has_priority_def\<close>)
    then have "stride_rep s2 (Q - {p})" using set_sremove [OF pool_treeD(1) [OF t(1)]] t(2) by simp
    moreover have "has_priority s p" using pre(1) pQ by (auto simp: stride_rep_def has_priority_def)
    ultimately show ?thesis
      using pick pQ fr1 fr2 s2(1) has_priority_frame [OF fr2]
      by (intro exI [of _ p] exI [of _ ?s1] exI [of _ s2]) simp
  qed
qed

section \<open>The stride window\<close>

text \<open>
  \<open>in_window ps w A\<close>: measured from \<open>w\<close> with wrap-around, every stride of \<open>A\<close> is at most
  \<open>BIG_STRIDE\<close>. Inside a window the offset from \<open>w\<close> orders the processes.
\<close>

definition stride_off :: "(ptr \<Rightarrow> proc_struct) \<Rightarrow> 32 word \<Rightarrow> ptr \<Rightarrow> nat" where
  "stride_off ps w p = unat (lab6_stride (ps p) - w)"

definition in_window :: "(ptr \<Rightarrow> proc_struct) \<Rightarrow> 32 word \<Rightarrow> ptr set \<Rightarrow> bool" where
  "in_window ps w A \<longleftrightarrow> (\<forall>p \<in> A. stride_off ps w p \<le> unat BIG_STRIDE)"

lemma unat_BIG_STRIDE: "unat BIG_STRIDE = 2 ^ 30"
  by (simp add: BIG_STRIDE_def)

lemma sint_diff_small:
  fixes x y :: "32 word"
  assumes "unat x \<le> 2 ^ 30" "unat y \<le> 2 ^ 30"
  shows "sint (x - y) = int (unat x) - int (unat y)"
proof -
  have pow: "(2::int) ^ 30 < 2 ^ 31" "0 < (2::int) ^ 30" by simp_all
  have s: "sint z = int (unat z)" if "unat z \<le> 2 ^ 30" for z :: "32 word"
  proof -
    have "int (unat z) \<le> 2 ^ 30" using of_nat_mono [OF that, where 'a = int] by simp
    then have "signed_take_bit 31 (int (unat z)) = int (unat z)"
      by (intro signed_take_bit_int_eq_self) (use pow in linarith)+
    then show ?thesis by (simp add: sint_uint)
  qed
  have le: "int (unat x) \<le> 2 ^ 30" "int (unat y) \<le> 2 ^ 30"
    using assms [THEN of_nat_mono [where 'a = int]] by simp_all
  have "sint (x - y) = signed_take_bit 31 (sint x - sint y)" by (simp add: sint_word_ariths(2))
  also have "\<dots> = signed_take_bit 31 (int (unat x) - int (unat y))" by (simp only: s assms)
  also have "\<dots> = int (unat x) - int (unat y)"
    by (rule signed_take_bit_int_eq_self) (use le pow in linarith)+
  finally show ?thesis .
qed

lemma stride_comp_window:
  assumes "in_window ps w A" "a \<in> A" "b \<in> A"
  shows "proc_stride_comp_f ps a b = -1 \<longleftrightarrow> stride_off ps w a < stride_off ps w b"
proof -
  have "sint ((lab6_stride (ps a) - w) - (lab6_stride (ps b) - w)) =
      int (stride_off ps w a) - int (stride_off ps w b)"
    unfolding stride_off_def
    by (rule sint_diff_small) (use assms in \<open>auto simp: in_window_def stride_off_def unat_BIG_STRIDE\<close>)
  then show ?thesis by (simp add: proc_stride_comp_f_def Let_def)
qed

lemma compares_on_window:
  assumes "in_window ps w A"
  shows "compares_on A (proc_stride_comp_f ps) (\<lambda>a b. stride_off ps w a \<le> stride_off ps w b)"
  unfolding compares_on_def
  using stride_comp_window [OF assms] by (metis less_imp_le not_less order_trans)

text \<open>A queue whose heap is ordered by the strides, with all of its processes in the window at \<open>w\<close>.\<close>

definition stride_heap :: "32 word \<Rightarrow> 'a sched_scheme \<Rightarrow> ptr set \<Rightarrow> bool" where
  "stride_heap w s Q \<longleftrightarrow> in_window (procs s) w Q \<and> (\<forall>p \<in> Q. lab6_priority (procs s p) \<noteq> 0) \<and>
     (\<exists>t. pool_tree s t \<and> set_tree t = Q \<and>
        heap_by (\<lambda>a b. stride_off (procs s) w a \<le> stride_off (procs s) w b) t)"

lemma stride_heap_rep: "stride_heap w s Q \<Longrightarrow> stride_rep s Q"
  by (auto simp: stride_heap_def stride_rep_def)

lemma stride_off_frame:
  "lab6_stride (ps' p) = lab6_stride (ps p) \<Longrightarrow> stride_off ps' w p = stride_off ps w p"
  by (simp add: stride_off_def)

lemma heap_by_off_cong:
  assumes "\<And>p. p \<in> set_tree t \<Longrightarrow> lab6_stride (ps' p) = lab6_stride (ps p)"
  shows "heap_by (\<lambda>a b. stride_off ps' w a \<le> stride_off ps' w b) t =
    heap_by (\<lambda>a b. stride_off ps w a \<le> stride_off ps w b) t"
  by (rule heap_by_cong) (simp add: stride_off_def assms)

lemma in_window_cong:
  assumes "\<And>p. p \<in> A \<Longrightarrow> lab6_stride (ps' p) = lab6_stride (ps p)"
  shows "in_window ps' w A = in_window ps w A"
  using assms by (simp add: in_window_def stride_off_def)

text \<open>Enqueueing a process that lies in the window keeps the heap order.\<close>

lemma stride_heap_enqueue:
  assumes h: "stride_heap w s Q" and p: "p \<notin> Q" "p \<noteq> NULL" "has_priority s p" "card Q < rq_limit"
    and win: "stride_off (procs s) w p \<le> unat BIG_STRIDE"
  obtains s' where "stride_enqueue p s = Inr s'" "stride_heap w s' (insert p Q)" "sched_frame p s s'"
    "lab6_stride (procs s' p) = lab6_stride (procs s p)"
proof -
  obtain t where t: "pool_tree s t" "set_tree t = Q"
      "heap_by (\<lambda>a b. stride_off (procs s) w a \<le> stride_off (procs s) w b) t"
    using h by (auto simp: stride_heap_def)
  let ?t = "sinsert (proc_stride_comp_f (procs s)) t p"
  have "size t < rq_limit" using p(4) t(1,2) dtree_card [OF pool_treeD(1)] by metis
  then obtain s' where s': "stride_enqueue p s = Inr s'" "pool_tree s' ?t" "sched_frame p s s'"
      "lab6_stride (procs s' p) = lab6_stride (procs s p)"
    using pool_enqueue_tree [OF t(1), of p] t(2) p(1,2) unfolding stride_enqueue_def by metis
  have same: "lab6_stride (procs s' q) = lab6_stride (procs s q)" for q
    using s'(3,4) by (cases "q = p") (auto simp: sched_frame_def)
  have win': "in_window (procs s) w (insert p Q)" using h win by (auto simp: stride_heap_def in_window_def)
  have "heap_by (\<lambda>a b. stride_off (procs s) w a \<le> stride_off (procs s) w b) ?t"
    unfolding sinsert_def
    by (rule heap_by_smerge) (use compares_on_window [OF win'] t in auto)
  then have "heap_by (\<lambda>a b. stride_off (procs s') w a \<le> stride_off (procs s') w b) ?t"
    by (subst heap_by_off_cong [of _ _ "procs s"]) (use same in auto)
  moreover have "in_window (procs s') w (insert p Q)"
    using win' by (subst in_window_cong [of _ _ "procs s"]) (use same in auto)
  moreover have "\<forall>q \<in> insert p Q. lab6_priority (procs s' q) \<noteq> 0"
    using h p(3) has_priority_frame [OF s'(3)] by (auto simp: stride_heap_def has_priority_def)
  ultimately have "stride_heap w s' (insert p Q)"
    using s'(2) t(2) unfolding stride_heap_def by (intro conjI exI [of _ ?t]) auto
  with s' that show ?thesis by blast
qed

text \<open>
  The pick: a process of least stride, whose stride then grows by \<open>BIG_STRIDE / priority\<close>.
  The others, and the picked process with its new stride, lie in the window at its old stride.
\<close>

lemma stride_heap_pick:
  assumes h: "stride_heap w s Q" and ne: "Q \<noteq> {}"
  obtains p s1 s2 where "stride_pick_next s = Inr (p, s1)" "stride_dequeue p s1 = Inr s2" "p \<in> Q" "p \<noteq> NULL"
    "\<And>q. q \<in> Q \<Longrightarrow> stride_off (procs s) w p \<le> stride_off (procs s) w q"
    "stride_heap (lab6_stride (procs s p)) s2 (Q - {p})"
    "procs s2 = (procs s)(p := (procs s p)\<lparr>lab6_stride := lab6_stride (procs s p) + BIG_STRIDE div lab6_priority (procs s p)\<rparr>)"
    "sched.more s2 = sched.more s"
    "stride_off (procs s2) (lab6_stride (procs s p)) p \<le> unat BIG_STRIDE"
proof -
  obtain t where t: "pool_tree s t" "set_tree t = Q"
      "heap_by (\<lambda>a b. stride_off (procs s) w a \<le> stride_off (procs s) w b) t"
    using h by (auto simp: stride_heap_def)
  with ne obtain l p r where node: "t = Node l p r" by (cases t) auto
  let ?d = "BIG_STRIDE div lab6_priority (procs s p)" and ?w = "lab6_stride (procs s p)"
  let ?s1 = "upd_proc p (\<lambda>x. x\<lparr>lab6_stride := lab6_stride x + BIG_STRIDE div lab6_priority x\<rparr>) s"
  have pQ: "p \<in> Q" "p \<noteq> NULL" using node t pool_treeD(3) [OF t(1)] by auto
  have least: "stride_off (procs s) w p \<le> stride_off (procs s) w q" if "q \<in> Q" for q
    using t(2,3) node that by auto
  have pick: "stride_pick_next s = Inr (p, ?s1)"
    using t node h by (intro stride_pick_tree [of s l p r]) (auto simp: stride_heap_def)
  have t1: "pool_tree ?s1 t" using t(1) by (simp add: pool_tree_def)
  let ?t2 = "sremove (proc_stride_comp_f (procs ?s1)) t p"
  obtain s2 where s2: "stride_dequeue p ?s1 = Inr s2" "procs s2 = procs ?s1" "sched.more s2 = sched.more ?s1"
      "pool_tree s2 ?t2"
    using pool_dequeue_tree [OF t1 pQ(1) [folded t(2)], of proc_stride_comp_f] unfolding stride_dequeue_def by blast
  have set2: "set_tree ?t2 = Q - {p}" using set_sremove [OF pool_treeD(1) [OF t(1)]] t(2) by simp
  have off: "int (stride_off (procs s) ?w q) = int (stride_off (procs s) w q) - int (stride_off (procs s) w p)"
    if "q \<in> Q" for q
  proof -
    have "lab6_stride (procs s q) - ?w = (lab6_stride (procs s q) - w) - (?w - w)" by simp
    then show ?thesis using least [OF that]
      by (simp only: stride_off_def unat_sub word_le_nat_alt of_nat_diff)
  qed
  have other: "lab6_stride (procs s2 q) = lab6_stride (procs s q)" if "q \<noteq> p" for q
    using that s2(2) by simp
  have win: "in_window (procs s) ?w Q"
    unfolding in_window_def
  proof
    fix q assume q: "q \<in> Q"
    have "stride_off (procs s) w q \<le> unat BIG_STRIDE" using h q by (auto simp: stride_heap_def in_window_def)
    with off [OF q] show "stride_off (procs s) ?w q \<le> unat BIG_STRIDE" by linarith
  qed
  have off_le: "stride_off (procs s) ?w a \<le> stride_off (procs s) ?w b \<longleftrightarrow> stride_off (procs s) w a \<le> stride_off (procs s) w b"
    if "a \<in> Q" "b \<in> Q" for a b using off [OF that(1)] off [OF that(2)] by linarith
  have heap_eq: "heap_by (\<lambda>a b. stride_off (procs s) ?w a \<le> stride_off (procs s) ?w b) t =
      heap_by (\<lambda>a b. stride_off (procs s) w a \<le> stride_off (procs s) w b) t"
    by (rule heap_by_cong) (rule off_le; simp add: t(2))
  have heap: "heap_by (\<lambda>a b. stride_off (procs s) ?w a \<le> stride_off (procs s) ?w b) t"
    unfolding heap_eq by (rule t(3))
  have "smerge (proc_stride_comp_f (procs ?s1)) l r = smerge (proc_stride_comp_f (procs s)) l r"
    using pool_treeD(1) [OF t(1)] node
    by (intro smerge_cong) (auto simp: proc_stride_comp_f_def)
  then have t2: "?t2 = smerge (proc_stride_comp_f (procs s)) l r" using node by simp
  have "heap_by (\<lambda>a b. stride_off (procs s) ?w a \<le> stride_off (procs s) ?w b) ?t2"
    unfolding t2
    by (rule heap_by_smerge [OF compares_on_subset [OF compares_on_window [OF win]]])
      (use heap node t(2) in auto)
  then have "heap_by (\<lambda>a b. stride_off (procs s2) ?w a \<le> stride_off (procs s2) ?w b) ?t2"
    by (subst heap_by_off_cong [of _ _ "procs s"]) (use set2 other in auto)
  moreover have "in_window (procs s2) ?w (Q - {p})"
    using win other by (auto simp: in_window_def stride_off_def)
  ultimately have h2: "stride_heap ?w s2 (Q - {p})"
    using s2(2,4) set2 h by (auto simp: stride_heap_def intro!: exI [of _ ?t2])
  have step: "stride_off (procs s2) ?w p \<le> unat BIG_STRIDE"
    by (simp add: s2(2) stride_off_def unat_div)
  have procs2: "procs s2 = (procs s)(p := (procs s p)\<lparr>lab6_stride := ?w + ?d\<rparr>)"
    by (simp add: s2(2) fun_eq_iff)
  show ?thesis
    using that [OF pick s2(1) pQ least h2 procs2 _ step] s2(3) by simp
qed

end
