(* ===== verification/Sched_Core.thy ===== *)
theory Sched_Core
  imports Cpu_State Sched_Stride
begin

text \<open>
  The scheduling framework, kern/schedule/sched.c: it reaches the algorithm only through
  the function pointers of a \<open>sched_class\<close>, an argument of the definitions here. Interrupts
  are saved and restored as in the code.
\<close>

section \<open>Operations\<close>

definition sched_class_enqueue :: "'a cpu_scheme sched_class \<Rightarrow> ptr \<Rightarrow> 'a cpu_scheme \<Rightarrow> 'a cpu_scheme outcome" where
  "sched_class_enqueue cls proc s = (if proc \<noteq> idleproc s then sc_enqueue cls proc s else Inr s)"

definition sched_class_dequeue :: "'a cpu_scheme sched_class \<Rightarrow> ptr \<Rightarrow> 'a cpu_scheme \<Rightarrow> 'a cpu_scheme outcome" where
  "sched_class_dequeue cls proc s = sc_dequeue cls proc s"

definition sched_class_pick_next :: "'a cpu_scheme sched_class \<Rightarrow> 'a cpu_scheme \<Rightarrow> (ptr \<times> 'a cpu_scheme) outcome" where
  "sched_class_pick_next cls s = sc_pick_next cls s"

definition sched_class_proc_tick :: "'a cpu_scheme sched_class \<Rightarrow> ptr \<Rightarrow> 'a cpu_scheme \<Rightarrow> 'a cpu_scheme" where
  "sched_class_proc_tick cls proc s =
     (if proc \<noteq> idleproc s then sc_proc_tick cls proc s
      else upd_proc proc (\<lambda>p. p\<lparr>need_resched := True\<rparr>) s)"

text \<open>The class is chosen when the kernel is built: round robin with \<open>DEBUG_GRADE\<close>, stride without.\<close>

definition sched_init :: "bool \<Rightarrow> 'a sched_scheme \<Rightarrow> 'a sched_scheme sched_class \<times> 'a sched_scheme" where
  "sched_init debug_grade s =
     (let cls = (if debug_grade then default_sched_class else stride_sched_class);
          s1 = upd_runq (\<lambda>r. r\<lparr>max_time_slice := MAX_TIME_SLICE\<rparr>) s
      in (cls, sc_init cls s1))"

definition wakeup_proc :: "'a cpu_scheme sched_class \<Rightarrow> ptr \<Rightarrow> 'a cpu_scheme \<Rightarrow> 'a cpu_scheme outcome" where
  "wakeup_proc cls proc s =
     kassert (state (procs s proc) \<noteq> PROC_ZOMBIE) ''proc->state != PROC_ZOMBIE''
     (let (intr_flag, s1) = intr_save s in
      obind (if state (procs s1 proc) \<noteq> PROC_RUNNABLE then
               let s2 = upd_proc proc (\<lambda>p. p\<lparr>state := PROC_RUNNABLE, wait_state := 0\<rparr>) s1
               in if proc \<noteq> current s2 then sched_class_enqueue cls proc s2 else Inr s2
             else Inr s1)
        (\<lambda>s3. Inr (intr_restore intr_flag s3)))"

text \<open>
  \<open>schedule\<close> up to the point where it returns to its caller or, when another process is
  chosen, where that process runs; the calling process restores its interrupt flag when
  it is switched back to.
\<close>

definition schedule :: "'a cpu_scheme sched_class \<Rightarrow> 'a cpu_scheme \<Rightarrow> 'a cpu_scheme outcome" where
  "schedule cls s =
     (let (intr_flag, s1) = intr_save s;
          s2 = upd_proc (current s1) (\<lambda>p. p\<lparr>need_resched := False\<rparr>) s1
      in obind (if state (procs s2 (current s2)) = PROC_RUNNABLE
                then sched_class_enqueue cls (current s2) s2 else Inr s2)
         (\<lambda>s3. obind (sched_class_pick_next cls s3)
         (\<lambda>(picked, s4). obind (if picked \<noteq> NULL then sched_class_dequeue cls picked s4 else Inr s4)
         (\<lambda>s5. let next = (if picked = NULL then idleproc s5 else picked);
                   s6 = upd_proc next (\<lambda>p. p\<lparr>runs := runs p + 1\<rparr>) s5
               in if next \<noteq> current s6 then Inr (proc_run next s6)
                  else Inr (intr_restore intr_flag s6)))))"

section \<open>The invariant of the framework\<close>

text \<open>
  \<open>P\<close> is the set of the kernel's processes without the idle process. The run queue
  holds exactly the runnable ones that are not running.
\<close>

definition runnable :: "ptr set \<Rightarrow> 'a sched_scheme \<Rightarrow> ptr set" where
  "runnable P s = {p \<in> P. state (procs s p) = PROC_RUNNABLE}"

definition sched_ok :: "('a cpu_scheme \<Rightarrow> ptr set \<Rightarrow> bool) \<Rightarrow> ('a cpu_scheme \<Rightarrow> ptr \<Rightarrow> bool) \<Rightarrow>
    ptr set \<Rightarrow> 'a cpu_scheme \<Rightarrow> bool" where
  "sched_ok rep ready P s \<longleftrightarrow> rep s (runnable P s - {current s}) \<and>
     (\<forall>p \<in> P. p \<notin> runnable P s - {current s} \<longrightarrow> ready s p) \<and>
     finite P \<and> card P < rq_limit \<and> NULL \<notin> P \<and> idleproc s \<notin> P \<and> idleproc s \<noteq> NULL \<and>
     (current s \<in> P \<or> current s = idleproc s)"

lemma sched_okD:
  assumes "sched_ok rep ready P s"
  shows "rep s (runnable P s - {current s})" "p \<in> P \<Longrightarrow> p \<notin> runnable P s - {current s} \<Longrightarrow> ready s p"
    "finite P" "card P < rq_limit" "p \<in> P \<Longrightarrow> p \<noteq> NULL" "p \<in> P \<Longrightarrow> p \<noteq> idleproc s" "idleproc s \<noteq> NULL"
    "current s \<in> P \<or> current s = idleproc s"
proof -
  from assms have *: "rep s (runnable P s - {current s})"
      "\<forall>p \<in> P. p \<notin> runnable P s - {current s} \<longrightarrow> ready s p"
      "finite P" "card P < rq_limit" "NULL \<notin> P" "idleproc s \<notin> P" "idleproc s \<noteq> NULL"
      "current s \<in> P \<or> current s = idleproc s"
    unfolding sched_ok_def by simp_all
  show "p \<in> P \<Longrightarrow> p \<notin> runnable P s - {current s} \<Longrightarrow> ready s p" using *(2) by blast
  show "p \<in> P \<Longrightarrow> p \<noteq> NULL" using *(5) by metis
  show "p \<in> P \<Longrightarrow> p \<noteq> idleproc s" using *(6) by metis
  show "rep s (runnable P s - {current s})" "finite P" "card P < rq_limit" "idleproc s \<noteq> NULL"
    "current s \<in> P \<or> current s = idleproc s" by (fact *)+
qed

lemma runnable_cong: "(\<And>p. p \<in> P \<Longrightarrow> state (procs s' p) = state (procs s p)) \<Longrightarrow> runnable P s' = runnable P s"
  by (auto simp: runnable_def)

lemma card_runnable:
  assumes "finite P" "card P < n"
  shows "card (runnable P s - A) < n"
proof -
  have "card (runnable P s - A) \<le> card P" using assms(1) by (intro card_mono) (auto simp: runnable_def)
  with assms(2) show ?thesis by simp
qed

lemma same_queue_mono: "same_queue B s s' \<Longrightarrow> A \<subseteq> B \<Longrightarrow> same_queue A s s'"
  by (auto simp: same_queue_def)

text \<open>
  What a call of \<open>schedule\<close> does, seen from outside: a runnable process runs, or the idle
  process when there is none, and of every process only the run counter may have moved.
\<close>

definition scheduled :: "ptr set \<Rightarrow> 'a cpu_scheme \<Rightarrow> 'a cpu_scheme \<Rightarrow> bool" where
  "scheduled P s s' \<longleftrightarrow>
     (if runnable P s = {} then current s' = idleproc s else current s' \<in> runnable P s) \<and>
     (\<forall>q. state (procs s' q) = state (procs s q) \<and> pid (procs s' q) = pid (procs s q) \<and>
          parent (procs s' q) = parent (procs s q) \<and> wait_state (procs s' q) = wait_state (procs s q) \<and>
          exit_code (procs s' q) = exit_code (procs s q) \<and>
          runs (procs s' q) = runs (procs s q) + (if q = current s' then 1 else 0) \<and> same_proc (procs s q) (procs s' q)) \<and>
     idleproc s' = idleproc s \<and> cpu.more s' = cpu.more s"

lemma run_next_fields:
  fixes s :: "'a cpu_scheme"
  fixes n :: ptr and f :: bool
  defines "s' \<equiv> (if n \<noteq> current s then proc_run n s else intr_restore f s)"
  shows "state (procs s' q) = state (procs s q)" "pid (procs s' q) = pid (procs s q)"
    "parent (procs s' q) = parent (procs s q)" "wait_state (procs s' q) = wait_state (procs s q)"
    "exit_code (procs s' q) = exit_code (procs s q)" "runs (procs s' q) = runs (procs s q)"
    "same_queue UNIV s s'" "current s' = n" "idleproc s' = idleproc s" "cpu.more s' = cpu.more s"
    "same_proc (procs s q) (procs s' q)"
  by (auto simp: s'_def same_queue_def same_proc_def)

text \<open>A kernel whose scheduling class keeps the contract of a scheduling class.\<close>

locale kernel_sched = run_queue_class "sc_init cls" "sc_enqueue cls" "sc_dequeue cls" "sc_pick_next cls" rep ready
  for cls :: "'b cpu_scheme sched_class"
    and rep :: "'b cpu_scheme \<Rightarrow> ptr set \<Rightarrow> bool" and ready :: "'b cpu_scheme \<Rightarrow> ptr \<Rightarrow> bool" +
  assumes tick_frame: "same_queue UNIV s (sc_proc_tick cls p s)" "sched.more (sc_proc_tick cls p s) = sched.more s"
    "state (procs (sc_proc_tick cls p s) q) = state (procs s q)"
begin

text \<open>Only the run-queue fields matter to the invariant, and the states and the running process.\<close>

lemma sched_ok_stable:
  assumes ok: "sched_ok rep ready P s" and q: "same_queue P s s'"
    and eq: "\<And>p. p \<in> P \<Longrightarrow> state (procs s' p) = state (procs s p)"
      "current s' = current s" "idleproc s' = idleproc s"
  shows "sched_ok rep ready P s'"
proof -
  have r: "runnable P s' = runnable P s" by (rule runnable_cong) (rule eq(1))
  have "same_queue (runnable P s - {current s}) s s'"
    by (rule same_queue_mono [OF q]) (auto simp: runnable_def)
  then have "rep s' (runnable P s - {current s})" using ok rep_stable by (auto simp: sched_ok_def)
  moreover have "ready s' p" if "p \<in> P" "p \<notin> runnable P s - {current s}" for p
  proof (rule ready_stable)
    show "ready s p" using ok that by (auto simp: sched_ok_def)
    show "same_queue {p} s s'" by (rule same_queue_mono [OF q]) (use that in auto)
  qed
  ultimately show ?thesis using ok eq(2,3) r by (simp add: sched_ok_def)
qed

lemma enqueue_waiting:
  assumes "rep s Q" "p \<notin> Q" "p \<noteq> NULL" "ready s p" "card Q < rq_limit" "p \<noteq> idleproc s"
  obtains s' where "sched_class_enqueue cls p s = Inr s'" "rep s' (insert p Q)" "sched_frame p s s'"
    "\<And>q. q \<noteq> p \<Longrightarrow> q \<notin> Q \<Longrightarrow> ready s q \<Longrightarrow> ready s' q"
  using enqueue_ok [OF assms(1-5)] assms(6) by (auto simp: sched_class_enqueue_def)

text \<open>The first half of \<open>schedule\<close>: afterwards the queue holds every runnable process.\<close>

lemma put_back:
  assumes ok: "sched_ok rep ready P s"
  obtains s' where
    "(if state (procs s (current s)) = PROC_RUNNABLE then sched_class_enqueue cls (current s) s else Inr s) = Inr s'"
    "rep s' (runnable P s)" "sched_frame (current s) s s'"
    "\<And>p. p \<in> P \<Longrightarrow> p \<notin> runnable P s \<Longrightarrow> ready s' p"
proof (cases "current s \<in> runnable P s")
  case True
  let ?Q = "runnable P s - {current s}"
  have cP: "current s \<in> P" using True by (simp add: runnable_def)
  have c: "current s \<noteq> NULL" "current s \<noteq> idleproc s" "ready s (current s)" "rep s ?Q"
    "state (procs s (current s)) = PROC_RUNNABLE" "card ?Q < rq_limit"
  proof -
    show "current s \<noteq> NULL" "current s \<noteq> idleproc s" "ready s (current s)" "rep s ?Q"
      using sched_okD(1,2,5,6) [OF ok] cP by blast+
    show "state (procs s (current s)) = PROC_RUNNABLE" using True by (simp add: runnable_def)
    show "card ?Q < rq_limit" using sched_okD(3,4) [OF ok] by (rule card_runnable)
  qed
  obtain s' where s': "sched_class_enqueue cls (current s) s = Inr s'" "rep s' (insert (current s) ?Q)"
      "sched_frame (current s) s s'" "\<And>q. q \<noteq> current s \<Longrightarrow> q \<notin> ?Q \<Longrightarrow> ready s q \<Longrightarrow> ready s' q"
    using enqueue_waiting [OF c(4) _ c(1,3,6,2)] by blast
  have "insert (current s) ?Q = runnable P s" using True by auto
  with s' c(5) True sched_okD(2) [OF ok] show ?thesis by (intro that [of s']) auto
next
  case False
  have "sched_class_enqueue cls (current s) s = Inr s" if "state (procs s (current s)) = PROC_RUNNABLE"
    using False that ok by (auto simp: sched_ok_def runnable_def sched_class_enqueue_def)
  with False ok show ?thesis by (intro that [of s]) (auto simp: sched_ok_def)
qed

text \<open>The second half: choose, and run.\<close>

lemma take_next:
  assumes rep: "rep s R" and rdy: "\<And>p. p \<in> P \<Longrightarrow> p \<notin> R \<Longrightarrow> ready s p"
  obtains p s4 s5 where "sched_class_pick_next cls s = Inr (p, s4)"
    "(if p \<noteq> NULL then sched_class_dequeue cls p s4 else Inr s4) = Inr s5"
    "if R = {} then p = NULL else p \<in> R \<and> p \<noteq> NULL"
    "rep s5 (R - {p})" "sched_frame p s s5" "\<And>q. q \<in> P \<Longrightarrow> q \<notin> R - {p} \<Longrightarrow> ready s5 q"
proof (cases "R = {}")
  case True
  with rep rdy show ?thesis
    by (intro that [of NULL s s]) (auto simp: sched_class_pick_next_def pick_none)
next
  case False
  obtain p s4 s5 where "sc_pick_next cls s = Inr (p, s4)" "p \<in> R" "p \<noteq> NULL" "sc_dequeue cls p s4 = Inr s5"
      "rep s5 (R - {p})" "sched_frame p s s5" "ready s5 p" "\<forall>q. q \<notin> R \<longrightarrow> ready s q \<longrightarrow> ready s5 q"
    using pick_some [OF rep False] by blast
  with rdy False show ?thesis
    by (intro that [of p s4 s5]) (auto simp: sched_class_pick_next_def sched_class_dequeue_def)
qed

lemma schedule_steps:
  assumes ok: "sched_ok rep ready P s"
  shows "\<exists>s' s3 p s4. schedule cls s = Inr s' \<and> sched_ok rep ready P s' \<and> scheduled P s s' \<and>
    rep s3 (runnable P s) \<and> sc_pick_next cls s3 = Inr (p, s4) \<and>
    current s' = (if p = NULL then idleproc s else p) \<and>
    (\<forall>q. pid (procs s3 q) = pid (procs s q) \<and> lab6_priority (procs s3 q) = lab6_priority (procs s q))"
proof -
  obtain f s1 where s1: "intr_save s = (f, s1)" by (cases "intr_save s")
  then have s1_eq: "s1 = snd (intr_save s)" by simp
  let ?s2 = "upd_proc (current s1) (\<lambda>p. p\<lparr>need_resched := False\<rparr>) s1"
  have cpu2: "current ?s2 = current s" "idleproc ?s2 = idleproc s" "cpu.more ?s2 = cpu.more s"
    by (simp_all add: s1_eq upd_proc_def)
  have st2: "state (procs ?s2 q) = state (procs s q)" for q by (simp add: s1_eq)
  have ok2: "sched_ok rep ready P ?s2"
    by (rule sched_ok_stable [OF ok]) (use cpu2 st2 in \<open>auto simp: same_queue_def s1_eq\<close>)
  have R: "runnable P ?s2 = runnable P s" by (rule runnable_cong) (rule st2)
  obtain s3 where s3: "(if state (procs ?s2 (current ?s2)) = PROC_RUNNABLE
        then sched_class_enqueue cls (current ?s2) ?s2 else Inr ?s2) = Inr s3"
      "rep s3 (runnable P s)" "sched_frame (current ?s2) ?s2 s3"
      "\<And>p. p \<in> P \<Longrightarrow> p \<notin> runnable P s \<Longrightarrow> ready s3 p"
    using put_back [OF ok2] unfolding R by metis
  obtain p s4 s5 where s5: "sched_class_pick_next cls s3 = Inr (p, s4)"
      "(if p \<noteq> NULL then sched_class_dequeue cls p s4 else Inr s4) = Inr s5"
      "if runnable P s = {} then p = NULL else p \<in> runnable P s \<and> p \<noteq> NULL"
      "rep s5 (runnable P s - {p})" "sched_frame p s3 s5" "\<And>q. q \<in> P \<Longrightarrow> q \<notin> runnable P s - {p} \<Longrightarrow> ready s5 q"
    using take_next [OF s3(2), of P] s3(4) by metis
  have core: "same_core (procs ?s2 q) (procs s5 q)" for q
    using same_core_trans [OF sched_frame_core [OF s3(3)] sched_frame_core [OF s5(5)]] .
  have more: "sched.more s5 = sched.more ?s2" using s3(3) s5(5) by (simp add: sched_frame_def)
  note cpu5 = cpu_of_more [OF more, unfolded cpu2]
  let ?n = "if p = NULL then idleproc s else p"
  let ?s6 = "upd_proc ?n (\<lambda>p. p\<lparr>runs := runs p + 1\<rparr>) s5"
  have cpu6: "current ?s6 = current s" "idleproc ?s6 = idleproc s" "cpu.more ?s6 = cpu.more s"
    using cpu5 by (simp_all add: upd_proc_def)
  let ?s' = "if ?n \<noteq> current ?s6 then proc_run ?n ?s6 else intr_restore f ?s6"
  have run: "schedule cls s = Inr ?s'"
    unfolding schedule_def Let_def s1 prod.case s3(1) obind_Inr s5(1) s5(2) cpu5(2) by (simp split: if_split)
  have cur: "current ?s' = ?n" "idleproc ?s' = idleproc s" "cpu.more ?s' = cpu.more s"
    using cpu6 by auto
  have f5: "state (procs s5 q) = state (procs s q)" "pid (procs s5 q) = pid (procs s q)"
      "parent (procs s5 q) = parent (procs s q)" "wait_state (procs s5 q) = wait_state (procs s q)"
      "exit_code (procs s5 q) = exit_code (procs s q)" "runs (procs s5 q) = runs (procs s q)" for q
    using same_core_fields [OF core [of q]] by (simp_all add: s1_eq)
  note fin = run_next_fields [where n = ?n and s = ?s6 and f = f]
  have fields: "state (procs ?s' q) = state (procs s q) \<and> pid (procs ?s' q) = pid (procs s q) \<and>
      parent (procs ?s' q) = parent (procs s q) \<and> wait_state (procs ?s' q) = wait_state (procs s q) \<and>
      exit_code (procs ?s' q) = exit_code (procs s q) \<and>
      runs (procs ?s' q) = runs (procs s q) + (if q = ?n then 1 else 0)" for q
    using fin(1-6) [of q] by (simp only: f5 upd_proc_simps) (simp add: f5)
  have k2: "same_proc (procs s q) (procs ?s2 q)" for q by (simp add: s1_eq same_proc_def)
  have k6: "same_proc (procs s5 q) (procs ?s6 q)" for q by (simp add: same_proc_def)
  have kept: "same_proc (procs s q) (procs ?s' q)" for q
    by (rule same_proc_trans [OF same_proc_trans [OF same_proc_trans [OF k2 same_core_proc [OF core]] k6] fin(11)])
  have R': "runnable P ?s' = runnable P s" by (rule runnable_cong) (use fields in blast)
  have idle: "idleproc s \<notin> P" "NULL \<notin> P" using ok by (auto simp: sched_ok_def)
  have wait: "runnable P s - {?n} = runnable P s - {p}"
    using idle by (auto simp: runnable_def)
  have q5: "same_queue UNIV s5 ?s'" by (auto simp: same_queue_def)
  have "sched_ok rep ready P ?s'"
    unfolding sched_ok_def R' cur
  proof (intro conjI ballI impI)
    show "rep ?s' (runnable P s - {?n})"
      unfolding wait by (rule rep_stable [OF s5(4) same_queue_mono [OF q5 subset_UNIV]])
    show "ready ?s' q" if "q \<in> P" "q \<notin> runnable P s - {?n}" for q
      using that unfolding wait by (intro ready_stable [OF s5(6) same_queue_mono [OF q5 subset_UNIV]])
    show "?n \<in> P \<or> ?n = idleproc s" using s5(3) by (auto simp: runnable_def split: if_splits)
  qed (use ok in \<open>auto simp: sched_ok_def\<close>)
  moreover have "scheduled P s ?s'"
    unfolding scheduled_def cur using fields kept s5(3) by (auto split: if_splits)
  moreover have "\<forall>q. pid (procs s3 q) = pid (procs s q) \<and> lab6_priority (procs s3 q) = lab6_priority (procs s q)"
    using same_core_fields [OF sched_frame_core [OF s3(3)]] by (simp add: s1_eq)
  ultimately show ?thesis using run s3(2) s5(1) [unfolded sched_class_pick_next_def] cur(1)
    by (intro exI [of _ ?s'] exI [of _ s3] exI [of _ p] exI [of _ s4] conjI) assumption+
qed

lemma schedule_ok:
  "sched_ok rep ready P s \<Longrightarrow> \<exists>s'. schedule cls s = Inr s' \<and> sched_ok rep ready P s' \<and> scheduled P s s'"
  using schedule_steps by metis

text \<open>A process outside \<open>P\<close> that is not runnable may join, if it can be enqueued.\<close>

lemma sched_ok_insert:
  assumes ok: "sched_ok rep ready P s" and p: "p \<noteq> NULL" "p \<noteq> idleproc s" "state (procs s p) \<noteq> PROC_RUNNABLE"
    and r: "ready s p" and card: "card (insert p P) < rq_limit"
  shows "sched_ok rep ready (insert p P) s"
proof -
  have "runnable (insert p P) s = runnable P s" using p(3) by (auto simp: runnable_def)
  then show ?thesis using ok p r card by (auto simp: sched_ok_def)
qed

lemma sched_ok_remove:
  assumes ok: "sched_ok rep ready P s" and p: "p \<noteq> current s" "state (procs s p) \<noteq> PROC_RUNNABLE"
  shows "sched_ok rep ready (P - {p}) s"
proof -
  have "runnable (P - {p}) s = runnable P s" using p(2) by (auto simp: runnable_def)
  moreover have "card (P - {p}) \<le> card P" using ok by (intro card_mono) (auto simp: sched_ok_def)
  ultimately show ?thesis using ok p by (auto simp: sched_ok_def)
qed

lemma wakeup_ok:
  assumes ok: "sched_ok rep ready P s" and p: "p \<in> P" "state (procs s p) \<noteq> PROC_ZOMBIE"
  shows "\<exists>s'. wakeup_proc cls p s = Inr s' \<and> sched_ok rep ready P s' \<and>
    runnable P s' = insert p (runnable P s) \<and> state (procs s' p) = PROC_RUNNABLE \<and>
    (\<forall>q. q \<noteq> p \<longrightarrow> procs s' q = procs s q) \<and> sched.more s' = sched.more s \<and>
    (state (procs s p) \<noteq> PROC_RUNNABLE \<longrightarrow>
       same_core ((procs s p)\<lparr>state := PROC_RUNNABLE, wait_state := 0\<rparr>) (procs s' p))"
proof -
  obtain f s1 where s1: "intr_save s = (f, s1)" by (cases "intr_save s")
  then have s1_eq: "s1 = snd (intr_save s)" by simp
  have cpu1: "current s1 = current s" "idleproc s1 = idleproc s" "procs s1 = procs s"
    by (simp_all add: s1_eq)
  have restored: "sched.more (intr_restore f s3) = sched.more s" if "sched.more s3 = sched.more s1" for s3
  proof -
    note c = cpu_of_more [OF that]
    have "sstatus (intr_restore f s3) = sstatus s" by (rule intr_save_restore [OF s1 c(3)])
    then show ?thesis using c by (intro cpu_moreI) (simp_all add: s1_eq)
  qed
  show ?thesis
  proof (cases "state (procs s p) = PROC_RUNNABLE")
    case True
    then have run: "wakeup_proc cls p s = Inr (intr_restore f s1)"
      by (simp add: wakeup_proc_def s1 cpu1)
    have "sched_ok rep ready P (intr_restore f s1)"
      by (rule sched_ok_stable [OF ok]) (auto simp: same_queue_def s1_eq)
    moreover have "runnable P (intr_restore f s1) = runnable P s" "p \<in> runnable P s"
      using True p(1) by (simp_all add: runnable_def cpu1)
    ultimately show ?thesis using True run restored [OF refl] by (auto simp: cpu1)
  next
    case False
    let ?s2 = "upd_proc p (\<lambda>p. p\<lparr>state := PROC_RUNNABLE, wait_state := 0\<rparr>) s1"
    have cpu2: "current ?s2 = current s" "idleproc ?s2 = idleproc s" by (simp_all add: upd_proc_def cpu1)
    have q2: "same_queue UNIV s ?s2" by (auto simp: same_queue_def s1_eq)
    note stable = rep_stable [OF _ same_queue_mono [OF q2 subset_UNIV]]
      ready_stable [OF _ same_queue_mono [OF q2 subset_UNIV]]
    have R2: "runnable P ?s2 = insert p (runnable P s)" using p(1) by (auto simp: runnable_def cpu1)
    have notin: "p \<notin> runnable P s" using False by (simp add: runnable_def)
    note D = sched_okD [OF ok]
    have "\<exists>s3. (if p \<noteq> current ?s2 then sched_class_enqueue cls p ?s2 else Inr ?s2) = Inr s3 \<and>
        sched_frame p ?s2 s3 \<and> rep s3 (insert p (runnable P s) - {current s}) \<and>
        (\<forall>q \<in> P. q \<notin> insert p (runnable P s) - {current s} \<longrightarrow> ready s3 q)"
    proof (cases "p = current s")
      case True
      then have "insert p (runnable P s) - {current s} = runnable P s - {current s}" by auto
      then show ?thesis using True cpu2 stable(1) [OF D(1)] stable(2) [OF D(2)] by auto
    next
      case other: False
      let ?Q = "runnable P s - {current s}"
      have Q: "p \<notin> ?Q" "card ?Q < rq_limit" using notin card_runnable [OF D(3,4)] by auto
      have rd: "ready ?s2 p" by (rule stable(2)) (use D(2) [of p] p(1) Q(1) in blast)
      obtain s3 where s3: "sched_class_enqueue cls p ?s2 = Inr s3" "rep s3 (insert p ?Q)" "sched_frame p ?s2 s3"
          "\<And>q. q \<noteq> p \<Longrightarrow> q \<notin> ?Q \<Longrightarrow> ready ?s2 q \<Longrightarrow> ready s3 q"
        using enqueue_waiting [OF stable(1) [OF D(1)] Q(1) D(5) [OF p(1)] rd Q(2)] D(6) [OF p(1)] cpu2(2) by metis
      have eq: "insert p (runnable P s) - {current s} = insert p ?Q" using other by auto
      have "ready s3 q" if "q \<in> P" "q \<notin> insert p ?Q" for q
        using s3(4) [of q] stable(2) [OF D(2), of q] that by blast
      with s3 other cpu2 show ?thesis unfolding eq by auto
    qed
    then obtain s3 where s3: "(if p \<noteq> current ?s2 then sched_class_enqueue cls p ?s2 else Inr ?s2) = Inr s3"
        "sched_frame p ?s2 s3" "rep s3 (insert p (runnable P s) - {current s})"
        "\<And>q. q \<in> P \<Longrightarrow> q \<notin> insert p (runnable P s) - {current s} \<Longrightarrow> ready s3 q" by blast
    have run: "wakeup_proc cls p s = Inr (intr_restore f s3)"
      using False p(2) s3(1) by (simp add: wakeup_proc_def s1 cpu1 Let_def)
    have more: "sched.more s3 = sched.more s1" using s3(2) by (simp add: sched_frame_def)
    have core: "same_core (procs ?s2 p) (procs s3 p)" by (rule sched_frame_core [OF s3(2)])
    have st: "state (procs s3 p) = PROC_RUNNABLE" using same_core_fields(1) [OF core] by simp
    have others: "procs s3 q = procs s q" if "q \<noteq> p" for q
      using that s3(2) by (simp add: sched_frame_def cpu1)
    let ?s' = "intr_restore f s3"
    have R: "runnable P ?s' = insert p (runnable P s)"
      using p(1) st others unfolding runnable_def by auto (metis proc_state.simps)+
    have cpu': "current ?s' = current s" "idleproc ?s' = idleproc s"
      using cpu_of_more [OF more] cpu1 by simp_all
    have q3: "same_queue UNIV s3 ?s'" by (auto simp: same_queue_def)
    have "sched_ok rep ready P ?s'"
      unfolding sched_ok_def R cpu'
    proof (intro conjI ballI impI)
      show "rep ?s' (insert p (runnable P s) - {current s})"
        by (rule rep_stable [OF s3(3) same_queue_mono [OF q3 subset_UNIV]])
      show "ready ?s' q" if "q \<in> P" "q \<notin> insert p (runnable P s) - {current s}" for q
        using that by (intro ready_stable [OF s3(4) same_queue_mono [OF q3 subset_UNIV]])
    qed (use ok in \<open>auto simp: sched_ok_def\<close>)
    moreover have "same_core ((procs s p)\<lparr>state := PROC_RUNNABLE, wait_state := 0\<rparr>) (procs ?s' p)"
      using core by (simp add: cpu1)
    ultimately show ?thesis using run R st others restored [OF more] by auto
  qed
qed

lemma tick_ok:
  assumes "sched_ok rep ready P s"
  shows "sched_ok rep ready P (sched_class_proc_tick cls p s)"
proof (cases "p = idleproc s")
  case True
  show ?thesis by (rule sched_ok_stable [OF assms])
    (auto simp: True sched_class_proc_tick_def same_queue_def upd_proc_def)
next
  case False
  then have eq: "sched_class_proc_tick cls p s = sc_proc_tick cls p s" by (simp add: sched_class_proc_tick_def)
  show ?thesis unfolding eq
    by (rule sched_ok_stable [OF assms])
      (simp_all add: tick_frame same_queue_mono [OF tick_frame(1)] cpu_of_more [OF tick_frame(2)])
qed

lemma sched_init_ok:
  assumes "finite P" "card P < rq_limit" "NULL \<notin> P" "idleproc s \<notin> P" "idleproc s \<noteq> NULL"
    "current s = idleproc s" "runnable P s = {}" "\<And>p. p \<in> P \<Longrightarrow> ready (sc_init cls s) p"
  shows "sched_ok rep ready P (sc_init cls s)"
proof -
  have "runnable P (sc_init cls s) = {}" using assms(7) by (simp add: runnable_def init_frame)
  then show ?thesis using assms init_rep cpu_of_more [OF init_frame(2)] by (simp add: sched_ok_def)
qed

end

text \<open>With a priority class the process that runs next is a best one of the runnable processes.\<close>

locale kernel_priority = kernel_sched + priority_class "sc_init cls" "sc_enqueue cls" "sc_dequeue cls"
    "sc_pick_next cls" rep ready le for le +
  assumes le_stable: "(\<And>q. pid (ps' q) = pid (ps q)) \<Longrightarrow> (\<And>q. lab6_priority (ps' q) = lab6_priority (ps q)) \<Longrightarrow>
    le ps' a b = le ps a b"
begin

lemma schedule_best:
  assumes ok: "sched_ok rep ready P s" and ne: "runnable P s \<noteq> {}"
  shows "\<exists>s'. schedule cls s = Inr s' \<and> sched_ok rep ready P s' \<and> current s' \<in> runnable P s \<and>
    (\<forall>q \<in> runnable P s. q \<noteq> current s' \<longrightarrow> le (procs s) (current s') q)"
proof -
  obtain s' s3 p s4 where s': "schedule cls s = Inr s'" "sched_ok rep ready P s'" "scheduled P s s'"
      "rep s3 (runnable P s)" "sc_pick_next cls s3 = Inr (p, s4)" "current s' = (if p = NULL then idleproc s else p)"
      "\<forall>q. pid (procs s3 q) = pid (procs s q) \<and> lab6_priority (procs s3 q) = lab6_priority (procs s q)"
    using schedule_steps [OF ok] by metis
  have cur: "current s' \<in> runnable P s" using s'(3) ne by (simp add: scheduled_def)
  have "idleproc s \<notin> runnable P s" using sched_okD(6) [OF ok] by (auto simp: runnable_def)
  with cur s'(6) have p: "current s' = p" by (auto split: if_splits)
  have "le (procs s) p q" if "q \<in> runnable P s" "q \<noteq> p" for q
    using pick_best [OF s'(4,5) that] le_stable [of "procs s3" "procs s"] s'(7) by simp
  with s'(1,2) cur p show ?thesis by blast
qed

end

section \<open>The five classes in the framework\<close>

lemma tick_slice_frame:
  "same_queue UNIV s (tick_slice p s)" "state (procs (tick_slice p s) q) = state (procs s q)"
  by (auto simp: tick_slice_def same_queue_def Let_def)

interpretation rr_kernel: kernel_sched default_sched_class fifo_rep unlinked
  by (rule kernel_sched.intro; (rule kernel_sched_axioms.intro)?)
    (use rr.run_queue_class_axioms in \<open>simp_all add: default_sched_class_def RR_proc_tick_def tick_slice_frame\<close>)

interpretation fifo_kernel: kernel_sched fifo_sched_class fifo_rep unlinked
  by (rule kernel_sched.intro; (rule kernel_sched_axioms.intro)?)
    (use fifo.run_queue_class_axioms in \<open>simp_all add: fifo_sched_class_def FIFO_proc_tick_def same_queue_def\<close>)

interpretation stride_kernel: kernel_sched stride_sched_class stride_rep has_priority
  by (rule kernel_sched.intro; (rule kernel_sched_axioms.intro)?)
    (use stride.run_queue_class_axioms in \<open>simp_all add: stride_sched_class_def stride_proc_tick_def tick_slice_frame\<close>)

interpretation sjf_sched: kernel_sched sjf_sched_class "pool_rep sjf_le" always_ready
  by (rule kernel_sched.intro; (rule kernel_sched_axioms.intro)?)
    (use sjf.run_queue_class_axioms in \<open>simp_all add: sjf_sched_class_def SJF_proc_tick_def tick_slice_frame\<close>)

interpretation hpf_sched: kernel_sched hpf_sched_class "pool_rep hpf_le" always_ready
  by (rule kernel_sched.intro; (rule kernel_sched_axioms.intro)?)
    (use hpf.run_queue_class_axioms in \<open>simp_all add: hpf_sched_class_def HPF_proc_tick_def tick_slice_frame\<close>)

interpretation sjf_kernel: kernel_priority sjf_sched_class "pool_rep sjf_le" always_ready sjf_le
proof (rule kernel_priority.intro)
  show "kernel_sched sjf_sched_class (pool_rep sjf_le) always_ready" by (rule sjf_sched.kernel_sched_axioms)
  show "priority_class (sc_init sjf_sched_class) (sc_enqueue sjf_sched_class) (sc_dequeue sjf_sched_class)
      (sc_pick_next sjf_sched_class) (pool_rep sjf_le) always_ready sjf_le"
    using sjf.priority_class_axioms by (simp add: sjf_sched_class_def)
  show "kernel_priority_axioms sjf_le"
    by (rule kernel_priority_axioms.intro) (simp add: sjf_le_def sjf_key_def)
qed

interpretation hpf_kernel: kernel_priority hpf_sched_class "pool_rep hpf_le" always_ready hpf_le
proof (rule kernel_priority.intro)
  show "kernel_sched hpf_sched_class (pool_rep hpf_le) always_ready" by (rule hpf_sched.kernel_sched_axioms)
  show "priority_class (sc_init hpf_sched_class) (sc_enqueue hpf_sched_class) (sc_dequeue hpf_sched_class)
      (sc_pick_next hpf_sched_class) (pool_rep hpf_le) always_ready hpf_le"
    using hpf.priority_class_axioms by (simp add: hpf_sched_class_def)
  show "kernel_priority_axioms hpf_le"
    by (rule kernel_priority_axioms.intro) (simp add: hpf_le_def hpf_key_def)
qed

end
