(* ===== verification/Sched_Fair.thy ===== *)
theory Sched_Fair
  imports Sched_Core
begin

text \<open>
  What the scheduling classes guarantee over a run of the scheduler: round robin and FIFO
  rotate through the runnable processes, the time slice bounds an uninterrupted run, and
  stride scheduling gives every process a share in proportion to its priority.
\<close>

section \<open>Repeated scheduling\<close>

fun schedules :: "'a cpu_scheme sched_class \<Rightarrow> nat \<Rightarrow> 'a cpu_scheme \<Rightarrow> 'a cpu_scheme outcome" where
  "schedules cls 0 s = Inr s"
| "schedules cls (Suc k) s = obind (schedule cls s) (schedules cls k)"

lemma schedules_invariant:
  assumes step: "\<And>x s. I x s \<Longrightarrow> \<exists>s'. schedule cls s = Inr s' \<and> I (f x) s'" and "I x s"
  shows "\<exists>s'. schedules cls k s = Inr s' \<and> I ((f ^^ k) x) s'"
  using assms(2)
proof (induction k arbitrary: x s)
  case (Suc k)
  obtain s1 where s1: "schedule cls s = Inr s1" "I (f x) s1" using step [OF Suc.prems] by blast
  obtain s2 where "schedules cls k s1 = Inr s2" "I ((f ^^ k) (f x)) s2" using Suc.IH [OF s1(2)] by blast
  then show ?case using s1(1) by (simp add: funpow_swap1)
qed simp

section \<open>Rotation\<close>

text \<open>\<open>cs\<close> lists the runnable processes: the running one and then the queue, in order.\<close>

definition rotation :: "ptr list \<Rightarrow> 'a cpu_scheme \<Rightarrow> bool" where
  "rotation cs s \<longleftrightarrow> cs \<noteq> [] \<and> current s = hd cs \<and> run_fifo s (tl cs) \<and> distinct cs \<and> unlinked s (hd cs) \<and>
     NULL \<notin> set cs \<and> idleproc s \<notin> set cs \<and> length cs \<le> rq_limit \<and>
     (\<forall>p \<in> set cs. state (procs s p) = PROC_RUNNABLE)"

text \<open>The list operations of a class with a FIFO queue.\<close>

locale list_class =
  fixes cls :: "'b cpu_scheme sched_class"
  assumes enq: "run_fifo s q \<Longrightarrow> p \<notin> set q \<Longrightarrow> p \<noteq> NULL \<Longrightarrow> unlinked s p \<Longrightarrow> length q < rq_limit \<Longrightarrow>
      \<exists>s'. sc_enqueue cls p s = Inr s' \<and> run_fifo s' (q @ [p]) \<and> sched_frame p s s'"
    and pick: "run_fifo s q \<Longrightarrow> sc_pick_next cls s = Inr (case q of [] \<Rightarrow> NULL | p # _ \<Rightarrow> p, s)"
    and deq: "run_fifo s q \<Longrightarrow> p \<in> set q \<Longrightarrow> sc_dequeue cls p s = Inr (unlink_proc p s)"
begin

lemma schedule_rotates:
  assumes r: "rotation cs s"
  shows "\<exists>s'. schedule cls s = Inr s' \<and> rotation (rotate1 cs) s'"
proof -
  obtain c q where cs: "cs = c # q" using r by (cases cs) (auto simp: rotation_def)
  have c: "current s = c" "run_fifo s q" "c \<notin> set q" "c \<noteq> NULL" "c \<noteq> idleproc s" "unlinked s c"
    "length q < rq_limit" "state (procs s c) = PROC_RUNNABLE" "NULL \<notin> set q" "idleproc s \<notin> set q" "distinct q"
    "\<And>p. p \<in> set q \<Longrightarrow> state (procs s p) = PROC_RUNNABLE"
    using r unfolding cs rotation_def by auto
  obtain f s1 where s1: "intr_save s = (f, s1)" by (cases "intr_save s")
  then have s1_eq: "s1 = snd (intr_save s)" by simp
  let ?s2 = "upd_proc (current s1) (\<lambda>p. p\<lparr>need_resched := False\<rparr>) s1"
  have cur1: "current s1 = c" by (simp add: s1_eq c)
  have cpu2: "current ?s2 = c" "idleproc ?s2 = idleproc s" by (simp_all add: s1_eq upd_proc_def c)
  have q2: "same_queue UNIV s ?s2" by (auto simp: same_queue_def s1_eq)
  have "run_fifo ?s2 q" "unlinked ?s2 c"
    by (rule run_fifo_same_queue [OF c(2)], rule same_queue_mono [OF q2], simp)
      (rule unlinked_same_queue [OF c(6)], rule same_queue_mono [OF q2], simp)
  then obtain s3 where s3: "sc_enqueue cls c ?s2 = Inr s3" "run_fifo s3 (q @ [c])" "sched_frame c ?s2 s3"
    using enq [OF _ c(3,4) _ c(7)] by blast
  obtain n rest where n: "q @ [c] = n # rest" by (cases q) auto
  have pick3: "sc_pick_next cls s3 = Inr (n, s3)" using pick [OF s3(2)] n by simp
  have nset: "n \<in> set (q @ [c])" unfolding n by simp
  have n0: "n \<noteq> NULL" "n \<noteq> idleproc s" using nset c(4,5,9,10) by auto
  let ?s5 = "unlink_proc n s3"
  have deq5: "sc_dequeue cls n s3 = Inr ?s5" by (rule deq [OF s3(2) nset])
  have q5: "run_fifo ?s5 rest" "unlinked ?s5 n" using unlink_proc_queue(1,2) [of s3 "[]" n rest] s3(2) n by simp_all
  have more5: "sched.more ?s5 = sched.more ?s2" "procs ?s5 = procs s3"
    using s3(3) by (simp_all add: unlink_proc_def sched_frame_def)
  note cpu5 = cpu_of_more [OF more5(1), unfolded cpu2]
  let ?s6 = "upd_proc n (\<lambda>p. p\<lparr>runs := runs p + 1\<rparr>) ?s5"
  have cpu6: "current ?s6 = c" "idleproc ?s6 = idleproc s" using cpu5 by (simp_all add: upd_proc_def)
  define s' where "s' = (if n \<noteq> current ?s6 then proc_run n ?s6 else intr_restore f ?s6)"
  have st2: "state (procs ?s2 c) = PROC_RUNNABLE" using c(8) by (auto simp: s1_eq)
  have e3: "(if state (procs ?s2 (current ?s2)) = PROC_RUNNABLE
      then sched_class_enqueue cls (current ?s2) ?s2 else Inr ?s2) = Inr s3"
    unfolding cpu2 sched_class_enqueue_def using st2 c(5) s3(1) by simp
  have e5: "(if n \<noteq> NULL then sched_class_dequeue cls n s3 else Inr s3) = Inr ?s5"
    using n0(1) deq5 by (simp add: sched_class_dequeue_def)
  have en: "(if n = NULL then idleproc ?s5 else n) = n" using n0(1) by simp
  have run: "schedule cls s = Inr s'"
    unfolding s'_def schedule_def Let_def s1 prod.case e3 obind_Inr sched_class_pick_next_def pick3 e5 en
    by (simp split: if_split)
  note fin = run_next_fields [where n = n and s = ?s6 and f = f, folded s'_def]
  have st3: "state (procs s3 p) = state (procs s p)" for p
    using same_core_fields(1) [OF sched_frame_core [OF s3(3), of p]] by (simp add: s1_eq)
  have st: "state (procs s' p) = state (procs s p)" for p
    unfolding fin(1) by (simp add: more5(2) st3)
  have q5': "same_queue UNIV ?s5 ?s6" by (auto simp: same_queue_def)
  have q': "run_fifo s' rest" "unlinked s' n"
    by (rule run_fifo_same_queue [OF run_fifo_same_queue [OF q5(1)]];
        rule same_queue_mono [OF q5'] same_queue_mono [OF fin(7)]; simp)
      (rule unlinked_same_queue [OF unlinked_same_queue [OF q5(2)]];
        rule same_queue_mono [OF q5'] same_queue_mono [OF fin(7)]; simp)
  have "rotation (n # rest) s'"
  proof -
    have set: "set (n # rest) = insert c (set q)" unfolding n [symmetric] by auto
    have "distinct (q @ [c])" using c(3,11) by simp
    then have "distinct (n # rest)" unfolding n .
    moreover have "length (n # rest) \<le> rq_limit" using c(7) unfolding n [symmetric] by simp
    moreover have "\<forall>p \<in> set (n # rest). state (procs s' p) = PROC_RUNNABLE"
      unfolding set st using c(8,12) by blast
    moreover have "NULL \<notin> set (n # rest)" "idleproc s \<notin> set (n # rest)"
      unfolding set using c(4,5,9,10) by auto
    ultimately show "rotation (n # rest) s'" unfolding rotation_def fin(8,9) cpu6(2) using q' by simp
  qed
  moreover have "rotate1 cs = n # rest" using n by (simp add: cs)
  ultimately show ?thesis using run by metis
qed

lemma schedules_rotate:
  assumes "rotation cs s"
  shows "\<exists>s'. schedules cls k s = Inr s' \<and> rotation (rotate k cs) s' \<and> current s' = cs ! (k mod length cs)"
proof -
  have "\<exists>s'. schedules cls k s = Inr s' \<and> rotation ((rotate1 ^^ k) cs) s'"
    by (rule schedules_invariant [of rotation, OF schedule_rotates assms])
  then obtain s' where s': "schedules cls k s = Inr s'" "rotation (rotate k cs) s'"
    by (auto simp: rotate_def)
  then have "current s' = hd (rotate k cs)" by (simp add: rotation_def)
  also have "\<dots> = cs ! (k mod length cs)" using assms by (intro hd_rotate_conv_nth) (auto simp: rotation_def)
  finally show ?thesis using s' by blast
qed

end

interpretation rr_list: list_class default_sched_class
  by unfold_locales (auto simp: default_sched_class_def RR_pick_queue RR_dequeue_queue elim: RR_enqueue_queue)

interpretation fifo_list: list_class fifo_sched_class
  by unfold_locales (auto simp: fifo_sched_class_def FIFO_pick_queue FIFO_dequeue_queue elim: FIFO_enqueue_queue)

section \<open>Proportional share\<close>

text \<open>
  The strides as they would be without wrap-around: \<open>V p\<close> is the pass value of \<open>p\<close> as a
  natural number, \<open>m\<close> a lower bound no pass exceeds by more than \<open>BIG_STRIDE\<close>. All processes
  of \<open>P\<close> are runnable, one runs, the others are in the heap.
\<close>

definition stride_pass :: "(ptr \<Rightarrow> nat) \<Rightarrow> ptr set \<Rightarrow> 'a cpu_scheme \<Rightarrow> bool" where
  "stride_pass V P s \<longleftrightarrow> (\<exists>m. stride_heap (of_nat m) s (P - {current s}) \<and>
     (\<forall>p \<in> P. lab6_stride (procs s p) = of_nat (V p) \<and> m \<le> V p \<and> V p \<le> m + 2 ^ 30 \<and>
        lab6_priority (procs s p) \<noteq> 0 \<and> state (procs s p) = PROC_RUNNABLE) \<and>
     current s \<in> P \<and> NULL \<notin> P \<and> idleproc s \<notin> P \<and> finite P \<and> card P \<le> rq_limit)"

definition stride_step :: "proc_struct \<Rightarrow> nat" where
  "stride_step p = unat (BIG_STRIDE div lab6_priority p)"

lemma stride_off_pass:
  assumes "lab6_stride (ps p) = of_nat v" "m \<le> v" "v \<le> m + 2 ^ 30"
  shows "stride_off ps (of_nat m) p = v - m"
proof -
  have "(of_nat v :: 32 word) - of_nat m = of_nat (v - m)" using assms(2) by simp
  moreover have "unat (of_nat (v - m) :: 32 word) = v - m"
    using assms(3) by (simp add: unat_of_nat take_bit_nat_eq_self)
  ultimately show ?thesis by (simp add: stride_off_def assms(1))
qed

lemma stride_heap_same:
  assumes "stride_heap w s Q" "same_queue UNIV s s'"
  shows "stride_heap w s' Q"
proof -
  have e: "lab6_stride (procs s' p) = lab6_stride (procs s p)" "lab6_priority (procs s' p) = lab6_priority (procs s p)" for p
    using assms(2) by (simp_all add: same_queue_def)
  have "pool_tree s' t" if "pool_tree s t" for t
    by (rule pool_tree_stable [OF that same_queue_mono [OF assms(2)]]) simp
  then show ?thesis using assms(1) e by (auto simp: stride_heap_def in_window_def stride_off_def)
qed

lemma stride_schedule_step:
  assumes V: "stride_pass V P s"
  obtains s' where "schedule stride_sched_class s = Inr s'" "current s' \<in> P" "\<And>p. p \<in> P \<Longrightarrow> V (current s') \<le> V p"
    "stride_pass (V(current s' := V (current s') + stride_step (procs s (current s')))) P s'"
    "\<And>p. lab6_priority (procs s' p) = lab6_priority (procs s p)"
    "\<And>p. runs (procs s' p) = runs (procs s p) + (if p = current s' then 1 else 0)"
proof -
  obtain m where h: "stride_heap (of_nat m) s (P - {current s})" and
    vals: "\<And>p. p \<in> P \<Longrightarrow> lab6_stride (procs s p) = of_nat (V p)" "\<And>p. p \<in> P \<Longrightarrow> m \<le> V p"
      "\<And>p. p \<in> P \<Longrightarrow> V p \<le> m + 2 ^ 30" "\<And>p. p \<in> P \<Longrightarrow> lab6_priority (procs s p) \<noteq> 0"
      "\<And>p. p \<in> P \<Longrightarrow> state (procs s p) = PROC_RUNNABLE" and
    P: "current s \<in> P" "NULL \<notin> P" "idleproc s \<notin> P" "finite P" "card P \<le> rq_limit"
    using V unfolding stride_pass_def by blast
  let ?w = "of_nat m :: 32 word"
  obtain f s1 where s1: "intr_save s = (f, s1)" by (cases "intr_save s")
  then have s1_eq: "s1 = snd (intr_save s)" by simp
  let ?c = "current s"
  let ?s2 = "upd_proc (current s1) (\<lambda>p. p\<lparr>need_resched := False\<rparr>) s1"
  have cpu2: "current ?s2 = ?c" "idleproc ?s2 = idleproc s" by (simp_all add: s1_eq upd_proc_def)
  have q2: "same_queue UNIV s ?s2" by (auto simp: same_queue_def s1_eq)
  have p2: "lab6_stride (procs ?s2 p) = lab6_stride (procs s p)" "state (procs ?s2 p) = state (procs s p)"
    "lab6_priority (procs ?s2 p) = lab6_priority (procs s p)" "runs (procs ?s2 p) = runs (procs s p)" for p
    by (simp_all add: s1_eq)
  have off: "stride_off (procs ?s2) ?w p = V p - m" if "p \<in> P" for p
    by (rule stride_off_pass) (use that vals p2 in auto)
  have c: "?c \<noteq> NULL" "?c \<noteq> idleproc s" "has_priority ?s2 ?c" "card (P - {?c}) < rq_limit"
    "stride_off (procs ?s2) ?w ?c \<le> unat BIG_STRIDE"
  proof -
    show "?c \<noteq> NULL" "?c \<noteq> idleproc s" using P by metis+
    show "has_priority ?s2 ?c" unfolding has_priority_def p2 by (rule vals(4) [OF P(1)])
    show "card (P - {?c}) < rq_limit" using P(5) card_Diff1_less [OF P(4,1)] by linarith
    show "stride_off (procs ?s2) ?w ?c \<le> unat BIG_STRIDE"
      unfolding off [OF P(1)] unat_BIG_STRIDE using vals(3) [OF P(1)] by simp
  qed
  obtain s3 where s3: "stride_enqueue ?c ?s2 = Inr s3" "stride_heap ?w s3 (insert ?c (P - {?c}))"
      "sched_frame ?c ?s2 s3" "lab6_stride (procs s3 ?c) = lab6_stride (procs ?s2 ?c)"
    using stride_heap_enqueue [OF stride_heap_same [OF h q2] _ c(1,3,4,5)] by blast
  have insP: "insert ?c (P - {?c}) = P" using P(1) by auto
  have ne: "P \<noteq> {}" using P(1) by auto
  have str3: "lab6_stride (procs s3 p) = lab6_stride (procs s p)" for p
    using s3(3,4) p2(1) by (cases "p = ?c") (simp_all add: sched_frame_def)
  note core3 = same_core_fields [OF sched_frame_core [OF s3(3)], unfolded p2]
  obtain n s4 s5 where n: "stride_pick_next s3 = Inr (n, s4)" "stride_dequeue n s4 = Inr s5" "n \<in> P" "n \<noteq> NULL"
      "\<And>q. q \<in> P \<Longrightarrow> stride_off (procs s3) ?w n \<le> stride_off (procs s3) ?w q"
      "stride_heap (lab6_stride (procs s3 n)) s5 (P - {n})"
      "procs s5 = (procs s3)(n := (procs s3 n)\<lparr>lab6_stride := lab6_stride (procs s3 n) + BIG_STRIDE div lab6_priority (procs s3 n)\<rparr>)"
      "sched.more s5 = sched.more s3"
    by (rule stride_heap_pick [OF s3(2) [unfolded insP] ne]) (rule that)
  have least: "V n \<le> V q" if "q \<in> P" for q
  proof -
    have "stride_off (procs s3) ?w p = V p - m" if "p \<in> P" for p
      by (rule stride_off_pass) (use that vals str3 in auto)
    then show ?thesis using n(5) [OF that] vals(2) [OF that] vals(2) [OF n(3)] n(3) that by simp
  qed
  have more5: "sched.more s5 = sched.more ?s2" using s3(3) n(8) by (simp add: sched_frame_def)
  note cpu5 = cpu_of_more [OF more5, unfolded cpu2]
  let ?s6 = "upd_proc n (\<lambda>p. p\<lparr>runs := runs p + 1\<rparr>) s5"
  have cpu6: "current ?s6 = ?c" "idleproc ?s6 = idleproc s" using cpu5 by (simp_all add: upd_proc_def)
  define s' where "s' = (if n \<noteq> current ?s6 then proc_run n ?s6 else intr_restore f ?s6)"
  note fin = run_next_fields [where n = n and s = ?s6 and f = f, folded s'_def]
  have e3: "(if state (procs ?s2 (current ?s2)) = PROC_RUNNABLE
      then sched_class_enqueue stride_sched_class (current ?s2) ?s2 else Inr ?s2) = Inr s3"
    unfolding cpu2 sched_class_enqueue_def p2 using vals(5) [OF P(1)] c(2) s3(1) by (simp add: stride_sched_class_def)
  have e4: "sc_pick_next stride_sched_class s3 = Inr (n, s4)" using n(1) by (simp add: stride_sched_class_def)
  have e5: "(if n \<noteq> NULL then sched_class_dequeue stride_sched_class n s4 else Inr s4) = Inr s5"
    using n(2,4) by (simp add: sched_class_dequeue_def stride_sched_class_def)
  have en: "(if n = NULL then idleproc s5 else n) = n" using n(4) by simp
  have run: "schedule stride_sched_class s = Inr s'"
    unfolding s'_def schedule_def Let_def s1 prod.case e3 obind_Inr sched_class_pick_next_def e4 e5 en
    by (simp split: if_split)
  have q6: "same_queue UNIV s5 ?s6" by (auto simp: same_queue_def)
  have heap': "stride_heap (of_nat (V n)) s' (P - {n})"
    using stride_heap_same [OF stride_heap_same [OF n(6) q6] fin(7)] by (simp add: str3 vals(1) [OF n(3)])
  have f': "lab6_stride (procs s' p) = lab6_stride (procs s5 p)" "lab6_priority (procs s' p) = lab6_priority (procs s5 p)" for p
    using fin(7) by (auto simp: same_queue_def)
  have prio: "lab6_priority (procs s' p) = lab6_priority (procs s p)" for p
    by (simp add: f' n(7) core3(14))
  have st: "state (procs s' p) = state (procs s p)" for p
    by (simp add: fin(1) n(7) core3(1))
  have rn: "runs (procs s' p) = runs (procs s p) + (if p = n then 1 else 0)" for p
    by (simp add: fin(6) n(7) core3(3))
  let ?V = "V(n := V n + stride_step (procs s n))"
  have str: "lab6_stride (procs s' p) = of_nat (?V p)" if "p \<in> P" for p
    using vals(1) [OF that] by (auto simp: f' n(7) str3 stride_step_def core3(14))
  have step_le: "stride_step (procs s n) \<le> 2 ^ 30"
    using unat_BIG_STRIDE by (simp add: stride_step_def unat_div)
  have "stride_pass ?V P s'"
    unfolding stride_pass_def
  proof (intro exI [of _ "V n"] conjI ballI)
    fix p assume p: "p \<in> P"
    show "lab6_stride (procs s' p) = of_nat (?V p)" by (rule str [OF p])
    show "V n \<le> ?V p" using least [OF p] by simp
    show "?V p \<le> V n + 2 ^ 30"
      using vals(3) [OF p] vals(2) [OF n(3)] step_le by (cases "p = n") (simp_all, linarith?)
    show "lab6_priority (procs s' p) \<noteq> 0" using vals(4) [OF p] by (simp add: prio)
    show "state (procs s' p) = PROC_RUNNABLE" using vals(5) [OF p] by (simp add: st)
  qed (use heap' P n(3) fin(8,9) cpu6 in simp_all)
  then show ?thesis using that [OF run] least n(3) prio rn by (simp add: fin(8))
qed

lemma stride_schedules_pass:
  assumes "stride_pass V P s"
  shows "\<exists>s' n. schedules stride_sched_class k s = Inr s' \<and>
    stride_pass (\<lambda>p. V p + n p * stride_step (procs s p)) P s' \<and>
    (\<forall>p. lab6_priority (procs s' p) = lab6_priority (procs s p)) \<and>
    (\<forall>p. runs (procs s' p) = runs (procs s p) + int (n p)) \<and> (\<Sum>p \<in> P. n p) = k"
  using assms
proof (induction k arbitrary: V s)
  case 0
  then show ?case by (intro exI [of _ s] exI [of _ "\<lambda>_. 0"]) simp
next
  case (Suc k)
  obtain s1 where s1: "schedule stride_sched_class s = Inr s1" "current s1 \<in> P"
      "stride_pass (V(current s1 := V (current s1) + stride_step (procs s (current s1)))) P s1"
      "\<And>p. lab6_priority (procs s1 p) = lab6_priority (procs s p)"
      "\<And>p. runs (procs s1 p) = runs (procs s p) + (if p = current s1 then 1 else 0)"
    by (rule stride_schedule_step [OF Suc.prems]) (rule that)
  obtain s2 n where s2: "schedules stride_sched_class k s1 = Inr s2"
      "stride_pass (\<lambda>p. (V(current s1 := V (current s1) + stride_step (procs s (current s1)))) p +
         n p * stride_step (procs s1 p)) P s2"
      "\<forall>p. lab6_priority (procs s2 p) = lab6_priority (procs s1 p)"
      "\<forall>p. runs (procs s2 p) = runs (procs s1 p) + int (n p)" "(\<Sum>p \<in> P. n p) = k"
    using Suc.IH [OF s1(3)] by (elim exE conjE) (rule that)
  let ?n = "n(current s1 := Suc (n (current s1)))"
  have step: "stride_step (procs s1 p) = stride_step (procs s p)" for p
    by (simp add: stride_step_def s1(4))
  have V': "(\<lambda>p. (V(current s1 := V (current s1) + stride_step (procs s (current s1)))) p + n p * stride_step (procs s1 p))
      = (\<lambda>p. V p + ?n p * stride_step (procs s p))"
    by (auto simp: step fun_eq_iff)
  have fin: "finite P" using Suc.prems by (auto simp: stride_pass_def)
  have "(\<Sum>p \<in> P. ?n p) = Suc k"
    using s2(5) s1(2) fin by (simp add: sum.remove [OF fin s1(2)])
  with s1 s2 show ?case unfolding V' by (intro exI [of _ s2] exI [of _ ?n]) simp
qed

end
