(* ===== verification/Demo_State.thy ===== *)
theory Demo_State
  imports Cpu_State
begin

text \<open>
  A small concrete kernel state, the starting point of the witnesses: two runnable
  processes, one that sleeps, and the idle process.
\<close>

section \<open>A concrete kernel\<close>

definition demo_proc :: "int \<Rightarrow> 32 word \<Rightarrow> proc_struct" where
  "demo_proc i prio = \<lparr>state = PROC_RUNNABLE, pid = i, runs = 0, kstack = 0, need_resched = True, parent = 90,
     mm = NULL, ctx = zero_context, tf = 0, pgdir = 0x80400000, flags = 0, name = replicate 16 0,
     exit_code = 0, wait_state = 0, cptr = NULL, yptr = NULL, optr = NULL, rq = Some The_rq, time_slice = 3,
     lab6_stride = 0, lab6_priority = prio\<rparr>"

text \<open>Process 10 runs, process 20 waits in the queue, process 30 sleeps, 90 is the idle process.\<close>

definition demo_procs :: "ptr \<Rightarrow> proc_struct" where
  "demo_procs p = (if p = 10 then demo_proc 1 1 else if p = 20 then demo_proc 2 3
     else if p = 30 then (demo_proc 3 2)\<lparr>state := PROC_SLEEPING, wait_state := WT_CHILD\<rparr> else demo_proc 0 1)"

definition demo_links :: "run_entry list_store" where
  "demo_links = (let f = id(Run_list := Run_link 20, Run_link 20 := Run_list) in \<lparr>prev_of = f, next_of = f\<rparr>)"

definition demo_cpu :: cpu where
  "demo_cpu = \<lparr>procs = demo_procs, run_links = demo_links,
     run_pool = \<lparr>parent_of = (\<lambda>_. None), left_of = (\<lambda>_. None), right_of = (\<lambda>_. None)\<rparr>,
     runq = \<lparr>proc_num = 1, max_time_slice = MAX_TIME_SLICE, lab6_run_pool = Some 20\<rparr>,
     current = 10, idleproc = 90, sstatus = SSTATUS_SIE, satp = 0, regs = zero_context\<rparr>"

lemma demo_simps [simp]:
  "procs demo_cpu = demo_procs" "run_links demo_cpu = demo_links" "current demo_cpu = 10" "idleproc demo_cpu = 90"
  "runq demo_cpu = \<lparr>proc_num = 1, max_time_slice = MAX_TIME_SLICE, lab6_run_pool = Some 20\<rparr>"
  "run_pool demo_cpu = \<lparr>parent_of = (\<lambda>_. None), left_of = (\<lambda>_. None), right_of = (\<lambda>_. None)\<rparr>"
  by (simp_all add: demo_cpu_def)

end
