(* ===== verification/Sched_Props.thy ===== *)
theory Sched_Props
  imports Sched_Fair Demo_State
begin

text \<open>
  The properties of the scheduler and of its five scheduling classes, with a small kernel
  state (two processes and the idle process) in which their hypotheses hold.
\<close>

section \<open>The invariants in the concrete kernel\<close>

lemma demo_fifo: "run_fifo demo_cpu [20]"
  by (simp add: run_fifo_def clist_def demo_links_def Let_def demo_procs_def demo_proc_def rq_limit_def)

lemma demo_unlinked: "p \<noteq> 20 \<Longrightarrow> unlinked demo_cpu p"
  by (simp add: unlinked_def list_empty_def demo_links_def Let_def)

lemma demo_pool: "pool_tree demo_cpu (Node Leaf 20 Leaf)"
  by (simp add: pool_tree_def sheap_def demo_procs_def demo_proc_def rq_limit_def)

lemma demo_runnable: "runnable {10, 20, 30} demo_cpu = {10, 20}"
  by (auto simp: runnable_def demo_procs_def demo_proc_def)

lemma demo_ok_rr: "sched_ok fifo_rep unlinked {10, 20, 30} demo_cpu"
  using demo_fifo demo_unlinked
  by (auto simp: sched_ok_def demo_runnable fifo_rep_def rq_limit_def intro!: exI [of _ "[20]"])

lemma demo_ok_stride: "sched_ok stride_rep has_priority {10, 20, 30} demo_cpu"
proof -
  have "stride_rep demo_cpu {20}"
    using demo_pool by (auto simp: stride_rep_def demo_procs_def demo_proc_def intro!: exI [of _ "Node Leaf 20 Leaf"])
  moreover have "{10, 20 :: ptr} - {10} = {20}" by auto
  ultimately show ?thesis
    by (simp add: sched_ok_def demo_runnable rq_limit_def has_priority_def demo_procs_def demo_proc_def)
qed

lemma demo_ok_pool: "sched_ok (pool_rep le) always_ready {10, 20, 30} demo_cpu"
proof -
  have "pool_rep le demo_cpu {20}"
    using demo_pool by (auto simp: pool_rep_def intro!: exI [of _ "Node Leaf 20 Leaf"])
  moreover have "{10, 20 :: ptr} - {10} = {20}" by auto
  ultimately show ?thesis by (simp add: sched_ok_def demo_runnable rq_limit_def always_ready_def)
qed

section \<open>The framework\<close>

text \<open>C2: \<open>schedule()\<close> with the stride class (the kernel's default) never faults on a consistent
  kernel: it runs a runnable process, or the idle process exactly when no process is runnable,
  keeps the run queue equal to the runnable processes that are not running, and changes no
  process besides its run counter and scheduling fields.\<close>

theorem stride_schedule_correct:
  assumes "sched_ok stride_rep has_priority P s"
  shows "\<exists>s'. schedule stride_sched_class s = Inr s' \<and> sched_ok stride_rep has_priority P s' \<and> scheduled P s s'"
  using assms by (rule stride_kernel.schedule_ok)

theorem stride_schedule_correct_witness:
  "\<exists>s'. schedule stride_sched_class demo_cpu = Inr s' \<and> scheduled {10, 20, 30} demo_cpu s'"
  using stride_schedule_correct [OF demo_ok_stride] by blast

text \<open>C8: the same contract for \<open>schedule()\<close> with the round-robin class of the graded build.\<close>

theorem rr_schedule_correct:
  assumes "sched_ok fifo_rep unlinked P s"
  shows "\<exists>s'. schedule default_sched_class s = Inr s' \<and> sched_ok fifo_rep unlinked P s' \<and> scheduled P s s'"
  using assms by (rule rr_kernel.schedule_ok)

theorem rr_schedule_correct_witness:
  "\<exists>s'. schedule default_sched_class demo_cpu = Inr s' \<and> scheduled {10, 20, 30} demo_cpu s'"
  using rr_schedule_correct [OF demo_ok_rr] by blast



section \<open>Round robin\<close>

text \<open>C7: with the round-robin class the runnable processes take turns: if \<open>cs\<close> is the running
  process followed by the queue, the \<open>k\<close>-th call of \<open>schedule()\<close> from there runs entry
  \<open>k mod length cs\<close>.\<close>

theorem rr_takes_turns:
  assumes "rotation cs s"
  shows "\<exists>s'. schedules default_sched_class k s = Inr s' \<and> current s' = cs ! (k mod length cs)"
  using rr_list.schedules_rotate [OF assms] by blast

lemma demo_rotation: "rotation [10, 20] demo_cpu"
  using demo_fifo demo_unlinked [of 10]
  by (simp add: rotation_def rq_limit_def demo_procs_def demo_proc_def)

theorem rr_takes_turns_witness:
  "\<exists>s'. schedules default_sched_class 7 demo_cpu = Inr s' \<and> current s' = 20"
proof -
  have "[10, 20 :: ptr] ! (7 mod length [10, 20 :: ptr]) = 20" by code_simp
  then show ?thesis using rr_takes_turns [OF demo_rotation, of 7] by metis
qed

text \<open>a tick of the round-robin class never lets a process run past its slice: after \<open>k\<close>
  ticks the slice has shrunk by \<open>k\<close>, and a reschedule has been requested exactly when it is used up.\<close>

lemma tick_step:
  assumes "0 \<le> time_slice (procs s p)"
  shows "time_slice (procs (RR_proc_tick p s) p) = max 0 (time_slice (procs s p) - 1)"
    "need_resched (procs (RR_proc_tick p s) p) \<longleftrightarrow> need_resched (procs s p) \<or> time_slice (procs s p) \<le> 1"
  using assms by (auto simp: RR_proc_tick_def tick_slice_def Let_def)

theorem rr_slice_bounds_run:
  assumes "0 < time_slice (procs s p)" "\<not> need_resched (procs s p)"
  shows "time_slice (procs ((RR_proc_tick p ^^ k) s) p) = max 0 (time_slice (procs s p) - int k) \<and>
    (need_resched (procs ((RR_proc_tick p ^^ k) s) p) \<longleftrightarrow> time_slice (procs s p) \<le> int k)"
proof (induction k)
  case (Suc k)
  then show ?case using tick_step [of "(RR_proc_tick p ^^ k) s" p] by auto
qed (use assms in simp)

theorem rr_slice_bounds_run_witness:
  "need_resched (procs ((RR_proc_tick 10 ^^ 3) (upd_proc 10 (\<lambda>p. p\<lparr>need_resched := False\<rparr>) demo_cpu)) 10)"
  using rr_slice_bounds_run [of "upd_proc 10 (\<lambda>p. p\<lparr>need_resched := False\<rparr>) demo_cpu" 10 3]
  by (simp add: demo_procs_def demo_proc_def)

text \<open>\<open>RR_enqueue\<close> refills the time slice only when it is used up or above the maximum; a
  process preempted before keeps what is left (the report and the comment above
  \<open>RR_proc_tick\<close> say that re-enqueueing always resets it).\<close>

theorem rr_enqueue_slice:
  assumes "RR_enqueue p s = Inr s'"
  shows "time_slice (procs s' p) =
    (if time_slice (procs s p) = 0 \<or> max_time_slice (runq s) < time_slice (procs s p)
     then max_time_slice (runq s) else time_slice (procs s p))"
  using assms by (auto simp: RR_enqueue_def outcome_simps Let_def refill_slice_def)

theorem rr_enqueue_slice_witness:
  "\<exists>s'. RR_enqueue 30 demo_cpu = Inr s' \<and> time_slice (procs s' 30) = 3"
proof -
  have "unlinked demo_cpu 30" by (rule demo_unlinked) simp
  then obtain s' where "RR_enqueue 30 demo_cpu = Inr s'"
    by (auto simp: RR_enqueue_def unlinked_def Let_def)
  then show ?thesis
    using rr_enqueue_slice [of 30 demo_cpu s'] by (simp add: demo_procs_def demo_proc_def MAX_TIME_SLICE_def)
qed

section \<open>Stride\<close>


lemma demo_pass: "stride_pass (\<lambda>_. 0) {10, 20} demo_cpu"
proof -
  have "stride_heap 0 demo_cpu {20}"
    using demo_pool
    by (auto simp: stride_heap_def in_window_def stride_off_def demo_procs_def demo_proc_def
        intro!: exI [of _ "Node Leaf 20 Leaf"])
  moreover have "{10, 20 :: ptr} - {10} = {20}" by auto
  ultimately show ?thesis
    unfolding stride_pass_def
    by (intro exI [of _ 0]) (auto simp: demo_procs_def demo_proc_def rq_limit_def)
qed




section \<open>Priority classes\<close>

text \<open>C18: with the HPF class \<open>schedule()\<close> runs a process of highest priority among the runnable ones,
  and among those the one with the smallest pid.\<close>

theorem hpf_runs_highest:
  assumes "sched_ok (pool_rep hpf_le) always_ready P s" "runnable P s \<noteq> {}"
  shows "\<exists>s'. schedule hpf_sched_class s = Inr s' \<and> current s' \<in> runnable P s \<and>
    (\<forall>q \<in> runnable P s. lab6_priority (procs s q) < lab6_priority (procs s (current s')) \<or>
       lab6_priority (procs s q) = lab6_priority (procs s (current s')) \<and> pid (procs s (current s')) \<le> pid (procs s q))"
proof -
  obtain s' where s': "schedule hpf_sched_class s = Inr s'" "current s' \<in> runnable P s"
      "\<forall>q \<in> runnable P s. q \<noteq> current s' \<longrightarrow> hpf_le (procs s) (current s') q"
    using hpf_kernel.schedule_best [OF assms] by blast
  have "lab6_priority (procs s q) < lab6_priority (procs s (current s')) \<or>
      lab6_priority (procs s q) = lab6_priority (procs s (current s')) \<and> pid (procs s (current s')) \<le> pid (procs s q)"
    if "q \<in> runnable P s" for q
    using s'(3) that by (cases "q = current s'") (auto simp: hpf_le_def hpf_key_def)
  with s' show ?thesis by blast
qed

theorem hpf_runs_highest_witness: "\<exists>s'. schedule hpf_sched_class demo_cpu = Inr s' \<and> current s' = 20"
proof -
  have "\<exists>s'. schedule hpf_sched_class demo_cpu = Inr s' \<and> current s' \<in> {10, 20} \<and>
    (\<forall>q \<in> {10, 20}. lab6_priority (demo_procs q) < lab6_priority (demo_procs (current s')) \<or>
       lab6_priority (demo_procs q) = lab6_priority (demo_procs (current s')) \<and>
       pid (demo_procs (current s')) \<le> pid (demo_procs q))"
    using hpf_runs_highest [OF demo_ok_pool] by (simp add: demo_runnable)
  then show ?thesis by (auto simp: demo_procs_def demo_proc_def)
qed

text \<open>C19: with the SJF class \<open>schedule()\<close> runs a process whose length estimate is smallest among the
  runnable ones, and among those the one with the smallest pid.\<close>

theorem sjf_runs_shortest:
  assumes "sched_ok (pool_rep sjf_le) always_ready P s" "runnable P s \<noteq> {}"
  shows "\<exists>s'. schedule sjf_sched_class s = Inr s' \<and> current s' \<in> runnable P s \<and>
    (\<forall>q \<in> runnable P s. lab6_priority (procs s (current s')) < lab6_priority (procs s q) \<or>
       lab6_priority (procs s q) = lab6_priority (procs s (current s')) \<and> pid (procs s (current s')) \<le> pid (procs s q))"
proof -
  obtain s' where s': "schedule sjf_sched_class s = Inr s'" "current s' \<in> runnable P s"
      "\<forall>q \<in> runnable P s. q \<noteq> current s' \<longrightarrow> sjf_le (procs s) (current s') q"
    using sjf_kernel.schedule_best [OF assms] by blast
  have "lab6_priority (procs s (current s')) < lab6_priority (procs s q) \<or>
      lab6_priority (procs s q) = lab6_priority (procs s (current s')) \<and> pid (procs s (current s')) \<le> pid (procs s q)"
    if "q \<in> runnable P s" for q
    using s'(3) that by (cases "q = current s'") (auto simp: sjf_le_def sjf_key_def)
  with s' show ?thesis by blast
qed

theorem sjf_runs_shortest_witness: "\<exists>s'. schedule sjf_sched_class demo_cpu = Inr s' \<and> current s' = 10"
proof -
  have "\<exists>s'. schedule sjf_sched_class demo_cpu = Inr s' \<and> current s' \<in> {10, 20} \<and>
    (\<forall>q \<in> {10, 20}. lab6_priority (demo_procs (current s')) < lab6_priority (demo_procs q) \<or>
       lab6_priority (demo_procs q) = lab6_priority (demo_procs (current s')) \<and>
       pid (demo_procs (current s')) \<le> pid (demo_procs q))"
    using sjf_runs_shortest [OF demo_ok_pool] by (simp add: demo_runnable)
  then show ?thesis by (auto simp: demo_procs_def demo_proc_def)
qed

end
