(* ===== verification/Page_Alloc.thy ===== *)
theory Page_Alloc
  imports Demo_State
begin

text \<open>
  The first-fit physical page allocator, kern/mm/default_pmm.c, on page descriptors
  (kern/mm/memlayout.h). A \<open>struct Page\<close> is its page frame number, that is its index in the array
  \<open>pages\<close> plus \<open>nbase\<close>; \<open>None\<close> is NULL. The state extends that of the processor. Free blocks are linked through the first page of each block, in address order.
\<close>

section \<open>Page descriptors\<close>

record page =
  pg_ref :: int
  pg_flags :: "64 word"
  property :: "32 word"
  pra_vaddr :: "64 word"

datatype page_entry = Free_list | Page_link nat

fun le2page :: "page_entry \<Rightarrow> nat" where
  "le2page (Page_link p) = p"

record pmm = cpu +
  pages :: "nat \<Rightarrow> page"
  page_links :: "page_entry list_store"
  nr_free :: "32 word"

definition PG_reserved :: nat where "PG_reserved = 0"
definition PG_property :: nat where "PG_property = 1"

definition upd_page :: "nat \<Rightarrow> (page \<Rightarrow> page) \<Rightarrow> 'a pmm_scheme \<Rightarrow> 'a pmm_scheme" where
  "upd_page p f s = s\<lparr>pages := (pages s)(p := f (pages s p))\<rparr>"

definition PageReserved :: "'a pmm_scheme \<Rightarrow> nat \<Rightarrow> bool" where
  "PageReserved s p = bit (pg_flags (pages s p)) PG_reserved"

definition SetPageReserved :: "nat \<Rightarrow> 'a pmm_scheme \<Rightarrow> 'a pmm_scheme" where
  "SetPageReserved p = upd_page p (\<lambda>x. x\<lparr>pg_flags := set_bit PG_reserved (pg_flags x)\<rparr>)"

definition PageProperty :: "'a pmm_scheme \<Rightarrow> nat \<Rightarrow> bool" where
  "PageProperty s p = bit (pg_flags (pages s p)) PG_property"

definition SetPageProperty :: "nat \<Rightarrow> 'a pmm_scheme \<Rightarrow> 'a pmm_scheme" where
  "SetPageProperty p = upd_page p (\<lambda>x. x\<lparr>pg_flags := set_bit PG_property (pg_flags x)\<rparr>)"

definition ClearPageProperty :: "nat \<Rightarrow> 'a pmm_scheme \<Rightarrow> 'a pmm_scheme" where
  "ClearPageProperty p = upd_page p (\<lambda>x. x\<lparr>pg_flags := unset_bit PG_property (pg_flags x)\<rparr>)"

definition set_page_ref :: "nat \<Rightarrow> int \<Rightarrow> 'a pmm_scheme \<Rightarrow> 'a pmm_scheme" where
  "set_page_ref p v = upd_page p (\<lambda>x. x\<lparr>pg_ref := v\<rparr>)"

definition page_ref :: "'a pmm_scheme \<Rightarrow> nat \<Rightarrow> int" where
  "page_ref s p = pg_ref (pages s p)"

text \<open>The allocator changes its own fields and nothing else of the kernel state.\<close>

definition pmm_frame :: "'a pmm_scheme \<Rightarrow> 'a pmm_scheme \<Rightarrow> bool" where
  "pmm_frame s s' \<longleftrightarrow> s' = s\<lparr>pages := pages s', page_links := page_links s', nr_free := nr_free s'\<rparr>"

lemma pmm_frame_refl [simp]: "pmm_frame s s"
  by (simp add: pmm_frame_def)

lemma pmm_frameI: "s' = s\<lparr>pages := p, page_links := l, nr_free := n\<rparr> \<Longrightarrow> pmm_frame s s'"
  by (simp add: pmm_frame_def)

lemma pmm_frame_trans: "pmm_frame s t \<Longrightarrow> pmm_frame t u \<Longrightarrow> pmm_frame s u"
  unfolding pmm_frame_def by (elim ssubst) simp

lemma pmm_frame_fields:
  assumes "pmm_frame s s'"
  shows "procs s' = procs s" "run_links s' = run_links s" "run_pool s' = run_pool s" "runq s' = runq s"
    "current s' = current s" "idleproc s' = idleproc s" "sstatus s' = sstatus s" "satp s' = satp s"
    "regs s' = regs s" "pmm.more s' = pmm.more s"
  using assms unfolding pmm_frame_def by (cases s; cases s'; simp)+

section \<open>Operations\<close>

definition default_init :: "'a pmm_scheme \<Rightarrow> 'a pmm_scheme" where
  "default_init s = s\<lparr>page_links := list_init Free_list (page_links s), nr_free := 0\<rparr>"

text \<open>The loops over \<open>base .. base + n\<close>; the second argument counts the pages left.\<close>

fun init_pages :: "nat \<Rightarrow> nat \<Rightarrow> 'a pmm_scheme \<Rightarrow> 'a pmm_scheme outcome" where
  "init_pages p 0 s = Inr s"
| "init_pages p (Suc k) s = kassert (PageReserved s p) ''PageReserved(p)''
     (init_pages (p + 1) k (set_page_ref p 0 (upd_page p (\<lambda>x. x\<lparr>property := 0, pg_flags := 0\<rparr>) s)))"

fun clear_pages :: "nat \<Rightarrow> nat \<Rightarrow> 'a pmm_scheme \<Rightarrow> 'a pmm_scheme outcome" where
  "clear_pages p 0 s = Inr s"
| "clear_pages p (Suc k) s = kassert (\<not> PageReserved s p \<and> \<not> PageProperty s p) ''!PageReserved(p) && !PageProperty(p)''
     (clear_pages (p + 1) k (set_page_ref p 0 (upd_page p (\<lambda>x. x\<lparr>pg_flags := 0\<rparr>) s)))"

text \<open>
  The loop that links a block in address order, in the form of the code: after linking at
  the tail it does not stop, but goes on to the entry just linked.
\<close>

partial_function (option) link_sorted :: "nat \<Rightarrow> page_entry \<Rightarrow> page_entry list_store \<Rightarrow> page_entry list_store option" where
  "link_sorted base le links =
     (let le' = list_next links le in
      if le' = Free_list then Some links
      else if base < le2page le' then Some (list_add_before le' (Page_link base) links)
      else if list_next links le' = Free_list then link_sorted base le' (list_add le' (Page_link base) links)
      else link_sorted base le' links)"

definition link_block :: "nat \<Rightarrow> 'a pmm_scheme \<Rightarrow> 'a pmm_scheme outcome" where
  "link_block base s =
     (if list_empty (page_links s) Free_list
      then Inr (s\<lparr>page_links := list_add Free_list (Page_link base) (page_links s)\<rparr>)
      else obind (returns (link_sorted base Free_list (page_links s))) (\<lambda>l. Inr (s\<lparr>page_links := l\<rparr>)))"

definition default_init_memmap :: "nat \<Rightarrow> nat \<Rightarrow> 'a pmm_scheme \<Rightarrow> 'a pmm_scheme outcome" where
  "default_init_memmap base n s = kassert (n > 0) ''n > 0''
     (obind (init_pages base n s) (\<lambda>s1.
      let s2 = SetPageProperty base (upd_page base (\<lambda>x. x\<lparr>property := of_nat n\<rparr>) s1);
          s3 = s2\<lparr>nr_free := nr_free s2 + of_nat n\<rparr>
      in link_block base s3))"

partial_function (option) first_fit :: "nat \<Rightarrow> page_entry \<Rightarrow> 'a pmm_scheme \<Rightarrow> nat option option" where
  "first_fit n le s =
     (let le' = list_next (page_links s) le in
      if le' = Free_list then Some None
      else if unat (property (pages s (le2page le'))) \<ge> n then Some (Some (le2page le'))
      else first_fit n le' s)"

definition default_alloc_pages :: "nat \<Rightarrow> 'a pmm_scheme \<Rightarrow> (nat option \<times> 'a pmm_scheme) outcome" where
  "default_alloc_pages n s = kassert (n > 0) ''n > 0''
     (if n > unat (nr_free s) then Inr (None, s)
      else obind (returns (first_fit n Free_list s)) (\<lambda>found. case found of
        None \<Rightarrow> Inr (None, s)
      | Some page \<Rightarrow>
          let prev = list_prev (page_links s) (Page_link page);
              s1 = s\<lparr>page_links := list_del (Page_link page) (page_links s)\<rparr>;
              s2 = (if unat (property (pages s1 page)) > n then
                      let p = page + n;
                          s' = upd_page p (\<lambda>x. x\<lparr>property := of_nat (unat (property (pages s1 page)) - n)\<rparr>) s1;
                          s'' = SetPageProperty p s'
                      in s''\<lparr>page_links := list_add prev (Page_link p) (page_links s'')\<rparr>
                    else s1);
              s3 = s2\<lparr>nr_free := nr_free s2 - of_nat n\<rparr>
          in Inr (Some page, ClearPageProperty page s3)))"

text \<open>The two merges at the end of \<open>default_free_pages\<close>; the first returns the new \<open>base\<close>.\<close>

definition merge_before :: "nat \<Rightarrow> 'a pmm_scheme \<Rightarrow> nat \<times> 'a pmm_scheme" where
  "merge_before base s =
     (let le = list_prev (page_links s) (Page_link base) in
      if le \<noteq> Free_list \<and> le2page le + unat (property (pages s (le2page le))) = base then
        let p = le2page le;
            s1 = upd_page p (\<lambda>x. x\<lparr>property := property x + property (pages s base)\<rparr>) s;
            s2 = ClearPageProperty base s1
        in (p, s2\<lparr>page_links := list_del (Page_link base) (page_links s2)\<rparr>)
      else (base, s))"

definition merge_after :: "nat \<Rightarrow> 'a pmm_scheme \<Rightarrow> 'a pmm_scheme" where
  "merge_after base s =
     (let le = list_next (page_links s) (Page_link base) in
      if le \<noteq> Free_list \<and> base + unat (property (pages s base)) = le2page le then
        let p = le2page le;
            s1 = upd_page base (\<lambda>x. x\<lparr>property := property x + property (pages s p)\<rparr>) s;
            s2 = ClearPageProperty p s1
        in s2\<lparr>page_links := list_del (Page_link p) (page_links s2)\<rparr>
      else s)"

definition default_free_pages :: "nat \<Rightarrow> nat \<Rightarrow> 'a pmm_scheme \<Rightarrow> 'a pmm_scheme outcome" where
  "default_free_pages base n s = kassert (n > 0) ''n > 0''
     (obind (clear_pages base n s) (\<lambda>s1.
      let s2 = SetPageProperty base (upd_page base (\<lambda>x. x\<lparr>property := of_nat n\<rparr>) s1);
          s3 = s2\<lparr>nr_free := nr_free s2 + of_nat n\<rparr>
      in obind (link_block base s3) (\<lambda>s4.
         let (base', s5) = merge_before base s4 in Inr (merge_after base' s5))))"

definition default_nr_free_pages :: "'a pmm_scheme \<Rightarrow> nat" where
  "default_nr_free_pages s = unat (nr_free s)"

declare link_sorted.simps [code] first_fit.simps [code]

section \<open>Block lists\<close>

text \<open>
  The abstract allocator: the free blocks \<open>(first page, length)\<close> in address order.
\<close>

type_synonym blocks = "(nat \<times> nat) list"

definition total :: "blocks \<Rightarrow> nat" where
  "total bs = sum_list (map snd bs)"

definition block_pages :: "blocks \<Rightarrow> nat set" where
  "block_pages bs = (\<Union>(b, l) \<in> set bs. {b..<b + l})"

lemma block_pagesI: "(c, k) \<in> set bs \<Longrightarrow> c \<le> p \<Longrightarrow> p < c + k \<Longrightarrow> p \<in> block_pages bs"
  by (force simp: block_pages_def)

text \<open>Blocks are in order, non-empty, disjoint and never adjacent.\<close>

fun separated :: "blocks \<Rightarrow> bool" where
  "separated [] = True"
| "separated ((b, l) # bs) \<longleftrightarrow> 0 < l \<and> (\<forall>(c, k) \<in> set bs. b + l < c) \<and> separated bs"

fun take_first :: "nat \<Rightarrow> blocks \<Rightarrow> (nat \<times> blocks) option" where
  "take_first n [] = None"
| "take_first n ((b, l) # bs) =
     (if n \<le> l then Some (b, if n < l then (b + n, l - n) # bs else bs)
      else map_option (\<lambda>(r, bs'). (r, (b, l) # bs')) (take_first n bs))"

fun join_after :: "nat \<times> nat \<Rightarrow> blocks \<Rightarrow> blocks" where
  "join_after (b, n) ((c, l) # bs) = (if b + n = c then (b, n + l) # bs else (b, n) # (c, l) # bs)"
| "join_after (b, n) [] = [(b, n)]"

fun put_block :: "nat \<Rightarrow> nat \<Rightarrow> blocks \<Rightarrow> blocks" where
  "put_block b n [] = [(b, n)]"
| "put_block b n ((c, l) # bs) =
     (if b < c then join_after (b, n) ((c, l) # bs)
      else if c + l = b then join_after (c, l + n) bs
      else (c, l) # put_block b n bs)"

lemma total_simps [simp]: "total [] = 0" "total ((b, l) # bs) = l + total bs" "total (xs @ ys) = total xs + total ys"
  by (simp_all add: total_def)

lemma block_pages_simps [simp]:
  "block_pages [] = {}" "block_pages ((b, l) # bs) = {b..<b + l} \<union> block_pages bs"
  "block_pages (xs @ ys) = block_pages xs \<union> block_pages ys"
  by (auto simp: block_pages_def)

lemma separated_append: "separated (xs @ ys) \<longleftrightarrow>
    separated xs \<and> separated ys \<and> (\<forall>(b, l) \<in> set xs. \<forall>(c, k) \<in> set ys. b + l < c)"
  by (induction xs rule: separated.induct) auto

lemma separated_distinct: "separated bs \<Longrightarrow> distinct (map fst bs)"
  by (induction bs rule: separated.induct) force+

lemma separated_pos: "separated bs \<Longrightarrow> (b, l) \<in> set bs \<Longrightarrow> 0 < l"
  by (induction bs rule: separated.induct) auto

lemma separated_heads: "separated bs \<Longrightarrow> (b, l) \<in> set bs \<Longrightarrow> b \<in> block_pages bs"
  using separated_pos by (force simp: block_pages_def)

lemma take_first_None: "take_first n bs = None \<longleftrightarrow> (\<forall>(b, l) \<in> set bs. l < n)"
  by (induction bs rule: separated.induct) auto

lemma take_first_split:
  "take_first n bs = Some (r, bs') \<Longrightarrow> \<exists>xs l ys. bs = xs @ (r, l) # ys \<and> n \<le> l \<and> (\<forall>(c, k) \<in> set xs. k < n) \<and>
     bs' = xs @ (if n < l then [(r + n, l - n)] else []) @ ys"
proof (induction bs arbitrary: bs' rule: separated.induct)
  case (2 b l bs)
  show ?case
  proof (cases "n \<le> l")
    case True
    then show ?thesis using 2 by (intro exI [of _ "[]"] exI [of _ l] exI [of _ bs]) (auto split: if_splits)
  next
    case False
    then obtain bs'' where bs'': "take_first n bs = Some (r, bs'')" "bs' = (b, l) # bs''" using 2 by auto
    then obtain xs k ys where "bs = xs @ (r, k) # ys" "n \<le> k" "\<forall>(c, k) \<in> set xs. k < n"
        "bs'' = xs @ (if n < k then [(r + n, k - n)] else []) @ ys"
      using "2.IH" by blast
    with False bs'' show ?thesis by (intro exI [of _ "(b, l) # xs"] exI [of _ k] exI [of _ ys]) auto
  qed
qed simp

text \<open>What an allocation takes is a run of free pages, and what stays free is the rest.\<close>

lemma take_first_pages:
  assumes sep: "separated bs" and t: "take_first n bs = Some (r, bs')" and n: "0 < n"
  shows "separated bs'" "block_pages bs = {r..<r + n} \<union> block_pages bs'" "{r..<r + n} \<inter> block_pages bs' = {}"
    "total bs = n + total bs'"
proof -
  obtain xs l ys where s: "bs = xs @ (r, l) # ys" "n \<le> l"
      "bs' = xs @ (if n < l then [(r + n, l - n)] else []) @ ys"
    using take_first_split [OF t] by blast
  have sx: "separated xs" "separated ys" "\<forall>(b, k) \<in> set xs. b + k < r" "\<forall>(c, k) \<in> set ys. r + l < c"
      "\<forall>(b, k) \<in> set xs. \<forall>(c, m) \<in> set ys. b + k < c"
    using sep s(1) by (auto simp: separated_append)
  show "separated bs'" using s(2,3) n sx by (force simp: separated_append split: if_splits)
  show "block_pages bs = {r..<r + n} \<union> block_pages bs'" using s by (auto split: if_splits)
  show "{r..<r + n} \<inter> block_pages bs' = {}"
    using s sx n by (fastforce simp: block_pages_def split: if_splits)
  show "total bs = n + total bs'" using s by (auto split: if_splits)
qed

lemma join_after_pages:
  assumes "separated bs" "0 < n" "\<forall>(c, k) \<in> set bs. b + n \<le> c"
  shows "separated (join_after (b, n) bs)" "block_pages (join_after (b, n) bs) = {b..<b + n} \<union> block_pages bs"
    "total (join_after (b, n) bs) = n + total bs" "(c, k) \<in> set (join_after (b, n) bs) \<Longrightarrow> b \<le> c"
proof -
  show "separated (join_after (b, n) bs)" "block_pages (join_after (b, n) bs) = {b..<b + n} \<union> block_pages bs"
    "total (join_after (b, n) bs) = n + total bs"
    using assms by (cases bs; force)+
  show "(c, k) \<in> set (join_after (b, n) bs) \<Longrightarrow> b \<le> c"
    using assms by (cases bs) (force split: if_splits)+
qed

lemma join_after_heads: "\<forall>(d, k) \<in> set (join_after (c, m) bs). d = c \<or> d \<in> fst ` set bs"
proof (cases bs rule: separated.cases)
  case (2 b l bs')
  have "\<forall>(d, k) \<in> set bs'. d \<in> fst ` set bs'" by force
  with 2 show ?thesis by auto
qed simp

lemma put_block_pages:
  assumes "separated bs" "0 < n" "{b..<b + n} \<inter> block_pages bs = {}"
  shows "separated (put_block b n bs) \<and> block_pages (put_block b n bs) = {b..<b + n} \<union> block_pages bs \<and>
    total (put_block b n bs) = n + total bs \<and> (\<forall>(c, k) \<in> set (put_block b n bs). c = b \<or> c \<in> fst ` set bs)"
  using assms
proof (induction b n bs rule: put_block.induct)
  case (2 b n c l bs)
  have sep: "separated bs" "0 < l" "\<forall>(d, k) \<in> set bs. c + l < d" using "2.prems" by auto
  have disj: "b + n \<le> c \<or> c + l \<le> b"
  proof (rule ccontr)
    assume "\<not> ?thesis"
    then have "max b c \<in> {b..<b + n} \<inter> block_pages ((c, l) # bs)" using "2.prems"(2) sep(2) by auto
    with "2.prems"(3) show False by (simp only: empty_iff)
  qed
  have above: "b + n \<le> d" if "c + l \<le> b" "(d, k) \<in> set bs" "b < d" for d k
  proof (rule ccontr)
    assume "\<not> b + n \<le> d"
    then have "d \<in> {b..<b + n}" using that by auto
    moreover have "d \<in> block_pages bs" using separated_heads [OF sep(1) that(2)] .
    ultimately show False using "2.prems"(3) by auto
  qed
  consider "b < c" | "c + l = b" | "c + l < b" using disj "2.prems"(2) by linarith
  then show ?case
  proof cases
    case 1
    then have bn: "b + n \<le> c" using disj by linarith
    then have "\<forall>(d, k) \<in> set ((c, l) # bs). b + n \<le> d" using sep(3) by fastforce
    note j = join_after_pages [OF "2.prems"(1,2) this]
    with join_after_heads [of b n "(c, l) # bs"] 1 show ?thesis by simp
  next
    case 2
    have "\<forall>(d, k) \<in> set bs. c + (l + n) \<le> d" using above sep(3) 2 by fastforce
    note j = join_after_pages [OF sep(1) _ this]
    with join_after_heads [of c "l + n" bs] 2 sep show ?thesis by force
  next
    case 3
    have "{b..<b + n} \<inter> block_pages bs = {}" using "2.prems"(3) by auto
    then have IH: "separated (put_block b n bs)" "block_pages (put_block b n bs) = {b..<b + n} \<union> block_pages bs"
        "total (put_block b n bs) = n + total bs" "\<forall>(d, k) \<in> set (put_block b n bs). d = b \<or> d \<in> fst ` set bs"
      using "2.IH" 3 sep(1) "2.prems"(2) by auto
    have "\<forall>(d, k) \<in> set (put_block b n bs). c + l < d" using IH(4) sep(3) 3 by fastforce
    then show ?thesis using IH 3 sep by (auto split: prod.splits)
  qed
qed auto

section \<open>The descriptors represent a block list\<close>

abbreviation heads :: "blocks \<Rightarrow> page_entry list" where
  "heads bs \<equiv> map (\<lambda>x. Page_link (fst x)) bs"

definition free_rep :: "'a pmm_scheme \<Rightarrow> blocks \<Rightarrow> bool" where
  "free_rep s bs \<longleftrightarrow> clist (page_links s) Free_list (heads bs) \<and> separated bs \<and>
     (\<forall>(b, l) \<in> set bs. property (pages s b) = of_nat l) \<and>
     (\<forall>p. PageProperty s p \<longleftrightarrow> p \<in> fst ` set bs) \<and>
     nr_free s = of_nat (total bs) \<and> total bs < 2 ^ 32"

lemma free_repD:
  assumes "free_rep s bs"
  shows "clist (page_links s) Free_list (heads bs)" "separated bs" "(b, l) \<in> set bs \<Longrightarrow> property (pages s b) = of_nat l"
    "PageProperty s p \<longleftrightarrow> p \<in> fst ` set bs" "nr_free s = of_nat (total bs)" "total bs < 2 ^ 32"
  using assms by (auto simp: free_rep_def)

lemma total_member: "(b, l) \<in> set bs \<Longrightarrow> l \<le> total bs"
  by (induction bs rule: separated.induct) auto

lemma unat_of_nat32: "n < 2 ^ 32 \<Longrightarrow> unat (of_nat n :: 32 word) = n"
  by (simp add: unat_of_nat take_bit_nat_eq_self)

lemma free_rep_length: "free_rep s bs \<Longrightarrow> (b, l) \<in> set bs \<Longrightarrow> unat (property (pages s b)) = l"
  using free_repD(3,6) total_member by (metis order_le_less_trans unat_of_nat32)

lemma free_rep_nr: "free_rep s bs \<Longrightarrow> unat (nr_free s) = total bs"
  using free_repD(5,6) [of s bs] by (simp add: unat_of_nat32)

lemmas page_ops = upd_page_def SetPageProperty_def ClearPageProperty_def set_page_ref_def
  PageProperty_def PageReserved_def SetPageReserved_def

lemma default_init_rep:
  assumes "\<And>p. \<not> PageProperty s p"
  shows "free_rep (default_init s) []"
  using assms by (simp add: free_rep_def default_init_def clist_init PageProperty_def)

text \<open>The scan for a block that is large enough.\<close>

lemma first_fit_scan:
  assumes rep: "free_rep s (xs @ ys)"
  shows "first_fit n (last (Free_list # heads xs)) s = Some (map_option fst (take_first n ys))"
  using rep
proof (induction ys arbitrary: xs)
  case Nil
  then have "list_next (page_links s) (last (Free_list # heads xs)) = Free_list"
    using clist_next_at [of "page_links s" Free_list "heads xs" "[]"] free_repD(1) by (fastforce simp: list_next_def)
  then show ?case by (subst first_fit.simps) simp
next
  case (Cons y ys)
  obtain b l where y: "y = (b, l)" by (cases y)
  have nxt: "list_next (page_links s) (last (Free_list # heads xs)) = Page_link b"
    using clist_next_at [of "page_links s" Free_list "heads xs" "Page_link b # heads ys"] free_repD(1) [OF Cons.prems]
    by (simp add: y list_next_def)
  have len: "unat (property (pages s b)) = l" using free_rep_length [OF Cons.prems] y by simp
  define le where "le = last (Free_list # heads xs)"
  have IH: "first_fit n (Page_link b) s = Some (map_option fst (take_first n ys))"
    using Cons.IH [of "xs @ [y]"] Cons.prems by (simp add: y)
  have "first_fit n le s = Some (map_option fst (take_first n ((b, l) # ys)))"
    by (subst first_fit.simps)
      (simp add: Let_def nxt [folded le_def] len IH option.map_comp comp_def case_prod_beta)
  then show ?case by (simp only: le_def y)
qed

text \<open>Allocation refines \<open>take_first\<close>.\<close>

lemma default_alloc_pages_refines:
  assumes rep: "free_rep s bs" and n: "0 < n"
  shows "case take_first n bs of
      None \<Rightarrow> default_alloc_pages n s = Inr (None, s)
    | Some (r, bs') \<Rightarrow> \<exists>s'. default_alloc_pages n s = Inr (Some r, s') \<and> free_rep s' bs' \<and>
        (\<forall>p. pg_ref (pages s' p) = pg_ref (pages s p) \<and> PageReserved s' p = PageReserved s p) \<and> pmm_frame s s'"
proof (cases "take_first n bs")
  case None
  have "first_fit n Free_list s = Some None" using first_fit_scan [of s "[]" bs n] rep None by simp
  then show ?thesis using n None by (simp add: default_alloc_pages_def)
next
  case (Some rb)
  obtain r bs' where rb: "rb = (r, bs')" by (cases rb)
  obtain xs l ys where s: "bs = xs @ (r, l) # ys" "n \<le> l"
      "bs' = xs @ (if n < l then [(r + n, l - n)] else []) @ ys"
    using take_first_split Some rb by blast
  note D = free_repD [OF rep]
  note tp = take_first_pages [OF D(2) Some [unfolded rb] n]
  have links: "clist (page_links s) Free_list (heads xs @ Page_link r # heads ys)" using D(1) s(1) by simp
  have fit: "first_fit n Free_list s = Some (Some r)" using first_fit_scan [of s "[]" bs n] rep Some rb by simp
  have enough: "n \<le> unat (nr_free s)" using free_rep_nr [OF rep] s by simp
  have len: "unat (property (pages s r)) = l" by (rule free_rep_length [OF rep]) (simp add: s(1))
  have prev: "list_prev (page_links s) (Page_link r) = last (Free_list # heads xs)" by (rule clist_prev_at [OF links])
  have del: "clist (list_del (Page_link r) (page_links s)) Free_list (heads xs @ heads ys)" by (rule clist_del [OF links])
  have dist: "distinct (map fst bs)" by (rule separated_distinct [OF D(2)])
  let ?l1 = "list_del (Page_link r) (page_links s)"
  let ?rest = "n < l"
  let ?l2 = "if ?rest then list_add (last (Free_list # heads xs)) (Page_link (r + n)) ?l1 else ?l1"
  let ?pg = "(pages s)(r := (pages s r)\<lparr>pg_flags := unset_bit PG_property (pg_flags (pages s r))\<rparr>)"
  let ?pages = "if ?rest then ?pg(r + n := (pages s (r + n))\<lparr>property := of_nat (l - n),
      pg_flags := set_bit PG_property (pg_flags (pages s (r + n)))\<rparr>) else ?pg"
  define s' where "s' = s\<lparr>pages := ?pages, page_links := ?l2, nr_free := nr_free s - of_nat n\<rparr>"
  have run: "default_alloc_pages n s = Inr (Some r, s')"
    using n enough len
    by (simp add: default_alloc_pages_def fit Let_def prev s'_def page_ops fun_upd_twist)
  have new: "r + n \<notin> fst ` set bs" if ?rest
  proof
    assume "r + n \<in> fst ` set bs"
    then obtain k where k: "(r + n, k) \<in> set bs" by force
    have "separated ((r, l) # ys)" "\<forall>(b, m) \<in> set xs. b + m < r"
      using D(2) s(1) by (auto simp: separated_append)
    with k s(1) n that show False by fastforce
  qed
  have "clist (page_links s') Free_list (heads bs')"
  proof (cases ?rest)
    case True
    have "Page_link (r + n) \<notin> set (Free_list # heads xs @ heads ys)" using new [OF True] s(1) by force
    from clist_add_at [OF del this] show ?thesis by (simp add: s'_def True s(3))
  next
    case False
    then show ?thesis using del by (simp add: s'_def s(3))
  qed
  moreover have "\<forall>(b, k) \<in> set bs'. property (pages s' b) = of_nat k"
  proof (clarify)
    fix b k assume bk: "(b, k) \<in> set bs'"
    show "property (pages s' b) = of_nat k"
    proof (cases "?rest \<and> b = r + n")
      case True
      have "b \<notin> fst ` set xs" "b \<notin> fst ` set ys" using new True s(1) by auto
      then have "k = l - n" using bk True s(3) by (force split: if_splits)
      with True show ?thesis by (simp add: s'_def)
    next
      case False
      then have "(b, k) \<in> set bs" "b \<noteq> r" using bk s dist by (force split: if_splits)+
      with False D(3) show ?thesis by (auto simp: s'_def)
    qed
  qed
  moreover have "PageProperty s' p \<longleftrightarrow> p \<in> fst ` set bs'" for p
    using D(4) [of p] D(4) [of "r + n"] dist new s n
    by (auto simp: s'_def PageProperty_def bit_simps PG_property_def split: if_splits)
  moreover have "nr_free s' = of_nat (total bs')"
    using D(5) tp(4) by (simp add: s'_def)
  moreover have "pg_ref (pages s' p) = pg_ref (pages s p) \<and> PageReserved s' p = PageReserved s p" for p
    by (auto simp: s'_def PageReserved_def PG_property_def PG_reserved_def bit_simps)
  moreover have "pmm_frame s s'" by (simp add: s'_def pmm_frame_def)
  moreover have "free_rep s' bs'" using calculation tp(1,4) D(6) by (simp add: free_rep_def)
  ultimately show ?thesis using Some rb run by auto
qed

section \<open>Freeing\<close>

text \<open>The loops over the freed pages, in one step.\<close>

definition reset_pages :: "(page \<Rightarrow> page) \<Rightarrow> nat \<Rightarrow> nat \<Rightarrow> 'a pmm_scheme \<Rightarrow> 'a pmm_scheme" where
  "reset_pages f b n s = s\<lparr>pages := (\<lambda>p. if b \<le> p \<and> p < b + n then f (pages s p) else pages s p)\<rparr>"

lemma reset_pages_0 [simp]: "reset_pages f b 0 s = s"
proof -
  have "(\<lambda>p. if b \<le> p \<and> p < b + 0 then f (pages s p) else pages s p) = pages s" by (auto simp: fun_eq_iff)
  then show ?thesis by (simp add: reset_pages_def)
qed

lemma clear_pages_all:
  assumes "\<And>p. b \<le> p \<Longrightarrow> p < b + n \<Longrightarrow> \<not> PageReserved s p \<and> \<not> PageProperty s p"
  shows "clear_pages b n s = Inr (reset_pages (\<lambda>x. x\<lparr>pg_flags := 0, pg_ref := 0\<rparr>) b n s)"
  using assms
proof (induction n arbitrary: b s)
  case 0
  then show ?case by simp
next
  case (Suc n)
  let ?s1 = "set_page_ref b 0 (upd_page b (\<lambda>x. x\<lparr>pg_flags := 0\<rparr>) s)"
  have "\<not> PageReserved ?s1 p \<and> \<not> PageProperty ?s1 p" if "b + 1 \<le> p" "p < b + 1 + n" for p
    using Suc.prems [of p] that by (simp add: page_ops)
  from Suc.IH [OF this] have "clear_pages (b + 1) n ?s1 =
      Inr (reset_pages (\<lambda>x. x\<lparr>pg_flags := 0, pg_ref := 0\<rparr>) (b + 1) n ?s1)" .
  then show ?case using Suc.prems [of b]
    by (auto simp: reset_pages_def page_ops intro!: arg_cong [where f = "\<lambda>x. s\<lparr>pages := x\<rparr>"])
qed

lemma init_pages_all:
  assumes "\<And>p. b \<le> p \<Longrightarrow> p < b + n \<Longrightarrow> PageReserved s p"
  shows "init_pages b n s = Inr (reset_pages (\<lambda>x. x\<lparr>property := 0, pg_flags := 0, pg_ref := 0\<rparr>) b n s)"
  using assms
proof (induction n arbitrary: b s)
  case 0
  then show ?case by simp
next
  case (Suc n)
  let ?s1 = "set_page_ref b 0 (upd_page b (\<lambda>x. x\<lparr>property := 0, pg_flags := 0\<rparr>) s)"
  have "PageReserved ?s1 p" if "b + 1 \<le> p" "p < b + 1 + n" for p
    using Suc.prems [of p] that by (simp add: page_ops)
  from Suc.IH [OF this] have "init_pages (b + 1) n ?s1 =
      Inr (reset_pages (\<lambda>x. x\<lparr>property := 0, pg_flags := 0, pg_ref := 0\<rparr>) (b + 1) n ?s1)" .
  then show ?case using Suc.prems [of b]
    by (auto simp: reset_pages_def page_ops intro!: arg_cong [where f = "\<lambda>x. s\<lparr>pages := x\<rparr>"])
qed

text \<open>Between the linking and the merges adjacent blocks may occur, so the invariant is weaker.\<close>

definition linked_rep :: "'a pmm_scheme \<Rightarrow> blocks \<Rightarrow> bool" where
  "linked_rep s bs \<longleftrightarrow> clist (page_links s) Free_list (heads bs) \<and>
     (\<forall>(b, l) \<in> set bs. property (pages s b) = of_nat l) \<and>
     (\<forall>p. PageProperty s p \<longleftrightarrow> p \<in> fst ` set bs) \<and> total bs < 2 ^ 32"

lemma linked_repD:
  assumes "linked_rep s bs"
  shows "clist (page_links s) Free_list (heads bs)" "(b, l) \<in> set bs \<Longrightarrow> property (pages s b) = of_nat l"
    "PageProperty s p \<longleftrightarrow> p \<in> fst ` set bs" "total bs < 2 ^ 32" "distinct (map fst bs)"
    "(b, l) \<in> set bs \<Longrightarrow> unat (property (pages s b)) = l"
proof -
  show "distinct (map fst bs)" using assms by (auto simp: linked_rep_def clist_def distinct_map inj_on_def)
  show "(b, l) \<in> set bs \<Longrightarrow> unat (property (pages s b)) = l"
    using assms total_member by (fastforce simp: linked_rep_def intro!: unat_of_nat32 dest: order_le_less_trans)
qed (use assms in \<open>auto simp: linked_rep_def\<close>)

lemma free_rep_linked: "free_rep s bs \<longleftrightarrow> linked_rep s bs \<and> separated bs \<and> nr_free s = of_nat (total bs)"
  by (auto simp: free_rep_def linked_rep_def)

text \<open>Absorbing a block into the one before it, as both merges do.\<close>

lemma absorb_rep:
  assumes rep: "linked_rep s (xs @ (b, l) # (c, k) # ys)"
    and s': "page_links s' = list_del (Page_link c) (page_links s)"
      "pages s' = (pages s)(b := (pages s b)\<lparr>property := of_nat (l + k)\<rparr>,
         c := (pages s c)\<lparr>pg_flags := unset_bit PG_property (pg_flags (pages s c))\<rparr>)"
  shows "linked_rep s' (xs @ (b, l + k) # ys)"
proof -
  note D = linked_repD [OF rep]
  have ne: "b \<noteq> c" "c \<notin> fst ` set xs" "c \<notin> fst ` set ys" "b \<notin> fst ` set xs" "b \<notin> fst ` set ys"
    using D(5) by auto
  have "clist (page_links s) Free_list (heads (xs @ [(b, l)]) @ Page_link c # heads ys)" using D(1) by simp
  from clist_del [OF this] have "clist (page_links s') Free_list (heads (xs @ (b, l + k) # ys))"
    by (simp add: s'(1))
  moreover have "property (pages s' d) = of_nat m" if "(d, m) \<in> set (xs @ (b, l + k) # ys)" for d m
  proof (cases "d = b")
    case True
    then have "m = l + k" using that ne(4,5) by force
    with True ne(1) show ?thesis by (simp add: s'(2))
  next
    case False
    then have "(d, m) \<in> set xs \<union> set ys" "d \<noteq> c" using that ne(2,3) by force+
    with False D(2) [of d m] show ?thesis by (auto simp: s'(2))
  qed
  moreover have "PageProperty s' p \<longleftrightarrow> p \<in> fst ` set (xs @ (b, l + k) # ys)" for p
    using D(3) [of p] ne by (auto simp: s'(2) PageProperty_def bit_simps)
  ultimately show ?thesis using D(4) by (auto simp: linked_rep_def simp del: of_nat_add)
qed

lemma merge_after_frame [simp]:
  "nr_free (merge_after b s) = nr_free s" "pmm_frame s (merge_after b s)"
  "pg_ref (pages (merge_after b s) p) = pg_ref (pages s p)"
  by (simp_all add: merge_after_def Let_def page_ops pmm_frame_def)

lemma merge_after_rep:
  assumes rep: "linked_rep s (xs @ (b, n) # ys)"
  shows "linked_rep (merge_after b s) (xs @ join_after (b, n) ys)"
proof -
  note D = linked_repD [OF rep]
  have links: "clist (page_links s) Free_list (heads xs @ Page_link b # heads ys)" using D(1) by simp
  have len: "unat (property (pages s b)) = n" using D(6) by simp
  show "linked_rep (merge_after b s) (xs @ join_after (b, n) ys)"
  proof (cases ys)
    case Nil
    then have "list_next (page_links s) (Page_link b) = Free_list"
      using clist_split_next [OF links] by (simp add: list_next_def)
    then show ?thesis using rep Nil by (simp add: merge_after_def)
  next
    case (Cons y ys')
    obtain c k where y: "y = (c, k)" by (cases y)
    have nxt: "list_next (page_links s) (Page_link b) = Page_link c"
      using clist_split_next [OF links] Cons y by (simp add: list_next_def)
    show ?thesis
    proof (cases "b + n = c")
      case True
      have props: "property (pages s b) = of_nat n" "property (pages s c) = of_nat k"
        using D(2) Cons y by auto
      have "b \<noteq> c" using D(5) Cons y by simp
      then have "linked_rep (merge_after b s) (xs @ (b, n + k) # ys')"
        using rep [unfolded Cons y] nxt len True props
        by (intro absorb_rep) (auto simp: merge_after_def Let_def page_ops fun_eq_iff)
      then show ?thesis using True Cons y by simp
    next
      case False
      then show ?thesis using rep Cons y nxt len by (simp add: merge_after_def)
    qed
  qed
qed

lemma merge_before_rep:
  assumes rep: "linked_rep s (xs @ (b, n) # ys)"
  obtains s' where "linked_rep s' (if xs \<noteq> [] \<and> fst (last xs) + snd (last xs) = b
      then butlast xs @ (fst (last xs), snd (last xs) + n) # ys else xs @ (b, n) # ys)"
    "merge_before b s = (if xs \<noteq> [] \<and> fst (last xs) + snd (last xs) = b then fst (last xs) else b, s')"
    "nr_free s' = nr_free s" "pmm_frame s s'" "\<And>p. pg_ref (pages s' p) = pg_ref (pages s p)"
proof -
  note D = linked_repD [OF rep]
  have links: "clist (page_links s) Free_list (heads xs @ Page_link b # heads ys)" using D(1) by simp
  have prev: "list_prev (page_links s) (Page_link b) = last (Free_list # heads xs)" by (rule clist_prev_at [OF links])
  show ?thesis
  proof (cases xs rule: rev_cases)
    case Nil
    then have "merge_before b s = (b, s)" using prev by (simp add: merge_before_def)
    with rep Nil show ?thesis by (intro that [of s]) auto
  next
    case (snoc us u)
    obtain c k where u: "u = (c, k)" by (cases u)
    have pl: "list_prev (page_links s) (Page_link b) = Page_link c" using prev snoc u by simp
    have len: "unat (property (pages s c)) = k" using D(6) snoc u by simp
    show ?thesis
    proof (cases "c + k = b")
      case True
      have props: "property (pages s b) = of_nat n" "property (pages s c) = of_nat k" "b \<noteq> c"
        using D(2,5) snoc u by auto
      let ?s' = "snd (merge_before b s)"
      have "linked_rep ?s' (us @ (c, k + n) # ys)"
        using rep [unfolded snoc u] pl len True props
        by (intro absorb_rep) (auto simp: merge_before_def Let_def page_ops fun_eq_iff)
      moreover have "merge_before b s = (c, ?s')" using pl len True by (simp add: merge_before_def Let_def)
      moreover have "nr_free ?s' = nr_free s" "pmm_frame s ?s'" "\<And>p. pg_ref (pages ?s' p) = pg_ref (pages s p)"
        by (simp_all add: merge_before_def Let_def page_ops pmm_frame_def)
      ultimately show ?thesis using snoc u True by (intro that [of ?s']) simp_all
    next
      case False
      then have "merge_before b s = (b, s)" using pl len by (simp add: merge_before_def)
      with rep snoc u False show ?thesis by (intro that [of s]) auto
    qed
  qed
qed

text \<open>The linking loop stops at the first block above \<open>base\<close>, when there is one.\<close>

lemma link_sorted_scan:
  assumes c: "clist links Free_list (heads (xs @ ps @ (c, k) # ys))"
    and below: "\<forall>(d, m) \<in> set ps. \<not> b < d" and above: "b < c"
  shows "link_sorted b (last (Free_list # heads xs)) links = Some (list_add_before (Page_link c) (Page_link b) links)"
  using c below
proof (induction ps arbitrary: xs)
  case Nil
  define le where "le = last (Free_list # heads xs)"
  have "list_next links le = Page_link c"
    using clist_next_at [of links Free_list "heads xs" "Page_link c # heads ys"] Nil by (simp add: le_def list_next_def)
  then have "link_sorted b le links = Some (list_add_before (Page_link c) (Page_link b) links)"
    by (subst link_sorted.simps) (simp add: above)
  then show ?case by (simp only: le_def)
next
  case (Cons p ps)
  obtain d m where p: "p = (d, m)" by (cases p)
  define le where "le = last (Free_list # heads xs)"
  have l: "list_next links le = Page_link d" "list_next links (Page_link d) \<noteq> Free_list"
    using clist_next_at [of links Free_list "heads xs" "Page_link d # heads (ps @ (c, k) # ys)"]
      clist_split_next [of links Free_list "heads xs" "Page_link d" "heads (ps @ (c, k) # ys)"] Cons.prems(1) p
    by (auto simp: le_def list_next_def hd_append hd_map)
  have "link_sorted b (Page_link d) links = Some (list_add_before (Page_link c) (Page_link b) links)"
    using Cons.IH [of "xs @ [p]"] Cons.prems p by simp
  then have "link_sorted b le links = Some (list_add_before (Page_link c) (Page_link b) links)"
    using l Cons.prems(2) p by (subst link_sorted.simps) (simp add: Let_def)
  then show ?case by (simp only: le_def)
qed

lemma link_block_rep:
  assumes c: "clist (page_links s) Free_list (heads bs)" and new: "b \<notin> fst ` set bs"
    and split: "bs = xs @ ys" "\<forall>(d, m) \<in> set xs. \<not> b < d" "ys = [] \<longrightarrow> xs = []" "ys \<noteq> [] \<longrightarrow> b < fst (hd ys)"
  obtains l where "link_block b s = Inr (s\<lparr>page_links := l\<rparr>)" "clist l Free_list (heads (xs @ (b, n) # ys))"
proof (cases ys)
  case Nil
  then have "clist (list_add Free_list (Page_link b) (page_links s)) Free_list [Page_link b]"
    using clist_add_head [OF c] split by auto
  moreover have "list_empty (page_links s) Free_list" using c split Nil by (simp add: clist_empty_iff)
  ultimately show ?thesis using Nil split by (intro that) (auto simp: link_block_def)
next
  case (Cons y ys')
  obtain d k where y: "y = (d, k)" by (cases y)
  have "\<not> list_empty (page_links s) Free_list" using c split Cons by (simp add: clist_empty_iff)
  moreover have "link_sorted b Free_list (page_links s) = Some (list_add_before (Page_link d) (Page_link b) (page_links s))"
    using link_sorted_scan [of "page_links s" "[]" xs d k ys' b] c split Cons y by simp
  moreover have "clist (list_add_before (Page_link d) (Page_link b) (page_links s)) Free_list
      (heads xs @ Page_link b # Page_link d # heads ys')"
    by (rule clist_add_before) (use c new split Cons y in \<open>force+\<close>)
  ultimately show ?thesis using Cons y by (intro that) (auto simp: link_block_def)
qed

lemma separated_above: "separated ys \<Longrightarrow> ys \<noteq> [] \<longrightarrow> b < fst (hd ys) \<Longrightarrow> \<forall>(c, k) \<in> set ys. b < c"
  by (cases ys rule: separated.cases) fastforce+

lemma put_block_split:
  assumes "separated (xs @ ys)" "\<forall>(c, l) \<in> set xs. c + l \<le> b" "\<forall>(c, l) \<in> set ys. b < c"
  shows "put_block b n (xs @ ys) = (if xs \<noteq> [] \<and> fst (last xs) + snd (last xs) = b
    then butlast xs @ join_after (fst (last xs), snd (last xs) + n) ys else xs @ join_after (b, n) ys)"
  using assms
proof (induction xs rule: separated.induct)
  case 1
  then show ?case by (cases ys rule: separated.cases) auto
next
  case (2 c l xs)
  have IH: "put_block b n (xs @ ys) = (if xs \<noteq> [] \<and> fst (last xs) + snd (last xs) = b
    then butlast xs @ join_after (fst (last xs), snd (last xs) + n) ys else xs @ join_after (b, n) ys)"
    using 2 by simp
  have "c + l < b" if ne: "xs \<noteq> []"
  proof -
    obtain d m where dm: "(d, m) \<in> set xs" using ne by (cases xs rule: separated.cases) auto
    with "2.prems"(1) have "c + l < d" by auto
    moreover have "d + m \<le> b" using dm "2.prems"(2) by auto
    ultimately show ?thesis by simp
  qed
  with IH "2.prems" show ?case by auto
qed

text \<open>
  Freeing refines \<open>put_block\<close> when the block does not lie above every free block: then the
  linking loop behaves as intended.
\<close>

lemma default_free_pages_refines:
  assumes rep: "free_rep s bs" and n: "0 < n" "total bs + n < 2 ^ 32"
    and disj: "{b..<b + n} \<inter> block_pages bs = {}" and used: "\<forall>p \<in> {b..<b + n}. \<not> PageReserved s p"
    and pos: "bs = [] \<or> (\<exists>(c, k) \<in> set bs. b < c)"
  shows "\<exists>s'. default_free_pages b n s = Inr s' \<and> free_rep s' (put_block b n bs) \<and>
    (\<forall>p. pg_ref (pages s' p) = (if p \<in> {b..<b + n} then 0 else pg_ref (pages s p))) \<and> pmm_frame s s'"
proof -
  note D = free_repD [OF rep]
  have headfree: "p \<notin> fst ` set bs" if "p \<in> {b..<b + n}" for p
    using that disj separated_heads [OF D(2)] by fastforce
  let ?s1 = "reset_pages (\<lambda>x. x\<lparr>pg_flags := 0, pg_ref := 0\<rparr>) b n s"
  have clear: "clear_pages b n s = Inr ?s1"
    by (rule clear_pages_all) (use used headfree D(4) in auto)
  let ?s3 = "(SetPageProperty b (upd_page b (\<lambda>x. x\<lparr>property := of_nat n\<rparr>) ?s1))\<lparr>nr_free := nr_free s + of_nat n\<rparr>"
  have nr1: "nr_free (SetPageProperty b (upd_page b (\<lambda>x. x\<lparr>property := of_nat n\<rparr>) ?s1)) = nr_free s"
    by (simp add: page_ops reset_pages_def)
  have links3: "page_links ?s3 = page_links s" by (simp add: page_ops reset_pages_def)
  let ?xs = "takeWhile (\<lambda>x. \<not> b < fst x) bs" and ?ys = "dropWhile (\<lambda>x. \<not> b < fst x) bs"
  have bs: "bs = ?xs @ ?ys" by simp
  have xs: "\<forall>(d, m) \<in> set ?xs. \<not> b < d" by (auto dest: set_takeWhileD)
  have ys0: "?ys = [] \<longrightarrow> ?xs = []" using pos by (auto simp: dropWhile_eq_Nil_conv)
  have ysb: "?ys \<noteq> [] \<longrightarrow> b < fst (hd ?ys)"
    using hd_dropWhile [of "\<lambda>x. \<not> b < fst x" bs] by blast
  have bnew: "b \<notin> fst ` set bs" using headfree [of b] n by simp
  have c3: "clist (page_links ?s3) Free_list (heads bs)" using D(1) links3 by simp
  obtain l where l: "link_block b ?s3 = Inr (?s3\<lparr>page_links := l\<rparr>)" "clist l Free_list (heads (?xs @ (b, n) # ?ys))"
    by (rule link_block_rep [OF c3 bnew bs xs ys0 ysb]) (rule that)
  let ?s4 = "?s3\<lparr>page_links := l\<rparr>"
  have pages4: "property (pages ?s4 p) = (if p = b then of_nat n else property (pages s p))"
    "PageProperty ?s4 p \<longleftrightarrow> p = b \<or> PageProperty s p"
    "pg_ref (pages ?s4 p) = (if p \<in> {b..<b + n} then 0 else pg_ref (pages s p))" for p
    using headfree [of p] D(4) [of p] n
    by (auto simp: page_ops reset_pages_def bit_simps PG_property_def)
  have sets: "set bs = set ?xs \<union> set ?ys" using bs by (metis set_append)
  have mem: "x \<in> set (?xs @ (b, n) # ?ys) \<longleftrightarrow> x = (b, n) \<or> x \<in> set bs" for x
    using sets by auto
  have "total bs = total ?xs + total ?ys" using bs by (metis total_simps(3))
  then have tot: "total (?xs @ (b, n) # ?ys) = total bs + n" by simp
  have "linked_rep ?s4 (?xs @ (b, n) # ?ys)"
    unfolding linked_rep_def
  proof (intro conjI ballI allI)
    show "clist (page_links ?s4) Free_list (heads (?xs @ (b, n) # ?ys))" using l(2) by simp
    show "case x of (c, k) \<Rightarrow> property (pages ?s4 c) = of_nat k" if "x \<in> set (?xs @ (b, n) # ?ys)" for x
    proof (cases x)
      case (Pair c k)
      have "property (pages ?s4 c) = of_nat k"
        unfolding pages4 using that D(3) bnew unfolding mem Pair by force
      then show ?thesis by (simp only: Pair prod.case)
    qed
    show "PageProperty ?s4 p \<longleftrightarrow> p \<in> fst ` set (?xs @ (b, n) # ?ys)" for p
      unfolding pages4 D(4) using sets by auto
    show "total (?xs @ (b, n) # ?ys) < 2 ^ 32" using n tot by simp
  qed
  then obtain s5 where s5: "linked_rep s5 (if ?xs \<noteq> [] \<and> fst (last ?xs) + snd (last ?xs) = b
        then butlast ?xs @ (fst (last ?xs), snd (last ?xs) + n) # ?ys else ?xs @ (b, n) # ?ys)"
      "merge_before b ?s4 = (if ?xs \<noteq> [] \<and> fst (last ?xs) + snd (last ?xs) = b then fst (last ?xs) else b, s5)"
      "nr_free s5 = nr_free ?s4" "pmm_frame ?s4 s5" "\<And>p. pg_ref (pages s5 p) = pg_ref (pages ?s4 p)"
    by (rule merge_before_rep) (rule that)
  let ?c = "?xs \<noteq> [] \<and> fst (last ?xs) + snd (last ?xs) = b"
  let ?b' = "if ?c then fst (last ?xs) else b"
  let ?s6 = "merge_after ?b' s5"
  have run: "default_free_pages b n s = Inr ?s6"
  proof -
    have "default_free_pages b n s =
        obind (link_block b ?s3) (\<lambda>s4. let (base', s5) = merge_before b s4 in Inr (merge_after base' s5))"
      unfolding default_free_pages_def kassert_True [OF n(1)] clear obind_Inr Let_def nr1 ..
    also have "\<dots> = (let (base', s5) = (?b', s5) in Inr (merge_after base' s5))"
      unfolding l(1) obind_Inr s5(2) ..
    finally show ?thesis by simp
  qed
  have ends: "\<forall>(c, k) \<in> set ?xs. c + k \<le> b" "\<forall>(c, k) \<in> set ?ys. b < c"
  proof -
    show "\<forall>(c, k) \<in> set ?xs. c + k \<le> b"
    proof (clarify, rule ccontr)
      fix c k assume ck: "(c, k) \<in> set ?xs" "\<not> c + k \<le> b"
      have "(c, k) \<in> set bs" "\<not> b < c" using set_takeWhileD [OF ck(1)] by simp_all
      from this(1) have "b \<in> block_pages bs" by (rule block_pagesI) (use \<open>\<not> b < c\<close> ck(2) in auto)
      moreover have "b \<in> {b..<b + n}" using n(1) by simp
      ultimately show False using disj by blast
    qed
    have "separated ?ys" using D(2) bs by (metis separated_append)
    then show "\<forall>(c, k) \<in> set ?ys. b < c" using ysb by (rule separated_above)
  qed
  have put: "put_block b n bs = (if ?c then butlast ?xs @ join_after (fst (last ?xs), snd (last ?xs) + n) ?ys
      else ?xs @ join_after (b, n) ?ys)"
    using put_block_split [of ?xs ?ys b n] ends D(2) bs by simp
  have rep6: "linked_rep ?s6 (put_block b n bs)"
    unfolding put using merge_after_rep [of s5 "butlast ?xs" "fst (last ?xs)" "snd (last ?xs) + n" ?ys]
      merge_after_rep [of s5 ?xs b n ?ys] s5(1) by (auto split: if_splits)
  note put_pages = put_block_pages [OF D(2) n(1) disj]
  have "nr_free ?s6 = of_nat (total (put_block b n bs))"
    using put_pages D(5) by (simp add: s5(3) add.commute)
  then have "free_rep ?s6 (put_block b n bs)" using rep6 put_pages by (simp add: free_rep_linked)
  moreover have "pg_ref (pages ?s6 p) = (if p \<in> {b..<b + n} then 0 else pg_ref (pages s p))" for p
    by (simp only: merge_after_frame s5(5) pages4)
  moreover have "pmm_frame s ?s6"
  proof -
    have "pmm_frame s ?s4" by (simp add: pmm_frame_def page_ops reset_pages_def)
    then show ?thesis using s5(4) merge_after_frame(2) by (blast intro: pmm_frame_trans)
  qed
  ultimately show ?thesis using run by blast
qed

text \<open>The first block of a boot: the pages are reserved and the list is empty.\<close>

lemma default_init_memmap_refines:
  assumes rep: "free_rep s []" and n: "0 < n" "n < 2 ^ 32" and res: "\<forall>p \<in> {b..<b + n}. PageReserved s p"
  shows "\<exists>s'. default_init_memmap b n s = Inr s' \<and> free_rep s' [(b, n)] \<and>
    (\<forall>p \<in> {b..<b + n}. \<not> PageReserved s' p \<and> page_ref s' p = 0) \<and> pmm_frame s s'"
proof -
  note D = free_repD [OF rep]
  have clean: "init_pages b n s = Inr (reset_pages (\<lambda>x. x\<lparr>property := 0, pg_flags := 0, pg_ref := 0\<rparr>) b n s)"
    by (rule init_pages_all) (use res in auto)
  have empty: "list_empty (page_links s) Free_list" using D(1) by (simp add: clist_empty_iff)
  have "clist (list_add Free_list (Page_link b) (page_links s)) Free_list [Page_link b]"
    using clist_add_head [of "page_links s" Free_list "[]" "Page_link b"] D(1) by simp
  then show ?thesis
    using n D(4,5) empty
    by (auto simp: default_init_memmap_def clean Let_def link_block_def page_ops reset_pages_def free_rep_def
        page_ref_def pmm_frame_def bit_simps PG_property_def PG_reserved_def)
qed

section \<open>Freeing above the last block\<close>

text \<open>
  A block freed above every free block is linked twice by the loop; the second \<open>list_add\<close>, of the
  entry after itself, makes its back link point to itself. The block is not merged with its
  predecessor and a later \<open>list_del\<close> does not take it out of the list.
\<close>

lemma link_sorted_tail_scan:
  assumes c: "clist links Free_list (heads (xs @ ys))" and ne: "ys \<noteq> []" and below: "\<forall>(c, k) \<in> set (xs @ ys). c < b"
  shows "link_sorted b (last (Free_list # heads xs)) links =
    Some (list_add (Page_link b) (Page_link b) (list_add (last (heads ys)) (Page_link b) links))"
  using c ne below
proof (induction ys arbitrary: xs)
  case (Cons y ys)
  obtain d m where y: "y = (d, m)" by (cases y)
  define le where "le = last (Free_list # heads xs)"
  have nxt: "list_next links le = Page_link d"
    using clist_next_at [of links Free_list "heads xs" "Page_link d # heads ys"] Cons.prems(1) y
    by (simp add: le_def list_next_def)
  have db: "\<not> b < d" "b \<noteq> d" using Cons.prems(3) y by auto
  have c': "clist links Free_list (heads xs @ Page_link d # heads ys)" using Cons.prems(1) y by simp
  show ?case
  proof (cases "ys = []")
    case True
    let ?l1 = "list_add (Page_link d) (Page_link b) links"
    let ?l2 = "list_add (Page_link b) (Page_link b) ?l1"
    have last: "list_next links (Page_link d) = Free_list"
      using clist_split_next [OF c'] True by (simp add: list_next_def)
    have n1: "list_next ?l1 (Page_link d) = Page_link b" "list_next ?l1 (Page_link b) = Free_list"
      using last db by (auto simp: list_ops)
    have n2: "list_next ?l2 (Page_link b) = Free_list" using n1 by (auto simp: list_ops)
    have "link_sorted b le links = link_sorted b (Page_link d) ?l1"
      using nxt last db by (subst link_sorted.simps) (simp add: Let_def)
    also have "\<dots> = link_sorted b (Page_link b) ?l2"
      using n1 by (subst link_sorted.simps) (simp add: Let_def)
    also have "\<dots> = Some ?l2" using n2 by (subst link_sorted.simps) simp
    finally show ?thesis using True y by (simp only: le_def) simp
  next
    case False
    have "list_next links (Page_link d) \<noteq> Free_list"
      using clist_split_next [OF c'] False by (cases ys) (auto simp: list_next_def)
    then have "link_sorted b le links = link_sorted b (Page_link d) links"
      using nxt db by (subst link_sorted.simps) (simp add: Let_def)
    also have "\<dots> = Some (list_add (Page_link b) (Page_link b) (list_add (last (heads ys)) (Page_link b) links))"
      using Cons.IH [of "xs @ [y]"] Cons.prems(1,3) False y by simp
    finally show ?thesis using False y by (simp only: le_def) simp
  qed
qed simp

section \<open>Properties of the allocator\<close>

text \<open>C24: \<open>default_alloc_pages\<close> is first fit: it fails exactly when no free block has \<open>n\<close> pages;
  otherwise it returns the start of the lowest block that has, exactly those \<open>n\<close> pages leave
  the free set, and the free list stays sorted, disjoint and coalesced.\<close>

theorem alloc_pages_first_fit:
  assumes "free_rep s bs" "0 < n"
  shows "\<exists>r s' bs'. default_alloc_pages n s = Inr (r, s') \<and> free_rep s' bs' \<and>
    (case r of
       None \<Rightarrow> (\<forall>(b, l) \<in> set bs. l < n) \<and> s' = s \<and> bs' = bs
     | Some p \<Rightarrow> (\<exists>l. (p, l) \<in> set bs \<and> n \<le> l) \<and> (\<forall>(b, l) \<in> set bs. n \<le> l \<longrightarrow> p \<le> b) \<and>
         block_pages bs = {p..<p + n} \<union> block_pages bs' \<and> {p..<p + n} \<inter> block_pages bs' = {} \<and>
         total bs = n + total bs')"
proof (cases "take_first n bs")
  case None
  then have "default_alloc_pages n s = Inr (None, s)" using default_alloc_pages_refines [OF assms] by simp
  moreover have "\<forall>(b, l) \<in> set bs. l < n" using None by (simp add: take_first_None)
  ultimately show ?thesis using assms(1)
    by (intro exI [of _ None] exI [of _ s] exI [of _ bs]) simp
next
  case (Some rb)
  obtain p bs' where rb: "rb = (p, bs')" by (cases rb)
  obtain s' where s': "default_alloc_pages n s = Inr (Some p, s')" "free_rep s' bs'"
    using default_alloc_pages_refines [OF assms] Some rb by auto
  obtain xs l ys where split: "bs = xs @ (p, l) # ys" "n \<le> l" "\<forall>(c, k) \<in> set xs. k < n"
    using take_first_split Some rb by blast
  have sep: "separated bs" by (rule free_repD(2) [OF assms(1)])
  have "p \<le> b" if "(b, k) \<in> set bs" "n \<le> k" for b k
    using that split sep by (fastforce simp: separated_append)
  then show ?thesis
    using s' split take_first_pages [OF sep Some [unfolded rb] assms(2)]
    by (intro exI [of _ "Some p"] exI [of _ s'] exI [of _ bs']) auto
qed

text \<open>An allocator with one free block of eight pages and one of four.\<close>

definition demo_pmm :: pmm where
  "demo_pmm = (let f = id(Free_list := Page_link 10, Page_link 10 := Page_link 30, Page_link 30 := Free_list);
     g = id(Free_list := Page_link 30, Page_link 10 := Free_list, Page_link 30 := Page_link 10) in
     cpu.extend demo_cpu (pmm.fields (\<lambda>p. \<lparr>pg_ref = 0, pg_flags = (if p = 10 \<or> p = 30 then 2 else 0),
        property = (if p = 10 then 4 else if p = 30 then 8 else 0), pra_vaddr = 0\<rparr>)
      \<lparr>prev_of = g, next_of = f\<rparr> 12))"

lemma demo_pmm_simps:
  "pages demo_pmm = (\<lambda>p. \<lparr>pg_ref = 0, pg_flags = (if p = 10 \<or> p = 30 then 2 else 0),
     property = (if p = 10 then 4 else if p = 30 then 8 else 0), pra_vaddr = 0\<rparr>)"
  "page_links demo_pmm =
     \<lparr>prev_of = id(Free_list := Page_link 30, Page_link 10 := Free_list, Page_link 30 := Page_link 10),
      next_of = id(Free_list := Page_link 10, Page_link 10 := Page_link 30, Page_link 30 := Free_list)\<rparr>"
  "nr_free demo_pmm = 12"
  by (simp_all add: demo_pmm_def Let_def cpu.defs pmm.defs)

lemma demo_pmm_rep: "free_rep demo_pmm [(10, 4), (30, 8)]"
  by (auto simp: free_rep_def demo_pmm_simps clist_def PageProperty_def PG_property_def bit_2_iff)

theorem alloc_pages_first_fit_witness:
  "\<exists>r s'. default_alloc_pages 6 demo_pmm = Inr (r, s') \<and> r \<noteq> None"
  using alloc_pages_first_fit [OF demo_pmm_rep, of 6] by (auto split: option.splits)



text \<open>a block linked above every free block gets a back link to itself, because the loop links it a
  second time after itself, and deleting it then leaves the free list unchanged: the next
  allocation of it hands it out while it stays on the list.\<close>

theorem free_above_all_stays_linked:
  assumes "clist links Free_list (heads bs)" "bs \<noteq> []" "\<forall>(c, k) \<in> set bs. c < b"
  shows "\<exists>l. link_sorted b Free_list links = Some l \<and> list_prev l (Page_link b) = Page_link b \<and>
    list_next l (last (heads bs)) = Page_link b \<and>
    list_next (list_del (Page_link b) l) (last (heads bs)) = Page_link b"
proof -
  let ?l = "list_add (Page_link b) (Page_link b) (list_add (last (heads bs)) (Page_link b) links)"
  have "link_sorted b Free_list links = Some ?l"
    using link_sorted_tail_scan [of links "[]" bs b] assms by simp
  moreover have "last (heads bs) \<noteq> Page_link b"
  proof -
    have "last (heads bs) \<in> set (heads bs)" using assms(2) by (intro last_in_set) simp
    then show ?thesis using assms(3) by auto
  qed
  ultimately show ?thesis by (intro exI [of _ ?l]) (simp add: list_ops)
qed

theorem free_above_all_stays_linked_witness:
  "\<exists>l. link_sorted 50 Free_list (page_links demo_pmm) = Some l \<and> list_prev l (Page_link 50) = Page_link 50"
  using free_above_all_stays_linked [of "page_links demo_pmm" "[(10, 4), (30, 8)]" 50] free_repD(1) [OF demo_pmm_rep]
  by auto

end
