(* ===== verification/Page_Table.thy ===== *)
theory Page_Table
  imports Page_Alloc Error_Codes
begin

text \<open>
  Address arithmetic (kern/mm/mmu.h, kern/mm/pmm.h) and the Sv39 page tables of
  kern/mm/pmm.c. Physical memory is, per page frame, an array of 512 64-bit words; a page
  directory or table is the number of the frame that holds it, and a \<open>pte_t *\<close> is a frame
  and an index. The kernel reaches every frame through the linear map at \<open>va_pa_offset\<close>,
  so a kernel virtual address of a page and its frame number say the same.
\<close>

section \<open>Addresses\<close>

definition PTE_V :: "64 word" where "PTE_V = 0x001"
definition PTE_R :: "64 word" where "PTE_R = 0x002"
definition PTE_W :: "64 word" where "PTE_W = 0x004"
definition PTE_X :: "64 word" where "PTE_X = 0x008"
definition PTE_U :: "64 word" where "PTE_U = 0x010"
definition PTE_USER :: "64 word" where "PTE_USER = PTE_R OR PTE_W OR PTE_X OR PTE_U OR PTE_V"

definition PGSIZE :: "64 word" where "PGSIZE = 4096"
definition PTSIZE :: "64 word" where "PTSIZE = PGSIZE * 512"
definition PDSIZE :: "64 word" where "PDSIZE = PTSIZE * 512"
definition USERBASE :: "64 word" where "USERBASE = 0x00200000"
definition USERTOP :: "64 word" where "USERTOP = 0x80000000"

definition PDX1 :: "64 word \<Rightarrow> nat" where "PDX1 la = unat (drop_bit 30 la AND 0x1FF)"
definition PDX0 :: "64 word \<Rightarrow> nat" where "PDX0 la = unat (drop_bit 21 la AND 0x1FF)"
definition PTX :: "64 word \<Rightarrow> nat" where "PTX la = unat (drop_bit 12 la AND 0x1FF)"
definition PPN :: "64 word \<Rightarrow> 64 word" where "PPN la = drop_bit 12 la"
definition PGOFF :: "64 word \<Rightarrow> 64 word" where "PGOFF la = la AND 0xFFF"

definition PGADDR :: "nat \<Rightarrow> nat \<Rightarrow> nat \<Rightarrow> 64 word \<Rightarrow> 64 word" where
  "PGADDR d1 d0 t off = push_bit 30 (of_nat d1) OR push_bit 21 (of_nat d0) OR push_bit 12 (of_nat t) OR off"

definition PTE_ADDR :: "64 word \<Rightarrow> 64 word" where
  "PTE_ADDR pte = push_bit 2 (pte AND NOT 0x3FF)"

definition USER_ACCESS :: "64 word \<Rightarrow> 64 word \<Rightarrow> bool" where
  "USER_ACCESS start end \<longleftrightarrow> USERBASE \<le> start \<and> start < end \<and> end \<le> USERTOP"

definition ROUNDDOWN :: "64 word \<Rightarrow> 64 word \<Rightarrow> 64 word" where
  "ROUNDDOWN a n = a - a mod n"

definition ROUNDUP :: "64 word \<Rightarrow> 64 word \<Rightarrow> 64 word" where
  "ROUNDUP a n = ROUNDDOWN (a + n - 1) n"

text \<open>\<open>pte_create(ppn, type)\<close>; \<open>type\<close> is a C \<open>int\<close>, so it is sign-extended.\<close>

definition pte_create :: "64 word \<Rightarrow> 32 word \<Rightarrow> 64 word" where
  "pte_create ppn type = push_bit 10 ppn OR PTE_V OR scast type"

definition ptd_create :: "64 word \<Rightarrow> 64 word" where
  "ptd_create ppn = pte_create ppn 1"

section \<open>Memory\<close>

record mem = pmm +
  phys :: "nat \<Rightarrow> nat \<Rightarrow> 64 word"
  npage :: nat

type_synonym pte_ref = "nat \<times> nat"

definition pte_at :: "'a mem_scheme \<Rightarrow> pte_ref \<Rightarrow> 64 word" where
  "pte_at s p = phys s (fst p) (snd p)"

definition set_pte :: "pte_ref \<Rightarrow> 64 word \<Rightarrow> 'a mem_scheme \<Rightarrow> 'a mem_scheme" where
  "set_pte p w s = s\<lparr>phys := (phys s)(fst p := (phys s (fst p))(snd p := w))\<rparr>"

text \<open>\<open>memset(KADDR(page), 0, PGSIZE)\<close> and \<open>memcpy\<close> of one page.\<close>

definition zero_page :: "nat \<Rightarrow> 'a mem_scheme \<Rightarrow> 'a mem_scheme" where
  "zero_page p s = s\<lparr>phys := (phys s)(p := (\<lambda>_. 0))\<rparr>"

definition copy_page :: "nat \<Rightarrow> nat \<Rightarrow> 'a mem_scheme \<Rightarrow> 'a mem_scheme" where
  "copy_page dst src s = s\<lparr>phys := (phys s)(dst := phys s src)\<rparr>"

definition pa2page :: "'a mem_scheme \<Rightarrow> 64 word \<Rightarrow> nat outcome" where
  "pa2page s pa = (if unat (PPN pa) \<ge> npage s then Inl (Panic ''pa2page called with invalid pa'')
     else Inr (unat (PPN pa)))"

definition KADDR :: "'a mem_scheme \<Rightarrow> 64 word \<Rightarrow> nat outcome" where
  "KADDR s pa = (if unat (PPN pa) \<ge> npage s then Inl (Panic ''KADDR called with invalid pa'')
     else Inr (unat (PPN pa)))"

definition page2pa :: "nat \<Rightarrow> 64 word" where
  "page2pa page = push_bit 12 (of_nat page)"

definition pte2page :: "'a mem_scheme \<Rightarrow> 64 word \<Rightarrow> nat outcome" where
  "pte2page s pte = (if pte AND PTE_V = 0 then Inl (Panic ''pte2page called with invalid pte'')
     else pa2page s (PTE_ADDR pte))"

definition pde2page :: "'a mem_scheme \<Rightarrow> 64 word \<Rightarrow> nat outcome" where
  "pde2page s pde = pa2page s (PTE_ADDR pde)"

definition page_ref_inc :: "nat \<Rightarrow> 'a pmm_scheme \<Rightarrow> 'a pmm_scheme" where
  "page_ref_inc p s = upd_page p (\<lambda>x. x\<lparr>pg_ref := pg_ref x + 1\<rparr>) s"

definition page_ref_dec :: "nat \<Rightarrow> 'a pmm_scheme \<Rightarrow> 'a pmm_scheme" where
  "page_ref_dec p s = upd_page p (\<lambda>x. x\<lparr>pg_ref := pg_ref x - 1\<rparr>) s"

text \<open>The entry points of the page allocator, with interrupts off around the manager's calls.\<close>

definition alloc_pages :: "nat \<Rightarrow> 'a pmm_scheme \<Rightarrow> (nat option \<times> 'a pmm_scheme) outcome" where
  "alloc_pages n s = (let (f, s1) = intr_save s in
     obind (default_alloc_pages n s1) (\<lambda>(page, s2). Inr (page, intr_restore f s2)))"

definition free_pages :: "nat \<Rightarrow> nat \<Rightarrow> 'a pmm_scheme \<Rightarrow> 'a pmm_scheme outcome" where
  "free_pages base n s = (let (f, s1) = intr_save s in
     obind (default_free_pages base n s1) (\<lambda>s2. Inr (intr_restore f s2)))"

definition nr_free_pages :: "'a pmm_scheme \<Rightarrow> nat \<times> 'a pmm_scheme" where
  "nr_free_pages s = (let (f, s1) = intr_save s in (default_nr_free_pages s1, intr_restore f s1))"

section \<open>Walking and changing the tables\<close>

text \<open>
  One level of \<open>get_pte\<close>: the entry at index \<open>i\<close> of table \<open>t\<close> is followed, after a fresh zeroed
  table was put there if it was invalid and \<open>create\<close> is set. \<open>None\<close> is the return of NULL.
\<close>

definition walk_level :: "nat \<Rightarrow> nat \<Rightarrow> bool \<Rightarrow> 'a mem_scheme \<Rightarrow> (nat option \<times> 'a mem_scheme) outcome" where
  "walk_level t i create s =
     obind (if pte_at s (t, i) AND PTE_V \<noteq> 0 then Inr (True, s)
            else if \<not> create then Inr (False, s)
            else obind (alloc_pages 1 s) (\<lambda>(r, s1). case r of
                None \<Rightarrow> Inr (False, s1)
              | Some page \<Rightarrow>
                  let s2 = set_page_ref page 1 s1 in
                  obind (KADDR s2 (page2pa page)) (\<lambda>k.
                  Inr (True, set_pte (t, i) (pte_create (of_nat page) (0x10 OR 1)) (zero_page k s2)))))
       (\<lambda>(present, s'). if present then
            obind (KADDR s' (PTE_ADDR (pte_at s' (t, i)))) (\<lambda>next. Inr (Some next, s'))
          else Inr (None, s'))"

definition get_pte :: "nat \<Rightarrow> 64 word \<Rightarrow> bool \<Rightarrow> 'a mem_scheme \<Rightarrow> (pte_ref option \<times> 'a mem_scheme) outcome" where
  "get_pte pd la create s =
     obind (walk_level pd (PDX1 la) create s) (\<lambda>(r1, s1). case r1 of
       None \<Rightarrow> Inr (None, s1)
     | Some pd0 \<Rightarrow> obind (walk_level pd0 (PDX0 la) create s1) (\<lambda>(r0, s2). case r0 of
           None \<Rightarrow> Inr (None, s2)
         | Some pt \<Rightarrow> Inr (Some (pt, PTX la), s2)))"

definition get_page :: "nat \<Rightarrow> 64 word \<Rightarrow> 'a mem_scheme \<Rightarrow> (nat option \<times> 'a mem_scheme) outcome" where
  "get_page pd la s =
     obind (get_pte pd la False s) (\<lambda>(ptep, s1). case ptep of
       None \<Rightarrow> Inr (None, s1)
     | Some p \<Rightarrow> if pte_at s1 p AND PTE_V \<noteq> 0
         then obind (pte2page s1 (pte_at s1 p)) (\<lambda>page. Inr (Some page, s1)) else Inr (None, s1))"

definition page_remove_pte :: "nat \<Rightarrow> 64 word \<Rightarrow> pte_ref \<Rightarrow> 'a mem_scheme \<Rightarrow> 'a mem_scheme outcome" where
  "page_remove_pte pd la ptep s =
     (if pte_at s ptep AND PTE_V \<noteq> 0 then
        obind (pte2page s (pte_at s ptep)) (\<lambda>page.
          let s1 = page_ref_dec page s in
          obind (if page_ref s1 page = 0 then free_pages page 1 s1 else Inr s1)
            (\<lambda>s2. Inr (set_pte ptep 0 s2)))
      else Inr s)"

definition page_remove :: "nat \<Rightarrow> 64 word \<Rightarrow> 'a mem_scheme \<Rightarrow> 'a mem_scheme outcome" where
  "page_remove pd la s =
     obind (get_pte pd la False s) (\<lambda>(ptep, s1). case ptep of
       None \<Rightarrow> Inr s1 | Some p \<Rightarrow> page_remove_pte pd la p s1)"

definition page_insert :: "nat \<Rightarrow> nat \<Rightarrow> 64 word \<Rightarrow> 32 word \<Rightarrow> 'a mem_scheme \<Rightarrow> (int \<times> 'a mem_scheme) outcome" where
  "page_insert pd page la perm s =
     obind (get_pte pd la True s) (\<lambda>(r, s1). case r of
       None \<Rightarrow> Inr (- E_NO_MEM, s1)
     | Some ptep \<Rightarrow>
         let s2 = page_ref_inc page s1 in
         obind (if pte_at s2 ptep AND PTE_V \<noteq> 0 then
                  obind (pte2page s2 (pte_at s2 ptep)) (\<lambda>p.
                    if p = page then Inr (page_ref_dec page s2) else page_remove_pte pd la ptep s2)
                else Inr s2)
           (\<lambda>s3. Inr (0, set_pte ptep (pte_create (of_nat page) (1 OR perm)) s3)))"

definition pgdir_alloc_page :: "nat \<Rightarrow> 64 word \<Rightarrow> 32 word \<Rightarrow> 'a mem_scheme \<Rightarrow> (nat option \<times> 'a mem_scheme) outcome" where
  "pgdir_alloc_page pd la perm s =
     obind (alloc_pages 1 s) (\<lambda>(r, s1). case r of
       None \<Rightarrow> Inr (None, s1)
     | Some page \<Rightarrow> obind (page_insert pd page la perm s1) (\<lambda>(ret, s2).
         if ret \<noteq> 0 then obind (free_pages page 1 s2) (\<lambda>s3. Inr (None, s3))
         else let s3 = upd_page page (\<lambda>x. x\<lparr>pra_vaddr := la\<rparr>) s2 in
           kassert (page_ref s3 page = 1) ''page_ref(page) == 1'' (Inr (Some page, s3))))"

section \<open>The allocator seen by its clients\<close>

text \<open>
  What the page tables, the kernel stacks and \<open>kmalloc\<close> rely on: \<open>avail s F\<close> says that
  \<open>F\<close> is the set of free pages. A single page can be had as long as there is one; a run can
  be given back if some free page lies above it.
\<close>

locale page_allocator =
  fixes alloc :: "nat \<Rightarrow> 's \<Rightarrow> (nat option \<times> 's) outcome" and free :: "nat \<Rightarrow> nat \<Rightarrow> 's \<Rightarrow> 's outcome"
    and avail :: "'s \<Rightarrow> nat set \<Rightarrow> bool" and usable :: "'s \<Rightarrow> nat \<Rightarrow> bool" and refc :: "'s \<Rightarrow> nat \<Rightarrow> int"
    and frame :: "'s \<Rightarrow> 's \<Rightarrow> bool"
  assumes alloc_ok: "avail s F \<Longrightarrow> 0 < n \<Longrightarrow>
      \<exists>r s'. alloc n s = Inr (r, s') \<and> frame s s' \<and> (\<forall>p. usable s' p = usable s p \<and> refc s' p = refc s p) \<and>
        (case r of None \<Rightarrow> avail s' F | Some p \<Rightarrow> {p..<p + n} \<subseteq> F \<and> avail s' (F - {p..<p + n}))"
    and alloc_one: "avail s F \<Longrightarrow> alloc 1 s = Inr (None, s') \<Longrightarrow> F = {}"
    and free_ok: "avail s F \<Longrightarrow> 0 < n \<Longrightarrow> {b..<b + n} \<inter> F = {} \<Longrightarrow> \<forall>p \<in> {b..<b + n}. usable s p \<Longrightarrow>
      card F + n < 2 ^ 32 \<Longrightarrow> F = {} \<or> (\<exists>p \<in> F. b < p) \<Longrightarrow>
      \<exists>s'. free b n s = Inr s' \<and> frame s s' \<and> avail s' ({b..<b + n} \<union> F) \<and>
        (\<forall>p. usable s' p = usable s p \<and> refc s' p = (if p \<in> {b..<b + n} then 0 else refc s p))"
begin

text \<open>Two pages allocated one after the other are different and were both free.\<close>

lemma alloc_twice:
  assumes "avail s F" "alloc 1 s = Inr (Some p, s1)" "alloc 1 s1 = Inr (Some q, s2)"
  shows "p \<noteq> q" "p \<in> F" "q \<in> F" "avail s2 (F - {p, q})"
proof -
  have p: "p \<in> F" "avail s1 (F - {p})" using alloc_ok [OF assms(1), of 1] assms(2) by auto
  have q: "q \<in> F - {p}" "avail s2 (F - {p} - {q})" using alloc_ok [OF p(2), of 1] assms(3) by auto
  show "p \<noteq> q" "p \<in> F" "q \<in> F" using p q by auto
  have "F - {p} - {q} = F - {p, q}" by auto
  with q show "avail s2 (F - {p, q})" by simp
qed

text \<open>A page allocated and freed again is available again.\<close>

lemma alloc_free:
  assumes "avail s F" "alloc 1 s = Inr (Some p, s1)" "usable s p" "card F < 2 ^ 32" "finite F"
    "F = {p} \<or> (\<exists>q \<in> F. p < q)"
  shows "\<exists>s2. free p 1 s1 = Inr s2 \<and> avail s2 F"
proof -
  have p: "p \<in> F" "avail s1 (F - {p})" "usable s1 p" using alloc_ok [OF assms(1), of 1] assms(2,3) by auto
  have "card (F - {p}) + 1 < 2 ^ 32" using assms(4,5) p(1) by (simp add: card_gt_0_iff card_Diff_singleton)
  moreover have "F - {p} = {} \<or> (\<exists>q \<in> F - {p}. p < q)" using assms(6) by auto
  ultimately obtain s2 where "free p 1 s1 = Inr s2" "avail s2 ({p..<p + 1} \<union> (F - {p}))"
    using free_ok [OF p(2), of 1 p] p(3) by auto
  moreover have "{p..<p + 1} \<union> (F - {p}) = F" using p(1) by auto
  ultimately show ?thesis by auto
qed

end

definition free_set :: "'a pmm_scheme \<Rightarrow> nat set \<Rightarrow> bool" where
  "free_set s F \<longleftrightarrow> (\<exists>bs. free_rep s bs \<and> block_pages bs = F)"

definition unreserved :: "'a pmm_scheme \<Rightarrow> nat \<Rightarrow> bool" where
  "unreserved s p \<longleftrightarrow> \<not> PageReserved s p"

lemma finite_block_pages [simp]: "finite (block_pages bs)"
  by (induction bs rule: separated.induct) auto

lemma card_block_pages: "separated bs \<Longrightarrow> card (block_pages bs) = total bs"
proof (induction bs rule: separated.induct)
  case (2 b l bs)
  have "{b..<b + l} \<inter> block_pages bs = {}" using 2 by (fastforce simp: block_pages_def)
  with 2 show ?case by (simp add: card_Un_disjoint)
qed simp

lemma free_rep_intr: "free_rep (snd (intr_save s)) bs = free_rep s bs" "free_rep (intr_restore f s) bs = free_rep s bs"
  by (simp_all add: free_rep_def PageProperty_def intr_save_def intr_disable_def intr_restore_def intr_enable_def)

lemma pages_intr [simp]:
  "pages (snd (intr_save s)) = pages s" "pages (intr_restore f s) = pages s"
  by (simp_all add: intr_save_def intr_disable_def intr_restore_def intr_enable_def)

lemma intr_restore_status:
  obtains b where "intr_restore f s = s\<lparr>sstatus := b\<rparr>"
proof (cases f)
  case True
  then show ?thesis using that [of "sstatus s OR SSTATUS_SIE"] by (simp add: intr_restore_def intr_enable_def)
next
  case False
  then show ?thesis using that [of "sstatus s"] by (simp add: intr_restore_def)
qed

lemma pmm_frame_intr:
  assumes "intr_save s = (f, s1)" "pmm_frame s1 s2"
  shows "pmm_frame s (intr_restore f s2)"
proof -
  have st: "sstatus (intr_restore f s2) = sstatus s"
    by (rule intr_save_restore [OF assms(1) pmm_frame_fields(7) [OF assms(2)]])
  obtain p l n where s2: "s2 = s1\<lparr>pages := p, page_links := l, nr_free := n\<rparr>"
    using assms(2) unfolding pmm_frame_def by blast
  obtain a where s1: "s1 = s\<lparr>sstatus := a\<rparr>"
    using assms(1) by (cases s) (auto simp: intr_save_def intr_disable_def split: if_splits)
  obtain b where r: "intr_restore f s2 = s2\<lparr>sstatus := b\<rparr>"
    by (rule intr_restore_status)
  have "b = sstatus s" using st r by simp
  then have "intr_restore f s2 = s\<lparr>pages := p, page_links := l, nr_free := n\<rparr>"
    by (subst r, subst s2, subst s1) (cases s, simp)
  then show ?thesis by (rule pmm_frameI)
qed

lemma alloc_pages_eq:
  assumes "intr_save s = (f, s1)" "default_alloc_pages n s1 = Inr (r, s2)"
  shows "alloc_pages n s = Inr (r, intr_restore f s2)"
  using assms by (simp add: alloc_pages_def)

lemma PageReserved_intr [simp]:
  "PageReserved (snd (intr_save s)) p = PageReserved s p" "PageReserved (intr_restore f s) p = PageReserved s p"
  by (simp_all add: PageReserved_def)

text \<open>Freeing does not reserve or unreserve a page.\<close>

lemma clear_pages_reserved: "clear_pages p k s = Inr s' \<Longrightarrow> PageReserved s' q = PageReserved s q"
proof (induction p k s rule: clear_pages.induct)
  case (2 p k s)
  let ?s1 = "set_page_ref p 0 (upd_page p (\<lambda>x. x\<lparr>pg_flags := 0\<rparr>) s)"
  have "\<not> PageReserved s p" "PageReserved s' q = PageReserved ?s1 q"
    using 2 by (auto simp: outcome_simps)
  then show ?case by (auto simp: page_ops)
qed simp

lemma link_block_reserved: "link_block b s = Inr s' \<Longrightarrow> PageReserved s' q = PageReserved s q"
  by (auto simp: link_block_def outcome_simps PageReserved_def split: if_splits)

lemma merge_reserved:
  "PageReserved (merge_after b s) q = PageReserved s q" "PageReserved (snd (merge_before b s)) q = PageReserved s q"
  by (auto simp: merge_after_def merge_before_def Let_def page_ops PageReserved_def bit_simps PG_reserved_def PG_property_def)

lemma free_pages_reserved:
  assumes "default_free_pages b n s = Inr s'"
  shows "PageReserved s' q = PageReserved s q"
proof -
  let ?s3 = "\<lambda>s1. (SetPageProperty b (upd_page b (\<lambda>x. x\<lparr>property := of_nat n\<rparr>) s1))\<lparr>nr_free := nr_free (SetPageProperty b (upd_page b (\<lambda>x. x\<lparr>property := of_nat n\<rparr>) s1)) + of_nat n\<rparr>"
  obtain s1 s4 where run: "clear_pages b n s = Inr s1" "link_block b (?s3 s1) = Inr s4"
      "s' = merge_after (fst (merge_before b s4)) (snd (merge_before b s4))"
    using assms unfolding default_free_pages_def Let_def
    by (auto simp: kassert_eq_Inr obind_eq_Inr case_prod_beta)
  have "PageReserved (?s3 s1) q = PageReserved s1 q"
    by (auto simp: page_ops bit_simps PG_reserved_def PG_property_def)
  then show ?thesis
    using clear_pages_reserved [OF run(1)] link_block_reserved [OF run(2)] by (simp only: run(3) merge_reserved)
qed

interpretation pa: page_allocator alloc_pages free_pages free_set unreserved page_ref pmm_frame
proof
  fix s s' :: "'a pmm_scheme" and F n b
  obtain f s1 where s1: "intr_save s = (f, s1)" by (cases "intr_save s")
  then have s1_eq: "s1 = snd (intr_save s)" by simp
  show "\<exists>r s'. alloc_pages n s = Inr (r, s') \<and> pmm_frame s s' \<and> (\<forall>p. unreserved s' p = unreserved s p \<and> page_ref s' p = page_ref s p) \<and>
        (case r of None \<Rightarrow> free_set s' F | Some p \<Rightarrow> {p..<p + n} \<subseteq> F \<and> free_set s' (F - {p..<p + n}))"
    if F: "free_set s F" and n: "0 < n"
  proof -
    obtain bs where bs: "free_rep s1 bs" "block_pages bs = F"
      using F unfolding s1_eq free_set_def free_rep_intr by blast
    note ref = default_alloc_pages_refines [OF bs(1) n]
    show ?thesis
    proof (cases "take_first n bs")
      case None
      then have "alloc_pages n s = Inr (None, intr_restore f s1)"
        using ref by (intro alloc_pages_eq [OF s1]) simp
      moreover have "free_set (intr_restore f s1) F" unfolding free_set_def free_rep_intr using bs by blast
      ultimately show ?thesis
        using pmm_frame_intr [OF s1 pmm_frame_refl]
        by (intro exI [of _ None] exI [of _ "intr_restore f s1"]) (simp add: unreserved_def page_ref_def s1_eq)
    next
      case (Some rb)
      obtain r bs' where rb: "rb = (r, bs')" by (cases rb)
      obtain s2 where s2: "default_alloc_pages n s1 = Inr (Some r, s2)" "free_rep s2 bs'" "pmm_frame s1 s2"
          "\<forall>p. PageReserved s2 p = PageReserved s1 p" "\<forall>p. pg_ref (pages s2 p) = pg_ref (pages s1 p)"
        using ref Some rb by auto
      note tp = take_first_pages [OF free_repD(2) [OF bs(1)] Some [unfolded rb] n]
      have "F - {r..<r + n} = block_pages bs'" using tp(2,3) bs(2) by auto
      then have "free_set (intr_restore f s2) (F - {r..<r + n})"
        unfolding free_set_def free_rep_intr using s2(2) by blast
      moreover have "{r..<r + n} \<subseteq> F" using tp(2) bs(2) by auto
      ultimately show ?thesis
        using alloc_pages_eq [OF s1 s2(1)] pmm_frame_intr [OF s1 s2(3)] s2(4,5)
        by (intro exI [of _ "Some r"] exI [of _ "intr_restore f s2"]) (simp add: unreserved_def page_ref_def s1_eq)
    qed
  qed
  show "F = {}" if F: "free_set s F" and none: "alloc_pages 1 s = Inr (None, s')"
  proof -
    obtain bs where bs: "free_rep s1 bs" "block_pages bs = F"
      using F unfolding s1_eq free_set_def free_rep_intr by blast
    have "take_first 1 bs = None"
    proof (rule ccontr)
      assume "take_first 1 bs \<noteq> None"
      then obtain r bs' s2 where "default_alloc_pages 1 s1 = Inr (Some r, s2)"
        using default_alloc_pages_refines [OF bs(1), of 1] by auto
      with none show False using alloc_pages_eq [OF s1] by auto
    qed
    then have "\<forall>(b, l) \<in> set bs. l < 1" by (simp only: take_first_None)
    then have "bs = []" using separated_pos [OF free_repD(2) [OF bs(1)]] by (cases bs) fastforce+
    with bs(2) show ?thesis by simp
  qed
  show "\<exists>s'. free_pages b n s = Inr s' \<and> pmm_frame s s' \<and> free_set s' ({b..<b + n} \<union> F) \<and>
      (\<forall>p. unreserved s' p = unreserved s p \<and> page_ref s' p = (if p \<in> {b..<b + n} then 0 else page_ref s p))"
    if F: "free_set s F" and pre: "0 < n" "{b..<b + n} \<inter> F = {}" "\<forall>p \<in> {b..<b + n}. unreserved s p"
      "card F + n < 2 ^ 32" "F = {} \<or> (\<exists>p \<in> F. b < p)"
  proof -
    obtain bs where bs: "free_rep s1 bs" "block_pages bs = F"
      using F unfolding s1_eq free_set_def free_rep_intr by blast
    note sep = free_repD(2) [OF bs(1)]
    have "bs = [] \<or> (\<exists>(c, k) \<in> set bs. b < c)"
    proof (cases "F = {}")
      case True
      then show ?thesis using bs(2) separated_heads [OF sep] by (cases bs) auto
    next
      case False
      then obtain p where p: "p \<in> F" "b < p" using pre(5) by blast
      then obtain c k where c: "(c, k) \<in> set bs" "c \<le> p" "p < c + k"
        using bs(2) by (auto simp: block_pages_def)
      have "b < c"
      proof (rule ccontr)
        assume "\<not> b < c"
        then have "b \<in> F" using block_pagesI [OF c(1), of b] c(3) p(2) bs(2) by simp
        moreover have "b \<in> {b..<b + n}" using pre(1) by simp
        ultimately show False using pre(2) by blast
      qed
      with c(1) show ?thesis by auto
    qed
    moreover have "total bs + n < 2 ^ 32" using pre(4) card_block_pages [OF sep] bs(2) by simp
    moreover have "\<forall>p \<in> {b..<b + n}. \<not> PageReserved s1 p" using pre(3) by (simp add: unreserved_def s1_eq)
    ultimately obtain s2 where s2: "default_free_pages b n s1 = Inr s2" "free_rep s2 (put_block b n bs)" "pmm_frame s1 s2"
        "\<forall>p. pg_ref (pages s2 p) = (if p \<in> {b..<b + n} then 0 else pg_ref (pages s1 p))"
      using default_free_pages_refines [OF bs(1) pre(1)] pre(2) bs(2) by blast
    have "block_pages (put_block b n bs) = {b..<b + n} \<union> F"
      using put_block_pages [OF sep pre(1)] pre(2) bs(2) by blast
    then have "free_set (intr_restore f s2) ({b..<b + n} \<union> F)"
      unfolding free_set_def free_rep_intr using s2(2) by blast
    moreover have "free_pages b n s = Inr (intr_restore f s2)" using s1 s2(1) by (simp add: free_pages_def)
    moreover have "unreserved (intr_restore f s2) p = unreserved s p" for p
      using free_pages_reserved [OF s2(1), of p] by (simp add: unreserved_def s1_eq)
    moreover have "page_ref (intr_restore f s2) p = (if p \<in> {b..<b + n} then 0 else page_ref s p)" for p
      using s2(4) by (simp add: page_ref_def s1_eq)
    ultimately show ?thesis using pmm_frame_intr [OF s1 s2(3)] by blast
  qed
qed

end
