(* ===== verification/Page_Range.thy ===== *)
theory Page_Range
  imports Page_Table
begin

text \<open>
  The operations of kern/mm/pmm.c on ranges of addresses: unmapping, releasing page tables
  and copying for \<open>fork\<close>, each a do-while loop that steps by pages and skips what a missing
  table leaves unmapped; the boot-time mapping; the scan of a table for printing; the
  self-checks of pmm.c and default_pmm.c.
\<close>

definition page2kva :: "'a mem_scheme \<Rightarrow> nat \<Rightarrow> nat outcome" where
  "page2kva s p = KADDR s (page2pa p)"

section \<open>Unmapping\<close>

text \<open>One iteration: the address to go on with.\<close>

definition unmap_step :: "nat \<Rightarrow> 64 word \<Rightarrow> 'a mem_scheme \<Rightarrow> (64 word \<times> 'a mem_scheme) outcome" where
  "unmap_step pd start s =
     obind (get_pte pd start False s) (\<lambda>(ptep, s1). case ptep of
         None \<Rightarrow> Inr (ROUNDDOWN (start + PTSIZE) PTSIZE, s1)
       | Some p \<Rightarrow> obind (if pte_at s1 p \<noteq> 0 then page_remove_pte pd start p s1 else Inr s1)
           (\<lambda>s2. Inr (start + PGSIZE, s2)))"

partial_function (option) unmap_loop ::
    "nat \<Rightarrow> 64 word \<Rightarrow> 64 word \<Rightarrow> 'a mem_scheme \<Rightarrow> 'a mem_scheme outcome option" where
  "unmap_loop pd start end s =
     loop_bind (unmap_step pd start s) (\<lambda>(start', s1).
     if start' \<noteq> 0 \<and> start' < end then unmap_loop pd start' end s1 else Some (Inr s1))"

definition range_ok :: "64 word \<Rightarrow> 64 word \<Rightarrow> 'b outcome \<Rightarrow> 'b outcome" where
  "range_ok start end k = kassert (start mod PGSIZE = 0 \<and> end mod PGSIZE = 0) ''start % PGSIZE == 0 && end % PGSIZE == 0''
     (kassert (USER_ACCESS start end) ''USER_ACCESS(start, end)'' k)"

definition unmap_range :: "nat \<Rightarrow> 64 word \<Rightarrow> 64 word \<Rightarrow> 'a mem_scheme \<Rightarrow> 'a mem_scheme outcome" where
  "unmap_range pd start end s = range_ok start end (finish (unmap_loop pd start end s))"

section \<open>Releasing page tables\<close>

text \<open>The scan of a page table for a valid entry.\<close>

definition table_empty :: "'a mem_scheme \<Rightarrow> nat \<Rightarrow> bool" where
  "table_empty s pt = list_all (\<lambda>i. phys s pt i AND PTE_V = 0) [0..<512]"

text \<open>The inner loop of \<open>exit_range\<close>: the result is the new \<open>d0start\<close> and \<open>free_pd0\<close>.\<close>

partial_function (option) exit_level0 :: "nat \<Rightarrow> 64 word \<Rightarrow> 64 word \<Rightarrow> 64 word \<Rightarrow> bool \<Rightarrow> 'a mem_scheme \<Rightarrow>
    (64 word \<times> bool \<times> 'a mem_scheme) outcome option" where
  "exit_level0 pd0 d1start end d0start free_pd0 s =
     (let pde0 = pte_at s (pd0, PDX0 d0start) in
      loop_bind (if pde0 AND PTE_V \<noteq> 0 then
                   obind (pde2page s pde0) (\<lambda>page. obind (page2kva s page) (\<lambda>pt.
                     if table_empty s pt then
                       obind (free_pages page 1 s) (\<lambda>s1. Inr (free_pd0, set_pte (pd0, PDX0 d0start) 0 s1))
                     else Inr (free_pd0, s)))
                 else Inr (False, s)) (\<lambda>(free_pd0', s1).
      let d0start' = d0start + PTSIZE in
      if d0start' \<noteq> 0 \<and> d0start' < d1start + PDSIZE \<and> d0start' < end
      then exit_level0 pd0 d1start end d0start' free_pd0' s1 else Some (Inr (d0start', free_pd0', s1))))"

partial_function (option) exit_loop ::
    "nat \<Rightarrow> 64 word \<Rightarrow> 64 word \<Rightarrow> 64 word \<Rightarrow> 'a mem_scheme \<Rightarrow> 'a mem_scheme outcome option" where
  "exit_loop pd end d1start d0start s =
     (let pde1 = pte_at s (pd, PDX1 d1start) in
      loop_bind (if pde1 AND PTE_V \<noteq> 0 then
          obind (pde2page s pde1) (\<lambda>page. obind (page2kva s page) (\<lambda>pd0.
          obind (finish (exit_level0 pd0 d1start end d0start True s)) (\<lambda>(d0, free_pd0, s1).
          if free_pd0 then
            obind (pde2page s1 pde1) (\<lambda>page'. obind (free_pages page' 1 s1) (\<lambda>s2. Inr (set_pte (pd, PDX1 d1start) 0 s2)))
          else Inr s1)))
        else Inr s) (\<lambda>s1.
      let d1start' = d1start + PDSIZE in
      if d1start' \<noteq> 0 \<and> d1start' < end then exit_loop pd end d1start' d1start' s1 else Some (Inr s1)))"

definition exit_range :: "nat \<Rightarrow> 64 word \<Rightarrow> 64 word \<Rightarrow> 'a mem_scheme \<Rightarrow> 'a mem_scheme outcome" where
  "exit_range pd start end s = range_ok start end
     (finish (exit_loop pd end (ROUNDDOWN start PDSIZE) (ROUNDDOWN start PTSIZE) s))"

section \<open>Copying\<close>

text \<open>
  One valid page of \<open>copy_range\<close>: the result is 0, or the error that ends the loop. The code
  reads \<open>*ptep\<close> again after the table of the target was set up.
\<close>

definition copy_one :: "nat \<Rightarrow> 64 word \<Rightarrow> pte_ref \<Rightarrow> 'a mem_scheme \<Rightarrow> (int \<times> 'a mem_scheme) outcome" where
  "copy_one to start ptep s =
     obind (get_pte to start True s) (\<lambda>(nptep, s1). case nptep of
       None \<Rightarrow> Inr (- E_NO_MEM, s1)
     | Some _ \<Rightarrow>
         let perm = ucast (pte_at s1 ptep AND PTE_USER) in
         obind (pte2page s1 (pte_at s1 ptep)) (\<lambda>page.
         obind (alloc_pages 1 s1) (\<lambda>(r, s2).
         kassert (r \<noteq> None) ''npage != NULL''
           (let new = the r in
            obind (page2kva s2 page) (\<lambda>src. obind (page2kva s2 new) (\<lambda>dst.
            obind (page_insert to new start perm (copy_page dst src s2)) (\<lambda>(ret, s3).
            if ret \<noteq> 0 then obind (free_pages new 1 s3) (\<lambda>s4. Inr (ret, s4)) else Inr (0, s3))))))))"

definition copy_step :: "nat \<Rightarrow> nat \<Rightarrow> 64 word \<Rightarrow> 'a mem_scheme \<Rightarrow> (int \<times> 64 word \<times> 'a mem_scheme) outcome" where
  "copy_step to from start s =
     obind (get_pte from start False s) (\<lambda>(ptep, s1). case ptep of
         None \<Rightarrow> Inr (0, ROUNDDOWN (start + PTSIZE) PTSIZE, s1)
       | Some p \<Rightarrow> obind (if pte_at s1 p AND PTE_V \<noteq> 0 then copy_one to start p s1 else Inr (0, s1))
           (\<lambda>(ret, s2). Inr (ret, start + PGSIZE, s2)))"

partial_function (option) copy_loop ::
    "nat \<Rightarrow> nat \<Rightarrow> 64 word \<Rightarrow> 64 word \<Rightarrow> 'a mem_scheme \<Rightarrow> (int \<times> 'a mem_scheme) outcome option" where
  "copy_loop to from start end s =
     loop_bind (copy_step to from start s) (\<lambda>(ret, start', s1).
     if ret \<noteq> 0 then Some (Inr (ret, s1))
     else if start' \<noteq> 0 \<and> start' < end then copy_loop to from start' end s1
     else Some (Inr (0, s1)))"

definition copy_range :: "nat \<Rightarrow> nat \<Rightarrow> 64 word \<Rightarrow> 64 word \<Rightarrow> bool \<Rightarrow> 'a mem_scheme \<Rightarrow> (int \<times> 'a mem_scheme) outcome" where
  "copy_range to from start end share s = range_ok start end (finish (copy_loop to from start end s))"

declare unmap_loop.simps [code] exit_level0.simps [code] exit_loop.simps [code] copy_loop.simps [code]

section \<open>Boot-time mapping\<close>

fun boot_map_pages :: "nat \<Rightarrow> nat \<Rightarrow> 64 word \<Rightarrow> 64 word \<Rightarrow> 32 word \<Rightarrow> 'a mem_scheme \<Rightarrow> 'a mem_scheme outcome" where
  "boot_map_pages pd 0 la pa perm s = Inr s"
| "boot_map_pages pd (Suc n) la pa perm s =
     obind (get_pte pd la True s) (\<lambda>(ptep, s1).
       kassert (ptep \<noteq> None) ''ptep != NULL''
         (boot_map_pages pd n (la + PGSIZE) (pa + PGSIZE) perm
            (set_pte (the ptep) (pte_create (drop_bit 12 pa) (1 OR perm)) s1)))"

definition boot_map_segment :: "nat \<Rightarrow> 64 word \<Rightarrow> 64 word \<Rightarrow> 64 word \<Rightarrow> 32 word \<Rightarrow> 'a mem_scheme \<Rightarrow> 'a mem_scheme outcome" where
  "boot_map_segment pd la sz pa perm s =
     kassert (PGOFF la = PGOFF pa) ''PGOFF(la) == PGOFF(pa)''
       (boot_map_pages pd (unat (ROUNDUP (sz + PGOFF la) PGSIZE div PGSIZE)) (ROUNDDOWN la PGSIZE) (ROUNDDOWN pa PGSIZE) perm s)"

definition boot_alloc_page :: "'a mem_scheme \<Rightarrow> (nat \<times> 'a mem_scheme) outcome" where
  "boot_alloc_page s = obind (alloc_pages 1 s) (\<lambda>(p, s1). case p of
     None \<Rightarrow> Inl (Panic ''boot_alloc_page failed.'') | Some page \<Rightarrow> obind (page2kva s1 page) (\<lambda>k. Inr (k, s1)))"

section \<open>Physical memory at boot\<close>

definition DRAM_BASE :: "64 word" where "DRAM_BASE = 0x80000000"
definition nbase :: nat where "nbase = unat (DRAM_BASE div PGSIZE)"
definition KERNBASE :: "64 word" where "KERNBASE = 0xFFFFFFFFC0200000"
definition KMEMSIZE :: "64 word" where "KMEMSIZE = 0x7E00000"
definition KERNTOP :: "64 word" where "KERNTOP = KERNBASE + KMEMSIZE"
definition PHYSICAL_MEMORY_OFFSET :: "64 word" where "PHYSICAL_MEMORY_OFFSET = 0xFFFFFFFF40000000"

definition KERN_ACCESS :: "64 word \<Rightarrow> 64 word \<Rightarrow> bool" where
  "KERN_ACCESS start end \<longleftrightarrow> KERNBASE \<le> start \<and> start < end \<and> end \<le> KERNTOP"

definition PADDR :: "64 word \<Rightarrow> 64 word outcome" where
  "PADDR kva = (if kva < KERNBASE then Inl (Panic ''PADDR called with invalid kva'') else Inr (kva - PHYSICAL_MEMORY_OFFSET))"

text \<open>\<open>sizeof(struct Page)\<close>: ref, flags, property, two list entries and \<open>pra_vaddr\<close>, with padding.\<close>

definition sizeof_Page :: "64 word" where "sizeof_Page = 64"

fun reserve_pages :: "nat \<Rightarrow> nat \<Rightarrow> 'a pmm_scheme \<Rightarrow> 'a pmm_scheme" where
  "reserve_pages p 0 s = s"
| "reserve_pages p (Suc n) s = reserve_pages (p + 1) n (SetPageReserved p s)"

definition init_memmap :: "nat \<Rightarrow> nat \<Rightarrow> 'a pmm_scheme \<Rightarrow> 'a pmm_scheme outcome" where
  "init_memmap base n s = default_init_memmap base n s"

text \<open>\<open>kernel_end\<close> is the linker's symbol \<open>end\<close>; base and size come from the device tree.\<close>

definition page_init :: "64 word \<Rightarrow> 64 word \<Rightarrow> 64 word \<Rightarrow> 'a mem_scheme \<Rightarrow> 'a mem_scheme outcome" where
  "page_init memory_base memory_size kernel_end s =
     (if memory_size = 0 then Inl (Panic ''DTB memory info not available'')
      else
        let mem_end = memory_base + memory_size;
            maxpa = (if mem_end > KERNTOP then KERNTOP else mem_end);
            s1 = s\<lparr>npage := unat (maxpa div PGSIZE)\<rparr>;
            pages_va = ROUNDUP kernel_end PGSIZE;
            n = unat (of_nat (npage s1) - of_nat nbase :: 64 word);
            s2 = reserve_pages nbase n s1
        in obind (PADDR (pages_va + sizeof_Page * (of_nat (npage s2) - of_nat nbase))) (\<lambda>freemem.
           let begin' = ROUNDUP freemem PGSIZE; end' = ROUNDDOWN mem_end PGSIZE in
           if freemem < end' then
             obind (pa2page s2 begin') (\<lambda>p. init_memmap p (unat ((end' - begin') div PGSIZE)) s2)
           else Inr s2))"

definition init_pmm_manager :: "'a pmm_scheme \<Rightarrow> 'a pmm_scheme" where
  "init_pmm_manager s = default_init s"

section \<open>Reading a table\<close>

definition perm2str :: "32 word \<Rightarrow> string" where
  "perm2str perm = [if perm AND ucast PTE_U \<noteq> 0 then CHR ''u'' else CHR ''-'', CHR ''r'',
     if perm AND ucast PTE_W \<noteq> 0 then CHR ''w'' else CHR ''-'']"

text \<open>The two scans of \<open>get_pgtable_items\<close>; the last argument counts the entries left.\<close>

fun skip_invalid :: "(nat \<Rightarrow> 64 word) \<Rightarrow> nat \<Rightarrow> nat \<Rightarrow> nat" where
  "skip_invalid table i 0 = i"
| "skip_invalid table i (Suc k) = (if table i AND PTE_V = 0 then skip_invalid table (i + 1) k else i)"

fun skip_same :: "(nat \<Rightarrow> 64 word) \<Rightarrow> 64 word \<Rightarrow> nat \<Rightarrow> nat \<Rightarrow> nat" where
  "skip_same table perm i 0 = i"
| "skip_same table perm i (Suc k) = (if table i AND PTE_USER = perm then skip_same table perm (i + 1) k else i)"

text \<open>The result is the permission and the range stored through the two pointers.\<close>

definition get_pgtable_items :: "nat \<Rightarrow> nat \<Rightarrow> (nat \<Rightarrow> 64 word) \<Rightarrow> (64 word \<times> nat \<times> nat) option" where
  "get_pgtable_items hi start table =
     (if start \<ge> hi then None
      else let l = skip_invalid table start (hi - start) in
        if l < hi then
          let perm = table l AND PTE_USER in Some (perm, l, skip_same table perm (l + 1) (hi - (l + 1)))
        else None)"

end
