(* ===== verification/Page_Map.thy ===== *)
theory Page_Map
  imports Page_Range
begin

text \<open>
  What a page directory maps. The tables below a directory form a tree; the invariant says
  that no frame is used for two nodes of the tree and that none of them is free. Under it
  \<open>get_pte\<close> finds the entry of an address and creates missing tables without changing any
  mapping, and \<open>page_insert\<close> and \<open>page_remove\<close> change exactly one mapping.
\<close>

section \<open>Entries\<close>

abbreviation valid_pte :: "64 word \<Rightarrow> bool" where "valid_pte w \<equiv> w AND PTE_V \<noteq> 0"

definition pte_frame :: "64 word \<Rightarrow> nat" where "pte_frame w = unat (PPN (PTE_ADDR w))"

text \<open>A permission of the ten low bits, as the code passes it.\<close>

definition perm_ok :: "32 word \<Rightarrow> bool" where "perm_ok perm \<longleftrightarrow> perm AND 0x3FF = perm"

lemma PTE_V_bit: "valid_pte w \<longleftrightarrow> bit w 0"
  by (simp add: PTE_V_def and_one_eq bit_0 mod_2_eq_odd)

lemma valid_pte_create [simp]: "valid_pte (pte_create p perm)"
  by (simp only: PTE_V_bit) (simp add: pte_create_def PTE_V_def bit_simps)

lemma perm_bits: "perm_ok perm \<Longrightarrow> bit perm n \<Longrightarrow> n < 10"
proof -
  assume a: "perm_ok perm" "bit perm n"
  have "(0x3FF :: 32 word) = mask 10" by (simp add: mask_eq_exp_minus_1)
  then have "bit (perm AND mask 10) n" using a unfolding perm_ok_def by metis
  then show "n < 10" by (simp add: bit_simps)
qed

lemma perm_ok_scast:
  assumes "perm_ok perm" shows "bit (scast perm :: 64 word) n \<Longrightarrow> n < 10"
proof -
  assume "bit (scast perm :: 64 word) n"
  then have "bit perm (min n 31)" by (simp add: bit_simps min_def split: if_splits)
  then have "min n 31 < 10" using perm_bits [OF assms] by blast
  then show "n < 10" by linarith
qed

lemma bit_PTE_ADDR: "bit (PTE_ADDR w) n \<longleftrightarrow> 12 \<le> n \<and> bit w (n - 2) \<and> n < 64"
proof -
  have "(0x3FF :: 64 word) = mask 10" by (simp add: mask_eq_exp_minus_1)
  then have "bit (PTE_ADDR w) n \<longleftrightarrow> 2 \<le> n \<and> n < 64 \<and> bit w (n - 2) \<and> \<not> n - 2 < 10"
    unfolding PTE_ADDR_def bit_push_bit_iff bit_and_iff bit_not_iff by (simp only: bit_mask_iff) (auto dest: bit_imp_le_length)
  then show ?thesis by auto
qed

lemma bit_PPN: "bit (PPN w) n \<longleftrightarrow> bit w (n + 12)"
  by (simp add: PPN_def bit_drop_bit_eq add.commute)

lemma bit_of_nat_below: "p < 2 ^ 44 \<Longrightarrow> bit (of_nat p :: 64 word) n \<Longrightarrow> n < 44"
proof -
  assume a: "p < 2 ^ 44" "bit (of_nat p :: 64 word) n"
  then have "bit p n" by (simp add: bit_simps)
  then show "n < 44" using a(1) by (metis bit_take_bit_iff take_bit_nat_eq_self)
qed

lemma pte_frame_create:
  assumes "p < 2 ^ 44" "perm_ok perm"
  shows "pte_frame (pte_create (of_nat p) perm) = p"
proof -
  have "PPN (PTE_ADDR (pte_create (of_nat p) perm)) = of_nat p"
  proof (rule bit_word_eqI)
    fix n assume n: "n < LENGTH(64)"
    have "\<not> bit (scast perm :: 64 word) (n + 10)" using perm_ok_scast [OF assms(2), of "n + 10"] by auto
    moreover have "\<not> bit PTE_V (n + 10)" by (simp add: PTE_V_def bit_1_iff)
    ultimately have "bit (pte_create (of_nat p) perm) (n + 10) \<longleftrightarrow> n + 10 < 64 \<and> bit (of_nat p :: 64 word) n"
      unfolding pte_create_def bit_or_iff bit_push_bit_iff by auto
    then show "bit (PPN (PTE_ADDR (pte_create (of_nat p) perm))) n = bit (of_nat p :: 64 word) n"
      using bit_of_nat_below [OF assms(1), of n] unfolding bit_PPN bit_PTE_ADDR by (auto simp: add.commute)
  qed
  then show ?thesis using assms(1) by (simp add: pte_frame_def unat_of_nat take_bit_nat_eq_self)
qed

lemma KADDR_page2pa: "p < npage s \<Longrightarrow> npage s \<le> 2 ^ 44 \<Longrightarrow> KADDR s (page2pa p) = Inr p"
proof -
  assume a: "p < npage s" "npage s \<le> 2 ^ 44"
  have "PPN (page2pa p) = of_nat p"
  proof (rule bit_word_eqI)
    fix n assume n: "n < LENGTH(64)"
    show "bit (PPN (page2pa p)) n = bit (of_nat p :: 64 word) n"
      using bit_of_nat_below [of p n] a unfolding bit_PPN page2pa_def bit_push_bit_iff by auto
  qed
  moreover have "unat (of_nat p :: 64 word) = p" using a by (simp add: unat_of_nat take_bit_nat_eq_self)
  ultimately show "KADDR s (page2pa p) = Inr p" using a by (simp add: KADDR_def)
qed

lemma KADDR_frame: "pte_frame w < npage s \<Longrightarrow> KADDR s (PTE_ADDR w) = Inr (pte_frame w)"
  by (simp add: KADDR_def pte_frame_def)

lemma pte2page_frame: "valid_pte w \<Longrightarrow> pte_frame w < npage s \<Longrightarrow> pte2page s w = Inr (pte_frame w)"
  by (simp add: pte2page_def pa2page_def pte_frame_def)

lemma index_bound [simp]: "PDX1 la < 512" "PDX0 la < 512" "PTX la < 512"
proof -
  have "unat (w AND 0x1FF) < 512" for w :: "64 word"
  proof -
    have "w AND 0x1FF \<le> 0x1FF" by (rule word_and_le1)
    then have "unat (w AND 0x1FF) \<le> unat (0x1FF :: 64 word)" by (simp only: word_le_nat_alt)
    then show ?thesis by simp
  qed
  then show "PDX1 la < 512" "PDX0 la < 512" "PTX la < 512" by (simp_all only: PDX1_def PDX0_def PTX_def)
qed

section \<open>The tree of tables\<close>

text \<open>
  The tables reached from a directory in memory \<open>m\<close>, named by the indices on the way: the
  directory itself, a second-level table and a last-level table.
\<close>

datatype table_path = Top | Mid nat | Low nat nat

type_synonym memory = "nat \<Rightarrow> nat \<Rightarrow> 64 word"

definition child :: "memory \<Rightarrow> nat \<Rightarrow> nat \<Rightarrow> nat option" where
  "child m t i = (if valid_pte (m t i) then Some (pte_frame (m t i)) else None)"

fun table :: "memory \<Rightarrow> nat \<Rightarrow> table_path \<Rightarrow> nat option" where
  "table m pd Top = Some pd"
| "table m pd (Mid i) = child m pd i"
| "table m pd (Low i k) = (case child m pd i of None \<Rightarrow> None | Some t \<Rightarrow> child m t k)"

fun below :: "table_path \<Rightarrow> nat \<Rightarrow> table_path" where
  "below Top i = Mid i"
| "below (Mid i) k = Low i k"
| "below (Low i k) j = Low i k"

text \<open>The part of the tree under the first-level indices \<open>I\<close>: the user half of a directory.\<close>

fun in_tree :: "nat set \<Rightarrow> table_path \<Rightarrow> bool" where
  "in_tree I Top = True"
| "in_tree I (Mid i) = (i \<in> I)"
| "in_tree I (Low i k) = (i \<in> I \<and> k < 512)"

definition pt_frames :: "memory \<Rightarrow> nat set \<Rightarrow> nat \<Rightarrow> nat set" where
  "pt_frames m I pd = {t. \<exists>x. in_tree I x \<and> table m pd x = Some t}"

definition pt_wf :: "memory \<Rightarrow> nat \<Rightarrow> nat set \<Rightarrow> nat set \<Rightarrow> nat \<Rightarrow> bool" where
  "pt_wf m n F I pd \<longleftrightarrow> (\<forall>t \<in> pt_frames m I pd. t < n \<and> t \<notin> F) \<and>
     (\<forall>x y t. in_tree I x \<and> in_tree I y \<and> table m pd x = Some t \<and> table m pd y = Some t \<longrightarrow> x = y)"

text \<open>The last-level entry of an address, 0 where a table is missing.\<close>

definition entry :: "memory \<Rightarrow> nat \<Rightarrow> nat \<Rightarrow> nat \<Rightarrow> nat \<Rightarrow> 64 word" where
  "entry m pd i k j = (case table m pd (Low i k) of None \<Rightarrow> 0 | Some t \<Rightarrow> m t j)"

definition mapping :: "memory \<Rightarrow> nat \<Rightarrow> 64 word \<Rightarrow> 64 word" where
  "mapping m pd la = entry m pd (PDX1 la) (PDX0 la) (PTX la)"

lemma table_in_frames: "in_tree I x \<Longrightarrow> table m pd x = Some t \<Longrightarrow> t \<in> pt_frames m I pd"
  by (auto simp: pt_frames_def)

lemma pt_wfD:
  assumes "pt_wf m n F I pd"
  shows "t \<in> pt_frames m I pd \<Longrightarrow> t < n" "t \<in> pt_frames m I pd \<Longrightarrow> t \<notin> F"
    "in_tree I x \<Longrightarrow> in_tree I y \<Longrightarrow> table m pd x = Some t \<Longrightarrow> table m pd y = Some t \<Longrightarrow> x = y"
  using assms unfolding pt_wf_def by blast+

text \<open>A tree is determined by the frames of its tables.\<close>

lemma child_cong: "m' t = m t \<Longrightarrow> child m' t i = child m t i"
  by (simp add: child_def)

lemma table_cong:
  assumes "\<forall>t \<in> pt_frames m I pd. m' t = m t" "in_tree I x"
  shows "table m' pd x = table m pd x"
proof -
  have top: "m' pd = m pd" using assms(1) table_in_frames [of I Top m pd pd] by simp
  show ?thesis
  proof (cases x)
    case (Low i k)
    show ?thesis
    proof (cases "child m pd i")
      case (Some t)
      then have "m' t = m t" using assms Low table_in_frames [of I "Mid i" m pd t] by simp
      then show ?thesis using Low Some top by (simp add: child_cong [of m' t m] child_cong [of m' pd m])
    qed (use Low top in \<open>simp add: child_cong [of m' pd m]\<close>)
  qed (use top in \<open>simp_all add: child_cong [of m' pd m]\<close>)
qed

lemma entry_cong:
  assumes "\<forall>t \<in> pt_frames m I pd. m' t = m t" "i \<in> I" "k < 512"
  shows "entry m' pd i k j = entry m pd i k j"
proof -
  have "table m' pd (Low i k) = table m pd (Low i k)" using assms by (intro table_cong) auto
  moreover have "m' t = m t" if "table m pd (Low i k) = Some t" for t
    using assms that table_in_frames [of I "Low i k"] by auto
  ultimately show ?thesis unfolding entry_def by (auto split: option.split)
qed

lemma pt_frames_cong: "\<forall>t \<in> pt_frames m I pd. m' t = m t \<Longrightarrow> pt_frames m' I pd = pt_frames m I pd"
proof -
  assume eq: "\<forall>t \<in> pt_frames m I pd. m' t = m t"
  have "table m' pd x = table m pd x" if "in_tree I x" for x by (rule table_cong [OF eq that])
  then show ?thesis unfolding pt_frames_def by auto
qed

lemma pt_wf_cong:
  assumes wf: "pt_wf m n F I pd" and eq: "\<forall>t \<in> pt_frames m I pd. m' t = m t" and F: "F' \<inter> pt_frames m I pd \<subseteq> F"
  shows "pt_wf m' n F' I pd"
  unfolding pt_wf_def pt_frames_cong [OF eq]
proof (intro conjI ballI allI impI)
  show "t < n" "t \<notin> F'" if "t \<in> pt_frames m I pd" for t
    using pt_wfD(1,2) [OF wf that] that F by auto
  show "x = y" if "in_tree I x \<and> in_tree I y \<and> table m' pd x = Some t \<and> table m' pd y = Some t" for x y t
    using that table_cong [OF eq] pt_wfD(3) [OF wf, of x y t] by metis
qed

text \<open>Hanging a fresh zeroed table into an empty slot adds one node and changes no entry.\<close>

lemma table_add:
  assumes wf: "pt_wf m n F I pd" and p: "in_tree I p" "in_tree I (below p i)" "p \<noteq> below p i" and t: "table m pd p = Some t"
    and slot: "table m pd (below p i) = None" and f: "f \<notin> pt_frames m I pd" and e: "valid_pte e" "pte_frame e = f"
    and y: "in_tree I y" and m': "m' = m(f := (\<lambda>_. 0), t := (m t)(i := e))"
  shows "table m' pd y = (if y = below p i then Some f else table m pd y)"
proof -
  have tf: "t \<noteq> f" using f table_in_frames [OF p(1) t] by auto
  have pdf: "pd \<noteq> f" using f table_in_frames [of I Top m pd pd] by auto
  have inj: "x = p" if "in_tree I x" "table m pd x = Some t" for x using pt_wfD(3) [OF wf that(1) p(1) that(2) t] .
  have new: "child m' t i = Some f" using e by (simp add: child_def m')
  have same: "child m' u j = child m u j" if "u \<noteq> f" "u \<noteq> t \<or> j \<noteq> i" for u j
    using that by (auto simp: child_def m')
  have zero: "child m' f j = None" for j using tf by (simp add: child_def m')
  have mid: "u \<noteq> f" if "child m pd j = Some u" "j \<in> I" for u j
    using f table_in_frames [of I "Mid j" m pd u] that by auto
  show ?thesis
  proof (cases p)
    case Top
    then have t: "t = pd" using t by simp
    have c: "child m' pd j = (if j = i then Some f else child m pd j)" for j
      using new same [of pd j] pdf t by auto
    have d: "child m' u k = child m u k" if "child m pd j = Some u" "j \<in> I" for u j k
    proof -
      have "u \<noteq> pd" using inj [of "Mid j"] that t Top by auto
      then show ?thesis using same [of u k] mid [OF that] t by auto
    qed
    show ?thesis using y slot Top c d by (cases y) (auto simp: zero split: option.split)
  next
    case (Mid a)
    then have t': "child m pd a = Some t" "a \<in> I" using t p by auto
    have "t \<noteq> pd" using inj [of Top] Mid by auto
    then have c: "child m' pd j = child m pd j" for j using same [of pd j] pdf by auto
    have d: "child m' u k = (if j = a \<and> k = i then Some f else child m u k)" if "child m pd j = Some u" "j \<in> I" for u j k
    proof (cases "j = a")
      case True
      then have "u = t" using that t' by simp
      then show ?thesis using True new same [of t k] tf by auto
    next
      case False
      then have "u \<noteq> t" using inj [of "Mid j"] that Mid by auto
      then show ?thesis using False same [of u k] mid [OF that] by auto
    qed
    show ?thesis using y slot Mid c d t' by (cases y) (auto split: option.split)
  next
    case (Low a b)
    then show ?thesis using p(3) by simp
  qed
qed

lemma entry_add:
  assumes wf: "pt_wf m n F I pd" and p: "in_tree I p" "in_tree I (below p i)" "p \<noteq> below p i" and t: "table m pd p = Some t"
    and slot: "table m pd (below p i) = None" and f: "f \<notin> pt_frames m I pd" and e: "valid_pte e" "pte_frame e = f"
    and m': "m' = m(f := (\<lambda>_. 0), t := (m t)(i := e))" and ik: "a \<in> I" "k < 512"
  shows "entry m' pd a k j = entry m pd a k j"
proof -
  have y: "in_tree I (Low a k)" using ik by simp
  have low: "table m' pd (Low a k) = (if Low a k = below p i then Some f else table m pd (Low a k))"
    by (rule table_add [OF wf p t slot f e y m'])
  have tf: "t \<noteq> f" using f table_in_frames [OF p(1) t] by auto
  show ?thesis
  proof (cases "Low a k = below p i")
    case True
    then show ?thesis using low slot tf by (simp add: entry_def m')
  next
    case False
    have "m' u = m u" if u: "table m pd (Low a k) = Some u" for u
    proof -
      have "u \<noteq> f" using f table_in_frames [OF y u] by auto
      moreover have "u \<noteq> t"
      proof
        assume "u = t"
        then have "Low a k = p" using pt_wfD(3) [OF wf y p(1) u] t by simp
        then show False using p(3) by auto
      qed
      ultimately show ?thesis by (simp add: m')
    qed
    then show ?thesis using low False unfolding entry_def by (auto split: option.split)
  qed
qed

lemma frames_add:
  assumes "pt_wf m n F I pd" "in_tree I p" "in_tree I (below p i)" "p \<noteq> below p i" "table m pd p = Some t"
    "table m pd (below p i) = None" "f \<notin> pt_frames m I pd" "valid_pte e" "pte_frame e = f"
    "m' = m(f := (\<lambda>_. 0), t := (m t)(i := e))"
  shows "pt_frames m' I pd = insert f (pt_frames m I pd)"
proof -
  have T: "table m' pd y = (if y = below p i then Some f else table m pd y)" if "in_tree I y" for y
    by (rule table_add [OF assms(1-9) that assms(10)])
  show ?thesis
  proof (intro set_eqI iffI)
    show "u \<in> insert f (pt_frames m I pd)" if "u \<in> pt_frames m' I pd" for u
      using that T unfolding pt_frames_def by (auto split: if_splits)
    show "u \<in> pt_frames m' I pd" if u: "u \<in> insert f (pt_frames m I pd)" for u
    proof (cases "u = f")
      case True
      then show ?thesis using T [OF assms(3)] assms(3) table_in_frames [of I "below p i"] by simp
    next
      case False
      then obtain x where x: "in_tree I x" "table m pd x = Some u" using u unfolding pt_frames_def by auto
      then have "x \<noteq> below p i" using assms(6) by auto
      then show ?thesis using T [OF x(1)] x table_in_frames [of I x] by simp
    qed
  qed
qed

lemma pt_wf_add:
  assumes wf: "pt_wf m n F I pd" and h: "in_tree I p" "in_tree I (below p i)" "p \<noteq> below p i" "table m pd p = Some t"
    "table m pd (below p i) = None" and f: "f \<in> F" "f < n" and e: "valid_pte e" "pte_frame e = f"
    and m': "m' = m(f := (\<lambda>_. 0), t := (m t)(i := e))"
  shows "pt_wf m' n (F - {f}) I pd"
proof -
  have fn: "f \<notin> pt_frames m I pd" using pt_wfD(2) [OF wf] f(1) by blast
  have T: "table m' pd y = (if y = below p i then Some f else table m pd y)" if "in_tree I y" for y
    by (rule table_add [OF wf h fn e that m'])
  show ?thesis
    unfolding pt_wf_def frames_add [OF wf h fn e m']
  proof (intro conjI ballI allI impI)
    show "u < n" "u \<notin> F - {f}" if "u \<in> insert f (pt_frames m I pd)" for u using that f pt_wfD(1,2) [OF wf] by auto
    show "x = y" if "in_tree I x \<and> in_tree I y \<and> table m' pd x = Some u \<and> table m' pd y = Some u" for x y u
      using that T fn pt_wfD(3) [OF wf, of x y u] table_in_frames [of I] by (metis option.inject)
  qed
qed

section \<open>Memory with its allocator\<close>

definition mem_ok :: "'a mem_scheme \<Rightarrow> nat set \<Rightarrow> bool" where
  "mem_ok s F \<longleftrightarrow> free_set s F \<and> npage s < 2 ^ 32 \<and> (\<forall>p \<in> F. p < npage s \<and> unreserved s p)"

text \<open>Only the allocator's fields and the contents of frames change.\<close>

definition mem_frame :: "'a mem_scheme \<Rightarrow> 'a mem_scheme \<Rightarrow> bool" where
  "mem_frame s s' \<longleftrightarrow> s' = s\<lparr>pages := pages s', page_links := page_links s', nr_free := nr_free s', phys := phys s'\<rparr>"

lemma mem_frame_refl [simp]: "mem_frame s s"
  by (simp add: mem_frame_def)

lemma mem_frameI: "s' = s\<lparr>pages := p, page_links := l, nr_free := n, phys := m\<rparr> \<Longrightarrow> mem_frame s s'"
  by (simp add: mem_frame_def)

lemma mem_frame_trans: "mem_frame s t \<Longrightarrow> mem_frame t u \<Longrightarrow> mem_frame s u"
  unfolding mem_frame_def by (elim ssubst) simp

lemma pmm_mem_frame: "pmm_frame s s' \<Longrightarrow> mem_frame s s'"
  unfolding pmm_frame_def mem_frame_def by (cases s; cases s'; simp)

lemma mem_frame_fields:
  assumes "mem_frame s s'"
  shows "procs s' = procs s" "run_links s' = run_links s" "run_pool s' = run_pool s" "runq s' = runq s"
    "current s' = current s" "idleproc s' = idleproc s" "sstatus s' = sstatus s" "satp s' = satp s"
    "regs s' = regs s" "npage s' = npage s" "mem.more s' = mem.more s"
  using assms unfolding mem_frame_def by (cases s; cases s'; simp)+

lemma free_set_phys [simp]: "free_set (s\<lparr>phys := m\<rparr>) F = free_set s F"
  by (simp add: free_set_def free_rep_def PageProperty_def)

lemma free_set_ref [simp]: "free_set (upd_page p (\<lambda>x. x\<lparr>pg_ref := v x\<rparr>) s) F = free_set s F"
proof -
  let ?s' = "upd_page p (\<lambda>x. x\<lparr>pg_ref := v x\<rparr>) s"
  have "page_links ?s' = page_links s" "nr_free ?s' = nr_free s" "property (pages ?s' q) = property (pages s q)"
    "PageProperty ?s' q = PageProperty s q" for q by (auto simp: page_ops)
  then show ?thesis by (simp add: free_set_def free_rep_def)
qed

lemma pmm_frame_phys: "pmm_frame s s' \<Longrightarrow> phys s' = phys s \<and> npage s' = npage s"
  unfolding pmm_frame_def by (cases s; cases s'; simp)

text \<open>One page from the allocator, for clients of the memory state.\<close>

lemma alloc_one_ok:
  assumes "mem_ok s F"
  shows "\<exists>r s'. alloc_pages 1 s = Inr (r, s') \<and> pmm_frame s s' \<and>
    (\<forall>p. unreserved s' p = unreserved s p \<and> page_ref s' p = page_ref s p) \<and>
    (case r of None \<Rightarrow> F = {} \<and> mem_ok s' {} | Some p \<Rightarrow> p \<in> F \<and> mem_ok s' (F - {p}))"
proof -
  have F: "free_set s F" using assms by (simp add: mem_ok_def)
  obtain r s' where s': "alloc_pages 1 s = Inr (r, s')" "pmm_frame s s'"
      "\<forall>p. unreserved s' p = unreserved s p \<and> page_ref s' p = page_ref s p"
      "case r of None \<Rightarrow> free_set s' F | Some p \<Rightarrow> {p..<p + 1} \<subseteq> F \<and> free_set s' (F - {p..<p + 1})"
    using pa.alloc_ok [OF F, of 1] by auto
  have "F = {}" if "r = None" using pa.alloc_one [OF F] s'(1) that by simp
  moreover have "{p..<p + 1} = {p}" for p :: nat by auto
  ultimately show ?thesis
    using s' pmm_frame_phys [OF s'(2)] assms by (intro exI [of _ r] exI [of _ s']) (auto simp: mem_ok_def split: option.splits)
qed

text \<open>A page can be given back while some free page lies above it (or none is free).\<close>

definition room_above :: "nat set \<Rightarrow> nat \<Rightarrow> bool" where
  "room_above F p \<longleftrightarrow> F = {} \<or> (\<exists>q \<in> F. p < q)"

lemma mem_ok_card:
  assumes "mem_ok s F" shows "finite F" "card F < 2 ^ 32"
proof -
  obtain bs where bs: "free_rep s bs" "block_pages bs = F" using assms by (auto simp: mem_ok_def free_set_def)
  show "finite F" using bs(2) by auto
  show "card F < 2 ^ 32"
    using card_block_pages [OF free_repD(2) [OF bs(1)]] bs(2) bs(1) by (simp add: free_rep_def)
qed

lemma free_one_ok:
  assumes "mem_ok s F" "p \<notin> F" "p < npage s" "unreserved s p" "room_above F p"
  shows "\<exists>s'. free_pages p 1 s = Inr s' \<and> pmm_frame s s' \<and> mem_ok s' (insert p F) \<and>
    (\<forall>q. unreserved s' q = unreserved s q \<and> page_ref s' q = (if q = p then 0 else page_ref s q))"
proof -
  have F: "free_set s F" "npage s < 2 ^ 32" "\<forall>p \<in> F. p < npage s \<and> unreserved s p" using assms(1) by (auto simp: mem_ok_def)
  have "F \<subseteq> {..<npage s} - {p}" using F(3) assms(2) by auto
  have one: "{p..<p + 1} = {p}" by auto
  have "card F \<le> card ({..<npage s} - {p})" by (rule card_mono) (use \<open>F \<subseteq> _\<close> in auto)
  also have "\<dots> < npage s" using assms(3) by simp
  finally have "card F + 1 < 2 ^ 32" using F(2) by simp
  obtain s' where s': "free_pages p 1 s = Inr s'" "pmm_frame s s'" "free_set s' ({p..<p + 1} \<union> F)"
    "\<forall>q. unreserved s' q = unreserved s q \<and> page_ref s' q = (if q \<in> {p..<p + 1} then 0 else page_ref s q)"
    using pa.free_ok [OF F(1), of 1 p] assms one \<open>card F + 1 < 2 ^ 32\<close> by (auto simp: room_above_def)
  then show ?thesis using pmm_frame_phys [OF s'(2)] F assms by (intro exI [of _ s']) (auto simp: mem_ok_def one)
qed

text \<open>
  What \<open>get_pte\<close> may do to memory: free pages become tables of this directory, nothing is
  mapped or unmapped, and frames outside the directory's tree and the free set stay as they are.
\<close>

definition grown :: "'a mem_scheme \<Rightarrow> nat set \<Rightarrow> 'a mem_scheme \<Rightarrow> nat set \<Rightarrow> nat set \<Rightarrow> nat \<Rightarrow> bool" where
  "grown s F s' F' I pd \<longleftrightarrow> mem_frame s s' \<and> F' \<subseteq> F \<and> mem_ok s' F' \<and> pt_wf (phys s') (npage s') F' I pd \<and>
     pt_frames (phys s') I pd \<subseteq> pt_frames (phys s) I pd \<union> (F - F') \<and>
     (\<forall>x t. in_tree I x \<and> table (phys s) pd x = Some t \<longrightarrow> table (phys s') pd x = Some t) \<and>
     (\<forall>i \<in> I. \<forall>k < 512. \<forall>j. entry (phys s') pd i k j = entry (phys s) pd i k j) \<and>
     (\<forall>f. f \<notin> (F - F') \<union> pt_frames (phys s) I pd \<longrightarrow> phys s' f = phys s f) \<and>
     (\<forall>p. unreserved s' p = unreserved s p) \<and> (\<forall>p. p \<notin> F - F' \<longrightarrow> page_ref s' p = page_ref s p)"

lemma grownD:
  assumes "grown s F s' F' I pd"
  shows "mem_frame s s'" "F' \<subseteq> F" "mem_ok s' F'" "pt_wf (phys s') (npage s') F' I pd"
    "t \<in> pt_frames (phys s') I pd \<Longrightarrow> t \<in> pt_frames (phys s) I pd \<or> t \<in> F - F'"
    "in_tree I x \<Longrightarrow> table (phys s) pd x = Some t \<Longrightarrow> table (phys s') pd x = Some t"
    "i \<in> I \<Longrightarrow> k < 512 \<Longrightarrow> entry (phys s') pd i k j = entry (phys s) pd i k j"
    "f \<notin> F - F' \<Longrightarrow> f \<notin> pt_frames (phys s) I pd \<Longrightarrow> phys s' f = phys s f"
    "unreserved s' p = unreserved s p" "p \<notin> F - F' \<Longrightarrow> page_ref s' p = page_ref s p"
    "npage s' = npage s"
proof -
  note c = assms [unfolded grown_def]
  show "mem_frame s s'" using c by (elim conjE)
  show "F' \<subseteq> F" using c by (elim conjE)
  show "mem_ok s' F'" using c by (elim conjE)
  show "pt_wf (phys s') (npage s') F' I pd" using c by (elim conjE)
  show "npage s' = npage s" using c mem_frame_fields(10) [of s s'] by (elim conjE)
  show "t \<in> pt_frames (phys s') I pd \<Longrightarrow> t \<in> pt_frames (phys s) I pd \<or> t \<in> F - F'" using c by (elim conjE) auto
  show "in_tree I x \<Longrightarrow> table (phys s) pd x = Some t \<Longrightarrow> table (phys s') pd x = Some t" using c by (elim conjE) simp
  show "i \<in> I \<Longrightarrow> k < 512 \<Longrightarrow> entry (phys s') pd i k j = entry (phys s) pd i k j" using c by (elim conjE) simp
  show "f \<notin> F - F' \<Longrightarrow> f \<notin> pt_frames (phys s) I pd \<Longrightarrow> phys s' f = phys s f" using c by (elim conjE) simp
  show "unreserved s' p = unreserved s p" using c by (elim conjE) simp
  show "p \<notin> F - F' \<Longrightarrow> page_ref s' p = page_ref s p" using c by (elim conjE) simp
qed

lemma grown_refl: "mem_ok s F \<Longrightarrow> pt_wf (phys s) (npage s) F I pd \<Longrightarrow> grown s F s F I pd"
  by (simp add: grown_def)

lemma grown_trans:
  assumes a: "grown s F t G I pd" and b: "grown t G u H I pd"
  shows "grown s F u H I pd"
proof -
  note A = grownD [OF a] and B = grownD [OF b]
  show ?thesis
    unfolding grown_def
  proof (intro conjI allI ballI impI)
    show "mem_frame s u" using A(1) B(1) by (rule mem_frame_trans)
    show "H \<subseteq> F" using A(2) B(2) by (rule subset_trans [rotated])
    show "mem_ok u H" "pt_wf (phys u) (npage u) H I pd" by (rule B)+
    show "pt_frames (phys u) I pd \<subseteq> pt_frames (phys s) I pd \<union> (F - H)" using A(2,5) B(2,5) by blast
    show "table (phys u) pd x = Some v" if "in_tree I x \<and> table (phys s) pd x = Some v" for x v
      using that by (intro B(6) A(6)) simp_all
    show "entry (phys u) pd i k j = entry (phys s) pd i k j" if "i \<in> I" "k < 512" for i k j
      using A(7) [OF that] B(7) [OF that] by simp
    show "phys u f = phys s f" if f: "f \<notin> (F - H) \<union> pt_frames (phys s) I pd" for f
    proof -
      have "phys t f = phys s f" using f B(2) by (intro A(8)) blast+
      moreover have "phys u f = phys t f" using f A(2,5) B(2) by (intro B(8)) blast+
      ultimately show ?thesis by simp
    qed
    show "unreserved u p = unreserved s p" for p using A(9) B(9) by simp
    show "page_ref u p = page_ref s p" if p: "p \<notin> F - H" for p
    proof -
      have "page_ref t p = page_ref s p" using p B(2) by (intro A(10)) blast
      moreover have "page_ref u p = page_ref t p" using p A(2) by (intro B(10)) blast
      ultimately show ?thesis by simp
    qed
  qed
qed

lemma table_below: "p \<noteq> below p i \<Longrightarrow> table m pd p = Some t \<Longrightarrow> table m pd (below p i) = child m t i"
  by (cases p) auto

lemma walk_level_ok:
  assumes ok: "mem_ok s F" and wf: "pt_wf (phys s) (npage s) F I pd"
    and p: "in_tree I p" "in_tree I (below p i)" "p \<noteq> below p i" and t: "table (phys s) pd p = Some t"
  shows "\<exists>r s' F'. walk_level t i create s = Inr (r, s') \<and> grown s F s' F' I pd \<and> card (F - F') \<le> 1 \<and> (\<not> create \<longrightarrow> s' = s \<and> F' = F) \<and>
    (case r of None \<Rightarrow> table (phys s) pd (below p i) = None \<and> (create \<longrightarrow> F' = {}) | Some u \<Rightarrow> table (phys s') pd (below p i) = Some u)"
proof (cases "valid_pte (phys s t i)")
  case True
  then have c: "table (phys s) pd (below p i) = Some (pte_frame (phys s t i))" using table_below [OF p(3) t] by (simp add: child_def)
  then have "pte_frame (phys s t i) < npage s" using pt_wfD(1) [OF wf] table_in_frames [OF p(2)] by blast
  then have "walk_level t i create s = Inr (Some (pte_frame (phys s t i)), s)"
    using True by (simp add: walk_level_def pte_at_def KADDR_frame)
  then show ?thesis using grown_refl [OF ok wf] c by (intro exI [of _ "Some (pte_frame (phys s t i))"] exI [of _ s] exI [of _ F]) simp
next
  case False
  then have slot: "table (phys s) pd (below p i) = None" using table_below [OF p(3) t] by (simp add: child_def)
  show ?thesis
  proof (cases create)
    case no: False
    then have "walk_level t i create s = Inr (None, s)" using False by (simp add: walk_level_def pte_at_def)
    then show ?thesis using grown_refl [OF ok wf] slot no by (intro exI [of _ None] exI [of _ s] exI [of _ F]) simp
  next
    case yes: True
    obtain r s1 where s1: "alloc_pages 1 s = Inr (r, s1)" "pmm_frame s s1"
        "\<forall>p. unreserved s1 p = unreserved s p \<and> page_ref s1 p = page_ref s p"
        "case r of None \<Rightarrow> F = {} \<and> mem_ok s1 {} | Some p \<Rightarrow> p \<in> F \<and> mem_ok s1 (F - {p})"
      using alloc_one_ok [OF ok] by blast
    have ph: "phys s1 = phys s" "npage s1 = npage s" using pmm_frame_phys [OF s1(2)] by auto
    show ?thesis
    proof (cases r)
      case None
      then have F: "F = {}" "mem_ok s1 {}" using s1(4) by auto
      have run: "walk_level t i create s = Inr (None, s1)" using False yes None s1(1) by (simp add: walk_level_def pte_at_def)
      have "grown s F s1 {} I pd" using F wf ph pmm_mem_frame [OF s1(2)] s1(3) by (simp add: grown_def)
      then show ?thesis using run slot yes F(1) by (intro exI [of _ None] exI [of _ s1] exI [of _ "{}"]) simp
    next
      case (Some f)
      then have f: "f \<in> F" "mem_ok s1 (F - {f})" using s1(4) by auto
      have fn: "f < npage s" "npage s < 2 ^ 32" "f \<notin> pt_frames (phys s) I pd"
        using ok f(1) pt_wfD(2) [OF wf] by (auto simp: mem_ok_def)
      define e where "e = pte_create (of_nat f) (0x10 OR 1)"
      have e: "valid_pte e" "pte_frame e = f" using pte_frame_create [of f "0x10 OR 1"] fn(2,1) by (auto simp: e_def perm_ok_def)
      define s' where "s' = set_pte (t, i) e (zero_page f (set_page_ref f 1 s1))"
      have m': "phys s' = (phys s)(f := (\<lambda>_. 0), t := ((phys s) t)(i := e))"
      proof -
        have "t \<noteq> f" using fn(3) table_in_frames [OF p(1) t] by auto
        then show ?thesis by (simp add: s'_def set_pte_def zero_page_def page_ops ph)
      qed
      have n': "npage s' = npage s" by (simp add: s'_def set_pte_def zero_page_def page_ops ph)
      have "KADDR (set_page_ref f 1 s1) (page2pa f) = Inr f" using fn ph by (intro KADDR_page2pa) (simp_all add: page_ops)
      moreover have "KADDR s' (PTE_ADDR (pte_at s' (t, i))) = Inr f"
        using e(2) fn(1) n' KADDR_frame [of e s'] by (simp add: pte_at_def m')
      ultimately have run: "walk_level t i create s = Inr (Some f, s')"
        using False yes Some s1(1) by (simp add: walk_level_def pte_at_def Let_def s'_def e_def)
      have fresh: "table (phys s') pd (below p i) = Some f"
        using table_add [OF wf p t slot fn(3) e p(2) m'] by simp
      have "grown s F s' (F - {f}) I pd"
        unfolding grown_def
      proof (intro conjI allI ballI impI)
        have "mem_frame s1 s'" by (simp add: s'_def mem_frame_def set_pte_def zero_page_def page_ops)
        then show "mem_frame s s'" using mem_frame_trans [OF pmm_mem_frame [OF s1(2)]] by blast
        show "mem_ok s' (F - {f})" using f(2) fn ph
          by (simp add: s'_def mem_ok_def set_pte_def zero_page_def set_page_ref_def n' unreserved_def PageReserved_def) (simp add: upd_page_def)
        show "pt_wf (phys s') (npage s') (F - {f}) I pd"
          unfolding n' by (rule pt_wf_add [OF wf p t slot f(1) fn(1) e m'])
        show "pt_frames (phys s') I pd \<subseteq> pt_frames (phys s) I pd \<union> (F - (F - {f}))"
          using frames_add [OF wf p t slot fn(3) e m'] f(1) by auto
        show "table (phys s') pd x = Some u" if "in_tree I x \<and> table (phys s) pd x = Some u" for x u
          using table_add [OF wf p t slot fn(3) e _ m', of x] that slot by auto
        show "entry (phys s') pd a k j = entry (phys s) pd a k j" if "a \<in> I" "k < 512" for a k j
          by (rule entry_add [OF wf p t slot fn(3) e m' that])
        show "phys s' g = phys s g" if "g \<notin> (F - (F - {f})) \<union> pt_frames (phys s) I pd" for g
          using that f(1) table_in_frames [OF p(1) t] by (auto simp: m')
        show "unreserved s' q = unreserved s q" for q
          using s1(3) by (auto simp: s'_def set_pte_def zero_page_def page_ops unreserved_def)
        show "page_ref s' q = page_ref s q" if "q \<notin> F - (F - {f})" for q
          using s1(3) that f(1) by (auto simp: s'_def set_pte_def zero_page_def page_ops page_ref_def)
      qed auto
      moreover have "F - (F - {f}) = {f}" using f(1) by auto
      ultimately show ?thesis using run fresh yes by (intro exI [of _ "Some f"] exI [of _ s'] exI [of _ "F - {f}"]) simp
    qed
  qed
qed

lemma get_pte_ok:
  assumes ok: "mem_ok s F" and wf: "pt_wf (phys s) (npage s) F I pd" and la: "PDX1 la \<in> I"
  shows "\<exists>r s' F'. get_pte pd la create s = Inr (r, s') \<and> grown s F s' F' I pd \<and> card (F - F') \<le> 2 \<and> (\<not> create \<longrightarrow> s' = s \<and> F' = F) \<and>
    (case r of None \<Rightarrow> table (phys s) pd (Low (PDX1 la) (PDX0 la)) = None \<and> (create \<longrightarrow> F' = {})
     | Some (t, i) \<Rightarrow> table (phys s') pd (Low (PDX1 la) (PDX0 la)) = Some t \<and> i = PTX la)"
proof -
  have T: "in_tree I Top" "in_tree I (below Top (PDX1 la))" "Top \<noteq> below Top (PDX1 la)" "table (phys s) pd Top = Some pd"
    using la by auto
  obtain r1 s1 F1 where w1: "walk_level pd (PDX1 la) create s = Inr (r1, s1)" "grown s F s1 F1 I pd" "card (F - F1) \<le> 1"
      "\<not> create \<longrightarrow> s1 = s \<and> F1 = F"
      "case r1 of None \<Rightarrow> table (phys s) pd (below Top (PDX1 la)) = None \<and> (create \<longrightarrow> F1 = {})
       | Some u \<Rightarrow> table (phys s1) pd (below Top (PDX1 la)) = Some u"
    using walk_level_ok [OF ok wf T] by blast
  show ?thesis
  proof (cases r1)
    case None
    then have "get_pte pd la create s = Inr (None, s1)" using w1(1) by (simp add: get_pte_def)
    then show ?thesis using w1 None by (intro exI [of _ None] exI [of _ s1] exI [of _ F1]) simp
  next
    case (Some t1)
    have M: "in_tree I (Mid (PDX1 la))" "in_tree I (below (Mid (PDX1 la)) (PDX0 la))"
        "Mid (PDX1 la) \<noteq> below (Mid (PDX1 la)) (PDX0 la)" "table (phys s1) pd (Mid (PDX1 la)) = Some t1"
      using la w1(5) Some by auto
    note g1 = grownD [OF w1(2)]
    obtain r2 s2 F2 where w2: "walk_level t1 (PDX0 la) create s1 = Inr (r2, s2)" "grown s1 F1 s2 F2 I pd" "card (F1 - F2) \<le> 1"
        "\<not> create \<longrightarrow> s2 = s1 \<and> F2 = F1"
        "case r2 of None \<Rightarrow> table (phys s1) pd (below (Mid (PDX1 la)) (PDX0 la)) = None \<and> (create \<longrightarrow> F2 = {})
         | Some u \<Rightarrow> table (phys s2) pd (below (Mid (PDX1 la)) (PDX0 la)) = Some u"
      using walk_level_ok [OF g1(3,4) M] by blast
    have g: "grown s F s2 F2 I pd" by (rule grown_trans [OF w1(2) w2(2)])
    have no: "\<not> create \<longrightarrow> s2 = s \<and> F2 = F" using w1(4) w2(4) by blast
    have parts: "F - F2 = (F - F1) \<union> (F1 - F2)" using g1(2) grownD(2) [OF w2(2)] by auto
    have card: "card (F - F2) \<le> 2" unfolding parts using card_Un_le [of "F - F1" "F1 - F2"] w1(3) w2(3) by linarith
    have run: "get_pte pd la create s = Inr (map_option (\<lambda>u. (u, PTX la)) r2, s2)"
      using w1(1) w2(1) Some by (simp add: get_pte_def split: option.split)
    have "table (phys s) pd (Low (PDX1 la) (PDX0 la)) = None" if "table (phys s1) pd (Low (PDX1 la) (PDX0 la)) = None"
    proof (rule ccontr)
      assume "table (phys s) pd (Low (PDX1 la) (PDX0 la)) \<noteq> None"
      then obtain u where "table (phys s) pd (Low (PDX1 la) (PDX0 la)) = Some u" by blast
      then have "table (phys s1) pd (Low (PDX1 la) (PDX0 la)) = Some u" using g1(6) [of "Low (PDX1 la) (PDX0 la)" u] la by simp
      with that show False by simp
    qed
    then show ?thesis using run g card no w2(5)
      by (intro exI [of _ "map_option (\<lambda>u. (u, PTX la)) r2"] exI [of _ s2] exI [of _ F2]) (simp split: option.splits)
  qed
qed

section \<open>Looking up and changing one entry\<close>

lemma get_pte_present:
  assumes wf: "pt_wf (phys s) (npage s) F I pd" and la: "PDX1 la \<in> I"
    and t: "table (phys s) pd (Low (PDX1 la) (PDX0 la)) = Some t"
  shows "get_pte pd la create s = Inr (Some (t, PTX la), s)"
proof -
  obtain t1 where t1: "child (phys s) pd (PDX1 la) = Some t1" "child (phys s) t1 (PDX0 la) = Some t"
    using t by (auto split: option.splits)
  have "t1 < npage s" "t < npage s"
    using pt_wfD(1) [OF wf] table_in_frames [of I "Mid (PDX1 la)"] table_in_frames [of I "Low (PDX1 la) (PDX0 la)"] la t t1 by auto
  then have "walk_level pd (PDX1 la) create s = Inr (Some t1, s)" "walk_level t1 (PDX0 la) create s = Inr (Some t, s)"
    using t1 by (auto simp: walk_level_def pte_at_def child_def KADDR_frame split: if_splits)
  then show ?thesis by (simp add: get_pte_def)
qed

lemma get_pte_absent:
  assumes wf: "pt_wf (phys s) (npage s) F I pd" and la: "PDX1 la \<in> I"
    and t: "table (phys s) pd (Low (PDX1 la) (PDX0 la)) = None"
  shows "get_pte pd la False s = Inr (None, s)"
proof (cases "child (phys s) pd (PDX1 la)")
  case None
  then have "walk_level pd (PDX1 la) False s = Inr (None, s)"
    by (auto simp: walk_level_def pte_at_def child_def split: if_splits)
  then show ?thesis by (simp add: get_pte_def)
next
  case (Some t1)
  then have "child (phys s) t1 (PDX0 la) = None" "t1 < npage s"
    using t pt_wfD(1) [OF wf] table_in_frames [of I "Mid (PDX1 la)"] la by auto
  then have "walk_level pd (PDX1 la) False s = Inr (Some t1, s)" "walk_level t1 (PDX0 la) False s = Inr (None, s)"
    using Some by (auto simp: walk_level_def pte_at_def child_def KADDR_frame split: if_splits)
  then show ?thesis by (simp add: get_pte_def)
qed

lemma table_write:
  assumes wf: "pt_wf m n F I pd" and t: "table m pd (Low i k) = Some t" "i \<in> I" "k < 512" and y: "in_tree I y"
    and m': "m' = m(t := (m t)(j := w))"
  shows "table m' pd y = table m pd y"
proof -
  have inj: "x = Low i k" if "in_tree I x" "table m pd x = Some t" for x
    by (rule pt_wfD(3) [OF wf that(1) _ that(2) t(1)]) (simp add: t)
  have pd: "pd \<noteq> t" using inj [of Top] by auto
  have c: "child m' pd a = child m pd a" for a using pd by (simp add: child_def m')
  have d: "child m' u b = child m u b" if "child m pd a = Some u" "a \<in> I" for a b u
  proof -
    have "u \<noteq> t" using inj [of "Mid a"] that by auto
    then show ?thesis by (simp add: child_def m')
  qed
  show ?thesis using y c d by (cases y) (auto split: option.split)
qed

lemma entry_write:
  assumes wf: "pt_wf m n F I pd" and t: "table m pd (Low i k) = Some t" "i \<in> I" "k < 512"
    and m': "m' = m(t := (m t)(j := w))" and ab: "a \<in> I" "b < 512"
  shows "entry m' pd a b c = (if a = i \<and> b = k \<and> c = j then w else entry m pd a b c)"
proof -
  have low: "table m' pd (Low a b) = table m pd (Low a b)"
    using ab by (intro table_write [OF wf t _ m']) simp
  have ne: "u \<noteq> t" if "table m pd (Low a b) = Some u" "\<not> (a = i \<and> b = k)" for u
    using pt_wfD(3) [OF wf, of "Low a b" "Low i k" t] that ab t by auto
  show ?thesis unfolding entry_def low using ne t by (auto simp: m' split: option.split)
qed

lemma frames_write:
  assumes wf: "pt_wf m n F I pd" and t: "table m pd (Low i k) = Some t" "i \<in> I" "k < 512" and m': "m' = m(t := (m t)(j := w))"
  shows "pt_frames m' I pd = pt_frames m I pd"
  using table_write [OF wf t _ m'] unfolding pt_frames_def by auto

lemma pt_wf_write:
  assumes wf: "pt_wf m n F I pd" and t: "table m pd (Low i k) = Some t" "i \<in> I" "k < 512" and m': "m' = m(t := (m t)(j := w))"
    and F': "F' \<inter> pt_frames m I pd = {}"
  shows "pt_wf m' n F' I pd"
  unfolding pt_wf_def frames_write [OF wf t m']
proof (intro conjI ballI allI impI)
  show "u < n" "u \<notin> F'" if "u \<in> pt_frames m I pd" for u using pt_wfD(1) [OF wf that] F' that by auto
  show "x = y" if "in_tree I x \<and> in_tree I y \<and> table m' pd x = Some u \<and> table m' pd y = Some u" for x y u
    using that table_write [OF wf t _ m', of x] table_write [OF wf t _ m', of y] pt_wfD(3) [OF wf, of x y u] by metis
qed

lemma mapping_table: "table m pd (Low (PDX1 la) (PDX0 la)) = Some t \<Longrightarrow> mapping m pd la = m t (PTX la)"
  by (simp add: mapping_def entry_def)

lemma mapping_no_table: "table m pd (Low (PDX1 la) (PDX0 la)) = None \<Longrightarrow> mapping m pd la = 0"
  by (simp add: mapping_def entry_def)

text \<open>\<open>get_page\<close> reads the mapping.\<close>

lemma get_page_ok:
  assumes wf: "pt_wf (phys s) (npage s) F I pd" and la: "PDX1 la \<in> I"
    and range: "valid_pte (mapping (phys s) pd la) \<Longrightarrow> pte_frame (mapping (phys s) pd la) < npage s"
  shows "get_page pd la s = Inr (if valid_pte (mapping (phys s) pd la) then Some (pte_frame (mapping (phys s) pd la)) else None, s)"
proof (cases "table (phys s) pd (Low (PDX1 la) (PDX0 la))")
  case None
  then show ?thesis using get_pte_absent [OF wf la None] by (simp add: get_page_def mapping_no_table)
next
  case (Some t)
  then show ?thesis using get_pte_present [OF wf la Some, of False] range
    by (simp add: get_page_def mapping_table [OF Some] pte_at_def pte2page_frame)
qed

lemma mem_frame_dec: "mem_frame s (page_ref_dec p s)" "mem_frame s (page_ref_inc p s)" "mem_frame s (set_pte q w s)"
  by (simp_all add: page_ref_dec_def page_ref_inc_def set_pte_def upd_page_def mem_frame_def)

lemma ref_simps [simp]:
  "page_ref (page_ref_dec p s) q = (if q = p then page_ref s p - 1 else page_ref s q)"
  "page_ref (page_ref_inc p s) q = (if q = p then page_ref s p + 1 else page_ref s q)"
  "page_ref (set_pte r w t) q = page_ref t q"
  "unreserved (page_ref_dec p s) q = unreserved s q" "unreserved (page_ref_inc p s) q = unreserved s q"
  "unreserved (set_pte r w t) q = unreserved t q"
  "phys (page_ref_dec p t) = phys t" "phys (page_ref_inc p t) = phys t" "npage (page_ref_dec p t) = npage t"
  "npage (page_ref_inc p t) = npage t" "npage (set_pte r w t) = npage t"
  "phys (set_pte r w t) = (phys t)(fst r := (phys t (fst r))(snd r := w))"
  by (auto simp: page_ref_def page_ref_dec_def page_ref_inc_def set_pte_def upd_page_def unreserved_def PageReserved_def)

lemma mem_ok_ref [simp]:
  "mem_ok (page_ref_dec p s) F = mem_ok s F" "mem_ok (page_ref_inc p s) F = mem_ok s F" "mem_ok (set_pte r w s) F = mem_ok s F"
  by (simp_all add: mem_ok_def) (simp_all add: page_ref_dec_def page_ref_inc_def set_pte_def)

lemma page_remove_pte_ok:
  assumes ok: "mem_ok s F" and e: "valid_pte (phys s t j)" and p: "p = pte_frame (phys s t j)" "p < npage s"
    and last: "page_ref s p = 1 \<Longrightarrow> p \<notin> F \<and> unreserved s p \<and> room_above F p"
  shows "\<exists>s'. page_remove_pte pd la (t, j) s = Inr s' \<and> mem_frame s s' \<and> phys s' = (phys s)(t := (phys s t)(j := 0)) \<and>
    mem_ok s' (if page_ref s p = 1 then insert p F else F) \<and>
    (\<forall>q. unreserved s' q = unreserved s q \<and> page_ref s' q = (if q = p then page_ref s p - 1 else page_ref s q))"
proof -
  let ?s1 = "page_ref_dec p s"
  have page: "pte2page s (pte_at s (t, j)) = Inr p" using e p by (simp add: pte_at_def pte2page_frame)
  show ?thesis
  proof (cases "page_ref s p = 1")
    case True
    obtain s2 where s2: "free_pages p 1 ?s1 = Inr s2" "pmm_frame ?s1 s2" "mem_ok s2 (insert p F)"
        "\<forall>q. unreserved s2 q = unreserved ?s1 q \<and> page_ref s2 q = (if q = p then 0 else page_ref ?s1 q)"
      using free_one_ok [of ?s1 F p] ok p last True by auto
    have "page_remove_pte pd la (t, j) s = Inr (set_pte (t, j) 0 s2)"
      using e page s2(1) True by (simp add: page_remove_pte_def pte_at_def Let_def)
    moreover have "mem_frame s (set_pte (t, j) 0 s2)"
      by (rule mem_frame_trans [OF mem_frame_dec(1) mem_frame_trans [OF pmm_mem_frame [OF s2(2)] mem_frame_dec(3)]])
    ultimately show ?thesis using s2 pmm_frame_phys [OF s2(2)] True by (intro exI [of _ "set_pte (t, j) 0 s2"]) auto
  next
    case False
    then have "page_remove_pte pd la (t, j) s = Inr (set_pte (t, j) 0 ?s1)"
      using e page by (simp add: page_remove_pte_def pte_at_def Let_def)
    moreover have "mem_frame s (set_pte (t, j) 0 ?s1)" by (rule mem_frame_trans [OF mem_frame_dec(1,3)])
    ultimately show ?thesis using ok False by (intro exI [of _ "set_pte (t, j) 0 ?s1"]) auto
  qed
qed

end
