(* ===== verification/Page_Insert.thy ===== *)
theory Page_Insert
  imports Page_Map
begin

text \<open>
  \<open>page_insert\<close>, \<open>page_remove\<close> and \<open>pgdir_alloc_page\<close>: each changes the mapping of one page and
  keeps the tables and the allocator well formed.
\<close>

definition va_index :: "64 word \<Rightarrow> nat \<times> nat \<times> nat" where
  "va_index la = (PDX1 la, PDX0 la, PTX la)"

lemma perm_ok_or: "perm_ok perm \<Longrightarrow> perm_ok (1 OR perm)"
proof -
  assume a: "perm_ok perm"
  have "(0x3FF :: 32 word) = mask 10" by (simp add: mask_eq_exp_minus_1)
  moreover have "(1 OR perm) AND mask 10 = 1 OR perm"
    using perm_bits [OF a] by (intro bit_word_eqI) (auto simp: bit_and_iff bit_or_iff bit_mask_iff bit_1_iff)
  ultimately show "perm_ok (1 OR perm)" by (simp only: perm_ok_def)
qed

text \<open>The new entry, in the frame the walk found.\<close>

lemma set_entry_ok:
  assumes ok: "mem_ok s F" and wf: "pt_wf (phys s) (npage s) F I pd" and la: "PDX1 la \<in> I"
    and t: "table (phys s) pd (Low (PDX1 la) (PDX0 la)) = Some t"
    and s': "s' = set_pte (t, PTX la) w s"
  shows "mem_ok s' F" "pt_wf (phys s') (npage s') F I pd" "mapping (phys s') pd la = w"
    "PDX1 la' \<in> I \<Longrightarrow> va_index la' \<noteq> va_index la \<Longrightarrow> mapping (phys s') pd la' = mapping (phys s) pd la'"
    "pt_frames (phys s') I pd = pt_frames (phys s) I pd"
proof -
  have m': "phys s' = (phys s)(t := (phys s t)(PTX la := w))" by (simp add: s')
  note W = wf t la index_bound(2) m'
  show "mem_ok s' F" using ok by (simp add: s')
  have "F \<inter> pt_frames (phys s) I pd = {}" using pt_wfD(2) [OF wf] by auto
  from pt_wf_write [OF W this] show "pt_wf (phys s') (npage s') F I pd" by (simp add: s')
  show "mapping (phys s') pd la = w" using entry_write [OF W la index_bound(2)] by (simp add: mapping_def)
  show "mapping (phys s') pd la' = mapping (phys s) pd la'" if "PDX1 la' \<in> I" "va_index la' \<noteq> va_index la"
    using entry_write [OF W that(1) index_bound(2), where c = "PTX la'"] that(2) by (auto simp: mapping_def va_index_def)
  show "pt_frames (phys s') I pd = pt_frames (phys s) I pd" by (rule frames_write [OF W])
qed

lemma grown_mapping: "grown s F s' F' I pd \<Longrightarrow> PDX1 la \<in> I \<Longrightarrow> mapping (phys s') pd la = mapping (phys s) pd la"
  unfolding mapping_def by (rule grownD(7)) simp_all

lemma page_insert_fresh:
  assumes ok: "mem_ok s F" and wf: "pt_wf (phys s) (npage s) F I pd" and la: "PDX1 la \<in> I"
    and fresh: "\<not> valid_pte (mapping (phys s) pd la)"
  shows "\<exists>r s1 F1. grown s F s1 F1 I pd \<and> card (F - F1) \<le> 2 \<and> (case r of
      None \<Rightarrow> page_insert pd page la perm s = Inr (- E_NO_MEM, s1) \<and> F1 = {}
    | Some t \<Rightarrow> table (phys s1) pd (Low (PDX1 la) (PDX0 la)) = Some t \<and>
        page_insert pd page la perm s = Inr (0, set_pte (t, PTX la) (pte_create (of_nat page) (1 OR perm)) (page_ref_inc page s1)))"
proof -
  obtain r s1 F1 where g: "get_pte pd la True s = Inr (r, s1)" "grown s F s1 F1 I pd" "card (F - F1) \<le> 2"
      "case r of None \<Rightarrow> F1 = {} | Some (t, i) \<Rightarrow> table (phys s1) pd (Low (PDX1 la) (PDX0 la)) = Some t \<and> i = PTX la"
    using get_pte_ok [OF ok wf la, of True] by (auto split: option.splits)
  show ?thesis
  proof (cases r)
    case None
    then show ?thesis using g by (intro exI [of _ None] exI [of _ s1] exI [of _ F1]) (simp add: page_insert_def)
  next
    case (Some ti)
    then obtain t where t: "r = Some (t, PTX la)" "table (phys s1) pd (Low (PDX1 la) (PDX0 la)) = Some t"
      using g(4) by (cases ti) auto
    have "\<not> valid_pte (pte_at (page_ref_inc page s1) (t, PTX la))"
      using fresh grown_mapping [OF g(2) la] mapping_table [OF t(2)] by (simp add: pte_at_def)
    then have "page_insert pd page la perm s =
        Inr (0, set_pte (t, PTX la) (pte_create (of_nat page) (1 OR perm)) (page_ref_inc page s1))"
      using g(1) t(1) by (simp add: page_insert_def Let_def)
    then show ?thesis using g(2,3) t(2) by (intro exI [of _ "Some t"] exI [of _ s1] exI [of _ F1]) simp
  qed
qed

text \<open>The page an entry refers to, and what giving it up asks for.\<close>

definition releasable :: "'a mem_scheme \<Rightarrow> nat set \<Rightarrow> nat set \<Rightarrow> nat \<Rightarrow> nat \<Rightarrow> bool" where
  "releasable s F I pd p \<longleftrightarrow> p < npage s \<and> p \<notin> pt_frames (phys s) I pd \<and>
     (page_ref s p = 1 \<longrightarrow> p \<notin> F \<and> unreserved s p \<and> room_above F p)"

lemma page_insert_replace:
  assumes ok: "mem_ok s F" and wf: "pt_wf (phys s) (npage s) F I pd" and la: "PDX1 la \<in> I"
    and old: "valid_pte (mapping (phys s) pd la)" "p = pte_frame (mapping (phys s) pd la)"
    and rel: "p < npage s" "p \<noteq> page \<Longrightarrow> releasable s F I pd p"
  shows "\<exists>s' F'. page_insert pd page la perm s = Inr (0, s') \<and> mem_frame s s' \<and> mem_ok s' F' \<and>
    pt_wf (phys s') (npage s') F' I pd \<and> mapping (phys s') pd la = pte_create (of_nat page) (1 OR perm) \<and>
    (\<forall>la'. PDX1 la' \<in> I \<and> va_index la' \<noteq> va_index la \<longrightarrow> mapping (phys s') pd la' = mapping (phys s) pd la') \<and>
    page_ref s' page = page_ref s page + (if p = page then 0 else 1)"
proof -
  obtain t where t: "table (phys s) pd (Low (PDX1 la) (PDX0 la)) = Some t"
    using old(1) mapping_no_table by (cases "table (phys s) pd (Low (PDX1 la) (PDX0 la))") auto
  have e: "phys s t (PTX la) = mapping (phys s) pd la" using mapping_table [OF t] by simp
  note g = get_pte_present [OF wf la t, of True]
  let ?s2 = "page_ref_inc page s"
  have p2: "pte2page ?s2 (pte_at ?s2 (t, PTX la)) = Inr p" using old rel(1) e by (simp add: pte_at_def pte2page_frame)
  let ?w = "pte_create (of_nat page) (1 OR perm)"
  show ?thesis
  proof (cases "p = page")
    case True
    let ?s3 = "page_ref_dec page ?s2"
    have run: "page_insert pd page la perm s = Inr (0, set_pte (t, PTX la) ?w ?s3)"
      using g p2 old(1) e True by (simp add: page_insert_def Let_def pte_at_def)
    have t3: "table (phys ?s3) pd (Low (PDX1 la) (PDX0 la)) = Some t" using t by simp
    have ok3: "mem_ok ?s3 F" "pt_wf (phys ?s3) (npage ?s3) F I pd" using ok wf by simp_all
    note S = set_entry_ok [OF ok3 la t3 refl, where w = ?w]
    have "mem_frame s (set_pte (t, PTX la) ?w ?s3)" by (rule mem_frame_trans [OF mem_frame_dec(2) mem_frame_trans [OF mem_frame_dec(1,3)]])
    moreover have "\<forall>la'. PDX1 la' \<in> I \<and> va_index la' \<noteq> va_index la \<longrightarrow>
        mapping (phys (set_pte (t, PTX la) ?w ?s3)) pd la' = mapping (phys s) pd la'" using S(4) by simp
    ultimately show ?thesis using run S(1-3) True by (intro exI [of _ "set_pte (t, PTX la) ?w ?s3"] exI [of _ F]) simp
  next
    case False
    note r = rel(2) [OF False, unfolded releasable_def]
    have "\<exists>s3. page_remove_pte pd la (t, PTX la) ?s2 = Inr s3 \<and> mem_frame ?s2 s3 \<and>
        phys s3 = (phys ?s2)(t := (phys ?s2 t)(PTX la := 0)) \<and>
        mem_ok s3 (if page_ref ?s2 p = 1 then insert p F else F) \<and>
        (\<forall>q. unreserved s3 q = unreserved ?s2 q \<and> page_ref s3 q = (if q = p then page_ref ?s2 p - 1 else page_ref ?s2 q))"
      using ok old e rel(1) r False by (intro page_remove_pte_ok) (simp_all add: pte_at_def)
    then obtain s3 where s3: "page_remove_pte pd la (t, PTX la) ?s2 = Inr s3" "mem_frame ?s2 s3"
        "phys s3 = (phys ?s2)(t := (phys ?s2 t)(PTX la := 0))"
        "mem_ok s3 (if page_ref ?s2 p = 1 then insert p F else F)"
        "\<forall>q. page_ref s3 q = (if q = p then page_ref ?s2 p - 1 else page_ref ?s2 q)"
      by blast
    define F' where "F' = (if page_ref ?s2 p = 1 then insert p F else F)"
    have m3: "phys s3 = (phys s)(t := (phys s t)(PTX la := 0))" using s3(3) by simp
    note W = wf t la index_bound(2) m3
    have n3: "npage s3 = npage s" using mem_frame_fields(10) [OF s3(2)] by simp
    have "F' \<inter> pt_frames (phys s) I pd = {}" using r pt_wfD(2) [OF wf] by (auto simp: F'_def split: if_splits)
    then have wf3: "pt_wf (phys s3) (npage s3) F' I pd" unfolding n3 by (rule pt_wf_write [OF W])
    have t3: "table (phys s3) pd (Low (PDX1 la) (PDX0 la)) = Some t"
      using table_write [OF W(1-4) _ m3, of "Low (PDX1 la) (PDX0 la)"] t la by simp
    have run: "page_insert pd page la perm s = Inr (0, set_pte (t, PTX la) ?w s3)"
      using g p2 old(1) e False s3(1) by (simp add: page_insert_def Let_def pte_at_def)
    define s4 where "s4 = set_pte (t, PTX la) ?w s3"
    note S = set_entry_ok [OF s3(4) [folded F'_def] wf3 la t3 s4_def]
    have fr: "mem_frame s s4"
      unfolding s4_def by (rule mem_frame_trans [OF mem_frame_dec(2) mem_frame_trans [OF s3(2) mem_frame_dec(3)]])
    have "mapping (phys s3) pd la' = mapping (phys s) pd la'" if "PDX1 la' \<in> I" "va_index la' \<noteq> va_index la" for la'
      using entry_write [OF W that(1) index_bound(2), where c = "PTX la'"] that(2) by (auto simp: mapping_def va_index_def)
    then have others: "\<forall>la'. PDX1 la' \<in> I \<and> va_index la' \<noteq> va_index la \<longrightarrow> mapping (phys s4) pd la' = mapping (phys s) pd la'"
      using S(4) by simp
    have ref: "page_ref s4 page = page_ref s page + (if p = page then 0 else 1)" using s3(5) False by (simp add: s4_def)
    show ?thesis using run [folded s4_def] fr S(1-3) others ref by (intro exI [of _ s4] exI [of _ F'] conjI)
  qed
qed

text \<open>C22: \<open>page_insert\<close> either maps the address to the page with the given permission, so that \<open>get_page\<close>
  then finds it, counting one more reference unless the page was already mapped there, or runs
  out of memory and maps nothing; every other address keeps its mapping, and the tables and the
  allocator stay well formed.\<close>

theorem page_insert_maps:
  assumes ok: "mem_ok s F" "pt_wf (phys s) (npage s) F I pd" "PDX1 la \<in> I"
    and page: "page < npage s" "page \<notin> F" "perm_ok perm"
    and old: "valid_pte (mapping (phys s) pd la) \<Longrightarrow> pte_frame (mapping (phys s) pd la) \<noteq> page \<Longrightarrow>
      releasable s F I pd (pte_frame (mapping (phys s) pd la))"
  shows "\<exists>r s' F'. page_insert pd page la perm s = Inr (r, s') \<and> mem_ok s' F' \<and> pt_wf (phys s') (npage s') F' I pd \<and>
    (\<forall>la'. PDX1 la' \<in> I \<and> va_index la' \<noteq> va_index la \<longrightarrow> mapping (phys s') pd la' = mapping (phys s) pd la') \<and>
    (if r = 0 then get_page pd la s' = Inr (Some page, s') \<and>
         mapping (phys s') pd la = pte_create (of_nat page) (1 OR perm) \<and>
         page_ref s' page = page_ref s page +
           (if valid_pte (mapping (phys s) pd la) \<and> pte_frame (mapping (phys s) pd la) = page then 0 else 1)
       else r = - E_NO_MEM \<and> F' = {} \<and> mapping (phys s') pd la = mapping (phys s) pd la)"
proof -
  have n: "npage s < 2 ^ 32" using ok(1) by (simp add: mem_ok_def)
  let ?w = "pte_create (of_nat page) (1 OR perm)"
  have w: "valid_pte ?w" "pte_frame ?w = page" using pte_frame_create [OF _ perm_ok_or [OF page(3)]] page(1) n by auto
  have get: "get_page pd la t = Inr (Some page, t)"
    if "pt_wf (phys t) (npage t) G I pd" "mapping (phys t) pd la = ?w" "npage t = npage s" for t :: "'a mem_scheme" and G
    using get_page_ok [OF that(1) ok(3)] that(2,3) w page(1) by simp
  show ?thesis
  proof (cases "valid_pte (mapping (phys s) pd la)")
    case True
    let ?p = "pte_frame (mapping (phys s) pd la)"
    have "?p < npage s" using old [OF True] page(1) by (cases "?p = page") (auto simp: releasable_def)
    then obtain s' F' where s': "page_insert pd page la perm s = Inr (0, s')" "mem_frame s s'" "mem_ok s' F'"
        "pt_wf (phys s') (npage s') F' I pd" "mapping (phys s') pd la = ?w"
        "\<forall>la'. PDX1 la' \<in> I \<and> va_index la' \<noteq> va_index la \<longrightarrow> mapping (phys s') pd la' = mapping (phys s) pd la'"
        "page_ref s' page = page_ref s page + (if ?p = page then 0 else 1)"
      using page_insert_replace [OF ok True refl _ old [OF True]] by blast
    have "get_page pd la s' = Inr (Some page, s')" by (rule get [OF s'(4,5) mem_frame_fields(10) [OF s'(2)]])
    then show ?thesis using s' True by (intro exI [of _ 0] exI [of _ s'] exI [of _ F']) simp
  next
    case False
    obtain r s1 F1 where g: "grown s F s1 F1 I pd" "case r of
        None \<Rightarrow> page_insert pd page la perm s = Inr (- E_NO_MEM, s1) \<and> F1 = {}
      | Some t \<Rightarrow> table (phys s1) pd (Low (PDX1 la) (PDX0 la)) = Some t \<and>
          page_insert pd page la perm s = Inr (0, set_pte (t, PTX la) ?w (page_ref_inc page s1))"
      using page_insert_fresh [OF ok False] by blast
    note G = grownD [OF g(1)]
    show ?thesis
    proof (cases r)
      case None
      then have "\<forall>la'. PDX1 la' \<in> I \<longrightarrow> mapping (phys s1) pd la' = mapping (phys s) pd la'" using grown_mapping [OF g(1)] by simp
      then show ?thesis using g(2) None G(3,4) ok(3)
        by (intro exI [of _ "- E_NO_MEM"] exI [of _ s1] exI [of _ F1]) (simp add: E_NO_MEM_def)
    next
      case (Some t)
      then have t: "table (phys (page_ref_inc page s1)) pd (Low (PDX1 la) (PDX0 la)) = Some t" using g(2) by simp
      have ok1: "mem_ok (page_ref_inc page s1) F1" "pt_wf (phys (page_ref_inc page s1)) (npage (page_ref_inc page s1)) F1 I pd"
        using G(3,4) by simp_all
      define s2 where "s2 = set_pte (t, PTX la) ?w (page_ref_inc page s1)"
      note S = set_entry_ok [OF ok1 ok(3) t s2_def]
      have run: "page_insert pd page la perm s = Inr (0, s2)" using g(2) Some by (simp add: s2_def)
      have "npage s2 = npage s" using G(11) by (simp add: s2_def)
      then have gp: "get_page pd la s2 = Inr (Some page, s2)" by (rule get [OF S(2,3)])
      have others: "mapping (phys s2) pd la' = mapping (phys s) pd la'" if "PDX1 la' \<in> I" "va_index la' \<noteq> va_index la" for la'
        using S(4) [OF that] grown_mapping [OF g(1) that(1)] by simp
      have "page_ref s2 page = page_ref s page + 1" using G(10) [of page] page(2) by (simp add: s2_def)
      then show ?thesis using run S(1-3) gp others False by (intro exI [of _ 0] exI [of _ s2] exI [of _ F1]) simp
    qed
  qed
qed

section \<open>A concrete memory\<close>

text \<open>A hundred frames, twelve of them free; frame 50 holds an empty page directory.\<close>

definition demo_mem :: mem where
  "demo_mem = pmm.extend demo_pmm (mem.fields (\<lambda>_ _. 0) 100)"

lemma demo_mem_simps [simp]: "phys demo_mem = (\<lambda>_ _. 0)" "npage demo_mem = 100"
  by (simp_all add: demo_mem_def pmm.defs mem.defs)

lemma demo_mem_pmm: "pages demo_mem = pages demo_pmm" "page_links demo_mem = page_links demo_pmm" "nr_free demo_mem = nr_free demo_pmm"
  by (simp_all add: demo_mem_def pmm.defs mem.defs)

lemma demo_mem_ok: "mem_ok demo_mem ({10..<14} \<union> {30..<38})"
proof -
  have "free_rep demo_mem [(10, 4), (30, 8)]"
    using demo_pmm_rep by (simp add: free_rep_def demo_mem_pmm PageProperty_def)
  then have "free_set demo_mem ({10..<14} \<union> {30..<38})" by (force simp: free_set_def)
  then show ?thesis
    by (auto simp: mem_ok_def unreserved_def PageReserved_def demo_mem_pmm demo_pmm_simps PG_reserved_def)
qed

lemma demo_mem_wf: "pt_wf (phys demo_mem) (npage demo_mem) ({10..<14} \<union> {30..<38}) {0, 1} 50"
proof -
  have t: "table (\<lambda>_ _. 0) 50 x = Some u \<Longrightarrow> x = Top \<and> u = 50" for x u
    by (cases x) (auto simp: child_def)
  then show ?thesis by (auto simp: pt_wf_def pt_frames_def dest!: t)
qed

theorem page_insert_maps_witness:
  "\<exists>r s'. page_insert 50 20 0x800000 0x16 demo_mem = Inr (r, s') \<and>
     (r = 0 \<longrightarrow> get_page 50 0x800000 s' = Inr (Some 20, s'))"
proof -
  have "\<not> valid_pte (mapping (phys demo_mem) 50 0x800000)" by (simp add: mapping_def entry_def child_def)
  moreover have "PDX1 0x800000 \<in> {0, 1}" by (simp add: PDX1_def)
  moreover have "perm_ok 0x16" by (simp add: perm_ok_def)
  ultimately show ?thesis
    using page_insert_maps [OF demo_mem_ok demo_mem_wf, of "0x800000" 20 "0x16"] by (auto split: if_splits)
qed

end
