(* ===== verification/Page_Loops.thy ===== *)
theory Page_Loops
  imports Page_Insert
begin

text \<open>
  The loops of \<open>unmap_range\<close> and \<open>copy_range\<close>. A user address on a page boundary is the
  number of its page; the loops advance over page numbers below \<open>USERTOP / PGSIZE\<close>, which
  bounds the number of their iterations.
\<close>

section \<open>Page numbers\<close>

definition va :: "nat \<Rightarrow> 64 word" where "va v = of_nat (v * 4096)"

lemma unat_va: "v < 2 ^ 52 \<Longrightarrow> unat (va v) = v * 4096"
  unfolding va_def unat_of_nat by (rule mod_less) simp

lemma unat_and_mask: "unat (w AND 0x1FF) = unat (w :: 64 word) mod 512"
proof -
  have "w AND 0x1FF = take_bit 9 w" by (simp add: take_bit_eq_mask mask_eq_exp_minus_1)
  then show ?thesis by (simp only: unsigned_take_bit_eq) (simp add: take_bit_eq_mod)
qed

lemma indices_va:
  assumes "v < 2 ^ 27"
  shows "PDX1 (va v) = v div 2 ^ 18" "PDX0 (va v) = v div 2 ^ 9 mod 512" "PTX (va v) = v mod 512"
proof -
  have v: "unat (va v) = v * 4096" by (rule unat_va) (use assms in simp)
  have "unat (drop_bit n (va v)) = v * 4096 div 2 ^ n" for n
    by (subst unat_drop_bit_eq) (simp only: drop_bit_eq_div v)
  note d = this [of 30] this [of 21] this [of 12]
  have "v * 4096 div 2 ^ 30 = v div 2 ^ 18" "v * 4096 div 2 ^ 21 = v div 2 ^ 9" "v * 4096 div 2 ^ 12 = v"
    using div_mult_mult2 [of 4096 v "2 ^ 18"] div_mult_mult2 [of 4096 v "2 ^ 9"] by simp_all
  moreover have "v div 2 ^ 18 < 512" using assms by (simp add: less_mult_imp_div_less)
  ultimately show "PDX1 (va v) = v div 2 ^ 18" "PDX0 (va v) = v div 2 ^ 9 mod 512" "PTX (va v) = v mod 512"
    unfolding PDX1_def PDX0_def PTX_def unat_and_mask d by simp_all
qed

lemma va_step: "va v + PGSIZE = va (v + 1)"
  by (simp add: va_def PGSIZE_def)

lemma va_less: "u < 2 ^ 52 \<Longrightarrow> v < 2 ^ 52 \<Longrightarrow> va u < va v \<longleftrightarrow> u < v"
  by (simp add: word_less_nat_alt unat_va)

lemma va_le: "u < 2 ^ 52 \<Longrightarrow> v < 2 ^ 52 \<Longrightarrow> va u \<le> va v \<longleftrightarrow> u \<le> v"
  by (simp add: word_le_nat_alt unat_va)

lemma va_nonzero: "0 < v \<Longrightarrow> v < 2 ^ 52 \<Longrightarrow> va v \<noteq> 0"
  using unat_va [of v] by (metis mult_is_0 not_gr_zero unat_0 zero_neq_numeral)

lemma va_skip:
  assumes "v < 2 ^ 27"
  shows "ROUNDDOWN (va v + PTSIZE) PTSIZE = va ((v div 512 + 1) * 512)"
proof -
  have pt: "PTSIZE = va 512" by (simp add: PTSIZE_def PGSIZE_def va_def)
  have sum: "va v + PTSIZE = va (v + 512)" unfolding pt by (simp add: va_def algebra_simps)
  have "unat (va (v + 512) mod va 512) = (v + 512) * 4096 mod (512 * 4096)"
    using assms by (simp add: unat_mod_distrib unat_va)
  also have "\<dots> = (v mod 512) * 4096" by (simp add: mult_mod_left)
  finally have m: "unat (va (v + 512) mod va 512) = (v mod 512) * 4096" .
  have "unat (ROUNDDOWN (va v + PTSIZE) PTSIZE) = (v + 512) * 4096 - (v mod 512) * 4096"
  proof -
    have u: "unat (va (v + 512)) = (v + 512) * 4096" using assms by (intro unat_va) simp
    then have "va (v + 512) mod va 512 \<le> va (v + 512)" unfolding word_le_nat_alt m by simp
    then show ?thesis unfolding ROUNDDOWN_def sum unfolding pt by (simp only: unat_sub m u)
  qed
  also have "\<dots> = (v + 512 - v mod 512) * 4096" by (simp add: diff_mult_distrib)
  also have "v + 512 - v mod 512 = (v div 512 + 1) * 512"
  proof -
    have "v + 512 - m = (q + 1) * 512" if "v - m = q * 512" "m \<le> v" for q m using that by simp
    then show ?thesis using minus_mod_eq_div_mult [of v 512] by simp
  qed
  finally have "unat (ROUNDDOWN (va v + PTSIZE) PTSIZE) = unat (va ((v div 512 + 1) * 512))"
    using assms by (subst unat_va) (auto simp: less_mult_imp_div_less)
  then show ?thesis by (rule unsigned_word_eqI)
qed

lemma va_aligned: "v < 2 ^ 52 \<Longrightarrow> va v mod PGSIZE = 0"
proof -
  assume "v < 2 ^ 52"
  then have "unat (va v mod PGSIZE) = 0" by (simp add: unat_mod_distrib PGSIZE_def unat_va)
  then show ?thesis by (simp add: unat_eq_0)
qed

text \<open>The skip stays in the user half.\<close>

lemma next_table: "(v :: nat) < 2 ^ 19 \<Longrightarrow> v < (v div 512 + 1) * 512 \<and> (v div 512 + 1) * 512 \<le> 2 ^ 19"
proof -
  assume "v < 2 ^ 19"
  then have "v div 512 < 2 ^ 10" by (simp add: less_mult_imp_div_less)
  moreover have "v < (k + 1) * 512 \<and> (k + 1) * 512 \<le> 2 ^ 19" if "k < 2 ^ 10" "k * 512 + r = v" "r < 512" for k r
    using that by auto
  ultimately show ?thesis using div_mult_mod_eq [of v 512] mod_less_divisor [of 512 v] by simp
qed

text \<open>The entry of page number \<open>v\<close>.\<close>

definition page_entry_at :: "memory \<Rightarrow> nat \<Rightarrow> nat \<Rightarrow> 64 word" where
  "page_entry_at m pd v = entry m pd (v div 2 ^ 18) (v div 2 ^ 9 mod 512) (v mod 512)"

lemma mapping_va: "v < 2 ^ 27 \<Longrightarrow> mapping m pd (va v) = page_entry_at m pd v"
  by (simp add: mapping_def page_entry_at_def indices_va)

lemma page_index_inj:
  assumes "u div 2 ^ 18 = v div 2 ^ 18" "u div 2 ^ 9 mod 512 = v div 2 ^ 9 mod 512" "u mod 512 = v mod 512"
  shows "u = (v :: nat)"
proof -
  have "w div 2 ^ 9 = (w div 2 ^ 18) * 512 + w div 2 ^ 9 mod 512" for w :: nat
  proof -
    have "w div 2 ^ 18 = w div 2 ^ 9 div 512" by (simp flip: div_mult2_eq)
    then show ?thesis by simp
  qed
  from this [of u] this [of v] have "u div 2 ^ 9 = v div 2 ^ 9" using assms(1,2) by simp
  then have "u div 512 = v div 512" by simp
  then show ?thesis using assms(3) by (metis div_mult_mod_eq)
qed

text \<open>The pages from \<open>v\<close> to the next table boundary share their last-level table.\<close>

lemma same_table:
  fixes u v :: nat
  assumes "v \<le> u" "u < (v div 512 + 1) * 512"
  shows "u div 2 ^ 18 = v div 2 ^ 18" "u div 2 ^ 9 = v div 2 ^ 9"
proof -
  have "u div 512 = v div 512"
  proof (rule antisym)
    show "v div 512 \<le> u div 512" using assms(1) by (rule div_le_mono)
    show "u div 512 \<le> v div 512" using assms(2) by (simp add: less_mult_imp_div_less less_Suc_eq_le flip: Suc_eq_plus1)
  qed
  then show "u div 2 ^ 9 = v div 2 ^ 9" by simp
  have "w div 2 ^ 18 = w div 512 div 512" for w :: nat by (simp flip: div_mult2_eq)
  with \<open>u div 512 = v div 512\<close> show "u div 2 ^ 18 = v div 2 ^ 18" by simp
qed

definition user_dirs :: "nat set" where "user_dirs = {0, 1}"

lemma user_dir: "v < 2 ^ 19 \<Longrightarrow> v div 2 ^ 18 \<in> user_dirs"
proof -
  assume "v < 2 ^ 19"
  then have "v div 2 ^ 18 < 2" by (simp add: less_mult_imp_div_less)
  then show ?thesis by (auto simp: user_dirs_def)
qed

lemma user_range:
  assumes "range_ok start end (Inr ()) = Inr ()"
  obtains v ve where "start = va v" "end = va ve" "v < ve" "ve \<le> 2 ^ 19"
proof -
  have a: "start mod PGSIZE = 0" "end mod PGSIZE = 0" "USERBASE \<le> start" "start < end" "end \<le> USERTOP"
    using assms by (auto simp: range_ok_def kassert_eq_Inr USER_ACCESS_def)
  have page: "w = va (unat w div 4096)" "unat w div 4096 \<le> 2 ^ 19" if "w mod PGSIZE = 0" "w \<le> USERTOP" for w :: "64 word"
  proof -
    have le: "unat w \<le> 2 ^ 31" using that(2) by (simp add: word_le_nat_alt USERTOP_def)
    then show "unat w div 4096 \<le> 2 ^ 19" by simp
    have "unat w mod 4096 = 0" using arg_cong [OF that(1), of unat] by (simp add: unat_mod_distrib PGSIZE_def)
    then have "unat (va (unat w div 4096)) = unat w" using le by (subst unat_va) auto
    then show "w = va (unat w div 4096)" by (metis word_unat_eq_iff)
  qed
  have "start \<le> USERTOP" using a(4,5) by simp
  note S = page [OF a(1) this] and E = page [OF a(2,5)]
  have "va (unat start div 4096) < va (unat end div 4096)" using a(4) S(1) E(1) by simp
  then have "unat start div 4096 < unat end div 4096" using S(2) E(2) by (subst (asm) va_less) auto
  then show ?thesis using that S E by blast
qed

end
