(* ===== verification/Page_Unmap.thy ===== *)
theory Page_Unmap
  imports Page_Loops
begin

text \<open>
  \<open>unmap_range\<close> on a well-formed address space: the loop ends, every page of the range is
  unmapped, every frame whose last reference it held goes back to the allocator, and nothing
  else of memory or of other mappings changes.
\<close>

section \<open>The pages of a range\<close>

definition range_frames :: "memory \<Rightarrow> nat \<Rightarrow> nat \<Rightarrow> nat \<Rightarrow> nat set" where
  "range_frames m pd v w = {p. \<exists>u. v \<le> u \<and> u < w \<and> valid_pte (page_entry_at m pd u) \<and> p = pte_frame (page_entry_at m pd u)}"

definition last_refs :: "'a mem_scheme \<Rightarrow> nat \<Rightarrow> nat \<Rightarrow> nat \<Rightarrow> nat set" where
  "last_refs s pd v w = {p \<in> range_frames (phys s) pd v w. page_ref s p = 1}"

text \<open>The mapped frames are real, not free, not tables, and no two pages of the range share one.\<close>

definition range_wf :: "'a mem_scheme \<Rightarrow> nat set \<Rightarrow> nat \<Rightarrow> nat \<Rightarrow> nat \<Rightarrow> bool" where
  "range_wf s F pd v w \<longleftrightarrow>
     (\<forall>p \<in> range_frames (phys s) pd v w. p < npage s \<and> p \<notin> F \<and> unreserved s p \<and> p \<notin> pt_frames (phys s) user_dirs pd) \<and>
     (\<forall>u x. v \<le> u \<and> u < w \<and> v \<le> x \<and> x < w \<and> valid_pte (page_entry_at (phys s) pd u) \<and>
        valid_pte (page_entry_at (phys s) pd x) \<and> pte_frame (page_entry_at (phys s) pd u) = pte_frame (page_entry_at (phys s) pd x)
        \<longrightarrow> u = x)"

definition unmapped :: "'a mem_scheme \<Rightarrow> nat set \<Rightarrow> nat \<Rightarrow> nat \<Rightarrow> nat \<Rightarrow> 'a mem_scheme \<Rightarrow> bool" where
  "unmapped s F pd v w s' \<longleftrightarrow> mem_frame s s' \<and> mem_ok s' (F \<union> last_refs s pd v w) \<and>
     pt_wf (phys s') (npage s') (F \<union> last_refs s pd v w) user_dirs pd \<and>
     pt_frames (phys s') user_dirs pd = pt_frames (phys s) user_dirs pd \<and>
     (\<forall>u < 2 ^ 19. if v \<le> u \<and> u < w then \<not> valid_pte (page_entry_at (phys s') pd u)
        else page_entry_at (phys s') pd u = page_entry_at (phys s) pd u) \<and>
     (\<forall>f. f \<notin> pt_frames (phys s) user_dirs pd \<longrightarrow> phys s' f = phys s f) \<and>
     (\<forall>q. unreserved s' q = unreserved s q \<and>
        page_ref s' q = page_ref s q - (if q \<in> range_frames (phys s) pd v w then 1 else 0))"

lemma unmappedD:
  assumes "unmapped s F pd v w s'"
  shows "mem_frame s s'" "mem_ok s' (F \<union> last_refs s pd v w)"
    "pt_wf (phys s') (npage s') (F \<union> last_refs s pd v w) user_dirs pd"
    "pt_frames (phys s') user_dirs pd = pt_frames (phys s) user_dirs pd"
    "u < 2 ^ 19 \<Longrightarrow> v \<le> u \<Longrightarrow> u < w \<Longrightarrow> \<not> valid_pte (page_entry_at (phys s') pd u)"
    "u < 2 ^ 19 \<Longrightarrow> u < v \<or> w \<le> u \<Longrightarrow> page_entry_at (phys s') pd u = page_entry_at (phys s) pd u"
    "f \<notin> pt_frames (phys s) user_dirs pd \<Longrightarrow> phys s' f = phys s f"
    "unreserved s' q = unreserved s q"
    "page_ref s' q = page_ref s q - (if q \<in> range_frames (phys s) pd v w then 1 else 0)"
    "npage s' = npage s"
proof -
  note c = assms [unfolded unmapped_def]
  show "mem_frame s s'" using c by (elim conjE)
  then show "npage s' = npage s" by (rule mem_frame_fields(10))
  show "mem_ok s' (F \<union> last_refs s pd v w)" using c by (elim conjE)
  show "pt_wf (phys s') (npage s') (F \<union> last_refs s pd v w) user_dirs pd" using c by (elim conjE)
  show "pt_frames (phys s') user_dirs pd = pt_frames (phys s) user_dirs pd" using c by (elim conjE)
  have e: "\<forall>u < 2 ^ 19. if v \<le> u \<and> u < w then \<not> valid_pte (page_entry_at (phys s') pd u)
        else page_entry_at (phys s') pd u = page_entry_at (phys s) pd u" using c by (elim conjE)
  show "u < 2 ^ 19 \<Longrightarrow> v \<le> u \<Longrightarrow> u < w \<Longrightarrow> \<not> valid_pte (page_entry_at (phys s') pd u)" using e [rule_format, of u] by simp
  show "u < 2 ^ 19 \<Longrightarrow> u < v \<or> w \<le> u \<Longrightarrow> page_entry_at (phys s') pd u = page_entry_at (phys s) pd u"
    using e [rule_format, of u] by (auto split: if_splits)
  show "f \<notin> pt_frames (phys s) user_dirs pd \<Longrightarrow> phys s' f = phys s f" using c by (elim conjE) simp
  show "unreserved s' q = unreserved s q" using c by (elim conjE) simp
  show "page_ref s' q = page_ref s q - (if q \<in> range_frames (phys s) pd v w then 1 else 0)" using c by (elim conjE) simp
qed

lemma range_frames_split: "v \<le> w \<Longrightarrow> w \<le> x \<Longrightarrow> range_frames m pd v x = range_frames m pd v w \<union> range_frames m pd w x"
  unfolding range_frames_def by (auto intro: le_less_trans less_le_trans) (metis not_le_imp_less order.trans)+

lemma range_frames_at:
  "range_frames m pd v (Suc v) = (if valid_pte (page_entry_at m pd v) then {pte_frame (page_entry_at m pd v)} else {})"
  by (auto simp: range_frames_def le_less_Suc_eq)

lemma range_wf_inj:
  assumes "range_wf s F pd v w" "v \<le> u" "u < w" "v \<le> x" "x < w" "valid_pte (page_entry_at (phys s) pd u)"
    "valid_pte (page_entry_at (phys s) pd x)" "pte_frame (page_entry_at (phys s) pd u) = pte_frame (page_entry_at (phys s) pd x)"
  shows "u = x"
  using assms unfolding range_wf_def by (elim conjE) simp

lemma range_wf_disjoint:
  assumes wf: "range_wf s F pd v x" and ord: "v \<le> w" "w \<le> x"
  shows "range_frames (phys s) pd v w \<inter> range_frames (phys s) pd w x = {}"
proof (rule equals0I)
  fix p assume "p \<in> range_frames (phys s) pd v w \<inter> range_frames (phys s) pd w x"
  then obtain y z where y: "v \<le> y" "y < w" "valid_pte (page_entry_at (phys s) pd y)" "p = pte_frame (page_entry_at (phys s) pd y)"
      and z: "w \<le> z" "z < x" "valid_pte (page_entry_at (phys s) pd z)" "p = pte_frame (page_entry_at (phys s) pd z)"
    unfolding range_frames_def by blast
  have "y < x" "v \<le> z" using y(2) z(1) ord by auto
  then have "y = z" using range_wf_inj [OF wf y(1) _ _ z(2) y(3) z(3)] y(4) z(4) by simp
  with y(2) z(1) show False by simp
qed

lemma unmapped_trans:
  assumes a: "unmapped s F pd v w t" and b: "unmapped t (F \<union> last_refs s pd v w) pd w x u"
    and ord: "v \<le> w" "w \<le> x" "x \<le> 2 ^ 19" and wf: "range_wf s F pd v x"
  shows "unmapped s F pd v x u"
proof -
  note A = unmappedD [OF a] and B = unmappedD [OF b]
  have rf: "range_frames (phys t) pd w x = range_frames (phys s) pd w x"
  proof -
    have "page_entry_at (phys t) pd y = page_entry_at (phys s) pd y" if "w \<le> y" "y < x" for y
      using A(6) [of y] that ord by simp
    then show ?thesis unfolding range_frames_def by auto
  qed
  note disj = range_wf_disjoint [OF wf ord(1,2)]
  note split = range_frames_split [OF ord(1,2), of "phys s" pd]
  have lr: "last_refs s pd v x = last_refs s pd v w \<union> last_refs t pd w x"
    using disj A(9) by (auto simp: last_refs_def split rf)
  show ?thesis
    unfolding unmapped_def
  proof (intro conjI allI impI)
    show "mem_frame s u" using A(1) B(1) by (rule mem_frame_trans)
    show "mem_ok u (F \<union> last_refs s pd v x)" using B(2) by (simp add: lr Un_assoc)
    show "pt_wf (phys u) (npage u) (F \<union> last_refs s pd v x) user_dirs pd" using B(3) by (simp add: lr Un_assoc)
    show "pt_frames (phys u) user_dirs pd = pt_frames (phys s) user_dirs pd" using A(4) B(4) by simp
    show "if v \<le> y \<and> y < x then \<not> valid_pte (page_entry_at (phys u) pd y)
        else page_entry_at (phys u) pd y = page_entry_at (phys s) pd y" if y: "y < 2 ^ 19" for y
    proof (cases "v \<le> y \<and> y < x")
      case True
      show ?thesis
      proof (cases "y < w")
        case yw: True
        then show ?thesis using True A(5) [OF y] B(6) [OF y] by auto
      next
        case False
        then show ?thesis using True B(5) [OF y] by auto
      qed
    next
      case False
      then show ?thesis using A(6) [OF y] B(6) [OF y] ord by auto
    qed
    show "phys u f = phys s f" if "f \<notin> pt_frames (phys s) user_dirs pd" for f using A(4,7) B(7) that by metis
    show "unreserved u q = unreserved s q" for q using A(8) B(8) by simp
    show "page_ref u q = page_ref s q - (if q \<in> range_frames (phys s) pd v x then 1 else 0)" for q
      using A(9) [of q] B(9) [of q] disj by (auto simp: rf split)
  qed
qed

section \<open>The loop\<close>

lemma unmapped_none:
  assumes ok: "mem_ok s F" "pt_wf (phys s) (npage s) F user_dirs pd"
    and none: "\<And>u. v \<le> u \<Longrightarrow> u < w \<Longrightarrow> \<not> valid_pte (page_entry_at (phys s) pd u)"
  shows "unmapped s F pd v w s"
proof -
  have "range_frames (phys s) pd v w = {}" using none by (auto simp: range_frames_def)
  then show ?thesis using ok none by (auto simp: unmapped_def last_refs_def)
qed

lemma page_entry_absent:
  assumes "table m pd (Low (v div 2 ^ 18) (v div 2 ^ 9 mod 512)) = None" "v \<le> u" "u < (v div 512 + 1) * 512"
  shows "page_entry_at m pd u = 0"
  using assms(1) same_table [OF assms(2,3)] by (simp add: page_entry_at_def entry_def)

lemma unmap_step_ok:
  assumes ok: "mem_ok s F" "pt_wf (phys s) (npage s) F user_dirs pd" and v: "v < 2 ^ 19" "v < w" "w \<le> 2 ^ 19"
    and wf: "range_wf s F pd v w" and room: "q \<in> F" "\<forall>p \<in> range_frames (phys s) pd v w. p < q"
  shows "\<exists>x s'. unmap_step pd (va v) s = Inr (va x, s') \<and> v < x \<and> x \<le> 2 ^ 19 \<and> unmapped s F pd v (min x w) s'"
proof -
  have v27: "v < 2 ^ 27" using v(1) by simp
  note ix = indices_va [OF v27]
  have la: "PDX1 (va v) \<in> user_dirs" using user_dir [OF v(1)] ix(1) by simp
  show ?thesis
  proof (cases "table (phys s) pd (Low (v div 2 ^ 18) (v div 2 ^ 9 mod 512))")
    case None
    let ?x = "(v div 512 + 1) * 512"
    have "get_pte pd (va v) False s = Inr (None, s)" by (rule get_pte_absent [OF ok(2) la]) (unfold ix, rule None)
    then have run: "unmap_step pd (va v) s = Inr (va ?x, s)" using va_skip [OF v27] by (simp add: unmap_step_def)
    have "unmapped s F pd v (min ?x w) s"
      by (rule unmapped_none [OF ok]) (use page_entry_absent [OF None] in \<open>auto simp: PTE_V_bit\<close>)
    then show ?thesis using run next_table [OF v(1)] by blast
  next
    case (Some t)
    then have t: "table (phys s) pd (Low (PDX1 (va v)) (PDX0 (va v))) = Some t" by (simp add: ix)
    have e: "page_entry_at (phys s) pd v = phys s t (PTX (va v))"
      using mapping_table [OF t] mapping_va [OF v27] by simp
    note g = get_pte_present [OF ok(2) la t, of False]
    have min: "min (v + 1) w = v + 1" using v(2) by simp
    show ?thesis
    proof (cases "valid_pte (page_entry_at (phys s) pd v)")
      case False
      then have "unmap_step pd (va v) s = Inr (va (v + 1), s)"
        using g e by (simp add: unmap_step_def page_remove_pte_def pte_at_def va_step)
      moreover have "unmapped s F pd v (min (v + 1) w) s"
        unfolding min by (rule unmapped_none [OF ok]) (use False in \<open>auto simp: le_less_Suc_eq\<close>)
      ultimately show ?thesis using v(1,2) by (intro exI [of _ "v + 1"] exI [of _ s]) simp
    next
      case True
      define p where "p = pte_frame (page_entry_at (phys s) pd v)"
      have rf: "range_frames (phys s) pd v (v + 1) = {p}" using True by (auto simp: range_frames_def p_def le_less_Suc_eq)
      have pin: "p \<in> range_frames (phys s) pd v w" using True v(2) by (auto simp: range_frames_def p_def)
      have pw: "p < npage s" "p \<notin> F" "unreserved s p" "p \<notin> pt_frames (phys s) user_dirs pd"
        using wf pin by (auto simp: range_wf_def)
      have "room_above F p" using room pin by (auto simp: room_above_def)
      then obtain s' where s': "page_remove_pte pd (va v) (t, PTX (va v)) s = Inr s'" "mem_frame s s'"
          "phys s' = (phys s)(t := (phys s t)(PTX (va v) := 0))" "mem_ok s' (if page_ref s p = 1 then insert p F else F)"
          "\<forall>q. unreserved s' q = unreserved s q \<and> page_ref s' q = (if q = p then page_ref s p - 1 else page_ref s q)"
        using page_remove_pte_ok [OF ok(1), of t "PTX (va v)" p] True e pw p_def by fastforce
      have nz: "phys s t (PTX (va v)) \<noteq> 0" using True e by auto
      have run: "unmap_step pd (va v) s = Inr (va (v + 1), s')"
        using g s'(1) nz by (simp add: unmap_step_def pte_at_def va_step)
      have F': "(if page_ref s p = 1 then insert p F else F) = F \<union> last_refs s pd v (v + 1)"
        unfolding last_refs_def rf by auto
      note W = ok(2) t la index_bound(2) s'(3)
      have "unmapped s F pd v (v + 1) s'"
        unfolding unmapped_def
      proof (intro conjI allI impI)
        show "mem_frame s s'" by (rule s')
        show "mem_ok s' (F \<union> last_refs s pd v (v + 1))" using s'(4) F' by simp
        have "(F \<union> last_refs s pd v (v + 1)) \<inter> pt_frames (phys s) user_dirs pd = {}"
          using pw(4) pt_wfD(2) [OF ok(2)] unfolding last_refs_def rf by auto
        from pt_wf_write [OF W this] show "pt_wf (phys s') (npage s') (F \<union> last_refs s pd v (v + 1)) user_dirs pd"
          using mem_frame_fields(10) [OF s'(2)] by simp
        show "pt_frames (phys s') user_dirs pd = pt_frames (phys s) user_dirs pd" by (rule frames_write [OF W])
        show "if v \<le> y \<and> y < v + 1 then \<not> valid_pte (page_entry_at (phys s') pd y)
            else page_entry_at (phys s') pd y = page_entry_at (phys s) pd y" if y: "y < 2 ^ 19" for y
        proof -
          have "page_entry_at (phys s') pd y = (if y = v then 0 else page_entry_at (phys s) pd y)"
            unfolding page_entry_at_def ix
            using entry_write [OF W user_dir [OF y], of "y div 2 ^ 9 mod 512" "y mod 512"] page_index_inj [of y v]
            by (auto simp: ix)
          then show ?thesis by (auto simp: PTE_V_bit)
        qed
        show "phys s' f = phys s f" if "f \<notin> pt_frames (phys s) user_dirs pd" for f
          using that table_in_frames [of user_dirs, OF _ t] la s'(3) by auto
        show "unreserved s' q = unreserved s q" for q using s'(5) by simp
        show "page_ref s' q = page_ref s q - (if q \<in> range_frames (phys s) pd v (v + 1) then 1 else 0)" for q
          unfolding rf using s'(5) by simp
      qed
      then show ?thesis using run min v(1,2) by (intro exI [of _ "v + 1"] exI [of _ s']) simp
    qed
  qed
qed

lemma unmap_loop_ok:
  assumes "mem_ok s F" "pt_wf (phys s) (npage s) F user_dirs pd" "v < w" "w \<le> 2 ^ 19"
    and "range_wf s F pd v w" and "q \<in> F" "\<forall>p \<in> range_frames (phys s) pd v w. p < q"
  shows "\<exists>s'. unmap_loop pd (va v) (va w) s = Some (Inr s') \<and> unmapped s F pd v w s'"
  using assms
proof (induction "w - v" arbitrary: v s F rule: less_induct)
  case less
  have v: "v < 2 ^ 19" using less.prems(3,4) by simp
  obtain x s1 where step: "unmap_step pd (va v) s = Inr (va x, s1)" "v < x" "x \<le> 2 ^ 19" "unmapped s F pd v (min x w) s1"
    using unmap_step_ok [OF less.prems(1,2) v less.prems(3-7)] by blast
  have loop: "unmap_loop pd (va v) (va w) s = (if x < w then unmap_loop pd (va x) (va w) s1 else Some (Inr s1))"
    using step(2,3) less.prems(4) va_less [of x w] va_nonzero [of x]
    by (subst unmap_loop.simps) (simp add: step(1))
  show ?case
  proof (cases "x < w")
    case False
    then show ?thesis using loop step(4) by (intro exI [of _ s1]) (simp add: min_def split: if_splits)
  next
    case True
    then have u1: "unmapped s F pd v x s1" using step(4) by (simp add: min_def)
    note U = unmappedD [OF u1]
    have same: "page_entry_at (phys s1) pd y = page_entry_at (phys s) pd y" if "x \<le> y" "y < w" for y
      using U(6) [of y] that less.prems(4) by simp
    have rf: "range_frames (phys s1) pd x w = range_frames (phys s) pd x w"
      unfolding range_frames_def using same by auto
    have ordx: "v \<le> x" "x \<le> w" using step(2) True by auto
    note split = range_frames_split [OF ordx, of "phys s" pd]
    have disj: "p \<notin> last_refs s pd v x" if p: "p \<in> range_frames (phys s) pd x w" for p
      using p range_wf_disjoint [OF less.prems(5) ordx] by (auto simp: last_refs_def)
    have wf1: "range_wf s1 (F \<union> last_refs s pd v x) pd x w"
      unfolding range_wf_def rf
    proof (intro conjI ballI allI impI)
      fix p assume p: "p \<in> range_frames (phys s) pd x w"
      then have "p \<in> range_frames (phys s) pd v w" by (simp add: split)
      then have "p < npage s" "p \<notin> F" "unreserved s p" "p \<notin> pt_frames (phys s) user_dirs pd"
        using less.prems(5) by (auto simp: range_wf_def)
      then show "p < npage s1" "p \<notin> F \<union> last_refs s pd v x" "unreserved s1 p" "p \<notin> pt_frames (phys s1) user_dirs pd"
        using disj [OF p] U(4,8,10) by auto
    next
      fix y z assume h: "x \<le> y \<and> y < w \<and> x \<le> z \<and> z < w \<and> valid_pte (page_entry_at (phys s1) pd y) \<and>
        valid_pte (page_entry_at (phys s1) pd z) \<and> pte_frame (page_entry_at (phys s1) pd y) = pte_frame (page_entry_at (phys s1) pd z)"
      then have yz: "x \<le> y" "y < w" "x \<le> z" "z < w" by auto
      have hv: "valid_pte (page_entry_at (phys s) pd y)" "valid_pte (page_entry_at (phys s) pd z)"
          "pte_frame (page_entry_at (phys s) pd y) = pte_frame (page_entry_at (phys s) pd z)"
        using h unfolding same [OF yz(1,2)] same [OF yz(3,4)] by blast+
      show "y = z" by (rule range_wf_inj [OF less.prems(5) order_trans [OF ordx(1) yz(1)] yz(2) order_trans [OF ordx(1) yz(3)] yz(4) hv])
    qed
    have room: "q \<in> F \<union> last_refs s pd v x" "\<forall>p \<in> range_frames (phys s1) pd x w. p < q"
      using less.prems(6,7) by (auto simp: rf split)
    have dec: "w - x < w - v" using step(2) True by linarith
    obtain s' where s': "unmap_loop pd (va x) (va w) s1 = Some (Inr s')" "unmapped s1 (F \<union> last_refs s pd v x) pd x w s'"
      using less.hyps [OF dec U(2,3) True less.prems(4) wf1 room] by blast
    have "unmapped s F pd v w s'" by (rule unmapped_trans [OF u1 s'(2) ordx less.prems(4,5)])
    then show ?thesis using loop s'(1) True by (intro exI [of _ s']) simp
  qed
qed


text \<open>The address space with one page mapped: page \<open>0x800\<close> to frame 20.\<close>

definition demo_as :: mem where
  "demo_as = demo_mem\<lparr>phys := (\<lambda>f i. if f = 50 \<and> i = 0 then pte_create 51 0x11 else if f = 51 \<and> i = 4 then pte_create 52 0x11
      else if f = 52 \<and> i = 0 then pte_create 20 0x17 else 0),
     pages := (pages demo_mem)(20 := (pages demo_mem 20)\<lparr>pg_ref := 1\<rparr>)\<rparr>"

lemma demo_as_phys:
  "phys demo_as = (\<lambda>f i. if f = 50 \<and> i = 0 then pte_create 51 0x11 else if f = 51 \<and> i = 4 then pte_create 52 0x11
      else if f = 52 \<and> i = 0 then pte_create 20 0x17 else 0)"
  by (simp add: demo_as_def)

lemma demo_as_simps:
  "npage demo_as = 100" "page_ref demo_as p = (if p = 20 then 1 else 0)" "unreserved demo_as p"
  by (auto simp: demo_as_def page_ref_def unreserved_def PageReserved_def demo_mem_pmm demo_pmm_simps PG_reserved_def)

lemma demo_as_frames: "pte_frame (pte_create 51 0x11) = 51" "pte_frame (pte_create 52 0x11) = 52" "pte_frame (pte_create 20 0x17) = 20"
  using pte_frame_create [of 51 "0x11"] pte_frame_create [of 52 "0x11"] pte_frame_create [of 20 "0x17"] by (simp_all add: perm_ok_def)

lemma demo_as_ok: "mem_ok demo_as ({10..<14} \<union> {30..<38})"
proof -
  have "free_rep demo_mem bs \<Longrightarrow> free_rep demo_as bs" for bs
    by (auto simp: free_rep_def demo_as_def PageProperty_def)
  then have "free_set demo_as ({10..<14} \<union> {30..<38})" using demo_mem_ok unfolding mem_ok_def free_set_def by blast
  then show ?thesis by (auto simp: mem_ok_def demo_as_simps)
qed

lemma demo_as_table: "table (phys demo_as) 50 x = (case x of Top \<Rightarrow> Some 50 | Mid i \<Rightarrow> if i = 0 then Some 51 else None
    | Low i k \<Rightarrow> if i = 0 \<and> k = 4 then Some 52 else None)"
  by (cases x) (auto simp: child_def demo_as_phys demo_as_frames)

lemma demo_as_tableD:
  assumes "table (phys demo_as) 50 x = Some t"
  shows "x = Top \<and> t = 50 \<or> x = Mid 0 \<and> t = 51 \<or> x = Low 0 4 \<and> t = 52"
  using assms unfolding demo_as_table by (cases x) (auto split: if_splits)

lemma demo_as_wf: "pt_wf (phys demo_as) (npage demo_as) ({10..<14} \<union> {30..<38}) user_dirs 50"
  by (auto simp: pt_wf_def pt_frames_def demo_as_simps dest!: demo_as_tableD)

lemma demo_as_entry: "page_entry_at (phys demo_as) 50 u =
    (if u div 2 ^ 18 = 0 \<and> u div 2 ^ 9 mod 512 = 4 \<and> u mod 512 = 0 then pte_create 20 0x17 else 0)"
  unfolding page_entry_at_def entry_def demo_as_table by (simp add: demo_as_phys)

lemma demo_as_range: "range_frames (phys demo_as) 50 0x800 0x802 = {20}"
proof -
  have e: "page_entry_at (phys demo_as) 50 0x800 = pte_create 20 0x17" "page_entry_at (phys demo_as) 50 0x801 = 0"
    by (simp_all add: demo_as_entry)
  have "range_frames (phys demo_as) 50 0x800 0x801 = {20}" "range_frames (phys demo_as) 50 0x801 0x802 = {}"
    using range_frames_at [of "phys demo_as" 50 "0x800"] range_frames_at [of "phys demo_as" 50 "0x801"]
    by (simp_all add: e demo_as_frames)
  then show ?thesis using range_frames_split [of "0x800" "0x801" "0x802" "phys demo_as" 50] by simp
qed


end
