(* ===== verification/Page_Copy.thy ===== *)
theory Page_Copy
  imports Page_Unmap
begin

text \<open>
  \<open>copy_range\<close>, the memory half of \<open>fork\<close>: with enough free pages every mapped page of the range
  gets a fresh copy with the same contents and permissions in the target address space, and
  the source is untouched.
\<close>

definition copy_perm :: "64 word \<Rightarrow> 32 word" where "copy_perm e = ucast (e AND PTE_USER)"

lemma copy_perm_ok: "perm_ok (copy_perm e)"
proof -
  have "(0x3FF :: 32 word) = mask 10" by (simp add: mask_eq_exp_minus_1)
  moreover have "PTE_USER = mask 5" by (simp add: PTE_USER_def PTE_R_def PTE_W_def PTE_X_def PTE_U_def PTE_V_def mask_eq_exp_minus_1)
  moreover have "(ucast (e AND mask 5) :: 32 word) AND mask 10 = ucast (e AND mask 5)"
    by (intro bit_word_eqI) (auto simp: bit_and_iff bit_mask_iff bit_ucast_iff)
  ultimately show ?thesis by (simp only: perm_ok_def copy_perm_def)
qed

definition page_copied :: "'a mem_scheme \<Rightarrow> nat set \<Rightarrow> 'a mem_scheme \<Rightarrow> nat set \<Rightarrow> nat \<Rightarrow> 64 word \<Rightarrow> 64 word \<Rightarrow> bool" where
  "page_copied s F s' F' to e new \<longleftrightarrow> (\<exists>n \<in> F - F'. n \<notin> pt_frames (phys s') user_dirs to \<and>
     new = pte_create (of_nat n) (1 OR copy_perm e) \<and> pte_frame new = n \<and>
     phys s' n = phys s (pte_frame e) \<and> page_ref s' n = page_ref s n + 1)"

definition copied :: "'a mem_scheme \<Rightarrow> nat set \<Rightarrow> nat \<Rightarrow> nat \<Rightarrow> nat \<Rightarrow> nat \<Rightarrow> 'a mem_scheme \<Rightarrow> nat set \<Rightarrow> bool" where
  "copied s F to from v w s' F' \<longleftrightarrow> mem_frame s s' \<and> F' \<subseteq> F \<and> card (F - F') \<le> 3 * (w - v) \<and> mem_ok s' F' \<and>
     pt_wf (phys s') (npage s') F' user_dirs to \<and>
     pt_frames (phys s') user_dirs to \<subseteq> pt_frames (phys s) user_dirs to \<union> (F - F') \<and>
     (\<forall>f. f \<notin> F - F' \<and> f \<notin> pt_frames (phys s) user_dirs to \<longrightarrow> phys s' f = phys s f) \<and>
     (\<forall>p. p \<notin> F - F' \<longrightarrow> page_ref s' p = page_ref s p) \<and> (\<forall>p. unreserved s' p = unreserved s p) \<and>
     (\<forall>u < 2 ^ 19. \<not> (v \<le> u \<and> u < w \<and> valid_pte (page_entry_at (phys s) from u)) \<longrightarrow>
        page_entry_at (phys s') to u = page_entry_at (phys s) to u) \<and>
     (\<forall>u. v \<le> u \<and> u < w \<and> valid_pte (page_entry_at (phys s) from u) \<longrightarrow>
        page_copied s F s' F' to (page_entry_at (phys s) from u) (page_entry_at (phys s') to u)) \<and>
     (\<forall>u y. v \<le> u \<and> u < y \<and> y < w \<and> valid_pte (page_entry_at (phys s) from u) \<and> valid_pte (page_entry_at (phys s) from y) \<longrightarrow>
        pte_frame (page_entry_at (phys s') to u) \<noteq> pte_frame (page_entry_at (phys s') to y))"

lemma copiedD:
  assumes "copied s F to from v w s' F'"
  shows "mem_frame s s'" "F' \<subseteq> F" "card (F - F') \<le> 3 * (w - v)" "mem_ok s' F'"
    "pt_wf (phys s') (npage s') F' user_dirs to"
    "pt_frames (phys s') user_dirs to \<subseteq> pt_frames (phys s) user_dirs to \<union> (F - F')"
    "f \<notin> F - F' \<Longrightarrow> f \<notin> pt_frames (phys s) user_dirs to \<Longrightarrow> phys s' f = phys s f"
    "p \<notin> F - F' \<Longrightarrow> page_ref s' p = page_ref s p" "unreserved s' p = unreserved s p"
    "u < 2 ^ 19 \<Longrightarrow> \<not> (v \<le> u \<and> u < w \<and> valid_pte (page_entry_at (phys s) from u)) \<Longrightarrow>
        page_entry_at (phys s') to u = page_entry_at (phys s) to u"
    "v \<le> u \<Longrightarrow> u < w \<Longrightarrow> valid_pte (page_entry_at (phys s) from u) \<Longrightarrow>
        page_copied s F s' F' to (page_entry_at (phys s) from u) (page_entry_at (phys s') to u)"
    "v \<le> u \<Longrightarrow> u < y \<Longrightarrow> y < w \<Longrightarrow> valid_pte (page_entry_at (phys s) from u) \<Longrightarrow> valid_pte (page_entry_at (phys s) from y) \<Longrightarrow>
        pte_frame (page_entry_at (phys s') to u) \<noteq> pte_frame (page_entry_at (phys s') to y)"
    "npage s' = npage s"
proof -
  note c = assms [unfolded copied_def]
  show "mem_frame s s'" using c by (elim conjE)
  then show "npage s' = npage s" by (rule mem_frame_fields(10))
  show "F' \<subseteq> F" using c by (elim conjE)
  show "card (F - F') \<le> 3 * (w - v)" using c by (elim conjE)
  show "mem_ok s' F'" using c by (elim conjE)
  show "pt_wf (phys s') (npage s') F' user_dirs to" using c by (elim conjE)
  show "pt_frames (phys s') user_dirs to \<subseteq> pt_frames (phys s) user_dirs to \<union> (F - F')" using c by (elim conjE)
  show "f \<notin> F - F' \<Longrightarrow> f \<notin> pt_frames (phys s) user_dirs to \<Longrightarrow> phys s' f = phys s f" using c by (elim conjE) simp
  show "p \<notin> F - F' \<Longrightarrow> page_ref s' p = page_ref s p" using c by (elim conjE) simp
  show "unreserved s' p = unreserved s p" using c by (elim conjE) simp
  show "u < 2 ^ 19 \<Longrightarrow> \<not> (v \<le> u \<and> u < w \<and> valid_pte (page_entry_at (phys s) from u)) \<Longrightarrow>
        page_entry_at (phys s') to u = page_entry_at (phys s) to u" using c by (elim conjE) blast
  show "v \<le> u \<Longrightarrow> u < w \<Longrightarrow> valid_pte (page_entry_at (phys s) from u) \<Longrightarrow>
        page_copied s F s' F' to (page_entry_at (phys s) from u) (page_entry_at (phys s') to u)" using c by (elim conjE) blast
  show "v \<le> u \<Longrightarrow> u < y \<Longrightarrow> y < w \<Longrightarrow> valid_pte (page_entry_at (phys s) from u) \<Longrightarrow> valid_pte (page_entry_at (phys s) from y) \<Longrightarrow>
        pte_frame (page_entry_at (phys s') to u) \<noteq> pte_frame (page_entry_at (phys s') to y)" using c by (elim conjE) blast
qed

text \<open>The source: a well-formed address space apart from the free pages and the target.\<close>

definition source_ok :: "'a mem_scheme \<Rightarrow> nat set \<Rightarrow> nat \<Rightarrow> nat \<Rightarrow> nat \<Rightarrow> nat \<Rightarrow> bool" where
  "source_ok s F to from v w \<longleftrightarrow> pt_wf (phys s) (npage s) F user_dirs from \<and>
     pt_frames (phys s) user_dirs from \<inter> pt_frames (phys s) user_dirs to = {} \<and>
     (\<forall>p \<in> range_frames (phys s) from v w. p < npage s \<and> p \<notin> F \<and> p \<notin> pt_frames (phys s) user_dirs to) \<and>
     (\<forall>u. v \<le> u \<and> u < w \<longrightarrow> \<not> valid_pte (page_entry_at (phys s) to u))"

lemma source_okD:
  assumes "source_ok s F to from v w"
  shows "pt_wf (phys s) (npage s) F user_dirs from"
    "f \<in> pt_frames (phys s) user_dirs from \<Longrightarrow> f \<notin> pt_frames (phys s) user_dirs to"
    "v \<le> u \<Longrightarrow> u < w \<Longrightarrow> valid_pte (page_entry_at (phys s) from u) \<Longrightarrow> pte_frame (page_entry_at (phys s) from u) < npage s \<and>
       pte_frame (page_entry_at (phys s) from u) \<notin> F \<and> pte_frame (page_entry_at (phys s) from u) \<notin> pt_frames (phys s) user_dirs to"
    "v \<le> u \<Longrightarrow> u < w \<Longrightarrow> \<not> valid_pte (page_entry_at (phys s) to u)"
  using assms unfolding source_ok_def range_frames_def by blast+

lemma page_entry_cong:
  assumes "\<forall>t \<in> pt_frames m user_dirs pd. m' t = m t" "u < 2 ^ 19"
  shows "page_entry_at m' pd u = page_entry_at m pd u"
  unfolding page_entry_at_def by (rule entry_cong [OF assms(1) user_dir [OF assms(2)]]) simp

lemma copied_source:
  assumes c: "copied s F to from v w s' F'" and src: "source_ok s F to from v x" and ord: "v \<le> w" "w \<le> x" "x \<le> 2 ^ 19"
  shows "source_ok s' F' to from w x" "u < 2 ^ 19 \<Longrightarrow> page_entry_at (phys s') from u = page_entry_at (phys s) from u"
proof -
  note C = copiedD [OF c] and S = source_okD [OF src]
  have same: "\<forall>t \<in> pt_frames (phys s) user_dirs from. phys s' t = phys s t"
    using C(7) S(2) pt_wfD(2) [OF S(1)] by blast
  note frames = pt_frames_cong [OF same]
  have e: "page_entry_at (phys s') from u = page_entry_at (phys s) from u" if "u < 2 ^ 19" for u
    by (rule page_entry_cong [OF same that])
  then show "u < 2 ^ 19 \<Longrightarrow> page_entry_at (phys s') from u = page_entry_at (phys s) from u" .
  show "source_ok s' F' to from w x"
    unfolding source_ok_def C(13)
  proof (intro conjI ballI allI impI)
    show "pt_wf (phys s') (npage s) F' user_dirs from" by (rule pt_wf_cong [OF S(1) same]) (use C(2) in auto)
    show "pt_frames (phys s') user_dirs from \<inter> pt_frames (phys s') user_dirs to = {}"
      unfolding frames using C(6) S(2) pt_wfD(2) [OF S(1)] by blast
  next
    fix p assume "p \<in> range_frames (phys s') from w x"
    then obtain u where u: "w \<le> u" "u < x" "valid_pte (page_entry_at (phys s') from u)" "p = pte_frame (page_entry_at (phys s') from u)"
      unfolding range_frames_def by blast
    have vu: "v \<le> u" "u < 2 ^ 19" using u ord by auto
    have "p < npage s \<and> p \<notin> F \<and> p \<notin> pt_frames (phys s) user_dirs to" using S(3) [OF vu(1) u(2)] u(3,4) e [OF vu(2)] by simp
    then show "p < npage s" "p \<notin> F'" "p \<notin> pt_frames (phys s') user_dirs to" using C(2,6) by auto
  next
    fix u assume u: "w \<le> u \<and> u < x"
    then have "page_entry_at (phys s') to u = page_entry_at (phys s) to u" using C(10) [of u] ord by simp
    then show "\<not> valid_pte (page_entry_at (phys s') to u)" using S(4) [of u] u ord by simp
  qed
qed

lemma page_copied_later:
  assumes p: "page_copied s F t G to e new" and b: "copied t G to from w x u H" and G: "G \<subseteq> F"
  shows "page_copied s F u H to e new"
proof -
  note B = copiedD [OF b]
  obtain n where n: "n \<in> F - G" "n \<notin> pt_frames (phys t) user_dirs to" "new = pte_create (of_nat n) (1 OR copy_perm e)"
      "pte_frame new = n" "phys t n = phys s (pte_frame e)" "page_ref t n = page_ref s n + 1"
    using p unfolding page_copied_def by blast
  have "n \<notin> G - H" using n(1) by blast
  then have "phys u n = phys t n" "page_ref u n = page_ref t n" "n \<notin> pt_frames (phys u) user_dirs to" "n \<in> F - H"
    using B(2,6,7,8) n(1,2) by blast+
  then show ?thesis using n unfolding page_copied_def by auto
qed

lemma page_copied_earlier:
  assumes p: "page_copied t G u H to e new" and a: "copied s F to from v w t G"
    and e: "pte_frame e \<notin> F" "pte_frame e \<notin> pt_frames (phys s) user_dirs to"
  shows "page_copied s F u H to e new"
proof -
  note A = copiedD [OF a]
  obtain n where n: "n \<in> G - H" "n \<notin> pt_frames (phys u) user_dirs to" "new = pte_create (of_nat n) (1 OR copy_perm e)"
      "pte_frame new = n" "phys u n = phys t (pte_frame e)" "page_ref u n = page_ref t n + 1"
    using p unfolding page_copied_def by blast
  have "phys t (pte_frame e) = phys s (pte_frame e)" using A(7) e by blast
  moreover have "page_ref t n = page_ref s n" using A(8) n(1) by blast
  ultimately show ?thesis using n A(2) unfolding page_copied_def by auto
qed

lemma page_copied_frame: "page_copied s F s' F' to e new \<Longrightarrow> pte_frame new \<in> F - F'"
  unfolding page_copied_def by auto

lemma copied_trans:
  assumes a: "copied s F to from v w t G" and b: "copied t G to from w x u H"
    and src: "source_ok s F to from v x" and ord: "v \<le> w" "w \<le> x" "x \<le> 2 ^ 19"
  shows "copied s F to from v x u H"
proof -
  note A = copiedD [OF a] and B = copiedD [OF b] and S = source_okD [OF src]
  have e: "page_entry_at (phys t) from y = page_entry_at (phys s) from y" if "y < 2 ^ 19" for y
    by (rule copied_source(2) [OF a src ord that])
  have low: "page_entry_at (phys u) to y = page_entry_at (phys t) to y" if "y < w" for y
    using B(10) [of y] that ord by simp
  have first: "page_copied s F u H to (page_entry_at (phys s) from y) (page_entry_at (phys u) to y)"
      "pte_frame (page_entry_at (phys u) to y) \<in> F - G"
    if y: "v \<le> y" "y < w" "valid_pte (page_entry_at (phys s) from y)" for y
  proof -
    note p = A(11) [OF y]
    show "page_copied s F u H to (page_entry_at (phys s) from y) (page_entry_at (phys u) to y)"
      unfolding low [OF y(2)] by (rule page_copied_later [OF p b A(2)])
    show "pte_frame (page_entry_at (phys u) to y) \<in> F - G" unfolding low [OF y(2)] by (rule page_copied_frame [OF p])
  qed
  have second: "page_copied s F u H to (page_entry_at (phys s) from y) (page_entry_at (phys u) to y)"
      "pte_frame (page_entry_at (phys u) to y) \<in> G - H"
    if y: "w \<le> y" "y < x" "valid_pte (page_entry_at (phys s) from y)" for y
  proof -
    have ey: "page_entry_at (phys t) from y = page_entry_at (phys s) from y" using e y(2) ord by simp
    have p: "page_copied t G u H to (page_entry_at (phys s) from y) (page_entry_at (phys u) to y)"
      using B(11) [OF y(1,2)] y(3) unfolding ey by simp
    have "v \<le> y" using y(1) ord by simp
    from S(3) [OF this y(2,3)] show "page_copied s F u H to (page_entry_at (phys s) from y) (page_entry_at (phys u) to y)"
      by (intro page_copied_earlier [OF p a]) simp_all
    show "pte_frame (page_entry_at (phys u) to y) \<in> G - H" by (rule page_copied_frame [OF p])
  qed
  show ?thesis
    unfolding copied_def
  proof (intro conjI allI impI)
    show "mem_frame s u" using A(1) B(1) by (rule mem_frame_trans)
    show "H \<subseteq> F" using A(2) B(2) by blast
    have "F - H = (F - G) \<union> (G - H)" using A(2) B(2) by blast
    then have "card (F - H) \<le> 3 * (w - v) + 3 * (x - w)" using card_Un_le [of "F - G" "G - H"] A(3) B(3) by simp
    also have "\<dots> = 3 * (x - v)" using ord by simp
    finally show "card (F - H) \<le> 3 * (x - v)" .
    show "mem_ok u H" "pt_wf (phys u) (npage u) H user_dirs to" by (rule B)+
    show "pt_frames (phys u) user_dirs to \<subseteq> pt_frames (phys s) user_dirs to \<union> (F - H)" using A(2,6) B(2,6) by blast
    show "phys u f = phys s f" if "f \<notin> F - H \<and> f \<notin> pt_frames (phys s) user_dirs to" for f
    proof -
      have "f \<notin> F - G" "f \<notin> G - H" using that A(2) B(2) by blast+
      moreover have "f \<notin> pt_frames (phys t) user_dirs to" using that \<open>f \<notin> F - G\<close> A(6) by blast
      ultimately show ?thesis using A(7) B(7) that by simp
    qed
    show "page_ref u p = page_ref s p" if "p \<notin> F - H" for p
    proof -
      have "p \<notin> F - G" "p \<notin> G - H" using that A(2) B(2) by blast+
      then show ?thesis using A(8) B(8) by simp
    qed
    show "unreserved u p = unreserved s p" for p using A(9) B(9) by simp
    show "page_entry_at (phys u) to y = page_entry_at (phys s) to y"
      if y: "y < 2 ^ 19" "\<not> (v \<le> y \<and> y < x \<and> valid_pte (page_entry_at (phys s) from y))" for y
    proof -
      have "\<not> (v \<le> y \<and> y < w \<and> valid_pte (page_entry_at (phys s) from y))"
        "\<not> (w \<le> y \<and> y < x \<and> valid_pte (page_entry_at (phys t) from y))"
        using y(2) ord unfolding e [OF y(1)] by auto
      then show ?thesis using A(10) [OF y(1)] B(10) [OF y(1)] by simp
    qed
    show "page_copied s F u H to (page_entry_at (phys s) from y) (page_entry_at (phys u) to y)"
      if y: "v \<le> y \<and> y < x \<and> valid_pte (page_entry_at (phys s) from y)" for y
      using first(1) [of y] second(1) [of y] y by (cases "y < w") simp_all
    show "pte_frame (page_entry_at (phys u) to y) \<noteq> pte_frame (page_entry_at (phys u) to z)"
      if yz: "v \<le> y \<and> y < z \<and> z < x \<and> valid_pte (page_entry_at (phys s) from y) \<and> valid_pte (page_entry_at (phys s) from z)" for y z
    proof -
      consider "z < w" | "y < w" "w \<le> z" | "w \<le> y" by linarith
      then show ?thesis
      proof cases
        case 1
        then show ?thesis using A(12) [of y z] yz low [of y] low [of z] by simp
      next
        case 2
        have "pte_frame (page_entry_at (phys u) to y) \<in> F - G" using first(2) [of y] 2 yz by simp
        moreover have "pte_frame (page_entry_at (phys u) to z) \<in> G - H" using second(2) [of z] 2 yz by simp
        ultimately show ?thesis by auto
      next
        case 3
        then show ?thesis using B(12) [of y z] yz e [of y] e [of z] ord by simp
      qed
    qed
  qed
qed

section \<open>The loop\<close>

lemma copied_none:
  assumes ok: "mem_ok s F" "pt_wf (phys s) (npage s) F user_dirs to"
    and none: "\<And>u. v \<le> u \<Longrightarrow> u < w \<Longrightarrow> \<not> valid_pte (page_entry_at (phys s) from u)"
  shows "copied s F to from v w s F"
  unfolding copied_def
proof (intro conjI allI impI)
  show "page_copied s F s F to (page_entry_at (phys s) from u) (page_entry_at (phys s) to u)"
    if "v \<le> u \<and> u < w \<and> valid_pte (page_entry_at (phys s) from u)" for u using that none by blast
  show "pte_frame (page_entry_at (phys s) to u) \<noteq> pte_frame (page_entry_at (phys s) to y)"
    if "v \<le> u \<and> u < y \<and> y < w \<and> valid_pte (page_entry_at (phys s) from u) \<and> valid_pte (page_entry_at (phys s) from y)" for u y
    using that none [of u] by simp
qed (use ok in simp_all)

text \<open>\<open>page_insert\<close> where the table is already there and the entry is free.\<close>

lemma page_insert_present:
  assumes "pt_wf (phys s) (npage s) F I pd" "PDX1 la \<in> I" and t: "table (phys s) pd (Low (PDX1 la) (PDX0 la)) = Some t"
    and "\<not> valid_pte (phys s t (PTX la))"
  shows "page_insert pd page la perm s = Inr (0, set_pte (t, PTX la) (pte_create (of_nat page) (1 OR perm)) (page_ref_inc page s))"
  using get_pte_present [OF assms(1-3), of True] assms(4) by (simp add: page_insert_def pte_at_def)

lemma copy_one_ok:
  assumes ok: "mem_ok s F" "pt_wf (phys s) (npage s) F user_dirs to" and v: "v < 2 ^ 19"
    and mem: "3 \<le> card F" and e: "e = page_entry_at (phys s) from v" "valid_pte e" "phys s t j = e"
    and t: "t \<notin> F" "t \<notin> pt_frames (phys s) user_dirs to"
    and p: "pte_frame e < npage s" "pte_frame e \<notin> F" "pte_frame e \<notin> pt_frames (phys s) user_dirs to"
    and free: "\<not> valid_pte (page_entry_at (phys s) to v)"
  shows "\<exists>s' F'. copy_one to (va v) (t, j) s = Inr (0, s') \<and> copied s F to from v (v + 1) s' F'"
proof -
  have v27: "v < 2 ^ 27" using v by simp
  have la: "PDX1 (va v) \<in> user_dirs" using user_dir [OF v] indices_va [OF v27] by simp
  have fin: "finite F" by (rule mem_ok_card(1) [OF ok(1)])
  obtain r s1 F1 where g: "get_pte to (va v) True s = Inr (r, s1)" "grown s F s1 F1 user_dirs to" "card (F - F1) \<le> 2"
      "case r of None \<Rightarrow> F1 = {} | Some (t, i) \<Rightarrow> table (phys s1) to (Low (PDX1 (va v)) (PDX0 (va v))) = Some t \<and> i = PTX (va v)"
    using get_pte_ok [OF ok la, of True] by (auto split: option.splits)
  note G = grownD [OF g(2)]
  have F1: "F1 \<noteq> {}" using g(3) mem by auto
  obtain t1 where t1: "r = Some (t1, PTX (va v))" "table (phys s1) to (Low (PDX1 (va v)) (PDX0 (va v))) = Some t1"
    using g(4) F1 by (cases r) auto
  have entry1: "phys s1 t1 (PTX (va v)) = page_entry_at (phys s) to v"
    using mapping_table [OF t1(2)] grown_mapping [OF g(2) la] mapping_va [OF v27] by simp
  obtain r2 s2 where a: "alloc_pages 1 s1 = Inr (r2, s2)" "pmm_frame s1 s2"
      "\<forall>p. unreserved s2 p = unreserved s1 p \<and> page_ref s2 p = page_ref s1 p"
      "case r2 of None \<Rightarrow> F1 = {} \<and> mem_ok s2 {} | Some p \<Rightarrow> p \<in> F1 \<and> mem_ok s2 (F1 - {p})"
    using alloc_one_ok [OF G(3)] by blast
  obtain n where n: "r2 = Some n" "n \<in> F1" "mem_ok s2 (F1 - {n})" using a(4) F1 by (cases r2) auto
  have ph2: "phys s2 = phys s1" "npage s2 = npage s" using pmm_frame_phys [OF a(2)] G(11) by auto
  have np: "n < npage s" "npage s < 2 ^ 32" using G(2) n(2) ok(1) by (auto simp: mem_ok_def)
  define s3 where "s3 = copy_page n (pte_frame e) s2"
  define w where "w = pte_create (of_nat n) (1 OR copy_perm e)"
  define s4 where "s4 = set_pte (t1, PTX (va v)) w (page_ref_inc n s3)"
  define F' where "F' = F1 - {n}"
  have m3: "phys s3 = (phys s1)(n := phys s1 (pte_frame e))" by (simp add: s3_def copy_page_def ph2)
  have n1: "n \<notin> pt_frames (phys s1) user_dirs to" using pt_wfD(2) [OF G(4)] n(2) by blast
  have same3: "\<forall>f \<in> pt_frames (phys s1) user_dirs to. phys s3 f = phys s1 f" using n1 by (auto simp: m3)
  have np3: "npage s3 = npage s1" by (simp add: s3_def copy_page_def ph2 G(11))
  have wf3: "pt_wf (phys s3) (npage s3) F' user_dirs to"
    unfolding np3 by (rule pt_wf_cong [OF G(4) same3]) (auto simp: F'_def)
  have t3: "table (phys s3) to (Low (PDX1 (va v)) (PDX0 (va v))) = Some t1"
    using table_cong [OF same3, of "Low (PDX1 (va v)) (PDX0 (va v))"] t1(2) la by simp
  have t1n: "t1 \<noteq> n" using n1 table_in_frames [of user_dirs, OF _ t1(2)] la by auto
  have ok3: "mem_ok s3 F'" using n(3) by (simp add: s3_def copy_page_def mem_ok_def F'_def unreserved_def PageReserved_def)
  have ins: "page_insert to n (va v) (copy_perm e) s3 = Inr (0, s4)"
    unfolding s4_def w_def by (rule page_insert_present [OF wf3 la t3]) (use free entry1 t1n in \<open>simp add: m3\<close>)
  have read: "phys s1 t = phys s t" using G(8) t by blast
  have kadr: "KADDR s2 (page2pa (pte_frame e)) = Inr (pte_frame e)" "KADDR s2 (page2pa n) = Inr n"
    using p(1) np ph2(2) by (simp_all add: KADDR_page2pa)
  have run: "copy_one to (va v) (t, j) s = Inr (0, s4)"
    using g(1) t1(1) a(1) n(1) kadr ins e(2,3) read p(1) G(11)
    by (simp add: copy_one_def pte_at_def Let_def pte2page_frame page2kva_def s3_def copy_perm_def)
  have ok3i: "mem_ok (page_ref_inc n s3) F'" "pt_wf (phys (page_ref_inc n s3)) (npage (page_ref_inc n s3)) F' user_dirs to"
    "table (phys (page_ref_inc n s3)) to (Low (PDX1 (va v)) (PDX0 (va v))) = Some t1" using ok3 wf3 t3 by simp_all
  note S = set_entry_ok [OF ok3i(1,2) la ok3i(3) s4_def]
  have m4: "phys s4 = (phys s3)(t1 := (phys s3 t1)(PTX (va v) := w))" by (simp add: s4_def)
  have f4: "pt_frames (phys s4) user_dirs to = pt_frames (phys s1) user_dirs to"
    using S(5) pt_frames_cong [OF same3] by simp
  have FF: "F - F' = insert n (F - F1)" using n(2) G(2) by (auto simp: F'_def)
  have others: "page_entry_at (phys s4) to u = page_entry_at (phys s) to u" if u: "u < 2 ^ 19" "u \<noteq> v" for u
  proof -
    have u27: "u < 2 ^ 27" using u(1) by simp
    have la': "PDX1 (va u) \<in> user_dirs" using user_dir [OF u(1)] indices_va [OF u27] by simp
    have "va_index (va u) \<noteq> va_index (va v)"
      using page_index_inj [of u v] u(2) indices_va [OF u27] indices_va [OF v27] by (auto simp: va_index_def)
    then have "mapping (phys s4) to (va u) = mapping (phys s3) to (va u)" using S(4) [OF la'] by simp
    also have "\<dots> = mapping (phys s1) to (va u)" unfolding mapping_def by (rule entry_cong [OF same3 la']) simp
    also have "\<dots> = mapping (phys s) to (va u)" by (rule grown_mapping [OF g(2) la'])
    finally show ?thesis by (simp only: mapping_va [OF u27])
  qed
  have ref3: "page_ref s3 q = page_ref s2 q" for q by (simp add: s3_def copy_page_def page_ref_def)
  have res3: "unreserved s3 q = unreserved s2 q" for q by (simp add: s3_def copy_page_def unreserved_def PageReserved_def)
  have new: "page_entry_at (phys s4) to v = w" using S(3) mapping_va [OF v27] by simp
  have "copied s F to from v (v + 1) s4 F'"
    unfolding copied_def
  proof (intro conjI allI impI)
    have "mem_frame s1 s3" using pmm_mem_frame [OF a(2)] by (rule mem_frame_trans) (simp add: s3_def copy_page_def mem_frame_def)
    moreover have "mem_frame s3 s4" unfolding s4_def by (rule mem_frame_trans [OF mem_frame_dec(2,3)])
    ultimately show "mem_frame s s4" using G(1) by (blast intro: mem_frame_trans)
    show "F' \<subseteq> F" using G(2) by (auto simp: F'_def)
    show "card (F - F') \<le> 3 * (v + 1 - v)" unfolding FF using g(3) card_insert_le_m1 [of 3 "F - F1" n] by simp
    show "mem_ok s4 F'" by (rule S)
    show "pt_wf (phys s4) (npage s4) F' user_dirs to" using S(2) by (simp add: s4_def)
    show "pt_frames (phys s4) user_dirs to \<subseteq> pt_frames (phys s) user_dirs to \<union> (F - F')" unfolding f4 FF using G(5) by blast
    show "phys s4 f = phys s f" if f: "f \<notin> F - F' \<and> f \<notin> pt_frames (phys s) user_dirs to" for f
    proof -
      have f1: "f \<noteq> n" "f \<notin> F - F1" using f unfolding FF by auto
      then have "phys s1 f = phys s f" using G(8) f by blast
      moreover have "f \<noteq> t1" using G(5) [OF table_in_frames [of user_dirs, OF _ t1(2)]] la f f1 by auto
      ultimately show ?thesis using f1 by (simp add: m4 m3)
    qed
    show "page_ref s4 q = page_ref s q" if "q \<notin> F - F'" for q
    proof -
      have q: "q \<noteq> n" "q \<notin> F - F1" using that unfolding FF by auto
      then show ?thesis using a(3) G(10) [OF q(2)] by (simp add: s4_def ref3)
    qed
    show "unreserved s4 q = unreserved s q" for q
      using a(3) G(9) by (simp add: s4_def res3)
    show "page_entry_at (phys s4) to u = page_entry_at (phys s) to u"
      if "u < 2 ^ 19" "\<not> (v \<le> u \<and> u < v + 1 \<and> valid_pte (page_entry_at (phys s) from u))" for u
      using that others [of u] e by (cases "u = v") simp_all
    show "page_copied s F s4 F' to (page_entry_at (phys s) from u) (page_entry_at (phys s4) to u)"
      if u: "v \<le> u \<and> u < v + 1 \<and> valid_pte (page_entry_at (phys s) from u)" for u
    proof -
      have uv: "u = v" using u by simp
      have "pte_frame w = n" unfolding w_def by (rule pte_frame_create) (use np perm_ok_or [OF copy_perm_ok] in auto)
      moreover have "n \<notin> pt_frames (phys s4) user_dirs to" unfolding f4 by (rule n1)
      moreover have "phys s4 n = phys s (pte_frame e)"
        using t1n G(8) [of "pte_frame e"] p by (simp add: m4 m3)
      moreover have "page_ref s4 n = page_ref s n + 1"
        using a(3) G(10) [of n] n(2) by (simp add: s4_def ref3)
      ultimately show ?thesis unfolding uv new e(1) [symmetric] page_copied_def by (intro bexI [of _ n]) (auto simp: w_def FF)
    qed
  qed linarith
  then show ?thesis using run by blast
qed

lemma copy_step_ok:
  assumes ok: "mem_ok s F" "pt_wf (phys s) (npage s) F user_dirs to" and v: "v < 2 ^ 19" "v < w" "w \<le> 2 ^ 19"
    and mem: "3 \<le> card F" and src: "source_ok s F to from v w"
  shows "\<exists>x s' F'. copy_step to from (va v) s = Inr (0, va x, s') \<and> v < x \<and> x \<le> 2 ^ 19 \<and> copied s F to from v (min x w) s' F'"
proof -
  have v27: "v < 2 ^ 27" using v(1) by simp
  note S = source_okD [OF src] and ix = indices_va [OF v27]
  have la: "PDX1 (va v) \<in> user_dirs" using user_dir [OF v(1)] ix(1) by simp
  show ?thesis
  proof (cases "table (phys s) from (Low (v div 2 ^ 18) (v div 2 ^ 9 mod 512))")
    case None
    let ?x = "(v div 512 + 1) * 512"
    have "get_pte from (va v) False s = Inr (None, s)" by (rule get_pte_absent [OF S(1) la]) (unfold ix, rule None)
    then have run: "copy_step to from (va v) s = Inr (0, va ?x, s)" using va_skip [OF v27] by (simp add: copy_step_def)
    have "copied s F to from v (min ?x w) s F"
      by (rule copied_none [OF ok]) (use page_entry_absent [OF None] in \<open>auto simp: PTE_V_bit\<close>)
    then show ?thesis using run next_table [OF v(1)] by blast
  next
    case (Some t)
    then have t: "table (phys s) from (Low (PDX1 (va v)) (PDX0 (va v))) = Some t" by (simp add: ix)
    define e where "e = page_entry_at (phys s) from v"
    have et: "phys s t (PTX (va v)) = e" using mapping_table [OF t] mapping_va [OF v27] by (simp add: e_def)
    note g = get_pte_present [OF S(1) la t, of False]
    have min: "min (v + 1) w = v + 1" using v(2) by simp
    show ?thesis
    proof (cases "valid_pte e")
      case False
      then have "copy_step to from (va v) s = Inr (0, va (v + 1), s)"
        using g et by (simp add: copy_step_def pte_at_def va_step)
      moreover have "copied s F to from v (min (v + 1) w) s F"
        unfolding min by (rule copied_none [OF ok]) (use False in \<open>auto simp: le_less_Suc_eq e_def\<close>)
      ultimately show ?thesis using v(1,2) by (intro exI [of _ "v + 1"] exI [of _ s] exI [of _ F]) simp
    next
      case True
      have tf: "t \<in> pt_frames (phys s) user_dirs from" using table_in_frames [of user_dirs, OF _ t] la by simp
      have p: "pte_frame e < npage s" "pte_frame e \<notin> F" "pte_frame e \<notin> pt_frames (phys s) user_dirs to"
        using S(3) [of v] v(2) True by (auto simp: e_def)
      have free: "\<not> valid_pte (page_entry_at (phys s) to v)" using S(4) [of v] v(2) by simp
      obtain s' F' where s': "copy_one to (va v) (t, PTX (va v)) s = Inr (0, s')" "copied s F to from v (v + 1) s' F'"
        using copy_one_ok [OF ok v(1) mem e_def True et pt_wfD(2) [OF S(1) tf] S(2) [OF tf] p free] by blast
      have "copy_step to from (va v) s = Inr (0, va (v + 1), s')"
        using g s'(1) True et by (simp add: copy_step_def pte_at_def va_step)
      then show ?thesis using s'(2) min v(1,2) by (intro exI [of _ "v + 1"] exI [of _ s'] exI [of _ F']) simp
    qed
  qed
qed

lemma copy_loop_ok:
  assumes "mem_ok s F" "pt_wf (phys s) (npage s) F user_dirs to" "v < w" "w \<le> 2 ^ 19"
    and "3 * (w - v) \<le> card F" "source_ok s F to from v w"
  shows "\<exists>s' F'. copy_loop to from (va v) (va w) s = Some (Inr (0, s')) \<and> copied s F to from v w s' F'"
  using assms
proof (induction "w - v" arbitrary: v s F rule: less_induct)
  case less
  have v: "v < 2 ^ 19" using less.prems(3,4) by simp
  have "3 \<le> card F" using less.prems(3,5) by simp
  then obtain x s1 G where step: "copy_step to from (va v) s = Inr (0, va x, s1)" "v < x" "x \<le> 2 ^ 19" "copied s F to from v (min x w) s1 G"
    using copy_step_ok [OF less.prems(1,2) v less.prems(3,4) _ less.prems(6)] by blast
  have loop: "copy_loop to from (va v) (va w) s = (if x < w then copy_loop to from (va x) (va w) s1 else Some (Inr (0, s1)))"
    using step(2,3) less.prems(4) va_less [of x w] va_nonzero [of x]
    by (subst copy_loop.simps) (simp add: step(1))
  show ?case
  proof (cases "x < w")
    case False
    then show ?thesis using loop step(4) by (intro exI [of _ s1] exI [of _ G]) (simp add: min_def split: if_splits)
  next
    case True
    then have c1: "copied s F to from v x s1 G" using step(4) by (simp add: min_def)
    note C = copiedD [OF c1]
    have ordx: "v \<le> x" "x \<le> w" using step(2) True by auto
    have src1: "source_ok s1 G to from x w" by (rule copied_source(1) [OF c1 less.prems(6) ordx less.prems(4)])
    have "card F \<le> card G + card (F - G)"
      using card_Un_le [of G "F - G"] C(2) by (simp add: Un_absorb1)
    then have mem: "3 * (w - x) \<le> card G" using C(3) less.prems(5) ordx by simp
    have dec: "w - x < w - v" using step(2) True by linarith
    obtain s' H where s': "copy_loop to from (va x) (va w) s1 = Some (Inr (0, s'))" "copied s1 G to from x w s' H"
      using less.hyps [OF dec C(4,5) True less.prems(4) mem src1] by blast
    have "copied s F to from v w s' H" by (rule copied_trans [OF c1 s'(2) less.prems(6) ordx less.prems(4)])
    then show ?thesis using loop s'(1) True by (intro exI [of _ s'] exI [of _ H]) simp
  qed
qed


lemma demo_as_other: "f \<noteq> 50 \<Longrightarrow> f \<noteq> 51 \<Longrightarrow> f \<noteq> 52 \<Longrightarrow> phys demo_as f = (\<lambda>_. 0)"
  by (simp add: demo_as_phys)

text \<open>Frame 60 of the same memory is an empty directory, the target of the copy.\<close>

lemma demo_as_table60: "table (phys demo_as) 60 x = Some t \<Longrightarrow> x = Top \<and> t = 60"
  by (cases x) (auto simp: child_def demo_as_phys)

lemma demo_as_wf60: "pt_wf (phys demo_as) (npage demo_as) ({10..<14} \<union> {30..<38}) user_dirs 60"
  by (auto simp: pt_wf_def pt_frames_def demo_as_simps dest!: demo_as_table60)

lemma demo_as_empty60: "page_entry_at (phys demo_as) 60 u = 0"
proof -
  have "table (phys demo_as) 60 (Low (u div 2 ^ 18) (u div 2 ^ 9 mod 512)) = None"
    using demo_as_table60 [of "Low (u div 2 ^ 18) (u div 2 ^ 9 mod 512)"] by (metis not_Some_eq table_path.distinct(3))
  then show ?thesis by (simp only: page_entry_at_def entry_def option.case)
qed

lemma demo_as_source: "source_ok demo_as ({10..<14} \<union> {30..<38}) 60 50 0x800 0x802"
  using demo_as_wf unfolding source_ok_def demo_as_range
  by (auto simp: pt_frames_def demo_as_simps demo_as_empty60 dest!: demo_as_tableD demo_as_table60)


text \<open>when memory runs out at the page itself, \<open>copy_range\<close> does not return \<open>-E_NO_MEM\<close>: it stops
  the kernel at its assertion.\<close>

theorem copy_one_panics:
  assumes ok: "mem_ok s {}" "pt_wf (phys s) (npage s) {} user_dirs to" "v < 2 ^ 19"
    and t: "table (phys s) to (Low (PDX1 (va v)) (PDX0 (va v))) = Some t"
    and e: "valid_pte (pte_at s ptep)" "pte_frame (pte_at s ptep) < npage s"
  shows "copy_one to (va v) ptep s = Inl (Assert_failed ''npage != NULL'')"
proof -
  have v27: "v < 2 ^ 27" using ok(3) by simp
  have la: "PDX1 (va v) \<in> user_dirs" using user_dir [OF ok(3)] indices_va [OF v27] by simp
  obtain s' where a: "alloc_pages 1 s = Inr (None, s')"
    using alloc_one_ok [OF ok(1)] by (auto split: option.splits)
  show ?thesis using get_pte_present [OF ok(2) la t, of True] a e
    by (simp add: copy_one_def pte2page_frame Let_def)
qed

definition demo_full :: mem where
  "demo_full = demo_as\<lparr>pages := (\<lambda>p. (pages demo_as p)\<lparr>pg_flags := 0\<rparr>),
     page_links := list_init Free_list (page_links demo_as), nr_free := 0\<rparr>"

lemma demo_full_ok: "mem_ok demo_full {}" "pt_wf (phys demo_full) (npage demo_full) {} user_dirs 50"
proof -
  have "free_rep demo_full []"
    by (simp add: free_rep_def demo_full_def clist_init PageProperty_def)
  then show "mem_ok demo_full {}" by (auto simp: mem_ok_def free_set_def demo_full_def demo_as_simps)
  show "pt_wf (phys demo_full) (npage demo_full) {} user_dirs 50"
    using demo_as_wf by (auto simp: demo_full_def pt_wf_def)
qed

theorem copy_one_panics_witness:
  "copy_one 50 (va 0x800) (52, 0) demo_full = Inl (Assert_failed ''npage != NULL'')"
proof -
  have "table (phys demo_full) 50 (Low (PDX1 (va 0x800)) (PDX0 (va 0x800))) = Some 52"
    by (simp add: indices_va demo_full_def demo_as_table del: table.simps)
  moreover have "pte_at demo_full (52, 0) = pte_create 20 0x17" by (simp add: pte_at_def demo_full_def demo_as_phys)
  ultimately show ?thesis
    by (intro copy_one_panics [OF demo_full_ok]) (simp_all add: demo_as_frames demo_full_def demo_as_simps)
qed

end
