(* ===== verification/Page_Checks.thy ===== *)
theory Page_Checks
  imports Page_Copy
begin

text \<open>
  The self-checks of the allocator (default_pmm.c) and of the page tables (pmm.c), as programs
  of the model: they run to the end on a small memory. The setup of the free list at boot, and
  what \<open>exit_range\<close> does to tables it should keep.
\<close>

section \<open>The checks\<close>

text \<open>\<open>p = alloc_pages(n)\<close> asserted to be a page, and asserted to be NULL.\<close>

definition expect_page :: "nat \<Rightarrow> 'a mem_scheme \<Rightarrow> (nat \<Rightarrow> 'a mem_scheme \<Rightarrow> 'b outcome) \<Rightarrow> 'b outcome" where
  "expect_page n s k = obind (alloc_pages n s) (\<lambda>(r, s'). kassert (r \<noteq> None) ''alloc_pages(n) != NULL'' (k (the r) s'))"

definition expect_none :: "nat \<Rightarrow> 'a mem_scheme \<Rightarrow> ('a mem_scheme \<Rightarrow> 'b outcome) \<Rightarrow> 'b outcome" where
  "expect_none n s k = obind (alloc_pages n s) (\<lambda>(r, s'). kassert (r = None) ''alloc_pages(n) == NULL'' (k s'))"

text \<open>Saving and restoring the head of the free list.\<close>

definition free_head :: "'a mem_scheme \<Rightarrow> page_entry \<times> page_entry" where
  "free_head s = (list_prev (page_links s) Free_list, list_next (page_links s) Free_list)"

definition set_free_head :: "page_entry \<times> page_entry \<Rightarrow> 'a mem_scheme \<Rightarrow> 'a mem_scheme" where
  "set_free_head h s = s\<lparr>page_links := \<lparr>prev_of = (prev_of (page_links s))(Free_list := fst h),
     next_of = (next_of (page_links s))(Free_list := snd h)\<rparr>\<rparr>"

definition empty_free_list :: "'a mem_scheme \<Rightarrow> 'a mem_scheme" where
  "empty_free_list s = s\<lparr>page_links := list_init Free_list (page_links s)\<rparr>"

definition basic_check :: "'a mem_scheme \<Rightarrow> 'a mem_scheme outcome" where
  "basic_check s =
     expect_page 1 s (\<lambda>p0 s. expect_page 1 s (\<lambda>p1 s. expect_page 1 s (\<lambda>p2 s.
     kassert (p0 \<noteq> p1 \<and> p0 \<noteq> p2 \<and> p1 \<noteq> p2) ''p0 != p1 && p0 != p2 && p1 != p2''
     (kassert (page_ref s p0 = 0 \<and> page_ref s p1 = 0 \<and> page_ref s p2 = 0) ''page_ref(p0) == 0 && page_ref(p1) == 0 && page_ref(p2) == 0''
     (kassert (page2pa p0 < of_nat (npage s) * PGSIZE) ''page2pa(p0) < npage * PGSIZE''
     (kassert (page2pa p1 < of_nat (npage s) * PGSIZE) ''page2pa(p1) < npage * PGSIZE''
     (kassert (page2pa p2 < of_nat (npage s) * PGSIZE) ''page2pa(p2) < npage * PGSIZE''
     (let free_list_store = free_head s; s = empty_free_list s in
      kassert (list_empty (page_links s) Free_list) ''list_empty(&free_list)''
      (let nr_free_store = nr_free s; s = s\<lparr>nr_free := 0\<rparr> in
       expect_none 1 s (\<lambda>s.
       obind (free_pages p0 1 s) (\<lambda>s. obind (free_pages p1 1 s) (\<lambda>s. obind (free_pages p2 1 s) (\<lambda>s.
       kassert (nr_free s = 3) ''nr_free == 3''
       (expect_page 1 s (\<lambda>p0 s. expect_page 1 s (\<lambda>p1 s. expect_page 1 s (\<lambda>p2 s.
        expect_none 1 s (\<lambda>s.
        obind (free_pages p0 1 s) (\<lambda>s.
        kassert (\<not> list_empty (page_links s) Free_list) ''!list_empty(&free_list)''
        (expect_page 1 s (\<lambda>p s.
         kassert (p = p0) ''(p = alloc_page()) == p0''
         (expect_none 1 s (\<lambda>s.
          kassert (nr_free s = 0) ''nr_free == 0''
          (let s = (set_free_head free_list_store s)\<lparr>nr_free := nr_free_store\<rparr> in
           obind (free_pages p 1 s) (\<lambda>s. obind (free_pages p1 1 s) (\<lambda>s. free_pages p2 1 s))))))))))))))))))))))))))"

text \<open>The two walks of \<open>default_check\<close> along the free list; the first asserts the flag.\<close>

partial_function (option) count_free :: "bool \<Rightarrow> page_entry \<Rightarrow> int \<Rightarrow> int \<Rightarrow> 'a mem_scheme \<Rightarrow> (int \<times> int) outcome option" where
  "count_free up le cnt tot s =
     (let le' = list_next (page_links s) le in
      if le' = Free_list then Some (Inr (cnt, tot))
      else loop_bind (kassert (up \<longrightarrow> PageProperty s (le2page le')) ''PageProperty(p)'' (Inr ()))
        (\<lambda>_. let n = uint (property (pages s (le2page le'))) in
          if up then count_free up le' (cnt + 1) (tot + n) s else count_free up le' (cnt - 1) (tot - n) s))"

declare count_free.simps [code]

definition default_check :: "'a mem_scheme \<Rightarrow> 'a mem_scheme outcome" where
  "default_check s =
     obind (finish (count_free True Free_list 0 0 s)) (\<lambda>(count, total).
     kassert (total = int (fst (nr_free_pages s))) ''total == nr_free_pages()''
     (obind (basic_check (snd (nr_free_pages s))) (\<lambda>s.
      expect_page 5 s (\<lambda>p0 s.
      kassert (\<not> PageProperty s p0) ''!PageProperty(p0)''
      (let free_list_store = free_head s; s = empty_free_list s in
       kassert (list_empty (page_links s) Free_list) ''list_empty(&free_list)''
       (expect_none 1 s (\<lambda>s.
        let nr_free_store = nr_free s; s = s\<lparr>nr_free := 0\<rparr> in
        obind (free_pages (p0 + 2) 3 s) (\<lambda>s.
        expect_none 4 s (\<lambda>s.
        kassert (PageProperty s (p0 + 2) \<and> property (pages s (p0 + 2)) = 3) ''PageProperty(p0 + 2) && p0[2].property == 3''
        (expect_page 3 s (\<lambda>p1 s.
         expect_none 1 s (\<lambda>s.
         kassert (p0 + 2 = p1) ''p0 + 2 == p1''
         (let p2 = p0 + 1 in
          obind (free_pages p0 1 s) (\<lambda>s. obind (free_pages p1 3 s) (\<lambda>s.
          kassert (PageProperty s p0 \<and> property (pages s p0) = 1) ''PageProperty(p0) && p0->property == 1''
          (kassert (PageProperty s p1 \<and> property (pages s p1) = 3) ''PageProperty(p1) && p1->property == 3''
          (expect_page 1 s (\<lambda>p0 s.
           kassert (p0 = p2 - 1) ''(p0 = alloc_page()) == p2 - 1''
           (obind (free_pages p0 1 s) (\<lambda>s.
            expect_page 2 s (\<lambda>p0 s.
            kassert (p0 = p2 + 1) ''(p0 = alloc_pages(2)) == p2 + 1''
            (obind (free_pages p0 2 s) (\<lambda>s. obind (free_pages p2 1 s) (\<lambda>s.
             expect_page 5 s (\<lambda>p0 s.
             expect_none 1 s (\<lambda>s.
             kassert (nr_free s = 0) ''nr_free == 0''
             (let s = set_free_head free_list_store (s\<lparr>nr_free := nr_free_store\<rparr>) in
              obind (free_pages p0 5 s) (\<lambda>s.
              obind (finish (count_free False Free_list count total s)) (\<lambda>(count, total).
              kassert (count = 0) ''count == 0'' (kassert (total = 0) ''total == 0'' (Inr s)))))))))))))))))))))))))))))))"

text \<open>
  \<open>check_pgdir\<close> on the boot directory. Its two allocations are not tested for NULL; a NULL page
  would be dereferenced, which the model shows as a fault.
\<close>

definition check_pgdir :: "nat \<Rightarrow> 'a mem_scheme \<Rightarrow> 'a mem_scheme outcome" where
  "check_pgdir pd s =
     (let nr_free_store = fst (nr_free_pages s); s = snd (nr_free_pages s);
          insert_ok = (\<lambda>page la perm s k. obind (page_insert pd page la perm s) (\<lambda>(r, s). kassert (r = 0) ''page_insert(...) == 0'' (k s)));
          find = (\<lambda>la s k. obind (get_pte pd la False s) (\<lambda>(p, s). kassert (p \<noteq> None) ''get_pte(...) != NULL'' (k (the p) s)))
      in kassert (of_nat (npage s) \<le> KERNTOP div PGSIZE) ''npage <= KERNTOP / PGSIZE''
      (obind (get_page pd 0 s) (\<lambda>(r, s). kassert (r = None) ''get_page(boot_pgdir_va, 0x0, NULL) == NULL''
      (expect_page 1 s (\<lambda>p1 s. insert_ok p1 0 0 s (\<lambda>s.
       find 0 s (\<lambda>ptep s.
       obind (pte2page s (pte_at s ptep)) (\<lambda>q. kassert (q = p1) ''pte2page(*ptep) == p1''
       (kassert (page_ref s p1 = 1) ''page_ref(p1) == 1''
       (obind (KADDR s (PTE_ADDR (pte_at s (pd, 0)))) (\<lambda>t0. obind (KADDR s (PTE_ADDR (pte_at s (t0, 0)))) (\<lambda>t1.
       find PGSIZE s (\<lambda>ptep s. kassert (ptep = (t1, 1)) ''get_pte(boot_pgdir_va, PGSIZE, 0) == ptep''
       (expect_page 1 s (\<lambda>p2 s. insert_ok p2 PGSIZE (ucast (PTE_U OR PTE_W)) s (\<lambda>s.
        find PGSIZE s (\<lambda>ptep s.
        kassert (pte_at s ptep AND PTE_U \<noteq> 0) ''*ptep & PTE_U''
        (kassert (pte_at s ptep AND PTE_W \<noteq> 0) ''*ptep & PTE_W''
        (kassert (pte_at s (pd, 0) AND PTE_U \<noteq> 0) ''boot_pgdir_va[0] & PTE_U''
        (kassert (page_ref s p2 = 1) ''page_ref(p2) == 1''
        (insert_ok p1 PGSIZE 0 s (\<lambda>s.
         kassert (page_ref s p1 = 2) ''page_ref(p1) == 2''
         (kassert (page_ref s p2 = 0) ''page_ref(p2) == 0''
         (find PGSIZE s (\<lambda>ptep s.
          obind (pte2page s (pte_at s ptep)) (\<lambda>q. kassert (q = p1) ''pte2page(*ptep) == p1''
          (kassert (pte_at s ptep AND PTE_U = 0) ''(*ptep & PTE_U) == 0''
          (obind (page_remove pd 0 s) (\<lambda>s.
           kassert (page_ref s p1 = 1) ''page_ref(p1) == 1''
           (kassert (page_ref s p2 = 0) ''page_ref(p2) == 0''
           (obind (page_remove pd PGSIZE s) (\<lambda>s.
            kassert (page_ref s p1 = 0) ''page_ref(p1) == 0''
            (kassert (page_ref s p2 = 0) ''page_ref(p2) == 0''
            (obind (pde2page s (pte_at s (pd, 0))) (\<lambda>t0.
             kassert (page_ref s t0 = 1) ''page_ref(pde2page(boot_pgdir_va[0])) == 1''
             (obind (page2kva s t0) (\<lambda>pd0. obind (pde2page s (pte_at s (pd0, 0))) (\<lambda>t1.
              obind (free_pages t1 1 s) (\<lambda>s.
              obind (pde2page s (pte_at s (pd, 0))) (\<lambda>t0.
              obind (free_pages t0 1 s) (\<lambda>s.
              let s = set_pte (pd, 0) 0 s in
              kassert (nr_free_store = fst (nr_free_pages s)) ''nr_free_store == nr_free_pages()''
                (Inr (snd (nr_free_pages s))))))))))))))))))))))))))))))))))))))))))))"

section \<open>\<open>exit_range\<close>\<close>

lemma va_round:
  assumes "v < 2 ^ 27" "0 < k" "k < 2 ^ 27"
  shows "ROUNDDOWN (va v) (va k) = va (v div k * k)"
proof -
  have u: "unat (va v) = v * 4096" "unat (va k) = k * 4096" using assms by (simp_all add: unat_va)
  have m: "unat (va v mod va k) = (v mod k) * 4096" by (simp add: unat_mod_distrib u mult_mod_left)
  have "va v mod va k \<le> va v" unfolding word_le_nat_alt m u by simp
  then have "unat (va v - va v mod va k) = v * 4096 - (v mod k) * 4096" by (simp only: unat_sub m u)
  also have "\<dots> = (v div k * k) * 4096" by (simp only: minus_mod_eq_div_mult diff_mult_distrib [symmetric])
  also have "\<dots> = unat (va (v div k * k))"
  proof -
    have "v div k * k \<le> v" by simp
    then have "v div k * k < 2 ^ 52" by (rule le_less_trans) (use assms(1) in simp)
    then show ?thesis by (rule unat_va [symmetric])
  qed
  finally show ?thesis unfolding ROUNDDOWN_def by (simp only: word_unat_eq_iff)
qed

lemma free_table_ok:
  assumes "mem_ok s F" "t \<notin> F" "t < npage s" "unreserved s t" "room_above F t" and e: "pte_frame e = t"
  shows "pde2page s e = Inr t" "page2kva s t = Inr t"
    "\<exists>s'. free_pages t 1 s = Inr s' \<and> pmm_frame s s' \<and> mem_ok s' (insert t F) \<and> (\<forall>q. unreserved s' q = unreserved s q)"
proof -
  show "pde2page s e = Inr t" using e assms(3) by (simp add: pde2page_def pa2page_def pte_frame_def)
  show "page2kva s t = Inr t" using assms(1,3) by (auto simp: page2kva_def mem_ok_def intro!: KADDR_page2pa)
  show "\<exists>s'. free_pages t 1 s = Inr s' \<and> pmm_frame s s' \<and> mem_ok s' (insert t F) \<and> (\<forall>q. unreserved s' q = unreserved s q)"
    using free_one_ok [OF assms(1-5)] by blast
qed

text \<open>C27: \<open>exit_range\<close> on a range inside one page table whose entries are all invalid frees that table and
  also the directory above it, even when other entries of the directory still lead to mapped
  pages: every mapping below that directory is lost.\<close>

theorem exit_range_drops_directory:
  assumes ok: "mem_ok s F" "pt_wf (phys s) (npage s) F user_dirs pd"
    and range: "USER_ACCESS (va v) (va w)" "v < w" "w \<le> 2 ^ 19" "w \<le> (v div 512 + 1) * 512"
    and t: "table (phys s) pd (Mid (v div 2 ^ 18)) = Some t0" "table (phys s) pd (Low (v div 2 ^ 18) (v div 2 ^ 9 mod 512)) = Some t1"
    and empty: "table_empty s t1"
    and room: "unreserved s t0" "unreserved s t1" "q \<in> F" "t0 < q" "t1 < q"
  shows "\<exists>s'. exit_range pd (va v) (va w) s = Inr s' \<and> mem_ok s' (insert t0 (insert t1 F)) \<and>
    (\<forall>u. u < 2 ^ 27 \<and> u div 2 ^ 18 = v div 2 ^ 18 \<longrightarrow> mapping (phys s') pd (va u) = 0)"
proof -
  have v: "v < 2 ^ 19" using range by simp
  let ?i = "v div 2 ^ 18" and ?k = "v div 2 ^ 9 mod 512"
  have i: "?i \<in> user_dirs" by (rule user_dir [OF v])
  have bound: "?i * 2 ^ 18 < 2 ^ 27" "v div 2 ^ 9 * 2 ^ 9 < 2 ^ 27"
    by (rule le_less_trans [OF div_times_less_eq_dividend]; use v in simp)+
  have PD: "PDSIZE = va (2 ^ 18)" "PTSIZE = va (2 ^ 9)" by (simp_all add: PDSIZE_def PTSIZE_def PGSIZE_def va_def)
  define d1 where "d1 = va (?i * 2 ^ 18)"
  define d0 where "d0 = va (v div 2 ^ 9 * 2 ^ 9)"
  define n1 where "n1 = va ((?i + 1) * 2 ^ 18)"
  define n0 where "n0 = va ((v div 512 + 1) * 512)"
  define k where "k = v div 2 ^ 9 mod 512"
  have starts: "ROUNDDOWN (va v) PDSIZE = d1" "ROUNDDOWN (va v) PTSIZE = d0"
    unfolding PD d1_def d0_def by (rule va_round; use v in simp)+
  have idx: "PDX1 d1 = ?i" "PDX0 d0 = k"
    using indices_va [OF bound(1)] indices_va [OF bound(2)] by (simp_all add: d1_def d0_def k_def)
  have fr: "t0 \<in> pt_frames (phys s) user_dirs pd" "t1 \<in> pt_frames (phys s) user_dirs pd"
    using table_in_frames [OF _ t(1)] table_in_frames [OF _ t(2)] i by simp_all
  have ne: "t0 \<noteq> t1" using pt_wfD(3) [OF ok(2) _ _ t(1), of "Low ?i ?k"] t(2) i by auto
  have tp: "t0 \<noteq> pd" "t1 \<noteq> pd"
    using pt_wfD(3) [OF ok(2) _ _ t(1), of Top] pt_wfD(3) [OF ok(2) _ _ t(2), of Top] i by auto
  have e1: "valid_pte (phys s pd ?i)" "pte_frame (phys s pd ?i) = t0" and e0: "valid_pte (phys s t0 k)" "pte_frame (phys s t0 k) = t1"
    using t by (auto simp: child_def k_def split: if_splits)
  note fr1 = pt_wfD(1,2) [OF ok(2) fr(2)] and fr0 = pt_wfD(1,2) [OF ok(2) fr(1)]
  have ra: "room_above F t1" "room_above (insert t1 F) t0" using room by (auto simp: room_above_def)
  note f1 = free_table_ok [OF ok(1) fr1(2,1) room(2) ra(1) e0(2)]
  obtain s1 where s1: "free_pages t1 1 s = Inr s1" "pmm_frame s s1" "mem_ok s1 (insert t1 F)" "\<forall>q. unreserved s1 q = unreserved s q"
    using f1(3) by blast
  define s2 where "s2 = set_pte (t0, k) 0 s1"
  have ph1: "phys s1 = phys s" "npage s1 = npage s" using pmm_frame_phys [OF s1(2)] by auto
  have ok2: "mem_ok s2 (insert t1 F)" using s1(3) by (simp add: s2_def)
  have n2: "npage s2 = npage s" "unreserved s2 t0" using ph1 s1(4) room by (simp_all add: s2_def)
  have t0F: "t0 \<notin> insert t1 F" "t0 < npage s2" using fr0 ne n2 by auto
  note f0 = free_table_ok [OF ok2 t0F n2(2) ra(2)]
  obtain s3 where s3: "free_pages t0 1 s2 = Inr s3" "pmm_frame s2 s3" "mem_ok s3 (insert t0 (insert t1 F))"
    using f0(3) [OF e1(2)] by blast
  define s4 where "s4 = set_pte (pd, ?i) 0 s3"
  have next0: "d0 + PTSIZE = n0" unfolding PD d0_def n0_def by (simp add: va_def algebra_simps)
  have next1: "d1 + PDSIZE = n1" unfolding PD d1_def n1_def by (simp add: va_def algebra_simps)
  have stop0: "\<not> n0 < va w"
    unfolding n0_def using range next_table [OF v] by (subst va_less) auto
  have "w \<le> (?i + 1) * 2 ^ 18"
  proof -
    have "(v div 512 + 1) * 512 \<le> (v div 512 div 512 + 1) * 512 * 512" using div_mult_mod_eq [of "v div 512" 512] mod_less_divisor [of 512 "v div 512"] by simp
    then show ?thesis using range(4) by (simp flip: div_mult2_eq)
  qed
  then have stop1: "\<not> n1 < va w" unfolding n1_def using range bound(1) by (subst va_less) auto
  have level0: "exit_level0 t0 d1 (va w) d0 True s = Some (Inr (n0, True, s2))"
    using e0 f1(1,2) empty s1(1) stop0 next0
    by (subst exit_level0.simps) (simp add: Let_def idx pte_at_def s2_def)
  have free0: "pde2page s (phys s pd ?i) = Inr t0" "page2kva s t0 = Inr t0" "pde2page s2 (phys s pd ?i) = Inr t0"
    using e1(2) fr0(1) ok(1) f0(1) [OF e1(2)] by (auto simp: pde2page_def pa2page_def pte_frame_def page2kva_def mem_ok_def intro!: KADDR_page2pa)
  have loop: "exit_loop pd (va w) d1 d0 s = Some (Inr s4)"
    using e1(1) free0 level0 s3(1) stop1 next1
    by (subst exit_loop.simps) (simp add: Let_def idx pte_at_def s4_def)
  have "exit_range pd (va v) (va w) s = Inr s4"
    unfolding exit_range_def starts loop using range va_aligned [of v] va_aligned [of w] by (simp add: range_ok_def)
  moreover have "mem_ok s4 (insert t0 (insert t1 F))" using s3(3) by (simp add: s4_def)
  moreover have "mapping (phys s4) pd (va u) = 0" if u: "u < 2 ^ 27" "u div 2 ^ 18 = ?i" for u
  proof -
    have "child (phys s4) pd ?i = None" by (simp add: child_def s4_def)
    then show ?thesis using u by (simp add: mapping_va page_entry_at_def entry_def)
  qed
  ultimately show ?thesis by blast
qed

definition demo_exit :: mem where
  "demo_exit = demo_mem\<lparr>phys := (\<lambda>f i. if f = 50 \<and> i = 0 then pte_create 25 0x11 else if f = 25 \<and> i = 4 then pte_create 26 0x11
      else if f = 25 \<and> i = 8 then pte_create 27 0x11 else if f = 27 \<and> i = 0 then pte_create 20 0x17 else 0)\<rparr>"

lemma demo_exit_phys:
  "phys demo_exit = (\<lambda>f i. if f = 50 \<and> i = 0 then pte_create 25 0x11 else if f = 25 \<and> i = 4 then pte_create 26 0x11
      else if f = 25 \<and> i = 8 then pte_create 27 0x11 else if f = 27 \<and> i = 0 then pte_create 20 0x17 else 0)"
  by (simp add: demo_exit_def)

lemma demo_exit_simps: "npage demo_exit = 100" "unreserved demo_exit p"
  by (auto simp: demo_exit_def unreserved_def PageReserved_def demo_mem_pmm demo_pmm_simps PG_reserved_def)

lemma demo_exit_ok: "mem_ok demo_exit ({10..<14} \<union> {30..<38})"
  using demo_mem_ok by (simp add: mem_ok_def demo_exit_def unreserved_def PageReserved_def)

lemma demo_exit_table: "table (phys demo_exit) 50 x = (case x of Top \<Rightarrow> Some 50 | Mid i \<Rightarrow> if i = 0 then Some 25 else None
    | Low i k \<Rightarrow> if i = 0 \<and> k = 4 then Some 26 else if i = 0 \<and> k = 8 then Some 27 else None)"
proof -
  have "pte_frame (pte_create 25 0x11) = 25" "pte_frame (pte_create 26 0x11) = 26" "pte_frame (pte_create 27 0x11) = 27"
    using pte_frame_create [of 25 "0x11"] pte_frame_create [of 26 "0x11"] pte_frame_create [of 27 "0x11"] by (simp_all add: perm_ok_def)
  then show ?thesis by (cases x) (auto simp: child_def demo_exit_phys)
qed

lemma demo_exit_tableD:
  assumes "table (phys demo_exit) 50 x = Some t"
  shows "x = Top \<and> t = 50 \<or> x = Mid 0 \<and> t = 25 \<or> x = Low 0 4 \<and> t = 26 \<or> x = Low 0 8 \<and> t = 27"
  using assms unfolding demo_exit_table by (cases x) (auto split: if_splits)

lemma demo_exit_wf: "pt_wf (phys demo_exit) (npage demo_exit) ({10..<14} \<union> {30..<38}) user_dirs 50"
  by (auto simp: pt_wf_def pt_frames_def demo_exit_simps dest!: demo_exit_tableD)

theorem exit_range_drops_directory_witness:
  "valid_pte (mapping (phys demo_exit) 50 (va 0x1000)) \<and>
   (\<exists>s'. exit_range 50 (va 0x800) (va 0x802) demo_exit = Inr s' \<and> mapping (phys s') 50 (va 0x1000) = 0)"
proof -
  have "mapping (phys demo_exit) 50 (va 0x1000) = pte_create 20 0x17"
    unfolding mapping_def entry_def demo_exit_table by (simp add: indices_va demo_exit_phys)
  moreover have "USER_ACCESS (va 0x800) (va 0x802)" by (simp add: USER_ACCESS_def USERBASE_def USERTOP_def va_def)
  moreover have "table_empty demo_exit 26" by (simp add: table_empty_def list_all_iff demo_exit_phys)
  ultimately show ?thesis
    using exit_range_drops_directory [OF demo_exit_ok demo_exit_wf, of "0x800" "0x802" 25 26 37]
    by (auto simp: demo_exit_table demo_exit_simps simp del: table.simps)
qed

section \<open>Scanning a table\<close>

lemma skip_invalid_spec:
  "i \<le> skip_invalid t i k \<and> skip_invalid t i k \<le> i + k \<and> (\<forall>j. i \<le> j \<and> j < skip_invalid t i k \<longrightarrow> \<not> valid_pte (t j)) \<and>
   (skip_invalid t i k < i + k \<longrightarrow> valid_pte (t (skip_invalid t i k)))"
proof (induction t i k rule: skip_invalid.induct)
  case (2 t i k)
  show ?case
  proof (cases "valid_pte (t i)")
    case False
    moreover have "j = i \<or> i + 1 \<le> j" if "i \<le> j" for j using that by auto
    ultimately show ?thesis using "2.IH" by (simp) (metis Suc_leI le_neq_implies_less)
  qed auto
qed auto

lemma skip_same_spec:
  "i \<le> skip_same t e i k \<and> skip_same t e i k \<le> i + k \<and> (\<forall>j. i \<le> j \<and> j < skip_same t e i k \<longrightarrow> t j AND PTE_USER = e) \<and>
   (skip_same t e i k < i + k \<longrightarrow> t (skip_same t e i k) AND PTE_USER \<noteq> e)"
proof (induction t e i k rule: skip_same.induct)
  case (2 t e i k)
  show ?case
  proof (cases "t i AND PTE_USER = e")
    case True
    then show ?thesis using "2.IH" by (simp) (metis Suc_leI le_neq_implies_less)
  qed auto
qed auto

text \<open>\<open>get_pgtable_items\<close> returns the first valid entry at or after \<open>start\<close> and the longest run of entries
  with the same access bits from there, and reports that there is none exactly when every
  entry left is invalid.\<close>

theorem get_pgtable_items_spec:
  "case get_pgtable_items hi start t of
     None \<Rightarrow> \<forall>j. start \<le> j \<and> j < hi \<longrightarrow> \<not> valid_pte (t j)
   | Some (perm, l, r) \<Rightarrow> start \<le> l \<and> l < r \<and> r \<le> hi \<and> valid_pte (t l) \<and> (\<forall>j. start \<le> j \<and> j < l \<longrightarrow> \<not> valid_pte (t j)) \<and>
       (\<forall>j. l \<le> j \<and> j < r \<longrightarrow> t j AND PTE_USER = perm) \<and> (r < hi \<longrightarrow> t r AND PTE_USER \<noteq> perm)"
proof (cases "start < hi")
  case False
  then show ?thesis by (auto simp: get_pgtable_items_def)
next
  case True
  define l where "l = skip_invalid t start (hi - start)"
  note L = skip_invalid_spec [of start t "hi - start", folded l_def]
  show ?thesis
  proof (cases "l < hi")
    case False
    then show ?thesis using True L by (auto simp: get_pgtable_items_def Let_def l_def [symmetric])
  next
    case lt: True
    define r where "r = skip_same t (t l AND PTE_USER) (l + 1) (hi - (l + 1))"
    note R = skip_same_spec [of "l + 1" t "t l AND PTE_USER" "hi - (l + 1)", folded r_def]
    have run: "get_pgtable_items hi start t = Some (t l AND PTE_USER, l, r)"
      using True lt by (simp add: get_pgtable_items_def Let_def l_def [symmetric] r_def)
    have "t j AND PTE_USER = t l AND PTE_USER" if "l \<le> j" "j < r" for j
      using R that by (cases "j = l") auto
    moreover have "start \<le> l" "valid_pte (t l)" "\<forall>j. start \<le> j \<and> j < l \<longrightarrow> \<not> valid_pte (t j)" using L lt True by simp_all
    moreover have "l < r" "r \<le> hi" "r < hi \<longrightarrow> t r AND PTE_USER \<noteq> t l AND PTE_USER" using R lt by simp_all
    ultimately show ?thesis unfolding run option.case prod.case by blast
  qed
qed

definition demo_table :: "nat \<Rightarrow> 64 word" where "demo_table i = (if i = 3 \<or> i = 4 then 0x17 else 0)"

theorem get_pgtable_items_spec_witness:
  "\<exists>perm l r. get_pgtable_items 8 0 demo_table = Some (perm, l, r) \<and> l < r \<and> r \<le> 8"
proof (cases "get_pgtable_items 8 0 demo_table")
  case None
  have "valid_pte (demo_table 3)" by (simp add: PTE_V_def demo_table_def)
  then show ?thesis using get_pgtable_items_spec [where hi = 8 and start = 0 and t = demo_table] unfolding None option.case by fastforce
next
  case (Some plr)
  obtain perm l r where plr: "plr = (perm, l, r)" by (cases plr)
  show ?thesis using get_pgtable_items_spec [where hi = 8 and start = 0 and t = demo_table] unfolding Some plr option.case prod.case by blast
qed

section \<open>The free list at boot\<close>

lemma reserve_pages_frame: "pmm_frame s (reserve_pages p n s) \<and> page_links (reserve_pages p n s) = page_links s \<and>
    nr_free (reserve_pages p n s) = nr_free s"
proof (induction p n s rule: reserve_pages.induct)
  case (2 p n s)
  have "pmm_frame s (SetPageReserved p s)" by (simp add: pmm_frame_def page_ops)
  moreover have "page_links (SetPageReserved p s) = page_links s" "nr_free (SetPageReserved p s) = nr_free s" by (simp_all add: page_ops)
  ultimately show ?case using 2 by (auto intro: pmm_frame_trans)
qed simp

lemma reserve_pages_flags:
  "PageReserved (reserve_pages p n s) q \<longleftrightarrow> (p \<le> q \<and> q < p + n) \<or> PageReserved s q"
  "PageProperty (reserve_pages p n s) q = PageProperty s q"
proof (induction p n s rule: reserve_pages.induct)
  case (2 p n s)
  have "PageReserved (SetPageReserved p s) q \<longleftrightarrow> q = p \<or> PageReserved s q" "PageProperty (SetPageReserved p s) q = PageProperty s q"
    by (auto simp: page_ops bit_simps PG_reserved_def PG_property_def)
  with 2 show "PageReserved (reserve_pages p (Suc n) s) q \<longleftrightarrow> (p \<le> q \<and> q < p + Suc n) \<or> PageReserved s q"
    "PageProperty (reserve_pages p (Suc n) s) q = PageProperty s q" by auto
qed auto

lemma ROUNDDOWN_page: "ROUNDDOWN a PGSIZE = va (unat a div 4096)"
proof -
  have m: "unat (a mod PGSIZE) = unat a mod 4096" by (simp add: unat_mod_distrib PGSIZE_def)
  have "a mod PGSIZE \<le> a" unfolding word_le_nat_alt m by simp
  then have "unat (a - a mod PGSIZE) = unat a - unat a mod 4096" by (simp only: unat_sub m)
  also have "\<dots> = unat a div 4096 * 4096" by (rule minus_mod_eq_div_mult)
  also have "\<dots> = unat (va (unat a div 4096))"
    using unsigned_less [of a, where 'a = nat] by (subst unat_va) (simp_all add: less_mult_imp_div_less)
  finally show ?thesis unfolding ROUNDDOWN_def by (simp only: word_unat_eq_iff)
qed

lemma ROUNDUP_page:
  assumes "unat a + 4095 < 2 ^ 64"
  shows "ROUNDUP a PGSIZE = va ((unat a + 4095) div 4096)"
proof -
  have "a + PGSIZE - 1 = a + 4095" by (simp add: PGSIZE_def)
  moreover have "unat (a + 4095) = unat a + 4095" using assms by (subst unat_add_lem [THEN iffD1]) simp_all
  ultimately show ?thesis by (simp only: ROUNDUP_def ROUNDDOWN_page)
qed

lemma PPN_va: "v < 2 ^ 52 \<Longrightarrow> unat (PPN (va v)) = v"
  unfolding PPN_def by (subst unat_drop_bit_eq) (simp add: drop_bit_eq_div unat_va)

lemma nbase_eq: "nbase = 0x80000"
  by (simp add: nbase_def DRAM_BASE_def PGSIZE_def)

text \<open>C25: At boot, on \<open>m\<close> pages of memory at \<open>DRAM_BASE\<close>, \<open>page_init\<close> leaves free exactly the pages from the end of
  the kernel and its page descriptors to the end of memory, as one block, and the allocator
  invariant holds.\<close>

theorem page_init_frees_rest:
  assumes empty: "free_rep s []" and m: "0 < m" "m \<le> 2 ^ 20"
    and kend: "KERNBASE \<le> kernel_end" "unat kernel_end + 2 ^ 27 < 2 ^ 64"
    and b: "b = ((unat kernel_end + 4095) div 4096 * 4096 + 64 * m + 4095 - unat PHYSICAL_MEMORY_OFFSET) div 4096" "b < nbase + m"
  shows "\<exists>s'. page_init DRAM_BASE (of_nat (4096 * m)) kernel_end s = Inr s' \<and> npage s' = nbase + m \<and>
    free_rep s' [(b, nbase + m - b)] \<and> mem_ok s' {b..<nbase + m}"
proof -
  let ?P = "(unat kernel_end + 4095) div 4096"
  let ?O = "unat PHYSICAL_MEMORY_OFFSET"
  have O: "?O = 18446744070488326144" "unat KERNBASE = 18446744072637906944" "unat KERNTOP = 18446744072770027520"
    by (simp_all add: PHYSICAL_MEMORY_OFFSET_def KERNBASE_def KERNTOP_def KMEMSIZE_def)
  have N: "nbase + m < 2 ^ 32" using m nbase_eq by simp
  have Kb: "unat KERNBASE \<le> unat kernel_end" using kend(1) by (simp only: word_le_nat_alt)
  have mend: "DRAM_BASE + of_nat (4096 * m) = va (nbase + m)"
    by (simp add: va_def nbase_eq DRAM_BASE_def algebra_simps)
  have "unat (va (nbase + m)) = (nbase + m) * 4096" using N by (intro unat_va) simp
  note um = this
  have small: "\<not> KERNTOP < va (nbase + m)" unfolding word_less_nat_alt um O using N by simp
  have np: "unat (va (nbase + m) div PGSIZE) = nbase + m"
    by (simp add: unat_div_distrib um PGSIZE_def)
  have size: "(of_nat (4096 * m) :: 64 word) \<noteq> 0"
  proof -
    have "unat (of_nat (4096 * m) :: 64 word) = 4096 * m" unfolding unat_of_nat by (rule mod_less) (use m in simp)
    then show ?thesis using m by (metis mult_is_0 not_gr_zero unat_0 zero_neq_numeral)
  qed
  define s1 where "s1 = s\<lparr>npage := nbase + m\<rparr>"
  define s2 where "s2 = reserve_pages nbase m s1"
  have R: "pmm_frame s1 s2" "page_links s2 = page_links s1" "nr_free s2 = nr_free s1"
    using reserve_pages_frame [of s1 nbase m] by (simp_all add: s2_def)
  have n2: "npage s2 = nbase + m" using pmm_frame_phys [OF R(1)] by (simp add: s1_def)
  have cnt: "(of_nat (nbase + m) - of_nat nbase :: 64 word) = of_nat m" by simp
  have um': "unat (of_nat m :: 64 word) = m" unfolding unat_of_nat by (rule mod_less) (use m in simp)
  have P: "ROUNDUP kernel_end PGSIZE = va ?P" by (rule ROUNDUP_page) (use kend in simp)
  have Pb: "?P * 4096 \<le> unat kernel_end + 4095" "unat kernel_end \<le> ?P * 4096" by (simp, linarith)
  have uP: "unat (va ?P) = ?P * 4096" by (rule unat_va, rule less_mult_imp_div_less) (use kend(2) in simp)
  let ?kva = "va ?P + sizeof_Page * of_nat m"
  have "unat (sizeof_Page * of_nat m) = 64 * m"
    using m by (subst unat_mult_lem [THEN iffD1]) (simp_all add: sizeof_Page_def um')
  then have ukva: "unat ?kva = ?P * 4096 + 64 * m"
    using Pb kend(2) m uP by (subst unat_add_lem [THEN iffD1]) simp_all
  have ge: "KERNBASE \<le> ?kva" unfolding word_le_nat_alt ukva using Kb Pb by linarith
  let ?fm = "?kva - PHYSICAL_MEMORY_OFFSET"
  have padr: "PADDR ?kva = Inr ?fm" using ge by (simp add: PADDR_def)
  have "PHYSICAL_MEMORY_OFFSET \<le> ?kva" unfolding word_le_nat_alt ukva O using Kb O Pb by linarith
  then have ufm: "unat ?fm = ?P * 4096 + 64 * m - ?O" by (simp only: unat_sub ukva)
  have geO: "?O + 2149580800 \<le> ?P * 4096 + 64 * m" using Kb Pb O by linarith
  have bb: "b = (unat ?fm + 4095) div 4096"
    unfolding b(1) ufm using geO by (simp add: algebra_simps)
  have begin': "ROUNDUP ?fm PGSIZE = va b" unfolding bb by (rule ROUNDUP_page) (use ufm Pb(1) kend(2) m geO O in simp)
  have end': "ROUNDDOWN (va (nbase + m)) PGSIZE = va (nbase + m)" by (simp add: ROUNDDOWN_page um)
  have fb: "unat ?fm \<le> b * 4096" unfolding bb by linarith
  have lt: "?fm < va (nbase + m)" unfolding word_less_nat_alt um using fb b(2) by simp
  have pg: "pa2page s2 (va b) = Inr b" using b(2) N by (simp add: pa2page_def PPN_va n2)
  have count: "unat ((va (nbase + m) - va b) div PGSIZE) = nbase + m - b"
  proof -
    have ub: "unat (va b) = b * 4096" using b(2) N by (intro unat_va) simp
    then have "va b \<le> va (nbase + m)" unfolding word_le_nat_alt um using b(2) by simp
    then have "unat (va (nbase + m) - va b) = (nbase + m - b) * 4096" by (simp only: unat_sub um ub diff_mult_distrib)
    then show ?thesis by (simp add: unat_div_distrib PGSIZE_def)
  qed
  have low: "nbase \<le> b" unfolding bb ufm nbase_eq using geO by linarith
  have rep2: "free_rep s2 []"
    using empty R by (simp add: free_rep_def s1_def s2_def reserve_pages_flags) (simp add: PageProperty_def)
  have res: "\<forall>p \<in> {b..<b + (nbase + m - b)}. PageReserved s2 p" using low b(2) by (simp add: s2_def reserve_pages_flags)
  obtain s' where s': "default_init_memmap b (nbase + m - b) s2 = Inr s'" "free_rep s' [(b, nbase + m - b)]"
      "\<forall>p \<in> {b..<b + (nbase + m - b)}. \<not> PageReserved s' p \<and> page_ref s' p = 0" "pmm_frame s2 s'"
    using default_init_memmap_refines [OF rep2 _ _ res] b(2) le_less_trans [OF diff_le_self N] by auto
  have run: "page_init DRAM_BASE (of_nat (4096 * m)) kernel_end s = Inr s'"
  proof -
    have n1: "npage s1 = nbase + m" by (simp add: s1_def)
    have s2: "reserve_pages nbase (unat (of_nat (npage s1) - of_nat nbase :: 64 word)) s1 = s2" by (simp only: n1 cnt um' s2_def)
    show ?thesis
      unfolding page_init_def mend Let_def if_not_P [OF size] if_not_P [OF small] np s1_def [symmetric] s2 n2 cnt P padr
        obind_Inr if_P [OF lt] begin' end' pg count init_memmap_def s'(1) ..
  qed
  have n': "npage s' = nbase + m" using pmm_frame_phys [OF s'(4)] n2 by simp
  have "block_pages [(b, nbase + m - b)] = {b..<nbase + m}" using b(2) by simp
  then have "free_set s' {b..<nbase + m}" using s'(2) unfolding free_set_def by blast
  then have "mem_ok s' {b..<nbase + m}" using s'(3) n' N b(2) by (auto simp: mem_ok_def unreserved_def)
  then show ?thesis using run n' s'(2) by blast
qed

text \<open>A kernel that ends at its first megabyte, on 512 pages above \<open>KERNBASE\<close>'s page.\<close>

theorem page_init_frees_rest_witness:
  "\<exists>s' b. page_init DRAM_BASE (of_nat (4096 * 1024)) 0xFFFFFFFFC0300000 demo_full = Inr s' \<and> mem_ok s' {b..<nbase + 1024}"
proof -
  have "free_rep demo_full []" by (simp add: free_rep_def demo_full_def clist_init PageProperty_def)
  moreover have "KERNBASE \<le> 0xFFFFFFFFC0300000" by (simp add: KERNBASE_def)
  ultimately show ?thesis
    using page_init_frees_rest [of demo_full 1024 "0xFFFFFFFFC0300000" "0x80310"]
    by (force simp: PHYSICAL_MEMORY_OFFSET_def nbase_eq)
qed

end
