(* ===== verification/Slob.thy ===== *)
theory Slob
  imports Page_Map
begin

text \<open>
  The kernel heap, kern/mm/kmalloc.c: the SLOB allocator over pages of the page allocator, and
  \<open>kmalloc\<close> and \<open>kfree\<close> on top. A kernel address of the heap is counted in units of
  \<open>SLOB_UNIT\<close> = 16 bytes of physical address; the linear map keeps order and distance, and page
  \<open>p\<close> starts at unit \<open>256 * p\<close>. 0 is NULL.
\<close>

section \<open>Data\<close>

record slob_t =
  sl_units :: nat
  sl_next :: ptr

record bigblock_t =
  bb_order :: nat
  bb_pages :: ptr
  bb_next :: ptr

record kheap = mem +
  slobs :: "ptr \<Rightarrow> slob_t"
  slobfree :: ptr
  bbs :: "ptr \<Rightarrow> bigblock_t"
  bigblocks :: ptr

definition PAGE_SIZE :: nat where "PAGE_SIZE = 4096"
definition SLOB_UNIT :: nat where "SLOB_UNIT = 16"
definition SLOB_UNITS :: "nat \<Rightarrow> nat" where "SLOB_UNITS sz = (sz + SLOB_UNIT - 1) div SLOB_UNIT"
definition units_per_page :: nat where "units_per_page = 256"
definition sizeof_bigblock :: nat where "sizeof_bigblock = 24"

definition upd_slob :: "ptr \<Rightarrow> (slob_t \<Rightarrow> slob_t) \<Rightarrow> 'a kheap_scheme \<Rightarrow> 'a kheap_scheme" where
  "upd_slob p f s = s\<lparr>slobs := (slobs s)(p := f (slobs s p))\<rparr>"

section \<open>The SLOB layer\<close>

definition slob_get_free_pages :: "nat \<Rightarrow> 'a kheap_scheme \<Rightarrow> (ptr \<times> 'a kheap_scheme) outcome" where
  "slob_get_free_pages order s = obind (alloc_pages (2 ^ order) s) (\<lambda>(page, s1). case page of
     None \<Rightarrow> Inr (NULL, s1) | Some p \<Rightarrow> obind (page2kva s1 p) (\<lambda>k. Inr (k * units_per_page, s1)))"

definition slob_free_pages :: "ptr \<Rightarrow> nat \<Rightarrow> 'a kheap_scheme \<Rightarrow> 'a kheap_scheme outcome" where
  "slob_free_pages kva order s = obind (pa2page s (of_nat (kva * SLOB_UNIT))) (\<lambda>p. free_pages p (2 ^ order) s)"

text \<open>The search of \<open>slob_free\<close> for the block after which \<open>b\<close> belongs, round the circular list.\<close>

partial_function (option) slob_find :: "ptr \<Rightarrow> ptr \<Rightarrow> 'a kheap_scheme \<Rightarrow> ptr option" where
  "slob_find b cur s =
     (let nx = sl_next (slobs s cur) in
      if b > cur \<and> b < nx then Some cur
      else if cur \<ge> nx \<and> (b > cur \<or> b < nx) then Some cur
      else slob_find b nx s)"

definition slob_link :: "ptr \<Rightarrow> ptr \<Rightarrow> 'a kheap_scheme \<Rightarrow> 'a kheap_scheme" where
  "slob_link b cur s =
     (let nx = sl_next (slobs s cur);
          s1 = (if b + sl_units (slobs s b) = nx then
                  upd_slob b (\<lambda>x. x\<lparr>sl_units := sl_units x + sl_units (slobs s nx), sl_next := sl_next (slobs s nx)\<rparr>) s
                else upd_slob b (\<lambda>x. x\<lparr>sl_next := nx\<rparr>) s);
          s2 = (if cur + sl_units (slobs s1 cur) = b then
                  upd_slob cur (\<lambda>x. x\<lparr>sl_units := sl_units x + sl_units (slobs s1 b), sl_next := sl_next (slobs s1 b)\<rparr>) s1
                else upd_slob cur (\<lambda>x. x\<lparr>sl_next := b\<rparr>) s1)
      in s2\<lparr>slobfree := cur\<rparr>)"

definition slob_free :: "ptr \<Rightarrow> nat \<Rightarrow> 'a kheap_scheme \<Rightarrow> 'a kheap_scheme outcome" where
  "slob_free block sz s =
     (if block = NULL then Inr s
      else
        let s1 = (if sz \<noteq> 0 then upd_slob block (\<lambda>x. x\<lparr>sl_units := SLOB_UNITS sz\<rparr>) s else s);
            (fl, s2) = intr_save s1
        in obind (returns (slob_find block (slobfree s2) s2)) (\<lambda>cur. Inr (intr_restore fl (slob_link block cur s2))))"

text \<open>\<open>ALIGN(addr, size)\<close> for a power of two, on unit numbers.\<close>

definition slob_align :: "ptr \<Rightarrow> nat \<Rightarrow> ptr" where
  "slob_align cur align = (cur * SLOB_UNIT + align - 1) div align * align div SLOB_UNIT"

text \<open>The block \<open>cur\<close> is large enough: cut off its head for alignment, then its rest.\<close>

definition slob_take :: "ptr \<Rightarrow> ptr \<Rightarrow> nat \<Rightarrow> ptr \<Rightarrow> nat \<Rightarrow> 'a kheap_scheme \<Rightarrow> ptr \<times> 'a kheap_scheme" where
  "slob_take prev cur units aligned delta s =
     (let (prev, cur, s) = (if delta \<noteq> 0 then
            let s1 = upd_slob aligned (\<lambda>x. x\<lparr>sl_units := sl_units (slobs s cur) - delta, sl_next := sl_next (slobs s cur)\<rparr>) s;
                s2 = upd_slob cur (\<lambda>x. x\<lparr>sl_next := aligned, sl_units := delta\<rparr>) s1
            in (cur, aligned, s2) else (prev, cur, s));
          s = (if sl_units (slobs s cur) = units then upd_slob prev (\<lambda>x. x\<lparr>sl_next := sl_next (slobs s cur)\<rparr>) s
               else
                 let s1 = upd_slob prev (\<lambda>x. x\<lparr>sl_next := cur + units\<rparr>) s;
                     s2 = upd_slob (cur + units) (\<lambda>x. x\<lparr>sl_units := sl_units (slobs s1 cur) - units, sl_next := sl_next (slobs s1 cur)\<rparr>) s1
                 in upd_slob cur (\<lambda>x. x\<lparr>sl_units := units\<rparr>) s2)
      in (cur, s\<lparr>slobfree := prev\<rparr>))"

partial_function (option) slob_scan ::
    "nat \<Rightarrow> nat \<Rightarrow> nat \<Rightarrow> ptr \<Rightarrow> ptr \<Rightarrow> bool \<Rightarrow> 'a kheap_scheme \<Rightarrow> (ptr \<times> 'a kheap_scheme) outcome option" where
  "slob_scan sz units align prev cur fl s =
     (let aligned = (if align \<noteq> 0 then slob_align cur align else 0);
          delta = (if align \<noteq> 0 then aligned - cur else 0)
      in if sl_units (slobs s cur) \<ge> units + delta then
           let (r, s1) = slob_take prev cur units aligned delta s in Some (Inr (r, intr_restore fl s1))
         else if cur = slobfree s then
           let s1 = intr_restore fl s in
           if sz = PAGE_SIZE then Some (Inr (NULL, s1))
           else loop_bind (slob_get_free_pages 0 s1) (\<lambda>(page, s2).
             if page = NULL then Some (Inr (NULL, s2))
             else loop_bind (slob_free page PAGE_SIZE s2) (\<lambda>s3.
               slob_scan sz units align (slobfree (snd (intr_save s3)))
                 (sl_next (slobs (snd (intr_save s3)) (slobfree (snd (intr_save s3)))))
                 (fst (intr_save s3)) (snd (intr_save s3))))
         else slob_scan sz units align cur (sl_next (slobs s cur)) fl s)"

declare slob_find.simps [code] slob_scan.simps [code]

definition slob_alloc :: "nat \<Rightarrow> nat \<Rightarrow> 'a kheap_scheme \<Rightarrow> (ptr \<times> 'a kheap_scheme) outcome" where
  "slob_alloc sz align s = kassert (sz + SLOB_UNIT < PAGE_SIZE) ''(size + SLOB_UNIT) < PAGE_SIZE''
     (let (fl, s1) = intr_save s in
      finish (slob_scan sz (SLOB_UNITS sz) align (slobfree s1) (sl_next (slobs s1 (slobfree s1))) fl s1))"

section \<open>kmalloc and kfree\<close>

text \<open>\<open>find_order\<close>: the size passed on to a C \<open>int\<close>, shifted right until it is at most 4096.\<close>

function find_order :: "int \<Rightarrow> nat" where
  "find_order sz = (if sz > 4096 then find_order (sz div 2) + 1 else 0)"
  by auto
termination by (relation "measure nat") auto

declare find_order.simps [simp del]

definition kmalloc :: "nat \<Rightarrow> 'a kheap_scheme \<Rightarrow> (ptr \<times> 'a kheap_scheme) outcome" where
  "kmalloc sz s =
     (if sz < PAGE_SIZE - SLOB_UNIT then
        obind (slob_alloc (sz + SLOB_UNIT) 0 s) (\<lambda>(m, s1). Inr (if m \<noteq> NULL then m + 1 else NULL, s1))
      else
        obind (slob_alloc sizeof_bigblock 0 s) (\<lambda>(bb, s1).
        if bb = NULL then Inr (NULL, s1)
        else
          let order = find_order (sint (of_nat sz :: 32 word)) in
          obind (slob_get_free_pages order s1) (\<lambda>(p, s2).
          let s3 = s2\<lparr>bbs := (bbs s2)(bb := (bbs s2 bb)\<lparr>bb_order := order, bb_pages := p\<rparr>)\<rparr> in
          if p \<noteq> NULL then
            let (fl, s4) = intr_save s3;
                s5 = s4\<lparr>bbs := (bbs s4)(bb := (bbs s4 bb)\<lparr>bb_next := bigblocks s4\<rparr>), bigblocks := bb\<rparr>
            in Inr (p, intr_restore fl s5)
          else obind (slob_free bb sizeof_bigblock s3) (\<lambda>s4. Inr (NULL, s4)))))"

text \<open>
  The search of the big-block list by \<open>kfree\<close> and \<open>ksize\<close>: \<open>last\<close> is \<open>None\<close> for \<open>&bigblocks\<close>, \<open>Some b\<close> for
  \<open>&b->next\<close>; the result is \<open>last\<close> and the block found.
\<close>

partial_function (option) find_big :: "ptr \<Rightarrow> ptr option \<Rightarrow> ptr \<Rightarrow> 'a kheap_scheme \<Rightarrow> (ptr option \<times> ptr) option option" where
  "find_big block lst bb s =
     (if bb = NULL then Some None
      else if bb_pages (bbs s bb) = block then Some (Some (lst, bb))
      else find_big block (Some bb) (bb_next (bbs s bb)) s)"

declare find_big.simps [code]

definition set_big_link :: "ptr option \<Rightarrow> ptr \<Rightarrow> 'a kheap_scheme \<Rightarrow> 'a kheap_scheme" where
  "set_big_link lst p s = (case lst of None \<Rightarrow> s\<lparr>bigblocks := p\<rparr>
     | Some b \<Rightarrow> s\<lparr>bbs := (bbs s)(b := (bbs s b)\<lparr>bb_next := p\<rparr>)\<rparr>)"

definition kfree :: "ptr \<Rightarrow> 'a kheap_scheme \<Rightarrow> 'a kheap_scheme outcome" where
  "kfree block s =
     (if block = NULL then Inr s
      else if block mod units_per_page = 0 then
        let (fl, s1) = intr_save s in
        obind (returns (find_big block None (bigblocks s1) s1)) (\<lambda>found. case found of
          Some (lst, bb) \<Rightarrow>
            let s2 = intr_restore fl (set_big_link lst (bb_next (bbs s1 bb)) s1) in
            obind (slob_free_pages block (bb_order (bbs s2 bb)) s2) (\<lambda>s3. slob_free bb sizeof_bigblock s3)
        | None \<Rightarrow> slob_free (block - 1) 0 (intr_restore fl s1))
      else slob_free (block - 1) 0 s)"

definition ksize :: "ptr \<Rightarrow> 'a kheap_scheme \<Rightarrow> (nat \<times> 'a kheap_scheme) outcome" where
  "ksize block s =
     (if block = NULL then Inr (0, s)
      else if block mod units_per_page = 0 then
        let (fl, s1) = intr_save s in
        obind (returns (find_big block None (bigblocks s1) s1)) (\<lambda>found. case found of
          Some (lst, bb) \<Rightarrow> Inr (PAGE_SIZE * 2 ^ bb_order (bbs s1 bb), intr_restore fl s1)
        | None \<Rightarrow> Inr (sl_units (slobs s1 (block - 1)) * SLOB_UNIT, intr_restore fl s1))
      else Inr (sl_units (slobs s (block - 1)) * SLOB_UNIT, s))"

section \<open>Fields\<close>

lemma intr_kheap [simp]:
  "slobs (snd (intr_save s)) = slobs s" "slobfree (snd (intr_save s)) = slobfree s"
  "bbs (snd (intr_save s)) = bbs s" "bigblocks (snd (intr_save s)) = bigblocks s"
  "slobs (intr_restore f s) = slobs s" "slobfree (intr_restore f s) = slobfree s"
  "bbs (intr_restore f s) = bbs s" "bigblocks (intr_restore f s) = bigblocks s"
  "kheap.more (snd (intr_save s)) = kheap.more s" "kheap.more (intr_restore f s) = kheap.more s"
  by (simp_all add: intr_save_def intr_disable_def intr_restore_def intr_enable_def)

lemma upd_slob_fields [simp]:
  "slobs (upd_slob p f s) = (slobs s)(p := f (slobs s p))" "slobfree (upd_slob p f s) = slobfree s"
  "bbs (upd_slob p f s) = bbs s" "bigblocks (upd_slob p f s) = bigblocks s"
  by (simp_all add: upd_slob_def)

text \<open>The free list is a ring in address order; the statically allocated \<open>arena\<close> is its lowest block.\<close>

fun chain :: "(ptr \<Rightarrow> ptr) \<Rightarrow> ptr list \<Rightarrow> bool" where
  "chain f (x # y # zs) \<longleftrightarrow> f x = y \<and> chain f (y # zs)"
| "chain f _ = True"

lemma chain_append: "chain f (xs @ y # zs) \<longleftrightarrow> chain f (xs @ [y]) \<and> chain f (y # zs)"
  by (induction f xs rule: chain.induct) auto

lemma chain_Cons: "zs \<noteq> [] \<Longrightarrow> chain f (x # zs) \<longleftrightarrow> f x = hd zs \<and> chain f zs"
  by (cases zs) auto

lemma chain_cong: "(\<And>x. x \<in> set (butlast xs) \<Longrightarrow> f x = g x) \<Longrightarrow> chain f xs = chain g xs"
  by (induction f xs rule: chain.induct) auto

abbreviation snext :: "'a kheap_scheme \<Rightarrow> ptr \<Rightarrow> ptr" where "snext s \<equiv> \<lambda>p. sl_next (slobs s p)"

definition slob_rep :: "'a kheap_scheme \<Rightarrow> ptr \<Rightarrow> blocks \<Rightarrow> bool" where
  "slob_rep s A bs \<longleftrightarrow> bs \<noteq> [] \<and> hd bs = (A, 1) \<and> separated bs \<and> (\<forall>(b, l) \<in> set bs. sl_units (slobs s b) = l) \<and>
     chain (snext s) (map fst bs @ [A]) \<and> slobfree s \<in> fst ` set bs"

lemma slob_repD:
  assumes "slob_rep s A bs"
  shows "bs \<noteq> []" "hd bs = (A, 1)" "separated bs" "(b, l) \<in> set bs \<Longrightarrow> sl_units (slobs s b) = l"
    "chain (snext s) (map fst bs @ [A])" "slobfree s \<in> fst ` set bs"
  using assms unfolding slob_rep_def by auto

lemma separated_order: "separated (xs @ (b, l) # ys) \<Longrightarrow> (\<forall>(c, k) \<in> set xs. c + k < b) \<and> (\<forall>(c, k) \<in> set ys. b + l < c)"
  by (auto simp: separated_append)

lemma slob_next:
  assumes "slob_rep s A (xs @ (b, l) # ys)"
  shows "snext s b = (case ys of [] \<Rightarrow> A | (c, k) # _ \<Rightarrow> c)"
  using slob_repD(5) [OF assms] chain_append [of "snext s" "map fst xs" b "map fst ys @ [A]"] by (cases ys) auto

lemma slob_first:
  assumes "slob_rep s A bs" "(b, l) \<in> set bs" shows "A \<le> b"
proof (cases bs)
  case (Cons x xs)
  then have "x = (A, 1)" "\<forall>(c, k) \<in> set xs. A + 1 < c" using slob_repD(2,3) [OF assms(1)] by (auto simp: case_prod_beta)
  then show ?thesis using assms(2) Cons by auto
qed (use assms in simp)

section \<open>The search of \<open>slob_free\<close>\<close>

lemma slob_find_here:
  assumes rep: "slob_rep s A (xs @ (c, l) # ys)" and b: "c < b" "\<forall>(d, k) \<in> set ys. b < d"
  shows "slob_find b c s = Some c"
proof (cases ys)
  case Nil
  have "A \<le> c" using slob_first [OF rep] by auto
  then show ?thesis using slob_next [OF rep] Nil b by (subst slob_find.simps) (auto simp: Let_def)
next
  case (Cons y ys')
  then show ?thesis using slob_next [OF rep] b by (subst slob_find.simps) (auto simp: Let_def split: prod.splits)
qed

lemma slob_find_forward:
  assumes "slob_rep s A (us @ (d, m) # vs @ (c, l) # ys)" "c < b" "\<forall>(d, k) \<in> set ys. b < d"
  shows "slob_find b d s = Some c"
  using assms
proof (induction vs arbitrary: us d m)
  case Nil
  have "slob_find b c s = Some c" using slob_find_here [of s A "us @ [(d, m)]" c l ys b] Nil by simp
  moreover have "snext s d = c" using slob_next [OF Nil(1)] by simp
  moreover have "d < c" using separated_order [OF slob_repD(3) [OF Nil(1)]] by auto
  ultimately show ?case using Nil(2) by (subst slob_find.simps) (simp add: Let_def)
next
  case (Cons v vs)
  obtain e k where v: "v = (e, k)" by (cases v)
  have IH: "slob_find b e s = Some c" using Cons.IH [of "us @ [(d, m)]" e k] Cons.prems v by simp
  have nx: "snext s d = e" using slob_next [OF Cons.prems(1)] v by simp
  have "d < e" using separated_order [OF slob_repD(3) [OF Cons.prems(1)]] v by auto
  moreover have "e < c"
    using separated_order [of "us @ (d, m) # v # vs" c l ys] slob_repD(3) [OF Cons.prems(1)] v by auto
  ultimately show ?case using IH nx Cons.prems(2) by (subst slob_find.simps) (simp add: Let_def)
qed

lemma slob_find_backward:
  assumes "slob_rep s A (xs @ (c, l) # us @ (d, m) # vs)" "c < b" "\<forall>(e, k) \<in> set (us @ (d, m) # vs). b < e"
  shows "slob_find b d s = Some c"
  using assms
proof (induction vs arbitrary: us d m)
  case Nil
  have A: "A \<le> c" using slob_first [OF Nil(1)] by auto
  have nx: "snext s d = A" using slob_next [of s A "xs @ (c, l) # us" d m "[]"] Nil(1) by simp
  have "slob_find b A s = Some c"
  proof (cases xs)
    case Nil': Nil
    then have "c = A" using slob_repD(2) [OF Nil(1)] by simp
    then show ?thesis using slob_find_here [of s A "[]" c l "us @ [(d, m)]" b] Nil Nil' by simp
  next
    case (Cons x xs')
    then have "x = (A, 1)" using slob_repD(2) [OF Nil(1)] by simp
    then show ?thesis using slob_find_forward [of s A "[]" A 1 xs' c l "us @ [(d, m)]" b] Nil Cons by simp
  qed
  then show ?case using nx A Nil(2,3) by (subst slob_find.simps) (simp add: Let_def)
next
  case (Cons v vs)
  obtain e k where v: "v = (e, k)" by (cases v)
  have IH: "slob_find b e s = Some c" using Cons.IH [of "us @ [(d, m)]" e k] Cons.prems v by simp
  have nx: "snext s d = e" using slob_next [of s A "xs @ (c, l) # us" d m "v # vs"] Cons.prems(1) v by simp
  have "d < e" using separated_order [of "xs @ (c, l) # us" d m "v # vs"] slob_repD(3) [OF Cons.prems(1)] v by simp
  then show ?case using IH nx Cons.prems(3) by (subst slob_find.simps) (simp add: Let_def)
qed

lemma slob_find_ok:
  assumes rep: "slob_rep s A (xs @ (c, l) # ys)" and b: "c < b" "\<forall>(d, k) \<in> set ys. b < d"
    and start: "p \<in> fst ` set (xs @ (c, l) # ys)"
  shows "slob_find b p s = Some c"
proof -
  consider "p = c" | m where "(p, m) \<in> set xs" | m where "(p, m) \<in> set ys" using start by auto
  then show ?thesis
  proof cases
    case 1
    then show ?thesis using slob_find_here [OF rep b] by simp
  next
    case 2
    then obtain us vs where "xs = us @ (p, m) # vs" by (meson split_list)
    then show ?thesis using slob_find_forward [of s A us p m vs c l ys b] rep b by simp
  next
    case 3
    then obtain us vs where "ys = us @ (p, m) # vs" by (meson split_list)
    then show ?thesis using slob_find_backward [of s A xs c l us p m vs b] rep b by simp
  qed
qed

section \<open>Linking a block back\<close>

text \<open>Everything outside the list heads involved keeps its header.\<close>

lemma ring_replace:
  assumes c: "chain f (map fst (xs @ (c, l) # ys) @ [A])" and d: "distinct (map fst (xs @ (c, l) # ys))"
    and A: "hd (xs @ (c, l) # ys) = (A, a)" and b: "b \<notin> fst ` set (xs @ (c, l) # ys)"
  shows "chain (f(b := f c, c := b)) (map fst (xs @ (c, l) # (b, k) # ys) @ [A])"
proof -
  let ?g = "f(b := f c, c := b)"
  have old: "chain f (map fst xs @ [c])" "chain f (c # map fst ys @ [A])"
    using c chain_append [of f "map fst xs" c "map fst ys @ [A]"] by simp_all
  have ne: "x \<noteq> c \<and> x \<noteq> b" if "x \<in> fst ` set xs" for x using that d b by auto
  have xs: "chain ?g (map fst xs @ [c])" using old(1) ne by (subst chain_cong [where g = f]) auto
  have ney: "x \<noteq> c \<and> x \<noteq> b" if "x \<in> fst ` set ys" for x using that d b by auto
  have oy: "chain f (map fst ys @ [A])" using old(2) by (cases ys) auto
  have ys: "chain ?g (map fst ys @ [A])" using oy ney by (subst chain_cong [where g = f]) auto
  have "f c = hd (map fst ys @ [A])" using old(2) by (cases ys) auto
  moreover have "c \<noteq> b" using b by auto
  ultimately have "chain ?g (c # b # map fst ys @ [A])" using ys by (simp add: chain_Cons)
  then show ?thesis using xs chain_append [of ?g "map fst xs" c "b # map fst ys @ [A]"] by simp
qed

lemma ring_skip:
  assumes c: "chain f (map fst (xs @ (c, l) # (d, m) # ys) @ [A])" and d: "distinct (map fst (xs @ (c, l) # (d, m) # ys))"
  shows "chain (f(c := f d)) (map fst (xs @ (c, k) # ys) @ [A])"
proof -
  let ?g = "f(c := f d)"
  have old: "chain f (map fst xs @ [c])" "chain f (c # d # map fst ys @ [A])"
    using c chain_append [of f "map fst xs" c "d # map fst ys @ [A]"] by simp_all
  have ne: "x \<noteq> c" if "x \<in> fst ` set xs" for x using that d by auto
  have xs: "chain ?g (map fst xs @ [c])" using old(1) ne by (subst chain_cong [where g = f]) auto
  have ney: "x \<noteq> c" if "x \<in> fst ` set ys" for x using that d by auto
  have oy: "chain f (map fst ys @ [A])" using old(2) by (cases ys) auto
  have ys: "chain ?g (map fst ys @ [A])" using oy ney by (subst chain_cong [where g = f]) auto
  have "f d = hd (map fst ys @ [A])" using old(2) by (cases ys) auto
  then have "chain ?g (c # map fst ys @ [A])" using ys by (simp add: chain_Cons)
  then show ?thesis using xs chain_append [of ?g "map fst xs" c "map fst ys @ [A]"] by simp
qed

lemma put_block_at:
  assumes "separated (xs @ (c, l) # ys)" "c + l \<le> b" "\<forall>(d, k) \<in> set ys. b < d"
  shows "put_block b n (xs @ (c, l) # ys) = xs @ (if c + l = b then join_after (c, l + n) ys else (c, l) # join_after (b, n) ys)"
  using assms
proof (induction xs rule: separated.induct)
  case 1
  then show ?case by (cases ys rule: separated.cases) auto
next
  case (2 d m xs)
  have "d + m < c" using separated_order [of "(d, m) # xs" c l ys] "2.prems"(1) by simp
  moreover have "put_block b n (xs @ (c, l) # ys) = xs @ (if c + l = b then join_after (c, l + n) ys else (c, l) # join_after (b, n) ys)"
    using 2 by simp
  ultimately show ?case using "2.prems"(2) by auto
qed

text \<open>Joining a block of \<open>l + n\<close> at \<open>c\<close> is joining one of \<open>n\<close> at \<open>c + l\<close>.\<close>

lemma join_after_shift:
  assumes "c + l = b" "join_after (b, n) ys = (b, m) # ws"
  shows "join_after (c, l + n) ys = (c, l + m) # ws"
  using assms by (cases ys rule: separated.cases) (auto split: if_splits)

lemma slob_link_ok:
  assumes rep: "slob_rep s A (xs @ (c, l) # ys)" and b: "c + l \<le> b" "\<forall>(d, k) \<in> set ys. b + n \<le> d" "0 < n" "sl_units (slobs s b) = n"
    and A: "A + 1 < b"
  shows "slob_rep (slob_link b c s) A (put_block b n (xs @ (c, l) # ys))"
    "\<And>p. p \<noteq> b \<Longrightarrow> p \<notin> fst ` set (xs @ (c, l) # ys) \<Longrightarrow> slobs (slob_link b c s) p = slobs s p"
proof -
  note D = slob_repD [OF rep]
  let ?bs = "xs @ (c, l) # ys"
  note ord = separated_order [OF D(3)]
  have above: "\<forall>(d, k) \<in> set ys. b < d" using b(2,3) by auto
  have bnew: "b \<notin> fst ` set ?bs" using ord above b(1) separated_pos [OF D(3), of c l] by fastforce
  have dist: "distinct (map fst ?bs)" by (rule separated_distinct [OF D(3)])
  have disj: "{b..<b + n} \<inter> block_pages ?bs = {}"
    using ord b(1,2) by (fastforce simp: block_pages_def)
  note put = put_block_pages [OF D(3) b(3) disj]
  have pb: "put_block b n ?bs = xs @ (if c + l = b then join_after (c, l + n) ys else (c, l) # join_after (b, n) ys)"
    by (rule put_block_at [OF D(3) b(1) above])
  define s' where "s' = slob_link b c s"
  have AA: "hd ?bs = (A, 1)" by (rule D(2))
  define f1 where "f1 = (snext s)(b := snext s c, c := b)"
  have r1: "chain f1 (map fst (xs @ (c, l) # (b, n) # ys) @ [A])" unfolding f1_def by (rule ring_replace [OF D(5) dist AA bnew])
  have d1: "distinct (map fst (xs @ (c, l) # (b, n) # ys))" using dist bnew by auto
  have cu: "sl_units (slobs s c) = l" using D(4) by simp
  have nx: "snext s c = (case ys of [] \<Rightarrow> A | (d, k) # _ \<Rightarrow> d)" by (rule slob_next [OF rep])
  have cb: "c \<noteq> b" using bnew by auto
  have "\<exists>m ws. join_after (b, n) ys = (b, m) # ws \<and> set ws \<subseteq> set ys \<and> (\<exists>g. chain g (map fst (xs @ (c, l) # (b, m) # ws) @ [A]) \<and>
      g c = b \<and> (\<forall>p. sl_units (slobs s' p) = (if p = b then m else if p = c \<and> c + l = b then l + m else sl_units (slobs s p))) \<and>
      snext s' = (if c + l = b then g(c := g b) else g))"
  proof (cases "\<exists>d k ys'. ys = (d, k) # ys' \<and> b + n = d")
    case True
    then obtain d k ys' where y: "ys = (d, k) # ys'" "b + n = d" by blast
    have ne: "d \<noteq> b" "d \<noteq> c" using y b(3) dist by auto
    have du: "sl_units (slobs s d) = k" using D(4) y by simp
    have nd: "snext s c = d" using nx y by simp
    let ?g = "f1(b := f1 d)"
    have "chain ?g (map fst (xs @ (c, l) # (b, n + k) # ys') @ [A])"
      using ring_skip [of f1 "xs @ [(c, l)]" b n d k ys' A "n + k"] r1 d1 y(1) by simp
    moreover have "join_after (b, n) ys = (b, n + k) # ys'" using y by simp
    moreover have "sl_units (slobs s' p) = (if p = b then n + k else if p = c \<and> c + l = b then l + (n + k) else sl_units (slobs s p))" for p
      using y nd du cu cb ne b(4) by (auto simp: s'_def slob_link_def Let_def)
    moreover have "snext s' = (if c + l = b then ?g(c := ?g b) else ?g)"
      using y nd du cu cb ne b(4) by (auto simp: s'_def slob_link_def Let_def f1_def fun_eq_iff)
    moreover have "?g c = b" using cb by (simp add: f1_def)
    ultimately show ?thesis using y(1) by (intro exI [of _ "n + k"] exI [of _ ys']) auto
  next
    case False
    have nn: "b + n \<noteq> snext s c" using False nx A by (cases ys) auto
    have "join_after (b, n) ys = (b, n) # ys" using False by (cases ys) auto
    moreover have "sl_units (slobs s' p) = (if p = b then n else if p = c \<and> c + l = b then l + n else sl_units (slobs s p))" for p
      using nn cu cb b(4) by (auto simp: s'_def slob_link_def Let_def)
    moreover have "snext s' = (if c + l = b then f1(c := f1 b) else f1)"
      using nn cu cb b(4) by (auto simp: s'_def slob_link_def Let_def f1_def fun_eq_iff)
    moreover have "f1 c = b" by (simp add: f1_def)
    ultimately show ?thesis using r1 by (intro exI [of _ n] exI [of _ ys] conjI exI [of _ f1]) auto
  qed
  then obtain m ws g where j: "join_after (b, n) ys = (b, m) # ws" "set ws \<subseteq> set ys"
      "chain g (map fst (xs @ (c, l) # (b, m) # ws) @ [A])" "g c = b"
      "\<forall>p. sl_units (slobs s' p) = (if p = b then m else if p = c \<and> c + l = b then l + m else sl_units (slobs s p))"
      "snext s' = (if c + l = b then g(c := g b) else g)"
    by blast
  have dj: "distinct (map fst (xs @ (c, l) # (b, m) # ws))"
  proof (cases "c + l = b")
    case False
    then show ?thesis using separated_distinct [OF put [THEN conjunct1]] pb j(1) by simp
  next
    case True
    have sp: "separated ((b, m) # ws)"
      using join_after_pages(1) [of ys n b] D(3) separated_append [of "xs @ [(c, l)]" ys] b(2,3) j(1) by auto
    have W: "fst ` set ws \<subseteq> fst ` set ys" using j(2) by (rule image_mono)
    have ds: "distinct (map fst xs)" "c \<notin> fst ` set xs" "c \<notin> fst ` set ys" "fst ` set xs \<inter> fst ` set ys = {}"
      "b \<notin> fst ` set xs" using dist bnew by auto
    have "c \<notin> fst ` set ws" "fst ` set xs \<inter> fst ` set ws = {}" using W ds(3,4) by blast+
    moreover have "distinct (map fst ((b, m) # ws))" by (rule separated_distinct [OF sp])
    ultimately show ?thesis using ds(1,2,5) cb by simp
  qed
  have units: "\<forall>(d, k) \<in> set (put_block b n ?bs). sl_units (slobs s' d) = k"
  proof (rule ballI, clarify)
    fix d k assume "(d, k) \<in> set (put_block b n ?bs)"
    then have "(d, k) \<in> set xs \<or> (d, k) \<in> set ws \<or> (if c + l = b then (d, k) = (c, l + m) else (d, k) = (c, l) \<or> (d, k) = (b, m))"
      unfolding pb using j(1) join_after_shift [OF _ j(1), of c l] by (auto split: if_splits)
    moreover have "sl_units (slobs s' d) = k" if "(d, k) \<in> set xs \<union> set ws"
    proof -
      have "(d, k) \<in> set ?bs" using that j(2) by auto
      moreover have "d \<in> fst ` (set xs \<union> set ws)" using that by (metis fst_conv imageI)
      moreover have "b \<notin> fst ` (set xs \<union> set ws)" "c \<notin> fst ` (set xs \<union> set ws)" using dj by (auto simp: image_Un)
      ultimately have "d \<noteq> b" "d \<noteq> c" "(d, k) \<in> set ?bs" by metis+
      then show ?thesis using j(5) D(4) by simp
    qed
    ultimately show "sl_units (slobs s' d) = k" using j(5) cb cu by (auto split: if_splits)
  qed
  have ring: "chain (snext s') (map fst (put_block b n ?bs) @ [A])"
  proof (cases "c + l = b")
    case True
    then show ?thesis using ring_skip [OF j(3) dj, of "l + m"] j(6) join_after_shift [OF _ j(1), of c l] j(1) by (simp add: pb)
  next
    case False
    then show ?thesis using j(1,3,6) by (simp add: pb)
  qed
  have first: "hd (put_block b n ?bs) = (A, 1)"
  proof (cases xs)
    case Nil
    then have "(c, l) = (A, 1)" using D(2) by simp
    then show ?thesis unfolding pb using A Nil by simp
  next
    case (Cons x xs')
    then show ?thesis unfolding pb using D(2) Cons by simp
  qed
  have "slobfree s' = c" by (simp add: s'_def slob_link_def Let_def)
  moreover have "c \<in> fst ` set (put_block b n ?bs)" unfolding pb using j(1) join_after_shift [OF _ j(1), of c l] by force
  ultimately show "slob_rep (slob_link b c s) A (put_block b n ?bs)"
    using put first units ring unfolding slob_rep_def s'_def [symmetric] by (auto simp: pb)
  show "\<And>p. p \<noteq> b \<Longrightarrow> p \<notin> fst ` set ?bs \<Longrightarrow> slobs (slob_link b c s) p = slobs s p"
    by (auto simp: slob_link_def Let_def)
qed

end
