(* ===== verification/Slob_Alloc.thy ===== *)
theory Slob_Alloc
  imports Slob
begin

text \<open>
  The SLOB layer refines a set of blocks: \<open>slob_free\<close> puts a block back (\<open>put_block\<close>), \<open>slob_alloc\<close>
  takes the head of a block that is large enough, and asks the page allocator for one more page
  exactly when none is. Interface \<open>object_heap\<close>: what the clients of \<open>kmalloc\<close> rely on.
\<close>

section \<open>What the heap operations may change\<close>

definition heap_frame :: "'a kheap_scheme \<Rightarrow> 'a kheap_scheme \<Rightarrow> bool" where
  "heap_frame s s' \<longleftrightarrow> s' = s\<lparr>pages := pages s', page_links := page_links s', nr_free := nr_free s',
     slobs := slobs s', slobfree := slobfree s', bbs := bbs s', bigblocks := bigblocks s'\<rparr>"

lemma heap_frameI: "s' = s\<lparr>pages := p, page_links := l, nr_free := n, slobs := t, slobfree := q, bbs := u, bigblocks := v\<rparr> \<Longrightarrow> heap_frame s s'"
  by (simp add: heap_frame_def)

lemma heap_frame_refl [simp]: "heap_frame s s"
  by (simp add: heap_frame_def)

lemma heap_frame_trans: "heap_frame s t \<Longrightarrow> heap_frame t u \<Longrightarrow> heap_frame s u"
  unfolding heap_frame_def by (elim ssubst) simp

lemma heap_frame_pmm: "pmm_frame s s' \<Longrightarrow> heap_frame s s'"
  unfolding pmm_frame_def heap_frame_def by (cases s; cases s'; simp)

lemma heap_frame_fields:
  assumes "heap_frame s s'"
  shows "procs s' = procs s" "run_links s' = run_links s" "run_pool s' = run_pool s" "runq s' = runq s"
    "current s' = current s" "idleproc s' = idleproc s" "sstatus s' = sstatus s" "satp s' = satp s"
    "regs s' = regs s" "npage s' = npage s" "phys s' = phys s" "kheap.more s' = kheap.more s"
  using assms unfolding heap_frame_def by (cases s; cases s'; simp)+

lemma heap_frame_intr:
  assumes "intr_save s = (f, s1)" "heap_frame s1 s2"
  shows "heap_frame s (intr_restore f s2)"
proof -
  have st: "sstatus (intr_restore f s2) = sstatus s"
    by (rule intr_save_restore [OF assms(1) heap_frame_fields(7) [OF assms(2)]])
  obtain p l n t q u v where s2: "s2 = s1\<lparr>pages := p, page_links := l, nr_free := n, slobs := t, slobfree := q, bbs := u, bigblocks := v\<rparr>"
    using assms(2) unfolding heap_frame_def by blast
  obtain a where s1: "s1 = s\<lparr>sstatus := a\<rparr>"
    using assms(1) by (cases s) (auto simp: intr_save_def intr_disable_def split: if_splits)
  obtain b where r: "intr_restore f s2 = s2\<lparr>sstatus := b\<rparr>"
    by (rule intr_restore_status)
  have "b = sstatus s" using st r by simp
  then have "intr_restore f s2 = s\<lparr>pages := p, page_links := l, nr_free := n, slobs := t, slobfree := q, bbs := u, bigblocks := v\<rparr>"
    by (subst r, subst s2, subst s1) (cases s, simp)
  then show ?thesis by (rule heap_frameI)
qed

lemma heap_frame_slob: "heap_frame s (upd_slob p f s)" "heap_frame s (s\<lparr>slobfree := q\<rparr>)" "heap_frame s (s\<lparr>slobs := t\<rparr>)"
  by (simp_all add: heap_frame_def upd_slob_def)

lemma upd_slob_pages [simp]:
  "pages (upd_slob p f s) = pages s" "page_links (upd_slob p f s) = page_links s" "nr_free (upd_slob p f s) = nr_free s"
  by (simp_all add: upd_slob_def)

lemma intr_links [simp]:
  "page_links (snd (intr_save s)) = page_links s" "page_links (intr_restore f s) = page_links s"
  "nr_free (snd (intr_save s)) = nr_free s" "nr_free (intr_restore f s) = nr_free s"
  by (simp_all add: intr_save_def intr_disable_def intr_restore_def intr_enable_def)

text \<open>The SLOB layer itself changes neither the list of big blocks nor the state of the page allocator.\<close>

definition slob_only :: "'a kheap_scheme \<Rightarrow> 'a kheap_scheme \<Rightarrow> bool" where
  "slob_only s s' \<longleftrightarrow> bbs s' = bbs s \<and> bigblocks s' = bigblocks s \<and> pages s' = pages s \<and> page_links s' = page_links s \<and> nr_free s' = nr_free s"

lemma slob_only_refl [simp]: "slob_only s s"
  by (simp add: slob_only_def)

lemma slob_only_trans: "slob_only s t \<Longrightarrow> slob_only t u \<Longrightarrow> slob_only s u"
  by (simp add: slob_only_def)

lemma slob_only_upd: "slob_only s (upd_slob p f s)" "slob_only s (s\<lparr>slobfree := q\<rparr>)"
  "slob_only s (snd (intr_save s))" "slob_only s (intr_restore g s)"
  by (simp_all add: slob_only_def)

lemma slob_link_frame: "heap_frame s (slob_link b c s)" "slob_only s (slob_link b c s)"
proof -
  let ?nx = "sl_next (slobs s c)"
  define s1 where "s1 = (if b + sl_units (slobs s b) = ?nx then
                  upd_slob b (\<lambda>x. x\<lparr>sl_units := sl_units x + sl_units (slobs s ?nx), sl_next := sl_next (slobs s ?nx)\<rparr>) s
                else upd_slob b (\<lambda>x. x\<lparr>sl_next := ?nx\<rparr>) s)"
  define s2 where "s2 = (if c + sl_units (slobs s1 c) = b then
                  upd_slob c (\<lambda>x. x\<lparr>sl_units := sl_units x + sl_units (slobs s1 b), sl_next := sl_next (slobs s1 b)\<rparr>) s1
                else upd_slob c (\<lambda>x. x\<lparr>sl_next := b\<rparr>) s1)"
  have e: "slob_link b c s = s2\<lparr>slobfree := c\<rparr>" by (simp only: slob_link_def Let_def s1_def s2_def)
  have 1: "heap_frame s s1" "slob_only s s1" by (simp_all add: s1_def heap_frame_slob slob_only_upd)
  have 2: "heap_frame s1 s2" "slob_only s1 s2" by (simp_all add: s2_def heap_frame_slob slob_only_upd)
  show "heap_frame s (slob_link b c s)" unfolding e by (rule heap_frame_trans [OF heap_frame_trans [OF 1(1) 2(1)] heap_frame_slob(2)])
  show "slob_only s (slob_link b c s)" unfolding e by (rule slob_only_trans [OF slob_only_trans [OF 1(2) 2(2)] slob_only_upd(2)])
qed

section \<open>Freeing\<close>

lemma split_below:
  assumes "separated bs" "bs \<noteq> []" "fst (hd bs) < b"
  shows "\<exists>xs c l ys. bs = xs @ (c, l) # ys \<and> c < b \<and> (\<forall>(d, k) \<in> set ys. b \<le> d)"
  using assms
proof (induction bs rule: separated.induct)
  case (2 a m bs)
  show ?case
  proof (cases "bs \<noteq> [] \<and> fst (hd bs) < b")
    case True
    then obtain xs c l ys where "bs = xs @ (c, l) # ys" "c < b" "\<forall>(d, k) \<in> set ys. b \<le> d" using 2 by auto
    then show ?thesis by (intro exI [of _ "(a, m) # xs"] exI [of _ c] exI [of _ l] exI [of _ ys]) simp
  next
    case False
    have "\<forall>(d, k) \<in> set bs. b \<le> d"
    proof (cases bs)
      case (Cons y ys)
      then have "b \<le> fst y" "\<forall>(d, k) \<in> set ys. fst y < d" using False 2(2) by (cases y; auto)+
      then show ?thesis using Cons by force
    qed simp
    then show ?thesis using 2(4) by (intro exI [of _ "[]"] exI [of _ a] exI [of _ m] exI [of _ bs]) simp
  qed
qed simp

lemma split_gap:
  assumes sep: "separated bs" and ne: "bs \<noteq> []" "fst (hd bs) < b" and n: "0 < n" and dj: "{b..<b + n} \<inter> block_pages bs = {}"
  obtains xs c l ys where "bs = xs @ (c, l) # ys" "c < b" "c + l \<le> b" "\<forall>(d, k) \<in> set ys. b + n \<le> d"
proof -
  obtain xs c l ys where s: "bs = xs @ (c, l) # ys" "c < b" "\<forall>(d, k) \<in> set ys. b \<le> d" using split_below [OF sep ne] by blast
  have "c + l \<le> b"
  proof (rule ccontr)
    assume "\<not> c + l \<le> b"
    then have "b \<in> block_pages bs" using s block_pagesI [of c l bs b] by simp
    moreover have "b \<in> {b..<b + n}" using n by simp
    ultimately show False using dj by blast
  qed
  moreover have "b + n \<le> d" if "(d, k) \<in> set ys" for d k
  proof (rule ccontr)
    assume "\<not> b + n \<le> d"
    moreover have "d \<in> block_pages bs" using separated_heads [OF sep, of d k] that s(1) by simp
    moreover have "b \<le> d" using s(3) that by auto
    ultimately have "d \<in> {b..<b + n}" by simp
    then show False using dj \<open>d \<in> block_pages bs\<close> by blast
  qed
  ultimately show ?thesis using s(1,2) that by blast
qed

lemma slob_free_ok:
  assumes rep: "slob_rep s A bs" and b: "A + 1 < b" and n: "n = (if sz \<noteq> 0 then SLOB_UNITS sz else sl_units (slobs s b))" "0 < n"
    and dj: "{b..<b + n} \<inter> block_pages bs = {}"
  shows "\<exists>s'. slob_free b sz s = Inr s' \<and> slob_rep s' A (put_block b n bs) \<and>
    (\<forall>p. p \<noteq> b \<longrightarrow> p \<notin> block_pages bs \<longrightarrow> slobs s' p = slobs s p) \<and> heap_frame s s' \<and> slob_only s s'"
proof -
  note D = slob_repD [OF rep]
  have hdb: "fst (hd bs) < b" using D(2) b by simp
  obtain xs c l ys where bs: "bs = xs @ (c, l) # ys" and g: "c < b" "c + l \<le> b" "\<forall>(d, k) \<in> set ys. b + n \<le> d"
    by (rule split_gap [OF D(3) D(1) hdb n(2) dj])
  define s1 where "s1 = (if sz \<noteq> 0 then upd_slob b (\<lambda>x. x\<lparr>sl_units := SLOB_UNITS sz\<rparr>) s else s)"
  obtain f s2 where i: "intr_save s1 = (f, s2)" by (cases "intr_save s1")
  have s2: "slobs s2 = slobs s1" "slobfree s2 = slobfree s1" "bbs s2 = bbs s1" "bigblocks s2 = bigblocks s1"
    using intr_kheap(1-4) [of s1] i by simp_all
  have bh: "b \<notin> fst ` set bs"
  proof
    assume "b \<in> fst ` set bs"
    then obtain k where "(b, k) \<in> set bs" by auto
    then have "b \<in> block_pages bs" by (rule separated_heads [OF D(3)])
    moreover have "b \<in> {b..<b + n}" using n(2) by simp
    ultimately show False using dj by blast
  qed
  have sl: "slobs s1 p = slobs s p" if "p \<noteq> b" for p using that by (simp add: s1_def)
  have nb: "sl_units (slobs s1 b) = n" using n(1) by (simp add: s1_def)
  have sn: "snext s1 = snext s" by (auto simp: s1_def fun_eq_iff)
  have u2: "\<forall>(d, k) \<in> set bs. sl_units (slobs s2 d) = k"
  proof (rule ballI, clarify)
    fix d k assume dk: "(d, k) \<in> set bs"
    then have "d \<noteq> b" using bh by (metis fst_conv imageI)
    then show "sl_units (slobs s2 d) = k" using D(4) [OF dk] by (simp add: s2 sl)
  qed
  have "slobfree s2 = slobfree s" by (simp add: s2 s1_def)
  then have rep2: "slob_rep s2 A bs" using D u2 unfolding slob_rep_def s2(1) sn by simp
  have below: "\<forall>(d, k) \<in> set ys. b < d" using g(3) n(2) by fastforce
  have find: "slob_find b (slobfree s2) s2 = Some c"
    using slob_find_ok [of s2 A xs c l ys b "slobfree s2"] rep2 g(1) below slob_repD(6) [OF rep2] bs by simp
  have "b \<noteq> 0" using b by simp
  then have run: "slob_free b sz s = Inr (intr_restore f (slob_link b c s2))"
    using i find by (simp add: slob_free_def s1_def [symmetric] Let_def)
  have link: "slob_rep (slob_link b c s2) A (put_block b n bs)"
    "\<And>p. p \<noteq> b \<Longrightarrow> p \<notin> fst ` set bs \<Longrightarrow> slobs (slob_link b c s2) p = slobs s2 p"
    using slob_link_ok [of s2 A xs c l ys b n] rep2 g(2,3) n(2) nb s2(1) b bs by auto
  have fr: "heap_frame s2 (slob_link b c s2)" by (rule slob_link_frame)
  have "heap_frame s1 (intr_restore f (slob_link b c s2))" by (rule heap_frame_intr [OF i fr])
  moreover have "heap_frame s s1" by (simp add: s1_def heap_frame_slob)
  ultimately have frame: "heap_frame s (intr_restore f (slob_link b c s2))" by (rule heap_frame_trans [rotated])
  have big: "slob_only s (intr_restore f (slob_link b c s2))"
  proof -
    have "slob_only s s1" by (simp add: s1_def slob_only_upd)
    moreover have "slob_only s1 s2" using slob_only_upd(3) [of s1] i by simp
    ultimately show ?thesis by (meson slob_only_trans slob_only_upd(4) slob_link_frame(2))
  qed
  have rep': "slob_rep (intr_restore f (slob_link b c s2)) A (put_block b n bs)" using link(1) by (simp add: slob_rep_def)
  have heads: "p \<notin> fst ` set bs" if "p \<notin> block_pages bs" for p using separated_heads [OF D(3)] that by auto
  have "slobs (intr_restore f (slob_link b c s2)) p = slobs s p" if "p \<noteq> b" "p \<notin> block_pages bs" for p
    using link(2) [OF that(1) heads [OF that(2)]] s2(1) sl [OF that(1)] by simp
  then show ?thesis using run rep' frame big by blast
qed

section \<open>Allocating\<close>

lemma slob_take_ok:
  assumes rep: "slob_rep s A (xs @ (p, k) # (b, l) # ys)" and u: "0 < u" "u \<le> l"
  shows "\<exists>s'. slob_take p b u al 0 s = (b, s') \<and> slob_rep s' A (xs @ (p, k) # (if l = u then ys else (b + u, l - u) # ys)) \<and>
    sl_units (slobs s' b) = u \<and> (\<forall>q. q \<notin> block_pages (xs @ (p, k) # (b, l) # ys) \<longrightarrow> slobs s' q = slobs s q) \<and>
    heap_frame s s' \<and> slob_only s s'"
proof -
  note D = slob_repD [OF rep]
  let ?bs = "xs @ (p, k) # (b, l) # ys"
  have dist: "distinct (map fst ?bs)" by (rule separated_distinct [OF D(3)])
  have bu: "sl_units (slobs s b) = l" using D(4) by simp
  have pb: "p \<noteq> b" using dist by auto
  have skip: "chain ((snext s)(p := snext s b)) (map fst (xs @ (p, k) # ys) @ [A])" by (rule ring_skip [OF D(5) dist])
  have hd': "hd (xs @ (p, k) # zs) = (A, 1)" for zs using D(2) by (cases xs) auto
  have sepL: "separated (xs @ (p, k) # ys)" using D(3) by (auto simp: separated_append)
  have hp: "p \<in> block_pages ?bs" "b \<in> block_pages ?bs"
    using separated_heads [OF D(3), of p k] separated_heads [OF D(3), of b l] by simp_all
  show ?thesis
  proof (cases "l = u")
    case True
    let ?s = "(upd_slob p (\<lambda>x. x\<lparr>sl_next := sl_next (slobs s b)\<rparr>) s)\<lparr>slobfree := p\<rparr>"
    have run: "slob_take p b u al 0 s = (b, ?s)" using True bu by (simp add: slob_take_def)
    have "snext ?s = (snext s)(p := snext s b)" by auto
    moreover have "\<forall>(d, m) \<in> set (xs @ (p, k) # ys). sl_units (slobs ?s d) = m" using D(4) by auto
    ultimately have "slob_rep ?s A (xs @ (p, k) # ys)" using skip hd' sepL unfolding slob_rep_def by simp
    moreover have "heap_frame s ?s" by (rule heap_frame_trans [OF heap_frame_slob(1) heap_frame_slob(2)])
    moreover have "slob_only s ?s" by (simp add: slob_only_def)
    moreover have "sl_units (slobs ?s b) = u" using pb bu True by simp
    moreover have "\<forall>q. q \<notin> block_pages ?bs \<longrightarrow> slobs ?s q = slobs s q" using hp by auto
    ultimately show ?thesis using run True by (intro exI [of _ ?s]) simp
  next
    case False
    then have ul: "u < l" using u by simp
    have sb: "b + u \<in> block_pages ?bs" using block_pagesI [of b l ?bs "b + u"] ul by simp
    have nh: "b + u \<notin> fst ` set (xs @ (p, k) # ys)"
    proof
      assume "b + u \<in> fst ` set (xs @ (p, k) # ys)"
      then obtain m where m: "(b + u, m) \<in> set (xs @ (p, k) # ys)" by (metis imageE prod.collapse)
      have o: "\<forall>(c, j) \<in> set (xs @ [(p, k)]). c + j < b" "\<forall>(c, j) \<in> set ys. b + l < c"
        using separated_order [of "xs @ [(p, k)]" b l ys] D(3) by simp_all
      from m have "(b + u, m) \<in> set (xs @ [(p, k)]) \<or> (b + u, m) \<in> set ys" by auto
      then show False using o ul by fastforce
    qed
    define s1 where "s1 = upd_slob p (\<lambda>x. x\<lparr>sl_next := b + u\<rparr>) s"
    define s2 where "s2 = upd_slob (b + u) (\<lambda>x. x\<lparr>sl_units := sl_units (slobs s1 b) - u, sl_next := sl_next (slobs s1 b)\<rparr>) s1"
    define s3 where "s3 = (upd_slob b (\<lambda>x. x\<lparr>sl_units := u\<rparr>) s2)\<lparr>slobfree := p\<rparr>"
    have run: "slob_take p b u al 0 s = (b, s3)" using False bu by (simp add: slob_take_def s1_def s2_def s3_def Let_def)
    have b0: "b + u \<noteq> b" "b + u \<noteq> p" using u nh by auto
    have nx: "snext s3 = (snext s)(p := snext s b, b + u := ((snext s)(p := snext s b)) p, p := b + u)"
      using pb b0 by (auto simp: s1_def s2_def s3_def fun_eq_iff)
    have d2: "distinct (map fst (xs @ (p, k) # ys))" using dist by auto
    have ring: "chain (snext s3) (map fst (xs @ (p, k) # (b + u, l - u) # ys) @ [A])"
      unfolding nx by (rule ring_replace [OF skip d2 hd' nh])
    have sep: "separated (xs @ (p, k) # (b + u, l - u) # ys)" using D(3) ul by (auto simp: separated_append)
    have units: "sl_units (slobs s3 q) = (if q = b then u else if q = b + u then l - u else sl_units (slobs s q))" for q
      using bu pb b0 by (simp add: s1_def s2_def s3_def)
    have "\<forall>(d, m) \<in> set (xs @ (p, k) # (b + u, l - u) # ys). sl_units (slobs s3 d) = m"
    proof (rule ballI, clarify)
      fix d m assume "(d, m) \<in> set (xs @ (p, k) # (b + u, l - u) # ys)"
      then consider "(d, m) = (b + u, l - u)" | "(d, m) \<in> set (xs @ (p, k) # ys)" by auto
      then show "sl_units (slobs s3 d) = m"
      proof cases
        case 1
        then show ?thesis using units b0 by simp
      next
        case 2
        then have "d \<in> fst ` set (xs @ (p, k) # ys)" by (metis fst_conv imageI)
        then have "d \<noteq> b + u" "d \<noteq> b" using nh dist by (metis, auto)
        then show ?thesis using units D(4) [of d m] 2 by auto
      qed
    qed
    then have "slob_rep s3 A (xs @ (p, k) # (b + u, l - u) # ys)"
      using ring sep hd' unfolding slob_rep_def by (simp add: s3_def)
    moreover have "heap_frame s s3"
      unfolding s3_def s2_def s1_def by (intro heap_frame_trans [OF _ heap_frame_slob(2)] heap_frame_trans [OF _ heap_frame_slob(1)] heap_frame_refl)
    moreover have "slob_only s s3" by (simp add: slob_only_def s1_def s2_def s3_def)
    moreover have "\<forall>q. q \<notin> block_pages ?bs \<longrightarrow> slobs s3 q = slobs s q"
      using hp sb by (auto simp: s1_def s2_def s3_def)
    ultimately show ?thesis using run False units by (intro exI [of _ s3]) simp
  qed
qed

text \<open>The search goes once round the ring, from the block after \<open>slobfree\<close> up to \<open>slobfree\<close> itself.\<close>

lemma slob_next_nth:
  assumes rep: "slob_rep s A bs" and i: "i < length bs"
  shows "snext s (fst (bs ! i)) = fst (bs ! (Suc i mod length bs))"
proof -
  have split: "bs = take i bs @ (fst (bs ! i), snd (bs ! i)) # drop (Suc i) bs" using id_take_nth_drop [OF i] by simp
  then have nx: "snext s (fst (bs ! i)) = (case drop (Suc i) bs of [] \<Rightarrow> A | (c, k) # _ \<Rightarrow> c)"
    using slob_next [of s A "take i bs" "fst (bs ! i)" "snd (bs ! i)" "drop (Suc i) bs"] rep by simp
  show ?thesis
  proof (cases "Suc i < length bs")
    case True
    then show ?thesis using nx by (simp add: Cons_nth_drop_Suc [symmetric] case_prod_beta)
  next
    case False
    then have "Suc i = length bs" using i by simp
    then show ?thesis using nx slob_repD(1,2) [OF rep] by (simp add: hd_conv_nth)
  qed
qed

lemma slob_nth_units: "slob_rep s A bs \<Longrightarrow> i < length bs \<Longrightarrow> sl_units (slobs s (fst (bs ! i))) = snd (bs ! i)"
  using slob_repD(4) [of s A bs "fst (bs ! i)" "snd (bs ! i)"] by simp

lemma slob_nth_inj: "slob_rep s A bs \<Longrightarrow> i < length bs \<Longrightarrow> j < length bs \<Longrightarrow> fst (bs ! i) = fst (bs ! j) \<Longrightarrow> i = j"
  using separated_distinct [OF slob_repD(3)] by (metis length_map nth_eq_iff_index_eq nth_map)

lemma ring_steps:
  fixes i n d :: nat
  assumes "i < n"
  shows "(Suc i mod n + n - 1) mod n = i" "(Suc i mod n + d) mod n = (i + Suc d) mod n" "0 < d \<Longrightarrow> d < n \<Longrightarrow> (i + d) mod n \<noteq> i"
    "0 < i \<Longrightarrow> (i + n - 1) mod n = i - 1"
proof -
  show "(Suc i mod n + n - 1) mod n = i" using assms by (cases "Suc i = n") auto
  show "(Suc i mod n + d) mod n = (i + Suc d) mod n" by (simp add: mod_add_left_eq)
  show "(i + d) mod n \<noteq> i" if "0 < d" "d < n"
    using assms that by (cases "i + d < n") (auto simp: le_mod_geq)
  show "(i + n - 1) mod n = i - 1" if "0 < i"
  proof -
    have "i + n - 1 = (i - 1) + n" using that by simp
    then have "(i + n - 1) mod n = (i - 1 + n) mod n" by (rule arg_cong)
    also have "\<dots> = (i - 1) mod n" by (rule mod_add_self2)
    also have "\<dots> = i - 1" by (rule mod_less) (use assms in simp)
    finally show ?thesis .
  qed
qed

lemma slob_scan_take:
  assumes rep: "slob_rep s A bs" and u: "2 \<le> u" "u \<le> snd (bs ! i)" and i: "i < length bs"
  shows "0 < i" "slob_scan sz u 0 (fst (bs ! ((i + length bs - 1) mod length bs))) (fst (bs ! i)) fl s =
      (let (r, s1) = slob_take (fst (bs ! (i - 1))) (fst (bs ! i)) u 0 0 s in Some (Inr (r, intr_restore fl s1)))"
proof -
  have "i \<noteq> 0" using slob_repD(1,2) [OF rep] u by (auto simp: hd_conv_nth)
  then show i0: "0 < i" by simp
  have "u \<le> sl_units (slobs s (fst (bs ! i)))" using u(2) slob_nth_units [OF rep i] by simp
  then show "slob_scan sz u 0 (fst (bs ! ((i + length bs - 1) mod length bs))) (fst (bs ! i)) fl s =
      (let (r, s1) = slob_take (fst (bs ! (i - 1))) (fst (bs ! i)) u 0 0 s in Some (Inr (r, intr_restore fl s1)))"
    unfolding ring_steps(4) [OF i i0] by (subst slob_scan.simps) simp
qed

lemma slob_scan_fit:
  assumes rep: "slob_rep s A bs" and u: "2 \<le> u"
  shows "i < length bs \<Longrightarrow> d < length bs \<Longrightarrow> slobfree s = fst (bs ! ((i + d) mod length bs)) \<Longrightarrow>
    (\<exists>e \<le> d. u \<le> snd (bs ! ((i + e) mod length bs))) \<Longrightarrow>
    \<exists>k. 0 < k \<and> k < length bs \<and> u \<le> snd (bs ! k) \<and>
      slob_scan sz u 0 (fst (bs ! ((i + length bs - 1) mod length bs))) (fst (bs ! i)) fl s =
      (let (r, s1) = slob_take (fst (bs ! (k - 1))) (fst (bs ! k)) u 0 0 s in Some (Inr (r, intr_restore fl s1)))"
proof (induction d arbitrary: i)
  case (0 i)
  then have "u \<le> snd (bs ! i)" by simp
  then show ?case using slob_scan_take [OF rep u _ 0(1)] 0(1) by (intro exI [of _ i]) blast
next
  case (Suc d i)
  let ?n = "length bs" and ?j = "Suc i mod length bs"
  show ?case
  proof (cases "u \<le> snd (bs ! i)")
    case True
    then show ?thesis using slob_scan_take [OF rep u True Suc.prems(1)] Suc.prems(1) by (intro exI [of _ i]) blast
  next
    case False
    have j1: "?j < ?n" using Suc.prems(1) by (intro mod_less_divisor) linarith
    have j: "?j < ?n" "(?j + ?n - 1) mod ?n = i" "(?j + e) mod ?n = (i + Suc e) mod ?n" for e
        using j1 ring_steps(1,2) [OF Suc.prems(1)] by simp_all
    obtain e where e: "e \<le> Suc d" "u \<le> snd (bs ! ((i + e) mod ?n))" using Suc.prems(4) by blast
    have "e \<noteq> 0" using e(2) False Suc.prems(1) by (cases e) auto
    then obtain e' where e': "e = Suc e'" by (cases e) auto
    have fit: "\<exists>e \<le> d. u \<le> snd (bs ! ((?j + e) mod ?n))" using e e' j(3) [of e'] by (intro exI [of _ e']) simp
    have sf: "slobfree s = fst (bs ! ((?j + d) mod ?n))" using Suc.prems(3) j(3) by simp
    obtain k where k: "0 < k" "k < ?n" "u \<le> snd (bs ! k)"
      "slob_scan sz u 0 (fst (bs ! ((?j + ?n - 1) mod ?n))) (fst (bs ! ?j)) fl s =
        (let (r, s1) = slob_take (fst (bs ! (k - 1))) (fst (bs ! k)) u 0 0 s in Some (Inr (r, intr_restore fl s1)))"
      using Suc.IH [OF j(1) _ sf fit] Suc.prems(2) by auto
    have "(i + Suc d) mod ?n < ?n" using Suc.prems(1) by (intro mod_less_divisor) linarith
    then have "fst (bs ! i) \<noteq> slobfree s"
      using slob_nth_inj [OF rep Suc.prems(1), of "(i + Suc d) mod ?n"] ring_steps(3) [OF Suc.prems(1), of "Suc d"] Suc.prems(2,3) by auto
    then have "slob_scan sz u 0 (fst (bs ! ((i + ?n - 1) mod ?n))) (fst (bs ! i)) fl s =
        slob_scan sz u 0 (fst (bs ! i)) (fst (bs ! ?j)) fl s"
      using False slob_nth_units [OF rep Suc.prems(1)] slob_next_nth [OF rep Suc.prems(1)] by (subst slob_scan.simps) simp
    then show ?thesis using k j(2) by auto
  qed
qed

lemma slob_scan_none:
  assumes rep: "slob_rep s A bs" and small: "\<forall>(b, l) \<in> set bs. l < u"
  shows "i < length bs \<Longrightarrow> d < length bs \<Longrightarrow> slobfree s = fst (bs ! ((i + d) mod length bs)) \<Longrightarrow>
    \<exists>p. slob_scan sz u 0 (fst (bs ! ((i + length bs - 1) mod length bs))) (fst (bs ! i)) fl s =
      slob_scan sz u 0 p (slobfree s) fl s"
proof (induction d arbitrary: i)
  case (0 i)
  then show ?case by auto
next
  case (Suc d i)
  let ?n = "length bs" and ?j = "Suc i mod length bs"
  have j1: "?j < ?n" using Suc.prems(1) by (intro mod_less_divisor) linarith
  have j: "?j < ?n" "(?j + ?n - 1) mod ?n = i" "(?j + e) mod ?n = (i + Suc e) mod ?n" for e
    using j1 ring_steps(1,2) [OF Suc.prems(1)] by simp_all
  have sf: "slobfree s = fst (bs ! ((?j + d) mod ?n))" using Suc.prems(3) j(3) by simp
  obtain p where p: "slob_scan sz u 0 (fst (bs ! ((?j + ?n - 1) mod ?n))) (fst (bs ! ?j)) fl s = slob_scan sz u 0 p (slobfree s) fl s"
    using Suc.IH [OF j(1) _ sf] Suc.prems(2) by auto
  have "(i + Suc d) mod ?n < ?n" using Suc.prems(1) by (intro mod_less_divisor) linarith
  then have ne: "fst (bs ! i) \<noteq> slobfree s"
    using slob_nth_inj [OF rep Suc.prems(1), of "(i + Suc d) mod ?n"] ring_steps(3) [OF Suc.prems(1), of "Suc d"] Suc.prems(2,3) by auto
  have "bs ! i \<in> set bs" using Suc.prems(1) by simp
  then have "snd (bs ! i) < u" using small by (auto simp: case_prod_beta)
  then have "slob_scan sz u 0 (fst (bs ! ((i + ?n - 1) mod ?n))) (fst (bs ! i)) fl s =
      slob_scan sz u 0 (fst (bs ! i)) (fst (bs ! ?j)) fl s"
    using ne slob_nth_units [OF rep Suc.prems(1)] slob_next_nth [OF rep Suc.prems(1)] by (subst slob_scan.simps) simp
  then show ?case using p j(2) by auto
qed

lemma block_pages_append [simp]: "block_pages (xs @ ys) = block_pages xs \<union> block_pages ys"
  by (auto simp: block_pages_def)

lemma block_pages_Cons [simp]: "block_pages ((b, l) # ys) = {b..<b + l} \<union> block_pages ys" "block_pages [] = {}"
  by (auto simp: block_pages_def)

lemma block_pages_below: "\<forall>(c, k) \<in> set xs. c + k < b \<Longrightarrow> block_pages xs \<subseteq> {..<b}"
  by (fastforce simp: block_pages_def)

lemma block_pages_above: "\<forall>(c, k) \<in> set ys. b < c \<Longrightarrow> block_pages ys \<subseteq> {b<..}"
  by (fastforce simp: block_pages_def)

lemma take_block_pages:
  assumes sep: "separated (xs @ (b, l) # ys)" and u: "u \<le> l"
  shows "block_pages (xs @ (if l = u then ys else (b + u, l - u) # ys)) = block_pages (xs @ (b, l) # ys) - {b..<b + u}"
proof -
  have "block_pages xs \<subseteq> {..<b}" "block_pages ys \<subseteq> {b + l<..}"
    using separated_order [OF sep] by (auto intro!: block_pages_below block_pages_above)
  then show ?thesis using u by auto
qed

lemma put_block_room: "\<exists>(c, l) \<in> set (put_block b n bs). n \<le> l"
proof (induction b n bs rule: put_block.induct)
  case (2 b n c l bs)
  have j: "\<exists>(e, m) \<in> set (join_after (x, y) zs). y \<le> m" for x y zs by (cases zs rule: separated.cases) auto
  consider "b < c" | "\<not> b < c" "c + l = b" | "\<not> b < c" "c + l \<noteq> b" by blast
  then show ?case
  proof cases
    case 1
    then show ?thesis using j [of b n "(c, l) # bs"] by simp
  next
    case 2
    obtain e m where "(e, m) \<in> set (join_after (c, l + n) bs)" "l + n \<le> m" using j [of c "l + n" bs] by blast
    then show ?thesis using 2 by (intro bexI [of _ "(e, m)"]) simp_all
  next
    case 3
    then show ?thesis using 2 by simp
  qed
qed simp

lemma slob_rep_intr [simp]: "slob_rep (snd (intr_save s)) A bs = slob_rep s A bs" "slob_rep (intr_restore f s) A bs = slob_rep s A bs"
  by (simp_all add: slob_rep_def)

lemma slob_start:
  assumes rep: "slob_rep s A bs"
  obtains i d where "i < length bs" "d < length bs" "slobfree s = fst (bs ! ((i + d) mod length bs))"
    "fst (bs ! i) = snext s (slobfree s)" "fst (bs ! ((i + length bs - 1) mod length bs)) = slobfree s" "Suc d = length bs"
proof -
  let ?n = "length bs"
  obtain j where j: "j < ?n" "slobfree s = fst (bs ! j)"
    using slob_repD(6) [OF rep] by (metis imageE in_set_conv_nth)
  let ?i = "Suc j mod ?n"
  have i: "?i < ?n" using j(1) by (intro mod_less_divisor) linarith
  have "(?i + (?n - 1)) mod ?n = j" using ring_steps(1) [OF j(1)] j(1) by simp
  moreover have "(?i + ?n - 1) mod ?n = j" by (rule ring_steps(1) [OF j(1)])
  ultimately show ?thesis
    using that [of ?i "?n - 1"] i j slob_next_nth [OF rep j(1)] by simp
qed

lemma slob_fit_ok:
  assumes rep: "slob_rep s A bs" and u: "2 \<le> u" and fit: "\<exists>(b, l) \<in> set bs. u \<le> l"
  shows "\<exists>r s' bs'. slob_scan sz u 0 (slobfree s) (snext s (slobfree s)) fl s = Some (Inr (r, intr_restore fl s')) \<and>
    slob_rep s' A bs' \<and> r \<noteq> NULL \<and> sl_units (slobs s' r) = u \<and> {r..<r + u} \<subseteq> block_pages bs \<and>
    block_pages bs' = block_pages bs - {r..<r + u} \<and> (\<forall>q. q \<notin> block_pages bs \<longrightarrow> slobs s' q = slobs s q) \<and>
    heap_frame s s' \<and> slob_only s s'"
proof -
  let ?n = "length bs"
  obtain i d where i: "i < ?n" "d < ?n" "slobfree s = fst (bs ! ((i + d) mod ?n))"
    "fst (bs ! i) = snext s (slobfree s)" "fst (bs ! ((i + ?n - 1) mod ?n)) = slobfree s" "Suc d = ?n" by (rule slob_start [OF rep])
  obtain j where j: "j < ?n" "u \<le> snd (bs ! j)" using fit by (metis case_prodE in_set_conv_nth snd_conv)
  have "\<exists>e \<le> d. u \<le> snd (bs ! ((i + e) mod ?n))"
  proof (cases "i \<le> j")
    case True
    then show ?thesis using j i(6) by (intro exI [of _ "j - i"]) auto
  next
    case False
    then have "(i + (j + ?n - i)) mod ?n = j" using j(1) i(1) by simp
    then show ?thesis using j i(6) False by (intro exI [of _ "j + ?n - i"]) auto
  qed
  then obtain k where k: "0 < k" "k < ?n" "u \<le> snd (bs ! k)"
      "slob_scan sz u 0 (fst (bs ! ((i + ?n - 1) mod ?n))) (fst (bs ! i)) fl s =
      (let (r, s1) = slob_take (fst (bs ! (k - 1))) (fst (bs ! k)) u 0 0 s in Some (Inr (r, intr_restore fl s1)))"
    using slob_scan_fit [OF rep u i(1-3), of sz fl] by blast
  define xs where "xs = take (k - 1) bs"
  define ys where "ys = drop (Suc k) bs"
  obtain p m where p: "bs ! (k - 1) = (p, m)" by (cases "bs ! (k - 1)")
  obtain b l where b: "bs ! k = (b, l)" by (cases "bs ! k")
  have "bs = take (k - 1) bs @ bs ! (k - 1) # drop (Suc (k - 1)) bs" by (rule id_take_nth_drop) (use k in simp)
  moreover have "drop (Suc (k - 1)) bs = bs ! k # drop (Suc k) bs" using k by (simp add: Cons_nth_drop_Suc)
  ultimately have bs: "bs = xs @ (p, m) # (b, l) # ys" unfolding xs_def ys_def p b by simp
  have ul: "0 < u" "u \<le> l" using u k(3) b by auto
  define bs' where "bs' = xs @ (p, m) # (if l = u then ys else (b + u, l - u) # ys)"
  obtain s' where s': "slob_take p b u 0 0 s = (b, s')" "slob_rep s' A bs'"
      "sl_units (slobs s' b) = u" "\<forall>q. q \<notin> block_pages bs \<longrightarrow> slobs s' q = slobs s q"
      "heap_frame s s'" "slob_only s s'"
    using slob_take_ok [of s A xs p m b l ys u 0] rep ul unfolding bs bs'_def by blast
  have sep: "separated (xs @ (p, m) # (b, l) # ys)" using slob_repD(3) [OF rep] bs by simp
  have "block_pages bs' = block_pages bs - {b..<b + u}"
    using take_block_pages [of "xs @ [(p, m)]" b l ys u] sep ul(2) unfolding bs bs'_def by simp
  moreover have "{b..<b + u} \<subseteq> block_pages bs" unfolding bs using ul(2) by auto
  moreover have "p < b" using separated_order [of "xs @ [(p, m)]" b l ys] sep by simp
  moreover have "slob_scan sz u 0 (slobfree s) (snext s (slobfree s)) fl s = Some (Inr (b, intr_restore fl s'))"
    using k(4) p b s'(1) i(4,5) by simp
  ultimately show ?thesis using s' by (intro exI [of _ b] exI [of _ s'] exI [of _ bs']) simp
qed

section \<open>The heap and the page allocator\<close>

definition page_units :: "nat set \<Rightarrow> nat set" where
  "page_units F = (\<Union>p \<in> F. {p * units_per_page..<p * units_per_page + units_per_page})"

lemma page_units_simps [simp]: "page_units {} = {}" "page_units (insert p F) = {p * 256..<p * 256 + 256} \<union> page_units F"
  by (auto simp: page_units_def units_per_page_def)

lemma page_units_mono: "F \<subseteq> G \<Longrightarrow> page_units F \<subseteq> page_units G"
  by (auto simp: page_units_def)

lemma page_units_iff: "q \<in> page_units F \<longleftrightarrow> q div 256 \<in> F"
proof -
  have "q div 256 = p \<longleftrightarrow> p * 256 \<le> q \<and> q < p * 256 + 256" for p by auto
  then have "q \<in> {p * 256..<p * 256 + 256} \<longleftrightarrow> q div 256 = p" for p by (metis atLeastLessThan_iff)
  then show ?thesis by (auto simp: page_units_def units_per_page_def)
qed

lemma page_units_Diff [simp]: "page_units (F - G) = page_units F - page_units G"
  by (auto simp: page_units_iff)

text \<open>The free blocks of the heap and the free pages of the allocator share no memory, and all free pages lie above the arena.\<close>

definition heap_ok :: "'a kheap_scheme \<Rightarrow> ptr \<Rightarrow> blocks \<Rightarrow> nat set \<Rightarrow> bool" where
  "heap_ok s A bs F \<longleftrightarrow> slob_rep s A bs \<and> mem_ok s F \<and> block_pages bs \<inter> page_units F = {} \<and> (\<forall>p \<in> F. A + 1 < p * units_per_page)"

lemma mem_ok_intr [simp]: "mem_ok (snd (intr_save s)) F = mem_ok s F" "mem_ok (intr_restore f s) F = mem_ok s F"
proof -
  have n: "npage (snd (intr_save s)) = npage s" "npage (intr_restore f s) = npage s"
    by (simp_all add: intr_save_def intr_disable_def intr_restore_def intr_enable_def)
  show "mem_ok (snd (intr_save s)) F = mem_ok s F" "mem_ok (intr_restore f s) F = mem_ok s F"
    by (simp_all add: mem_ok_def free_set_def free_rep_intr unreserved_def n)
qed

lemma slob_only_unreserved: "slob_only s s' \<Longrightarrow> unreserved s' q = unreserved s q"
  by (simp add: slob_only_def unreserved_def PageReserved_def)

lemma mem_ok_same:
  assumes "slob_only s s'" "heap_frame s s'" shows "mem_ok s' F = mem_ok s F"
  using assms(1) heap_frame_fields(10) [OF assms(2)]
  by (simp add: slob_only_def mem_ok_def free_set_def free_rep_def PageProperty_def unreserved_def PageReserved_def)

lemma pmm_frame_heap:
  assumes "pmm_frame s s'"
  shows "slobs s' = slobs s" "slobfree s' = slobfree s" "bbs s' = bbs s" "bigblocks s' = bigblocks s"
  using assms unfolding pmm_frame_def by (cases s; cases s'; simp)+

lemma slob_get_page_ok:
  assumes ok: "mem_ok s F" and z: "0 \<notin> F"
  shows "\<exists>r s'. slob_get_free_pages 0 s = Inr (r, s') \<and> pmm_frame s s' \<and> (\<forall>q. unreserved s' q = unreserved s q) \<and>
    (if r = NULL then F = {} \<and> mem_ok s' {} else \<exists>p \<in> F. r = p * units_per_page \<and> mem_ok s' (F - {p}))"
proof -
  obtain r s' where a: "alloc_pages 1 s = Inr (r, s')" "pmm_frame s s'"
      "case r of None \<Rightarrow> F = {} \<and> mem_ok s' {} | Some p \<Rightarrow> p \<in> F \<and> mem_ok s' (F - {p})" "\<forall>q. unreserved s' q = unreserved s q"
    using alloc_one_ok [OF ok] by blast
  show ?thesis
  proof (cases r)
    case None
    then show ?thesis using a unfolding slob_get_free_pages_def power_0 by simp
  next
    case (Some p)
    have pn: "p < npage s" "npage s < 2 ^ 32" using ok a(3) Some by (auto simp: mem_ok_def)
    have np: "npage s' = npage s" using pmm_frame_phys [OF a(2)] by simp
    have "page2kva s' p = Inr p" unfolding page2kva_def by (rule KADDR_page2pa) (use pn np in simp_all)
    then show ?thesis using a Some z unfolding slob_get_free_pages_def power_0 by (auto simp: units_per_page_def)
  qed
qed

lemma slob_grow_step:
  assumes rep: "slob_rep s A bs" and small: "\<forall>(b, l) \<in> set bs. l < u" and sz: "sz \<noteq> PAGE_SIZE"
  shows "slob_scan sz u 0 p (slobfree s) fl s = loop_bind (slob_get_free_pages 0 (intr_restore fl s)) (\<lambda>(page, s2).
             if page = NULL then Some (Inr (NULL, s2))
             else loop_bind (slob_free page PAGE_SIZE s2) (\<lambda>s3.
               slob_scan sz u 0 (slobfree (snd (intr_save s3))) (snext (snd (intr_save s3)) (slobfree (snd (intr_save s3)))) (fst (intr_save s3)) (snd (intr_save s3))))"
proof -
  obtain l where l: "(slobfree s, l) \<in> set bs" using slob_repD(6) [OF rep] by (metis imageE prod.collapse)
  have "sl_units (slobs s (slobfree s)) < u" using slob_repD(4) [OF rep l] small l by auto
  then show ?thesis using sz by (subst slob_scan.simps) (simp add: Let_def)
qed

lemma heap_frame_step: "intr_save s = (f, s1) \<Longrightarrow> heap_frame s1 s2 \<Longrightarrow> heap_frame t s \<Longrightarrow> heap_frame t (intr_restore f s2)"
  by (meson heap_frame_intr heap_frame_trans)

text \<open>What \<open>slob_alloc\<close> promises: a block of the heap, or of a page it has just asked for.\<close>

definition slob_alloc_post :: "nat \<Rightarrow> ptr \<Rightarrow> blocks \<Rightarrow> nat set \<Rightarrow> 'a kheap_scheme \<Rightarrow> ptr \<Rightarrow> 'a kheap_scheme \<Rightarrow> blocks \<Rightarrow> nat set \<Rightarrow> bool" where
  "slob_alloc_post u A bs F s r s' bs' G \<longleftrightarrow> heap_ok s' A bs' (F - G) \<and> G \<subseteq> F \<and> (G \<noteq> {} \<longrightarrow> (\<forall>(b, l) \<in> set bs. l < u)) \<and>
     (if r = NULL then F = {} \<and> block_pages bs' = block_pages bs \<and> (\<forall>(b, l) \<in> set bs. l < u)
      else sl_units (slobs s' r) = u \<and> {r..<r + u} \<subseteq> block_pages bs \<union> page_units G \<and>
        block_pages bs' = block_pages bs \<union> page_units G - {r..<r + u}) \<and>
     (\<forall>q. q \<notin> block_pages bs \<union> page_units G \<longrightarrow> slobs s' q = slobs s q) \<and>
     heap_frame s s' \<and> bbs s' = bbs s \<and> bigblocks s' = bigblocks s \<and> (\<forall>q. unreserved s' q = unreserved s q)"

lemma slob_alloc_fit:
  assumes ok: "heap_ok s A bs F" and u: "2 \<le> SLOB_UNITS sz" and sz: "sz + SLOB_UNIT < PAGE_SIZE"
    and fit: "\<exists>(b, l) \<in> set bs. SLOB_UNITS sz \<le> l"
  shows "\<exists>r s' bs'. slob_alloc sz 0 s = Inr (r, s') \<and> r \<noteq> NULL \<and> slob_alloc_post (SLOB_UNITS sz) A bs F s r s' bs' {}"
proof -
  let ?u = "SLOB_UNITS sz"
  obtain f s1 where i: "intr_save s = (f, s1)" by (cases "intr_save s")
  have s1: "s1 = snd (intr_save s)" using i by simp
  have rep: "slob_rep s1 A bs" using ok by (simp add: heap_ok_def s1)
  obtain r s' bs' where r: "slob_scan sz ?u 0 (slobfree s1) (snext s1 (slobfree s1)) f s1 = Some (Inr (r, intr_restore f s'))"
      "slob_rep s' A bs'" "r \<noteq> NULL" "sl_units (slobs s' r) = ?u" "{r..<r + ?u} \<subseteq> block_pages bs"
      "block_pages bs' = block_pages bs - {r..<r + ?u}" "\<forall>q. q \<notin> block_pages bs \<longrightarrow> slobs s' q = slobs s1 q"
      "heap_frame s1 s'" "slob_only s1 s'"
    using slob_fit_ok [OF rep u fit, of sz f] by blast
  have run: "slob_alloc sz 0 s = Inr (r, intr_restore f s')" using sz i r(1) by (simp add: slob_alloc_def)
  have fr: "heap_frame s (intr_restore f s')" by (rule heap_frame_intr [OF i r(8)])
  have only: "slob_only s (intr_restore f s')"
    using slob_only_trans [OF slob_only_trans [OF slob_only_upd(3) [of s] r(9) [unfolded s1]] slob_only_upd(4)] by simp
  have "mem_ok (intr_restore f s') F" using mem_ok_same [OF only fr] ok by (simp add: heap_ok_def)
  then have "heap_ok (intr_restore f s') A bs' F" using ok r(2,6) by (auto simp: heap_ok_def)
  moreover have "\<forall>q. q \<notin> block_pages bs \<longrightarrow> slobs (intr_restore f s') q = slobs s q" using r(7) by (simp add: s1)
  ultimately have "slob_alloc_post ?u A bs F s r (intr_restore f s') bs' {}"
    using r(3-6) fr only slob_only_unreserved [OF only] by (simp add: slob_alloc_post_def slob_only_def)
  then show ?thesis using run r(3) by blast
qed

lemma slob_alloc_grow:
  assumes ok: "heap_ok s A bs F" and u: "2 \<le> SLOB_UNITS sz" and sz: "sz + SLOB_UNIT < PAGE_SIZE"
    and small: "\<forall>(b, l) \<in> set bs. l < SLOB_UNITS sz"
  shows "\<exists>r s' bs' G. slob_alloc sz 0 s = Inr (r, s') \<and> slob_alloc_post (SLOB_UNITS sz) A bs F s r s' bs' G"
proof -
  let ?u = "SLOB_UNITS sz"
  obtain f s1 where i: "intr_save s = (f, s1)" by (cases "intr_save s")
  have s1: "s1 = snd (intr_save s)" using i by simp
  define s1' where "s1' = intr_restore f s1"
  have rep: "slob_rep s1 A bs" using ok by (simp add: heap_ok_def s1)
  have z: "0 \<notin> F" using ok by (auto simp: heap_ok_def)
  have fr1: "heap_frame s s1'" unfolding s1'_def by (rule heap_frame_intr [OF i heap_frame_refl])
  have only1: "slob_only s s1'"
    using slob_only_trans [OF slob_only_upd(3) [of s] slob_only_upd(4)] by (simp add: s1'_def s1)
  have sl1: "slobs s1' = slobs s" "slob_rep s1' A bs" using rep by (simp_all add: s1'_def s1)
  have m1: "mem_ok s1' F" using mem_ok_same [OF only1 fr1] ok by (simp add: heap_ok_def)
  obtain page s2 where g: "slob_get_free_pages 0 s1' = Inr (page, s2)" "pmm_frame s1' s2"
      "if page = NULL then F = {} \<and> mem_ok s2 {} else \<exists>p \<in> F. page = p * units_per_page \<and> mem_ok s2 (F - {p})"
      "\<forall>q. unreserved s2 q = unreserved s1' q"
    using slob_get_page_ok [OF m1 z] by blast
  obtain j d where st: "j < length bs" "d < length bs" "slobfree s1 = fst (bs ! ((j + d) mod length bs))"
    "fst (bs ! j) = snext s1 (slobfree s1)" "fst (bs ! ((j + length bs - 1) mod length bs)) = slobfree s1"
    by (rule slob_start [OF rep])
  obtain p0 where p0: "slob_scan sz ?u 0 (slobfree s1) (snext s1 (slobfree s1)) f s1 = slob_scan sz ?u 0 p0 (slobfree s1) f s1"
    using slob_scan_none [OF rep small st(1-3), of sz f] st(4,5) by auto
  have "sz \<noteq> PAGE_SIZE" using sz by simp
  note grow = slob_grow_step [OF rep small this, of p0 f]
  have run: "slob_alloc sz 0 s = finish (loop_bind (slob_get_free_pages 0 s1') (\<lambda>(page, s2).
             if page = NULL then Some (Inr (NULL, s2))
             else loop_bind (slob_free page PAGE_SIZE s2) (\<lambda>s3.
               slob_scan sz ?u 0 (slobfree (snd (intr_save s3))) (snext (snd (intr_save s3)) (slobfree (snd (intr_save s3)))) (fst (intr_save s3)) (snd (intr_save s3)))))"
    using sz i p0 grow by (simp add: slob_alloc_def s1'_def)
  note ph = pmm_frame_heap [OF g(2)]
  have un2: "unreserved s2 q = unreserved s q" for q using g(4) slob_only_unreserved [OF only1] by simp
  have fr2: "heap_frame s s2" by (rule heap_frame_trans [OF fr1 heap_frame_pmm [OF g(2)]])
  have rep2: "slob_rep s2 A bs" using sl1(2) ph(1,2) by (simp add: slob_rep_def)
  have big2: "bbs s2 = bbs s" "bigblocks s2 = bigblocks s" using only1 ph by (auto simp: slob_only_def)
  show ?thesis
  proof (cases "page = NULL")
    case True
    then have "F = {}" "mem_ok s2 {}" using g(3) by auto
    then have "slob_alloc_post ?u A bs F s NULL s2 bs {}"
      using rep2 small fr2 big2 ph(1) sl1(1) un2 by (simp add: slob_alloc_post_def heap_ok_def)
    then show ?thesis using run g(1) True by auto
  next
    case False
    then obtain p where p: "p \<in> F" "page = p * units_per_page" "mem_ok s2 (F - {p})" using g(3) by auto
    have pg: "A + 1 < page" "block_pages bs \<inter> {page..<page + 256} = {}"
      using ok p(1,2) by (auto simp: heap_ok_def page_units_def units_per_page_def)
    have un: "SLOB_UNITS PAGE_SIZE = 256" by (simp add: SLOB_UNITS_def PAGE_SIZE_def SLOB_UNIT_def)
    obtain s3 where s3: "slob_free page PAGE_SIZE s2 = Inr s3" "slob_rep s3 A (put_block page 256 bs)"
        "\<forall>q. q \<noteq> page \<longrightarrow> q \<notin> block_pages bs \<longrightarrow> slobs s3 q = slobs s2 q" "heap_frame s2 s3" "slob_only s2 s3"
      using slob_free_ok [OF rep2 pg(1), of 256 PAGE_SIZE] un pg(2) by (auto simp: PAGE_SIZE_def Int_commute)
    define bs3 where "bs3 = put_block page 256 bs"
    have bp3: "block_pages bs3 = {page..<page + 256} \<union> block_pages bs"
      using put_block_pages [OF slob_repD(3) [OF rep2], of 256 page] pg(2) by (simp add: bs3_def Int_commute)
    have u256: "?u \<le> 256" using sz by (simp add: SLOB_UNITS_def PAGE_SIZE_def SLOB_UNIT_def)
    have fit: "\<exists>(b, l) \<in> set bs3. ?u \<le> l" 
      using put_block_room [of page 256 bs] u256 unfolding bs3_def by (auto intro: le_trans)
    have rep3: "slob_rep (snd (intr_save s3)) A bs3" using s3(2) by (simp add: bs3_def)
    obtain r s' bs' where r: "slob_scan sz ?u 0 (slobfree (snd (intr_save s3))) (snext (snd (intr_save s3)) (slobfree (snd (intr_save s3))))
          (fst (intr_save s3)) (snd (intr_save s3)) = Some (Inr (r, intr_restore (fst (intr_save s3)) s'))"
        "slob_rep s' A bs'" "r \<noteq> NULL" "sl_units (slobs s' r) = ?u" "{r..<r + ?u} \<subseteq> block_pages bs3"
        "block_pages bs' = block_pages bs3 - {r..<r + ?u}" "\<forall>q. q \<notin> block_pages bs3 \<longrightarrow> slobs s' q = slobs (snd (intr_save s3)) q"
        "heap_frame (snd (intr_save s3)) s'" "slob_only (snd (intr_save s3)) s'"
      using slob_fit_ok [OF rep3 u fit, of sz "fst (intr_save s3)"] by blast
    define t where "t = intr_restore (fst (intr_save s3)) s'"
    have run': "slob_alloc sz 0 s = Inr (r, t)" using run g(1) False s3(1) r(1) by (simp add: t_def)
    have fr3: "heap_frame s3 t" unfolding t_def by (rule heap_frame_intr [OF _ r(8)]) simp
    have fr: "heap_frame s t" by (rule heap_frame_trans [OF heap_frame_trans [OF fr2 s3(4)] fr3])
    have only3: "slob_only s3 t" unfolding t_def
      by (rule slob_only_trans [OF slob_only_trans [OF slob_only_upd(3) r(9)] slob_only_upd(4)])
    have only: "slob_only s2 t" by (rule slob_only_trans [OF s3(5) only3])
    have "mem_ok t (F - {p})" using mem_ok_same [OF only heap_frame_trans [OF s3(4) fr3]] p(3) by simp
    moreover have pu: "page_units {p} = {page..<page + 256}" using p(2) by (simp add: units_per_page_def)
    moreover have bp': "block_pages bs' = block_pages bs \<union> page_units {p} - {r..<r + ?u}" using r(6) bp3 pu by auto
    moreover have "block_pages bs \<inter> page_units F = {}" using ok by (simp add: heap_ok_def)
    ultimately have hok: "heap_ok t A bs' (F - {p})" using ok r(2) unfolding heap_ok_def by (auto simp: t_def)
    have "slobs t q = slobs s q" if q: "q \<notin> block_pages bs \<union> page_units {p}" for q
    proof -
      have "q \<notin> block_pages bs3" "q \<noteq> page" "q \<notin> block_pages bs" using q bp3 pu by auto
      then show ?thesis using r(7) s3(3) ph(1) sl1(1) by (simp add: t_def)
    qed
    then have "\<forall>q. q \<notin> block_pages bs \<union> {page..<page + 256} \<longrightarrow> slobs t q = slobs s q" unfolding pu by blast
    then have "slob_alloc_post ?u A bs F s r t bs' {p}"
      using hok p(1) small r(3-5) bp' [unfolded pu] fr only big2 bp3 un2 slob_only_unreserved [OF only]
      unfolding slob_alloc_post_def pu slob_only_def by (simp add: t_def Un_commute)
    then show ?thesis using run' by blast
  qed
qed

lemma slob_alloc_ok:
  assumes "heap_ok s A bs F" "2 \<le> SLOB_UNITS sz" "sz + SLOB_UNIT < PAGE_SIZE"
  shows "\<exists>r s' bs' G. slob_alloc sz 0 s = Inr (r, s') \<and> slob_alloc_post (SLOB_UNITS sz) A bs F s r s' bs' G"
proof (cases "\<exists>(b, l) \<in> set bs. SLOB_UNITS sz \<le> l")
  case True
  then show ?thesis using slob_alloc_fit [OF assms] by blast
next
  case False
  then show ?thesis by (intro slob_alloc_grow [OF assms]) fastforce
qed

end
