(* ===== verification/Kmalloc.thy ===== *)
theory Kmalloc
  imports Slob_Alloc Page_Insert
begin

text \<open>
  \<open>kmalloc\<close> and \<open>kfree\<close> for small objects (the memory descriptors, areas and process records of the
  kernel): the interface \<open>object_heap\<close> of a heap with a set of live objects, and its interpretation
  on the SLOB allocator. Also the errors of \<open>kmalloc\<close>: the sizes its assertion refuses, and the order
  \<open>find_order\<close> computes for big blocks.
\<close>

section \<open>The interface\<close>

locale object_heap =
  fixes alloc :: "nat \<Rightarrow> 's \<Rightarrow> (ptr \<times> 's) outcome" and free :: "ptr \<Rightarrow> 's \<Rightarrow> 's outcome"
    and live :: "'s \<Rightarrow> ptr set \<Rightarrow> bool" and small :: "nat \<Rightarrow> bool" and frame :: "'s \<Rightarrow> 's \<Rightarrow> bool"
  assumes alloc_ok: "live s L \<Longrightarrow> small n \<Longrightarrow>
      \<exists>p s'. alloc n s = Inr (p, s') \<and> frame s s' \<and> (if p = NULL then live s' L else p \<notin> L \<and> live s' (insert p L))"
    and free_ok: "live s L \<Longrightarrow> p \<in> L \<Longrightarrow> \<exists>s'. free p s = Inr s' \<and> frame s s' \<and> live s' (L - {p})"
    and live_nonnull: "live s L \<Longrightarrow> NULL \<notin> L"
begin

lemma alloc_cases:
  assumes "live s L" "small n"
  obtains (none) s' where "alloc n s = Inr (NULL, s')" "frame s s'" "live s' L"
  | (some) p s' where "alloc n s = Inr (p, s')" "frame s s'" "p \<noteq> NULL" "p \<notin> L" "live s' (insert p L)"
  using alloc_ok [OF assms] by metis

text \<open>An object allocated and freed again leaves the live objects as they were.\<close>

lemma alloc_free:
  assumes "live s L" "small n" "alloc n s = Inr (p, s1)" "p \<noteq> NULL"
  shows "\<exists>s2. free p s1 = Inr s2 \<and> live s2 L"
proof -
  have p: "p \<notin> L" "live s1 (insert p L)" using alloc_ok [OF assms(1,2)] assms(3,4) by auto
  have "insert p L - {p} = L" using p(1) by blast
  then show ?thesis using free_ok [OF p(2), of p] by auto
qed

end

section \<open>Live objects\<close>

fun big_list :: "'a kheap_scheme \<Rightarrow> ptr \<Rightarrow> ptr list \<Rightarrow> bool" where
  "big_list s p [] \<longleftrightarrow> p = NULL"
| "big_list s p (b # xs) \<longleftrightarrow> p = b \<and> b \<noteq> NULL \<and> big_list s (bb_next (bbs s b)) xs"

lemma find_big_none:
  "big_list s p xs \<Longrightarrow> \<forall>b \<in> set xs. bb_pages (bbs s b) \<noteq> block \<Longrightarrow> find_big block lst p s = Some None"
  by (induction xs arbitrary: p lst) (subst find_big.simps; simp)+

lemma big_list_cong: "bbs s' = bbs s \<Longrightarrow> big_list s' p xs = big_list s p xs"
  by (induction xs arbitrary: p) auto

text \<open>The units of an object, its header included.\<close>

definition extent :: "'a kheap_scheme \<Rightarrow> ptr \<Rightarrow> nat set" where
  "extent s p = {p - 1..<p - 1 + sl_units (slobs s (p - 1))}"

definition live_objects :: "'a kheap_scheme \<Rightarrow> ptr \<Rightarrow> blocks \<Rightarrow> nat set \<Rightarrow> ptr list \<Rightarrow> ptr set \<Rightarrow> bool" where
  "live_objects s A bs F xs L \<longleftrightarrow> heap_ok s A bs F \<and> big_list s (bigblocks s) xs \<and>
     (\<forall>p \<in> L. A + 1 < p - 1 \<and> 2 \<le> sl_units (slobs s (p - 1)) \<and> extent s p \<inter> (block_pages bs \<union> page_units F) = {}) \<and>
     (\<forall>p \<in> L. \<forall>q \<in> L. p \<noteq> q \<longrightarrow> extent s p \<inter> extent s q = {}) \<and>
     (\<forall>b \<in> set xs. bb_pages (bbs s b) \<notin> block_pages bs \<union> page_units F \<union> (\<Union>p \<in> L. extent s p))"

definition heap_live :: "'a kheap_scheme \<Rightarrow> ptr set \<Rightarrow> bool" where
  "heap_live s L \<longleftrightarrow> (\<exists>A bs F xs. live_objects s A bs F xs L)"

definition small_object :: "nat \<Rightarrow> bool" where
  "small_object n \<longleftrightarrow> 0 < n \<and> n + 2 * SLOB_UNIT < PAGE_SIZE"

lemma live_objectsD:
  assumes "live_objects s A bs F xs L"
  shows "heap_ok s A bs F" "big_list s (bigblocks s) xs"
    "p \<in> L \<Longrightarrow> A + 1 < p - 1" "p \<in> L \<Longrightarrow> 2 \<le> sl_units (slobs s (p - 1))" "p \<in> L \<Longrightarrow> extent s p \<inter> (block_pages bs \<union> page_units F) = {}"
    "p \<in> L \<Longrightarrow> q \<in> L \<Longrightarrow> p \<noteq> q \<Longrightarrow> extent s p \<inter> extent s q = {}"
    "b \<in> set xs \<Longrightarrow> bb_pages (bbs s b) \<notin> block_pages bs \<union> page_units F \<union> (\<Union>p \<in> L. extent s p)"
  using assms unfolding live_objects_def by blast+

lemma extent_header: "2 \<le> sl_units (slobs s (p - 1)) \<Longrightarrow> p - 1 \<in> extent s p" "2 \<le> sl_units (slobs s (p - 1)) \<Longrightarrow> 0 < p \<Longrightarrow> p \<in> extent s p"
  by (auto simp: extent_def)

lemma kmalloc_keeps:
  assumes lv: "live_objects s A bs F xs L" and n: "small_object n"
  shows "\<exists>p s' bs' G. kmalloc n s = Inr (p, s') \<and> G \<subseteq> F \<and> heap_frame s s' \<and>
    (\<forall>q \<in> L. extent s' q = extent s q) \<and> (\<forall>q. unreserved s' q = unreserved s q) \<and> bbs s' = bbs s \<and>
    (if p = NULL then live_objects s' A bs' (F - G) xs L \<and> F = {} \<and> block_pages bs' = block_pages bs
     else p \<notin> L \<and> live_objects s' A bs' (F - G) xs (insert p L) \<and>
       extent s' p \<subseteq> block_pages bs \<union> page_units G \<and> SLOB_UNITS (n + SLOB_UNIT) = sl_units (slobs s' (p - 1)) \<and>
       block_pages bs' \<union> extent s' p = block_pages bs \<union> page_units G)"
proof -
  note D = live_objectsD [OF lv]
  let ?sz = "n + SLOB_UNIT"
  have sz: "?sz + SLOB_UNIT < PAGE_SIZE" "2 \<le> SLOB_UNITS ?sz" "n < PAGE_SIZE - SLOB_UNIT"
    using n by (auto simp: small_object_def SLOB_UNITS_def SLOB_UNIT_def PAGE_SIZE_def)
  obtain m s' bs' G where a: "slob_alloc ?sz 0 s = Inr (m, s')" "slob_alloc_post (SLOB_UNITS ?sz) A bs F s m s' bs' G"
    using slob_alloc_ok [OF D(1) sz(2,1)] by blast
  have post: "heap_ok s' A bs' (F - G)" "G \<subseteq> F" "\<forall>q. q \<notin> block_pages bs \<union> page_units G \<longrightarrow> slobs s' q = slobs s q"
    "heap_frame s s'" "bbs s' = bbs s" "bigblocks s' = bigblocks s" "\<forall>q. unreserved s' q = unreserved s q"
    using a(2) unfolding slob_alloc_post_def by blast+
  have run: "kmalloc n s = Inr (if m \<noteq> NULL then m + 1 else NULL, s')" using sz(3) a(1) by (simp add: kmalloc_def)
  have GF: "page_units G \<subseteq> page_units F" by (rule page_units_mono [OF post(2)])
  have old: "extent s' p = extent s p" "slobs s' (p - 1) = slobs s (p - 1)" if "p \<in> L" for p
  proof -
    have "p - 1 \<notin> block_pages bs \<union> page_units G" using D(4,5) [OF that] GF extent_header(1) by blast
    then show "slobs s' (p - 1) = slobs s (p - 1)" using post(3) by blast
    then show "extent s' p = extent s p" by (simp add: extent_def)
  qed
  have bl: "big_list s' (bigblocks s') xs" using D(2) post(5,6) big_list_cong by metis
  show ?thesis
  proof (cases "m = NULL")
    case True
    then have bp: "block_pages bs' = block_pages bs" "F = {}" using a(2) unfolding slob_alloc_post_def by auto
    have "live_objects s' A bs' (F - G) xs L"
      using D(3-7) post(1,5) bl old bp unfolding live_objects_def by (auto cong: SUP_cong)
    then show ?thesis using run True post(2,4,5,7) bp old(1) by (intro exI [of _ NULL] exI [of _ s'] exI [of _ bs'] exI [of _ G]) simp
  next
    case False
    then have m: "sl_units (slobs s' m) = SLOB_UNITS ?sz" "{m..<m + SLOB_UNITS ?sz} \<subseteq> block_pages bs \<union> page_units G"
        "block_pages bs' = block_pages bs \<union> page_units G - {m..<m + SLOB_UNITS ?sz}"
      using a(2) unfolding slob_alloc_post_def by auto
    have ext: "extent s' (m + 1) = {m..<m + SLOB_UNITS ?sz}" using m(1) by (simp add: extent_def)
    have inm: "m \<in> extent s' (m + 1)" "m + 1 \<in> extent s' (m + 1)" using sz(2) unfolding ext by auto
    have new: "m + 1 \<notin> L"
    proof
      assume "m + 1 \<in> L"
      then have "extent s (m + 1) \<inter> (block_pages bs \<union> page_units F) = {}" "m \<in> extent s (m + 1)"
        using D(5) extent_header(1) [of s "m + 1"] D(4) [of "m + 1"] by auto
      then show False using m(2) GF inm(1) unfolding ext by blast
    qed
    have disj: "extent s' (m + 1) \<inter> extent s' p = {}" if "p \<in> L" for p
      using D(5) [OF that] old(1) [OF that] m(2) GF unfolding ext by blast
    have top: "A + 1 < m"
    proof -
      have rep: "slob_rep s A bs" using D(1) by (simp add: heap_ok_def)
      obtain ys where ys: "bs = (A, 1) # ys" using slob_repD(1,2) [OF rep] by (cases bs) auto
      have "block_pages ys \<subseteq> {A + 1<..}" using slob_repD(3) [OF rep] ys by (intro block_pages_above) auto
      moreover have "page_units G \<subseteq> {A + 1<..}" using D(1) post(2) by (fastforce simp: heap_ok_def page_units_def)
      moreover have "m \<in> block_pages bs \<union> page_units G" "m + 1 \<in> block_pages bs \<union> page_units G" using m(2) inm unfolding ext by blast+
      ultimately have "m = A \<or> m > A + 1" "m + 1 = A \<or> m + 1 > A + 1" unfolding ys by auto
      then show ?thesis by auto
    qed
    have sep: "block_pages bs \<inter> page_units F = {}" using D(1) by (simp add: heap_ok_def)
    have sub: "block_pages bs' \<union> page_units (F - G) \<subseteq> block_pages bs \<union> page_units F" using m(3) GF by auto
    have fresh: "extent s' (m + 1) \<inter> (block_pages bs' \<union> page_units (F - G)) = {}"
      using m(2,3) sep GF unfolding ext page_units_Diff by blast
    have "live_objects s' A bs' (F - G) xs (insert (m + 1) L)"
      unfolding live_objects_def
    proof (intro conjI)
      show "heap_ok s' A bs' (F - G)" "big_list s' (bigblocks s') xs" by (rule post(1), rule bl)
      show "\<forall>p \<in> insert (m + 1) L. A + 1 < p - 1 \<and> 2 \<le> sl_units (slobs s' (p - 1)) \<and> extent s' p \<inter> (block_pages bs' \<union> page_units (F - G)) = {}"
      proof
        fix p assume "p \<in> insert (m + 1) L"
        then consider "p = m + 1" | "p \<in> L" by blast
        then show "A + 1 < p - 1 \<and> 2 \<le> sl_units (slobs s' (p - 1)) \<and> extent s' p \<inter> (block_pages bs' \<union> page_units (F - G)) = {}"
        proof cases
          case 1
          then show ?thesis using top m(1) sz(2) fresh by simp
        next
          case 2
          then show ?thesis using D(3-5) [OF 2] old [OF 2] sub by auto
        qed
      qed
      show "\<forall>p \<in> insert (m + 1) L. \<forall>q \<in> insert (m + 1) L. p \<noteq> q \<longrightarrow> extent s' p \<inter> extent s' q = {}"
        using disj D(6) old(1) by (metis Int_commute insertE)
      show "\<forall>b \<in> set xs. bb_pages (bbs s' b) \<notin> block_pages bs' \<union> page_units (F - G) \<union> (\<Union>p \<in> insert (m + 1) L. extent s' p)"
      proof
        fix b assume b: "b \<in> set xs"
        have "extent s' (m + 1) \<subseteq> block_pages bs \<union> page_units F" using m(2) GF unfolding ext by blast
        then show "bb_pages (bbs s' b) \<notin> block_pages bs' \<union> page_units (F - G) \<union> (\<Union>p \<in> insert (m + 1) L. extent s' p)"
          using D(7) [OF b] sub old(1) post(5) by auto
      qed
    qed
    moreover have "block_pages bs' \<union> extent s' (m + 1) = block_pages bs \<union> page_units G" using m(2,3) unfolding ext by blast
    moreover have "extent s' (m + 1) \<subseteq> block_pages bs \<union> page_units G" using m(2) unfolding ext .
    ultimately show ?thesis
      using run False new post(2,4,5,7) m(1) old(1) by (intro exI [of _ "m + 1"] exI [of _ s'] exI [of _ bs'] exI [of _ G]) simp
  qed
qed

lemma kmalloc_live:
  assumes "live_objects s A bs F xs L" "small_object n"
  shows "\<exists>p s' bs' G. kmalloc n s = Inr (p, s') \<and> G \<subseteq> F \<and> heap_frame s s' \<and>
    (if p = NULL then live_objects s' A bs' (F - G) xs L \<and> F = {}
     else p \<notin> L \<and> live_objects s' A bs' (F - G) xs (insert p L) \<and>
       extent s' p \<subseteq> block_pages bs \<union> page_units G \<and> SLOB_UNITS (n + SLOB_UNIT) = sl_units (slobs s' (p - 1)) \<and>
       block_pages bs' \<union> extent s' p = block_pages bs \<union> page_units G)"
proof -
  obtain p s' bs' G where k: "kmalloc n s = Inr (p, s')" "G \<subseteq> F" "heap_frame s s'"
    "if p = NULL then live_objects s' A bs' (F - G) xs L \<and> F = {} \<and> block_pages bs' = block_pages bs
     else p \<notin> L \<and> live_objects s' A bs' (F - G) xs (insert p L) \<and>
       extent s' p \<subseteq> block_pages bs \<union> page_units G \<and> SLOB_UNITS (n + SLOB_UNIT) = sl_units (slobs s' (p - 1)) \<and>
       block_pages bs' \<union> extent s' p = block_pages bs \<union> page_units G"
    using kmalloc_keeps [OF assms] by blast
  show ?thesis using k by (intro exI [of _ p] exI [of _ s'] exI [of _ bs'] exI [of _ G]) (auto split: if_splits)
qed

lemma kfree_live:
  assumes lv: "live_objects s A bs F xs L" and p: "p \<in> L"
  shows "\<exists>s' bs'. kfree p s = Inr s' \<and> live_objects s' A bs' F xs (L - {p}) \<and> block_pages bs' = block_pages bs \<union> extent s p \<and> heap_frame s s' \<and>
    (\<forall>q \<in> L - {p}. extent s' q = extent s q) \<and> (\<forall>q. unreserved s' q = unreserved s q) \<and> bbs s' = bbs s"
proof -
  note D = live_objectsD [OF lv]
  define b where "b = p - 1"
  define n where "n = sl_units (slobs s b)"
  have top: "A + 1 < b" and n: "2 \<le> n" using D(3,4) [OF p] by (simp_all add: b_def n_def)
  have p0: "p \<noteq> NULL" "p - 1 = b" "p = b + 1" using top by (auto simp: b_def)
  have ext: "extent s p = {b..<b + n}" by (simp add: extent_def b_def n_def)
  have big: "\<forall>c \<in> set xs. bb_pages (bbs s c) \<noteq> p"
  proof
    fix c assume "c \<in> set xs"
    then have "bb_pages (bbs s c) \<notin> extent s p" using D(7) p by blast
    moreover have "p \<in> extent s p" unfolding ext using n p0(3) by simp
    ultimately show "bb_pages (bbs s c) \<noteq> p" by metis
  qed
  text \<open>In both branches the object goes back to the free list in a state \<open>t\<close> that differs from \<open>s\<close> only in the status word.\<close>
  have "\<exists>t. kfree p s = slob_free b 0 t \<and> slobs t = slobs s \<and> heap_frame s t \<and> slob_only s t \<and> (\<forall>A bs. slob_rep t A bs = slob_rep s A bs)"
  proof (cases "p mod units_per_page = 0")
    case False
    then have "kfree p s = slob_free b 0 s" using p0 by (simp add: kfree_def)
    then show ?thesis by (intro exI [of _ s]) simp
  next
    case True
    obtain f s1 where i: "intr_save s = (f, s1)" by (cases "intr_save s")
    have s1: "s1 = snd (intr_save s)" using i by simp
    have "big_list s1 (bigblocks s1) xs" using D(2) big_list_cong [of s1 s] by (simp add: s1)
    then have "find_big p None (bigblocks s1) s1 = Some None" by (rule find_big_none) (use big in \<open>simp add: s1\<close>)
    then have "kfree p s = slob_free b 0 (intr_restore f s1)" using True p0 i by (simp add: kfree_def)
    moreover have "heap_frame s (intr_restore f s1)" by (rule heap_frame_intr [OF i heap_frame_refl])
    moreover have "slob_only s (intr_restore f s1)" using slob_only_trans [OF slob_only_upd(3) [of s] slob_only_upd(4)] by (simp add: s1)
    ultimately show ?thesis by (intro exI [of _ "intr_restore f s1"]) (simp add: s1)
  qed
  then obtain t where t: "kfree p s = slob_free b 0 t" "slobs t = slobs s" "heap_frame s t" "slob_only s t" "slob_rep t A bs = slob_rep s A bs"
    by blast
  have rep: "slob_rep t A bs" using D(1) t(5) by (simp add: heap_ok_def)
  have dj: "{b..<b + n} \<inter> block_pages bs = {}" "{b..<b + n} \<inter> page_units F = {}" using D(5) [OF p] unfolding ext by blast+
  have nn: "n = (if (0 :: nat) \<noteq> 0 then SLOB_UNITS 0 else sl_units (slobs t b))" "0 < n" using n by (simp_all add: n_def t(2))
  obtain s' where s': "slob_free b 0 t = Inr s'" "slob_rep s' A (put_block b n bs)"
      "\<forall>q. q \<noteq> b \<longrightarrow> q \<notin> block_pages bs \<longrightarrow> slobs s' q = slobs t q" "heap_frame t s'" "slob_only t s'"
    using slob_free_ok [OF rep top nn dj(1)] by blast
  define bs' where "bs' = put_block b n bs"
  have bp: "block_pages bs' = {b..<b + n} \<union> block_pages bs"
    using put_block_pages [OF slob_repD(3) [OF rep] nn(2) dj(1)] by (simp add: bs'_def)
  have fr: "heap_frame s s'" by (rule heap_frame_trans [OF t(3) s'(4)])
  have only: "slob_only s s'" by (rule slob_only_trans [OF t(4) s'(5)])
  have bbs: "bbs s' = bbs s" "bigblocks s' = bigblocks s" using only by (simp_all add: slob_only_def)
  have old: "extent s' q = extent s q" "slobs s' (q - 1) = slobs s (q - 1)" if "q \<in> L - {p}" for q
  proof -
    have q: "q \<in> L" "q \<noteq> p" using that by auto
    have h: "q - 1 \<in> extent s q" by (rule extent_header(1) [OF D(4) [OF q(1)]])
    have "extent s q \<inter> extent s p = {}" by (rule D(6) [OF q(1) p q(2)])
    moreover have "b \<in> extent s p" using n unfolding ext by simp
    ultimately have "q - 1 \<noteq> b" "q - 1 \<notin> block_pages bs" using h D(5) [OF q(1)] by blast+
    then show "slobs s' (q - 1) = slobs s (q - 1)" using s'(3) t(2) by simp
    then show "extent s' q = extent s q" by (simp add: extent_def)
  qed
  have "live_objects s' A bs' F xs (L - {p})"
    unfolding live_objects_def
  proof (intro conjI)
    have "mem_ok s' F" using mem_ok_same [OF only fr] D(1) by (simp add: heap_ok_def)
    then show "heap_ok s' A bs' F" using D(1) s'(2) dj bp unfolding heap_ok_def bs'_def by blast
    show "big_list s' (bigblocks s') xs" using D(2) bbs big_list_cong by metis
    show "\<forall>q \<in> L - {p}. A + 1 < q - 1 \<and> 2 \<le> sl_units (slobs s' (q - 1)) \<and> extent s' q \<inter> (block_pages bs' \<union> page_units F) = {}"
    proof
      fix q assume q: "q \<in> L - {p}"
      then have "q \<in> L" "extent s q \<inter> extent s p = {}" using D(6) [OF _ p] by auto
      then show "A + 1 < q - 1 \<and> 2 \<le> sl_units (slobs s' (q - 1)) \<and> extent s' q \<inter> (block_pages bs' \<union> page_units F) = {}"
        using D(3-5) [of q] unfolding old [OF q] bp ext by auto
    qed
    show "\<forall>q \<in> L - {p}. \<forall>r \<in> L - {p}. q \<noteq> r \<longrightarrow> extent s' q \<inter> extent s' r = {}" using old(1) D(6) by simp
    show "\<forall>c \<in> set xs. bb_pages (bbs s' c) \<notin> block_pages bs' \<union> page_units F \<union> (\<Union>q \<in> L - {p}. extent s' q)"
    proof
      fix c assume c: "c \<in> set xs"
      have "(\<Union>q \<in> L - {p}. extent s' q) = (\<Union>q \<in> L - {p}. extent s q)" using old(1) by simp
      then show "bb_pages (bbs s' c) \<notin> block_pages bs' \<union> page_units F \<union> (\<Union>q \<in> L - {p}. extent s' q)"
        using D(7) [OF c] p unfolding bbs bp ext [symmetric] by auto
    qed
  qed
  moreover have "block_pages bs' = block_pages bs \<union> extent s p" using bp ext by auto
  ultimately show ?thesis using t(1) s'(1) fr old(1) slob_only_unreserved [OF only] bbs(1) by (intro exI [of _ s'] exI [of _ bs']) simp
qed

lemma heap_live_nonnull: "heap_live s L \<Longrightarrow> NULL \<notin> L"
  using live_objectsD(3) unfolding heap_live_def by (metis diff_is_0_eq' le_add1 le_numeral_extra(3) not_less0 zero_le)

interpretation kheap: object_heap kmalloc kfree heap_live small_object heap_frame
proof unfold_locales
  fix s :: "'a kheap_scheme" and L n
  assume "heap_live s L" "small_object n"
  then show "\<exists>p s'. kmalloc n s = Inr (p, s') \<and> heap_frame s s' \<and> (if p = NULL then heap_live s' L else p \<notin> L \<and> heap_live s' (insert p L))"
    unfolding heap_live_def using kmalloc_live [of s _ _ _ _ L n] by (metis (full_types))
next
  fix s :: "'a kheap_scheme" and L p
  assume "heap_live s L" "p \<in> L"
  then show "\<exists>s'. kfree p s = Inr s' \<and> heap_frame s s' \<and> heap_live s' (L - {p})"
    unfolding heap_live_def using kfree_live [of s _ _ _ _ L p] by blast
qed (rule heap_live_nonnull)

text \<open>Only the state of the allocators matters.\<close>

lemma live_objects_cong:
  assumes "slobs s' = slobs s" "slobfree s' = slobfree s" "bbs s' = bbs s" "bigblocks s' = bigblocks s"
    "pages s' = pages s" "page_links s' = page_links s" "nr_free s' = nr_free s" "npage s' = npage s"
  shows "live_objects s' A bs F xs L = live_objects s A bs F xs L" "heap_live s' L = heap_live s L"
proof -
  have m: "mem_ok s' F = mem_ok s F" for F
    using assms by (simp add: mem_ok_def free_set_def free_rep_def PageProperty_def unreserved_def PageReserved_def)
  have r: "slob_rep s' A bs = slob_rep s A bs" for A bs using assms by (simp add: slob_rep_def)
  have e: "extent s' p = extent s p" for p using assms by (simp add: extent_def)
  have b: "big_list s' p xs = big_list s p xs" for p xs by (rule big_list_cong [OF assms(3)])
  show l: "live_objects s' A bs F xs L = live_objects s A bs F xs L" for A bs F xs
    unfolding live_objects_def heap_ok_def m r e b assms by (rule refl)
  show "heap_live s' L = heap_live s L" unfolding heap_live_def l by (rule refl)
qed

section \<open>A concrete heap\<close>

text \<open>The memory of \<open>demo_mem\<close>; the free list holds only the arena, at unit 1.\<close>

definition demo_heap :: kheap where
  "demo_heap = mem.extend demo_mem (kheap.fields (\<lambda>_. \<lparr>sl_units = 1, sl_next = 1\<rparr>) 1
     (\<lambda>_. \<lparr>bb_order = 0, bb_pages = 0, bb_next = 0\<rparr>) NULL)"

lemma demo_heap_simps [simp]:
  "phys demo_heap = (\<lambda>_ _. 0)" "npage demo_heap = 100" "slobs demo_heap = (\<lambda>_. \<lparr>sl_units = 1, sl_next = 1\<rparr>)"
  "slobfree demo_heap = 1" "bigblocks demo_heap = NULL" "pages demo_heap = pages demo_mem"
  "page_links demo_heap = page_links demo_mem" "nr_free demo_heap = nr_free demo_mem"
  by (simp_all add: demo_heap_def mem.defs kheap.defs demo_mem_def pmm.defs)

lemma demo_heap_mem: "mem_ok demo_heap F \<longleftrightarrow> mem_ok demo_mem F"
  by (simp add: mem_ok_def free_set_def free_rep_def PageProperty_def unreserved_def PageReserved_def)

lemma demo_heap_live: "live_objects demo_heap 1 [(1, 1)] ({10..<14} \<union> {30..<38}) [] {}"
proof -
  have "slob_rep demo_heap 1 [(1, 1)]" by (simp add: slob_rep_def)
  moreover have "block_pages [(1, 1)] \<inter> page_units ({10..<14} \<union> {30..<38}) = {}" by (auto simp: page_units_iff)
  ultimately show ?thesis using demo_mem_ok by (auto simp: live_objects_def heap_ok_def demo_heap_mem units_per_page_def)
qed

section \<open>Properties\<close>

text \<open>C28: \<open>kmalloc\<close> of a small object fails only when the page allocator is empty. Otherwise the object is none of
  the live ones and its memory was free; \<open>kfree\<close> succeeds on it and gives all of it back, and the heap keeps its
  invariant: a sorted ring of separated free blocks, disjoint from the live objects, the big blocks and the free pages.\<close>
theorem kmalloc_kfree:
  assumes "live_objects s A bs F xs L" "small_object n"
  shows "\<exists>p s1. kmalloc n s = Inr (p, s1) \<and> (p = NULL \<longrightarrow> F = {}) \<and>
    (p \<noteq> NULL \<longrightarrow> p \<notin> L \<and> (\<exists>G \<subseteq> F. \<exists>bs1 bs2 s2. live_objects s1 A bs1 (F - G) xs (insert p L) \<and>
       extent s1 p \<subseteq> block_pages bs \<union> page_units G \<and> sl_units (slobs s1 (p - 1)) = SLOB_UNITS (n + SLOB_UNIT) \<and>
       kfree p s1 = Inr s2 \<and> live_objects s2 A bs2 (F - G) xs L \<and> block_pages bs2 = block_pages bs \<union> page_units G))"
proof -
  obtain p s1 bs1 G where a: "kmalloc n s = Inr (p, s1)" "G \<subseteq> F"
    "if p = NULL then live_objects s1 A bs1 (F - G) xs L \<and> F = {}
     else p \<notin> L \<and> live_objects s1 A bs1 (F - G) xs (insert p L) \<and>
       extent s1 p \<subseteq> block_pages bs \<union> page_units G \<and> SLOB_UNITS (n + SLOB_UNIT) = sl_units (slobs s1 (p - 1)) \<and>
       block_pages bs1 \<union> extent s1 p = block_pages bs \<union> page_units G"
    using kmalloc_live [OF assms] by blast
  show ?thesis
  proof (cases "p = NULL")
    case True
    then show ?thesis using a by auto
  next
    case False
    then have b: "p \<notin> L" "live_objects s1 A bs1 (F - G) xs (insert p L)" "extent s1 p \<subseteq> block_pages bs \<union> page_units G"
       "sl_units (slobs s1 (p - 1)) = SLOB_UNITS (n + SLOB_UNIT)" "block_pages bs1 \<union> extent s1 p = block_pages bs \<union> page_units G"
      using a(3) by auto
    have "insert p L - {p} = L" using b(1) by blast
    then obtain s2 bs2 where "kfree p s1 = Inr s2" "live_objects s2 A bs2 (F - G) xs L" "block_pages bs2 = block_pages bs1 \<union> extent s1 p"
      using kfree_live [OF b(2), of p] by auto
    then have "\<exists>bs1 bs2 s2. live_objects s1 A bs1 (F - G) xs (insert p L) \<and> extent s1 p \<subseteq> block_pages bs \<union> page_units G \<and>
        sl_units (slobs s1 (p - 1)) = SLOB_UNITS (n + SLOB_UNIT) \<and> kfree p s1 = Inr s2 \<and>
        live_objects s2 A bs2 (F - G) xs L \<and> block_pages bs2 = block_pages bs \<union> page_units G"
      using b by blast
    then show ?thesis using a(1,2) b(1) False by blast
  qed
qed

theorem kmalloc_kfree_witness:
  "\<exists>p s1. kmalloc 100 demo_heap = Inr (p, s1) \<and> p \<noteq> NULL \<and> sl_units (slobs s1 (p - 1)) = 8 \<and> (\<exists>s2. kfree p s1 = Inr s2)"
proof -
  have "small_object 100" by (simp add: small_object_def SLOB_UNIT_def PAGE_SIZE_def)
  moreover have "({10..<14} \<union> {30..<38} :: nat set) \<noteq> {}" by auto
  moreover have "SLOB_UNITS (100 + SLOB_UNIT) = 8" by (simp add: SLOB_UNITS_def SLOB_UNIT_def)
  ultimately show ?thesis using kmalloc_kfree [OF demo_heap_live, of 100] by metis
qed

text \<open>The sizes 4064 to 4079 are below the limit for small objects but, with the header, fail the assertion of
  \<open>slob_alloc\<close>: \<open>kmalloc\<close> stops the kernel.\<close>
theorem kmalloc_refuses:
  assumes "4064 \<le> n" "n < 4080"
  shows "kmalloc n s = Inl (Assert_failed ''(size + SLOB_UNIT) < PAGE_SIZE'')"
  using assms by (simp add: kmalloc_def slob_alloc_def PAGE_SIZE_def SLOB_UNIT_def)

theorem kmalloc_refuses_witness: "kmalloc 4070 demo_heap = Inl (Assert_failed ''(size + SLOB_UNIT) < PAGE_SIZE'')"
  by (rule kmalloc_refuses) simp_all

lemma find_order_bound: "sz < 4096 * 2 ^ find_order sz + 2 ^ find_order sz"
proof (induction sz rule: find_order.induct)
  case (1 sz)
  show ?case
  proof (cases "sz > 4096")
    case False
    then have "find_order sz = 0" by (subst find_order.simps) simp
    then show ?thesis using False by simp
  next
    case True
    have f: "find_order sz = find_order (sz div 2) + 1" using True by (subst find_order.simps) simp
    have "sz div 2 < 4096 * 2 ^ find_order (sz div 2) + 2 ^ find_order (sz div 2)" using 1 True by simp
    then show ?thesis unfolding f power_add power_one_right by linarith
  qed
qed

text \<open>\<open>find_order\<close> rounds down: the block of \<open>2 ^ find_order sz\<close> pages is too small exactly for the sizes
  \<open>4096 * 2 ^ k + r\<close> with \<open>0 < r < 2 ^ k\<close> (such as 8193, for which \<open>kmalloc\<close> returns two pages), and then by at most \<open>2 ^ k - 1\<close> bytes.\<close>
theorem find_order_short:
  "(4096 * 2 ^ find_order sz < sz \<longleftrightarrow> (\<exists>k r. 0 < r \<and> r < 2 ^ k \<and> sz = 4096 * 2 ^ k + r)) \<and> sz < 4096 * 2 ^ find_order sz + 2 ^ find_order sz"
proof -
  have up: "sz < 4096 * 2 ^ find_order sz + 2 ^ find_order sz"
    by (rule find_order_bound)
  have ord: "find_order (4096 * 2 ^ k + r) = k" if "0 \<le> r" "r < 2 ^ k" for k r
    using that
  proof (induction k arbitrary: r)
    case 0
    then show ?case by (subst find_order.simps) simp
  next
    case (Suc k)
    have "(4096 * 2 ^ Suc k + r) div 2 = 4096 * 2 ^ k + r div 2" by simp
    moreover have "r div 2 < 2 ^ k" "0 \<le> r div 2" using Suc.prems by simp_all
    moreover have "(4096 :: int) < 4096 * 2 ^ Suc k + r"
    proof -
      have "(1 :: int) \<le> 2 ^ k" by simp
      then show ?thesis unfolding power_Suc using Suc.prems(1) by linarith
    qed
    ultimately show ?case using Suc.IH by (subst find_order.simps) simp
  qed
  show ?thesis
  proof (intro conjI iffI)
    assume a: "4096 * 2 ^ find_order sz < sz"
    show "\<exists>k r. 0 < r \<and> r < 2 ^ k \<and> sz = 4096 * 2 ^ k + r"
      using a up by (intro exI [of _ "find_order sz"] exI [of _ "sz - 4096 * 2 ^ find_order sz"]) simp
  next
    assume "\<exists>k r. 0 < r \<and> r < 2 ^ k \<and> sz = 4096 * 2 ^ k + r"
    then show "4096 * 2 ^ find_order sz < sz" using ord by force
  qed (rule up)
qed

end
