(* ===== verification/Atomic_Bits.thy ===== *)
theory Atomic_Bits
  imports Prelude
begin

text \<open>
  The bit operations of libs/atomic.h on an array of 64-bit words. Each is one atomic memory
  instruction, hence one step; together they implement a set of bit numbers.
\<close>

type_synonym words = "nat \<Rightarrow> 64 word"

definition BITS_PER_LONG :: nat where "BITS_PER_LONG = 64"
definition BIT_MASK :: "nat \<Rightarrow> 64 word" where "BIT_MASK nr = push_bit (nr mod BITS_PER_LONG) 1"
definition BIT_WORD :: "nat \<Rightarrow> nat" where "BIT_WORD nr = nr div BITS_PER_LONG"

text \<open>\<open>__op_bit\<close> and \<open>__test_and_op_bit\<close>: the second also returns whether the old word had the bit.\<close>

definition op_bit :: "(64 word \<Rightarrow> 64 word \<Rightarrow> 64 word) \<Rightarrow> (64 word \<Rightarrow> 64 word) \<Rightarrow> nat \<Rightarrow> words \<Rightarrow> words" where
  "op_bit f modf nr a = a(BIT_WORD nr := f (a (BIT_WORD nr)) (modf (BIT_MASK nr)))"

definition test_and_op_bit :: "(64 word \<Rightarrow> 64 word \<Rightarrow> 64 word) \<Rightarrow> (64 word \<Rightarrow> 64 word) \<Rightarrow> nat \<Rightarrow> words \<Rightarrow> bool \<times> words" where
  "test_and_op_bit f modf nr a = (let res = a (BIT_WORD nr) in (res AND BIT_MASK nr \<noteq> 0, op_bit f modf nr a))"

definition set_bit_at :: "nat \<Rightarrow> words \<Rightarrow> words" where
  "set_bit_at nr a = op_bit (OR) (\<lambda>x. x) nr a"

definition clear_bit :: "nat \<Rightarrow> words \<Rightarrow> words" where
  "clear_bit nr a = op_bit (AND) NOT nr a"

definition change_bit :: "nat \<Rightarrow> words \<Rightarrow> words" where
  "change_bit nr a = op_bit (XOR) (\<lambda>x. x) nr a"

text \<open>\<open>test_bit\<close> reads the first word only; a shift by 64 or more is undefined.\<close>

definition test_bit :: "nat \<Rightarrow> words \<Rightarrow> bool outcome" where
  "test_bit nr a = (if nr < BITS_PER_LONG then Inr (drop_bit nr (a 0) AND 1 \<noteq> 0) else Inl (Undefined ''shift''))"

definition test_and_set_bit :: "nat \<Rightarrow> words \<Rightarrow> bool \<times> words" where
  "test_and_set_bit nr a = test_and_op_bit (OR) (\<lambda>x. x) nr a"

definition test_and_clear_bit :: "nat \<Rightarrow> words \<Rightarrow> bool \<times> words" where
  "test_and_clear_bit nr a = test_and_op_bit (AND) NOT nr a"

text \<open>The abstraction: the numbers of the bits that are set.\<close>

definition bits :: "words \<Rightarrow> nat set" where
  "bits a = {nr. bit (a (nr div 64)) (nr mod 64)}"

lemma bit_BIT_MASK: "bit (BIT_MASK nr) k \<longleftrightarrow> k = nr mod 64"
  by (auto simp: BIT_MASK_def BITS_PER_LONG_def bit_simps bit_1_iff)

lemma same_bit: "m div 64 = n div 64 \<Longrightarrow> m mod 64 = n mod 64 \<longleftrightarrow> m = n" for m n :: nat
  by (metis div_mod_decomp)

lemma BIT_MASK_test: "w AND BIT_MASK nr \<noteq> 0 \<longleftrightarrow> bit w (nr mod 64)"
proof -
  have "w AND BIT_MASK nr \<noteq> 0 \<longleftrightarrow> (\<exists>k. bit (w AND BIT_MASK nr) k)" by (metis bit_0_eq bit_eqI bot_apply bot_bool_def)
  then show ?thesis by (auto simp: bit_and_iff bit_BIT_MASK)
qed

text \<open>The bit operations refine operations on a set of bit numbers, whatever word the bit lies in: set, clear and toggle
  change membership of that one bit, the test-and-modify operations also return the old membership, and \<open>test_bit\<close>
  agrees for the bits of the first word.\<close>
theorem bit_ops_refine_set:
  "bits (set_bit_at nr a) = insert nr (bits a) \<and> bits (clear_bit nr a) = bits a - {nr} \<and>
   bits (change_bit nr a) = (if nr \<in> bits a then bits a - {nr} else insert nr (bits a)) \<and>
   test_and_set_bit nr a = (nr \<in> bits a, set_bit_at nr a) \<and> test_and_clear_bit nr a = (nr \<in> bits a, clear_bit nr a) \<and>
   test_bit nr a = (if nr < 64 then Inr (nr \<in> bits a) else Inl (Undefined ''shift''))"
proof (intro conjI)
  have same: "n div 64 = nr div 64 \<Longrightarrow> n mod 64 = nr mod 64 \<longleftrightarrow> n = nr" for n by (rule same_bit)
  have lt: "n mod 64 < LENGTH(64)" for n :: nat by simp
  show "bits (set_bit_at nr a) = insert nr (bits a)"
    using same by (auto simp: bits_def set_bit_at_def op_bit_def BIT_WORD_def BITS_PER_LONG_def bit_or_iff bit_BIT_MASK)
  show "bits (clear_bit nr a) = bits a - {nr}"
    using same lt by (auto simp: bits_def clear_bit_def op_bit_def BIT_WORD_def BITS_PER_LONG_def bit_and_iff bit_not_iff bit_BIT_MASK)
  show "bits (change_bit nr a) = (if nr \<in> bits a then bits a - {nr} else insert nr (bits a))"
    using same by (auto simp: bits_def change_bit_def op_bit_def BIT_WORD_def BITS_PER_LONG_def bit_xor_iff bit_BIT_MASK)
  show "test_and_set_bit nr a = (nr \<in> bits a, set_bit_at nr a)" "test_and_clear_bit nr a = (nr \<in> bits a, clear_bit nr a)"
    by (simp_all add: test_and_set_bit_def test_and_clear_bit_def test_and_op_bit_def BIT_MASK_test set_bit_at_def clear_bit_def bits_def
      BIT_WORD_def BITS_PER_LONG_def Let_def)
  have "drop_bit nr (a 0) AND 1 \<noteq> 0 \<longleftrightarrow> bit (a 0) nr"
    by (simp add: and_one_eq odd_iff_mod_2_eq_one [symmetric] bit_iff_odd_drop_bit)
  then show "test_bit nr a = (if nr < 64 then Inr (nr \<in> bits a) else Inl (Undefined ''shift''))"
    by (simp add: test_bit_def BITS_PER_LONG_def bits_def)
qed

end
