(* ===== verification/Strings.thy ===== *)
theory Strings
  imports Prelude
begin

text \<open>
  libs/string.c on a byte memory: the address space is a function from 64-bit addresses to bytes,
  and addresses wrap around as in C. The loops that look for a terminating NUL are partial: on a
  memory without one they do not return.
\<close>

type_synonym bytes = "64 word \<Rightarrow> 8 word"

definition ch8 :: "char \<Rightarrow> 8 word" where "ch8 c = of_char c"

section \<open>The functions\<close>

partial_function (option) strlen_loop :: "bytes \<Rightarrow> 64 word \<Rightarrow> 64 word \<Rightarrow> 64 word option" where
  "strlen_loop m s cnt = (if m s \<noteq> 0 then strlen_loop m (s + 1) (cnt + 1) else Some cnt)"

definition strlen :: "bytes \<Rightarrow> 64 word \<Rightarrow> 64 word outcome" where
  "strlen m s = returns (strlen_loop m s 0)"

fun strnlen :: "bytes \<Rightarrow> 64 word \<Rightarrow> nat \<Rightarrow> nat" where
  "strnlen m s 0 = 0"
| "strnlen m s (Suc len) = (if m s \<noteq> 0 then Suc (strnlen m (s + 1) len) else 0)"

partial_function (option) strcpy_loop :: "64 word \<Rightarrow> 64 word \<Rightarrow> bytes \<Rightarrow> bytes option" where
  "strcpy_loop p src m = (let c = m src; m1 = m(p := c) in if c \<noteq> 0 then strcpy_loop (p + 1) (src + 1) m1 else Some m1)"

definition strcpy :: "64 word \<Rightarrow> 64 word \<Rightarrow> bytes \<Rightarrow> (64 word \<times> bytes) outcome" where
  "strcpy dst src m = obind (returns (strcpy_loop dst src m)) (\<lambda>m1. Inr (dst, m1))"

fun strncpy_loop :: "64 word \<Rightarrow> 64 word \<Rightarrow> nat \<Rightarrow> bytes \<Rightarrow> bytes" where
  "strncpy_loop p src 0 m = m"
| "strncpy_loop p src (Suc len) m =
     (let c = m src; m1 = m(p := c) in strncpy_loop (p + 1) (if c \<noteq> 0 then src + 1 else src) len m1)"

definition strncpy :: "64 word \<Rightarrow> 64 word \<Rightarrow> nat \<Rightarrow> bytes \<Rightarrow> 64 word \<times> bytes" where
  "strncpy dst src len m = (dst, strncpy_loop dst src len m)"

partial_function (option) strcmp_loop :: "bytes \<Rightarrow> 64 word \<Rightarrow> 64 word \<Rightarrow> int option" where
  "strcmp_loop m s1 s2 = (if m s1 \<noteq> 0 \<and> m s1 = m s2 then strcmp_loop m (s1 + 1) (s2 + 1) else Some (uint (m s1) - uint (m s2)))"

definition strcmp :: "bytes \<Rightarrow> 64 word \<Rightarrow> 64 word \<Rightarrow> int outcome" where
  "strcmp m s1 s2 = returns (strcmp_loop m s1 s2)"

fun strncmp :: "bytes \<Rightarrow> 64 word \<Rightarrow> 64 word \<Rightarrow> nat \<Rightarrow> int" where
  "strncmp m s1 s2 0 = 0"
| "strncmp m s1 s2 (Suc n) = (if m s1 \<noteq> 0 \<and> m s1 = m s2 then strncmp m (s1 + 1) (s2 + 1) n else uint (m s1) - uint (m s2))"

text \<open>\<open>strchr\<close> returns NULL, here 0, when the character does not occur; \<open>strfind\<close> the end of the string.\<close>

partial_function (option) strchr_loop :: "bytes \<Rightarrow> 64 word \<Rightarrow> 8 word \<Rightarrow> 64 word option" where
  "strchr_loop m s c = (if m s \<noteq> 0 then if m s = c then Some s else strchr_loop m (s + 1) c else Some 0)"

definition strchr :: "bytes \<Rightarrow> 64 word \<Rightarrow> 8 word \<Rightarrow> 64 word outcome" where
  "strchr m s c = returns (strchr_loop m s c)"

partial_function (option) strfind_loop :: "bytes \<Rightarrow> 64 word \<Rightarrow> 8 word \<Rightarrow> 64 word option" where
  "strfind_loop m s c = (if m s \<noteq> 0 then if m s = c then Some s else strfind_loop m (s + 1) c else Some s)"

definition strfind :: "bytes \<Rightarrow> 64 word \<Rightarrow> 8 word \<Rightarrow> 64 word outcome" where
  "strfind m s c = returns (strfind_loop m s c)"

text \<open>\<open>strtol\<close>: blanks, a sign, a prefix, then digits; the value wraps around.\<close>

partial_function (option) skip_blanks :: "bytes \<Rightarrow> 64 word \<Rightarrow> 64 word option" where
  "skip_blanks m s = (if m s = ch8 CHR '' '' \<or> m s = 9 then skip_blanks m (s + 1) else Some s)"

definition digit_of :: "8 word \<Rightarrow> int option" where
  "digit_of c =
     (if ch8 CHR ''0'' \<le> c \<and> c \<le> ch8 CHR ''9'' then Some (uint c - uint (ch8 CHR ''0''))
      else if ch8 CHR ''a'' \<le> c \<and> c \<le> ch8 CHR ''z'' then Some (uint c - uint (ch8 CHR ''a'') + 10)
      else if ch8 CHR ''A'' \<le> c \<and> c \<le> ch8 CHR ''Z'' then Some (uint c - uint (ch8 CHR ''A'') + 10)
      else None)"

partial_function (option) strtol_digits :: "bytes \<Rightarrow> 64 word \<Rightarrow> int \<Rightarrow> 64 word \<Rightarrow> (64 word \<times> 64 word) option" where
  "strtol_digits m s base val = (case digit_of (m s) of
     None \<Rightarrow> Some (val, s)
   | Some dig \<Rightarrow> if dig \<ge> base then Some (val, s) else strtol_digits m (s + 1) base (val * of_int base + of_int dig))"

definition strtol :: "bytes \<Rightarrow> 64 word \<Rightarrow> int \<Rightarrow> (64 word \<times> 64 word) outcome" where
  "strtol m s base = obind (returns (skip_blanks m s)) (\<lambda>s.
     let (neg, s) = (if m s = ch8 CHR ''+'' then (False, s + 1) else if m s = ch8 CHR ''-'' then (True, s + 1) else (False, s));
         (base, s) = (if (base = 0 \<or> base = 16) \<and> m s = ch8 CHR ''0'' \<and> m (s + 1) = ch8 CHR ''x'' then (16, s + 2)
                      else if base = 0 \<and> m s = ch8 CHR ''0'' then (8, s + 1)
                      else if base = 0 then (10, s) else (base, s))
     in obind (returns (strtol_digits m s base 0)) (\<lambda>(val, s). Inr (if neg then - val else val, s)))"

fun memset :: "64 word \<Rightarrow> 8 word \<Rightarrow> nat \<Rightarrow> bytes \<Rightarrow> bytes" where
  "memset p c 0 m = m"
| "memset p c (Suc n) m = memset (p + 1) c n (m(p := c))"

text \<open>\<open>memcpy\<close>, and the forward loop of \<open>memmove\<close>; then its backward loop.\<close>

fun memcpy :: "64 word \<Rightarrow> 64 word \<Rightarrow> nat \<Rightarrow> bytes \<Rightarrow> bytes" where
  "memcpy d s 0 m = m"
| "memcpy d s (Suc n) m = memcpy (d + 1) (s + 1) n (m(d := m s))"

fun copy_back :: "64 word \<Rightarrow> 64 word \<Rightarrow> nat \<Rightarrow> bytes \<Rightarrow> bytes" where
  "copy_back d s 0 m = m"
| "copy_back d s (Suc n) m = copy_back (d - 1) (s - 1) n (m(d - 1 := m (s - 1)))"

definition memmove :: "64 word \<Rightarrow> 64 word \<Rightarrow> nat \<Rightarrow> bytes \<Rightarrow> bytes" where
  "memmove dst src n m = (if src < dst \<and> src + of_nat n > dst then copy_back (dst + of_nat n) (src + of_nat n) n m
     else memcpy dst src n m)"

fun memcmp :: "bytes \<Rightarrow> 64 word \<Rightarrow> 64 word \<Rightarrow> nat \<Rightarrow> int" where
  "memcmp m s1 s2 0 = 0"
| "memcmp m s1 s2 (Suc n) = (if m s1 \<noteq> m s2 then uint (m s1) - uint (m s2) else memcmp m (s1 + 1) (s2 + 1) n)"

declare strlen_loop.simps [code] strcpy_loop.simps [code] strcmp_loop.simps [code] strchr_loop.simps [code]
  strfind_loop.simps [code] skip_blanks.simps [code] strtol_digits.simps [code]

section \<open>Strings in memory\<close>

text \<open>\<open>cstring m s xs\<close>: the bytes \<open>xs\<close>, none of them NUL, lie at \<open>s\<close>, followed by a NUL.\<close>

fun cstring :: "bytes \<Rightarrow> 64 word \<Rightarrow> 8 word list \<Rightarrow> bool" where
  "cstring m s [] \<longleftrightarrow> m s = 0"
| "cstring m s (x # xs) \<longleftrightarrow> m s = x \<and> x \<noteq> 0 \<and> cstring m (s + 1) xs"

lemma cstring_nonzero: "cstring m s xs \<Longrightarrow> x \<in> set xs \<Longrightarrow> x \<noteq> 0"
  by (induction xs arbitrary: s) auto

lemma strlen_loop_ok: "cstring m s xs \<Longrightarrow> strlen_loop m s cnt = Some (cnt + of_nat (length xs))"
proof (induction xs arbitrary: s cnt)
  case Nil
  then show ?case by (subst strlen_loop.simps) simp
next
  case (Cons x xs)
  then show ?case by (subst strlen_loop.simps) (simp add: algebra_simps)
qed

lemma strlen_ok: "cstring m s xs \<Longrightarrow> strlen m s = Inr (of_nat (length xs))"
  by (simp add: strlen_def strlen_loop_ok)

lemma strnlen_ok: "cstring m s xs \<Longrightarrow> strnlen m s n = min n (length xs)"
proof (induction m s n arbitrary: xs rule: strnlen.induct)
  case (2 m s len)
  then show ?case by (cases xs) auto
qed simp

lemma byte_pos [simp]: "x \<noteq> 0 \<Longrightarrow> 0 < uint x" "x \<noteq> 0 \<Longrightarrow> uint x \<noteq> 0" for x :: "8 word"
  using uint_0_iff [of x] uint_ge_0 [of x] by linarith+

text \<open>The order of C strings: by the first byte that differs, a proper prefix being smaller.\<close>

fun byte_less :: "8 word list \<Rightarrow> 8 word list \<Rightarrow> bool" where
  "byte_less [] ys \<longleftrightarrow> ys \<noteq> []"
| "byte_less (x # xs) [] \<longleftrightarrow> False"
| "byte_less (x # xs) (y # ys) \<longleftrightarrow> x < y \<or> x = y \<and> byte_less xs ys"

lemma strcmp_loop_ok:
  assumes "cstring m s1 xs" "cstring m s2 ys"
  shows "\<exists>r. strcmp_loop m s1 s2 = Some r \<and> (r = 0 \<longleftrightarrow> xs = ys) \<and> (r < 0 \<longleftrightarrow> byte_less xs ys)"
  using assms
proof (induction xs ys arbitrary: s1 s2 rule: byte_less.induct)
  case (1 ys)
  then show ?case by (subst strcmp_loop.simps; cases ys) (auto simp: word_less_def)
next
  case (2 x xs)
  then show ?case by (subst strcmp_loop.simps) auto
next
  case (3 x xs y ys)
  show ?case
  proof (cases "x = y")
    case True
    then show ?thesis using 3 by (subst strcmp_loop.simps) simp
  next
    case False
    then have "uint x \<noteq> uint y" by (simp add: word_uint_eq_iff)
    then show ?thesis using 3 False by (subst strcmp_loop.simps) (auto simp: word_less_def)
  qed
qed

section \<open>Copying\<close>

text \<open>The reference: every byte of the target gets the byte the source had before the call.\<close>

definition copied_bytes :: "64 word \<Rightarrow> 64 word \<Rightarrow> nat \<Rightarrow> bytes \<Rightarrow> bytes" where
  "copied_bytes d s n m = (\<lambda>a. if unat (a - d) < n then m (s + (a - d)) else m a)"

lemma unat_pred: "x \<noteq> 0 \<Longrightarrow> unat x = Suc (unat (x - 1))" for x :: "64 word"
  by (simp add: unat_minus_one unat_gt_0 Suc_diff_1 word_neq_0_conv [symmetric])

lemma unat_minus1: "unat (- 1 :: 64 word) = 2 ^ 64 - 1"
  by (simp add: unsigned_minus_1_eq_mask mask_eq_exp_minus_1)

lemma unat_of_nat64: "n < 2 ^ 64 \<Longrightarrow> unat (of_nat n :: 64 word) = n"
  by (simp add: unsigned_of_nat take_bit_nat_eq_self)

lemma memcpy_bytes:
  assumes "n < 2 ^ 64" "\<And>i. i < n \<Longrightarrow> \<forall>j < i. d + of_nat j \<noteq> s + of_nat i"
  shows "memcpy d s n m = copied_bytes d s n m"
  using assms
proof (induction n arbitrary: d s m)
  case (Suc n)
  have hyp: "d + 1 + of_nat j \<noteq> s + 1 + of_nat i" if "i < n" "j < i" for i j
    using Suc.prems(2) [of "Suc i"] that by (auto dest!: spec [of _ "Suc j"] simp: algebra_simps)
  have IH: "memcpy (d + 1) (s + 1) n (m(d := m s)) = copied_bytes (d + 1) (s + 1) n (m(d := m s))"
    using Suc.IH [of "d + 1" "s + 1"] Suc.prems(1) hyp by auto
  have "copied_bytes (d + 1) (s + 1) n (m(d := m s)) a = copied_bytes d s (Suc n) m a" for a
  proof (cases "a = d")
    case True
    then show ?thesis using Suc.prems(1) unat_minus1 by (simp add: copied_bytes_def)
  next
    case False
    then have u: "unat (a - d) = Suc (unat (a - (d + 1)))" using unat_pred [of "a - d"] by (simp add: diff_diff_eq)
    have "s + (a - d) \<noteq> d" if "unat (a - d) < Suc n"
      using Suc.prems(2) [OF that] u by (auto dest!: spec [of _ 0])
    then show ?thesis using False u by (auto simp: copied_bytes_def algebra_simps)
  qed
  then show ?case using IH by (auto simp: fun_eq_iff)
qed (simp add: copied_bytes_def)

lemma copy_back_bytes:
  assumes "n < 2 ^ 64" "\<And>i. i < n \<Longrightarrow> \<forall>j < i. d - of_nat j \<noteq> s - of_nat i"
  shows "copy_back d s n m = copied_bytes (d - of_nat n) (s - of_nat n) n m"
  using assms
proof (induction n arbitrary: d s m)
  case (Suc n)
  have hyp: "d - 1 - of_nat j \<noteq> s - 1 - of_nat i" if "i < n" "j < i" for i j
    using Suc.prems(2) [of "Suc i"] that by (auto dest!: spec [of _ "Suc j"] simp: algebra_simps)
  define m1 where "m1 = m(d - 1 := m (s - 1))"
  have IH: "copy_back (d - 1) (s - 1) n m1 = copied_bytes (d - 1 - of_nat n) (s - 1 - of_nat n) n m1"
    using Suc.IH [of "d - 1" "s - 1"] Suc.prems(1) hyp by auto
  have lt: "unat (of_nat n :: 64 word) = n" using Suc.prems(1) by (simp add: unat_of_nat64)
  define b where "b = d - 1 - of_nat n"
  have "copied_bytes b (s - 1 - of_nat n) n m1 a = copied_bytes b (s - 1 - of_nat n) (Suc n) m a" for a
  proof (cases "a = d - 1")
    case True
    then have "a - b = of_nat n" by (simp add: b_def)
    then show ?thesis using True lt by (simp add: copied_bytes_def m1_def)
  next
    case False
    have "unat (a - b) \<noteq> n"
    proof
      assume "unat (a - b) = n"
      moreover have "a - b = of_nat (unat (a - b))" by simp
      ultimately have "a - b = of_nat n" by (simp only:)
      then show False using False by (simp add: b_def algebra_simps)
    qed
    moreover have "s - 1 - of_nat n + (a - b) \<noteq> d - 1" if lt_n: "unat (a - b) < n"
    proof
      assume eq: "s - 1 - of_nat n + (a - b) = d - 1"
      define k where "k = unat (a - b)"
      have k: "a - b = of_nat k" by (simp add: k_def)
      have "k < n" using lt_n by (simp add: k_def)
      have "n - k < Suc n" "0 < n - k" using \<open>k < n\<close> by auto
      then have "d - of_nat 0 \<noteq> s - of_nat (n - k)" using Suc.prems(2) by blast
      moreover have "(of_nat (n - k) :: 64 word) = of_nat n - of_nat k" using \<open>k < n\<close> by (simp add: of_nat_diff)
      ultimately show False using eq k by (simp add: algebra_simps)
    qed
    ultimately show ?thesis using False by (auto simp: copied_bytes_def m1_def)
  qed
  then have e: "copied_bytes b (s - 1 - of_nat n) n m1 = copied_bytes b (s - 1 - of_nat n) (Suc n) m" by (rule ext)
  have x: "d - of_nat (Suc n) = b" "s - of_nat (Suc n) = s - 1 - of_nat n" by (simp_all add: b_def algebra_simps)
  show ?case unfolding copy_back.simps m1_def [symmetric] IH b_def [symmetric] e x by (rule refl)
qed (simp add: copied_bytes_def)

lemma word_offset_eq:
  fixes d s :: "64 word"
  assumes "unat s + n < 2 ^ 64" "i \<le> n"
  shows "unat (s + of_nat i) = unat s + i"
  using assms by (subst unat_add_lem [THEN iffD1]) (simp_all add: unat_of_nat64)

text \<open>C38: \<open>memmove\<close> of ranges that do not wrap around equals the reference copy, whether or not they overlap; \<open>memcpy\<close> does
  when the target does not start inside the source.\<close>
theorem memmove_correct:
  assumes "unat src + n < 2 ^ 64" "unat dst + n < 2 ^ 64"
  shows "memmove dst src n m = copied_bytes dst src n m \<and>
    (dst \<le> src \<or> unat src + n \<le> unat dst \<longrightarrow> memcpy dst src n m = copied_bytes dst src n m)"
proof -
  have n: "n < 2 ^ 64" using assms(1) by simp
  have us: "unat (src + of_nat i) = unat src + i" "unat (dst + of_nat i) = unat dst + i" if "i \<le> n" for i
    using word_offset_eq [OF assms(1) that] word_offset_eq [OF assms(2) that] by simp_all
  have fwd: "memcpy dst src n m = copied_bytes dst src n m" if h: "dst \<le> src \<or> unat src + n \<le> unat dst"
  proof (rule memcpy_bytes [OF n], intro allI impI notI)
    fix i j assume ij: "i < n" "j < i" and eq: "dst + of_nat j = src + of_nat i"
    then have "unat dst + j = unat src + i" using us(2) [of j] us(1) [of i] by simp
    then show False using h ij by (auto simp: word_le_nat_alt)
  qed
  moreover have "memmove dst src n m = copied_bytes dst src n m"
  proof (cases "src < dst \<and> src + of_nat n > dst")
    case False
    then have "dst \<le> src \<or> unat src + n \<le> unat dst" using us(1) [of n] by (auto simp: word_less_nat_alt not_less word_le_nat_alt)
    then show ?thesis using fwd False by (simp only: memmove_def if_False)
  next
    case True
    have "copy_back (dst + of_nat n) (src + of_nat n) n m = copied_bytes (dst + of_nat n - of_nat n) (src + of_nat n - of_nat n) n m"
    proof (rule copy_back_bytes [OF n], intro allI impI notI)
      fix i j assume ij: "i < n" "j < i" and eq: "dst + of_nat n - of_nat j = src + of_nat n - of_nat i"
      have "dst + of_nat n - of_nat j = dst + of_nat (n - j)" "src + of_nat n - of_nat i = src + of_nat (n - i)"
        using ij by (simp_all add: of_nat_diff)
      then have "of_nat (n - j) + dst = of_nat (n - i) + src" using eq by (simp add: add.commute)
      then have "unat dst + (n - j) = unat src + (n - i)" using us(2) [of "n - j"] us(1) [of "n - i"] by (metis add.commute diff_le_self)
      moreover have "n - i < n - j" using ij by simp
      moreover have "unat src < unat dst" using True by (simp add: word_less_nat_alt)
      ultimately show False by linarith
    qed
    then show ?thesis using True by (simp add: memmove_def)
  qed
  ultimately show ?thesis by blast
qed

theorem memmove_correct_witness:
  "memmove 0x1002 0x1000 5 (\<lambda>a. ucast a) = copied_bytes 0x1002 0x1000 5 (\<lambda>a. ucast a) \<and>
   memcpy 0x1000 0x1002 5 (\<lambda>a. ucast a) = copied_bytes 0x1000 0x1002 5 (\<lambda>a. ucast a)"
  using memmove_correct [of "0x1000" 5 "0x1002" "\<lambda>a. ucast a"] memmove_correct [of "0x1002" 5 "0x1000" "\<lambda>a. ucast a"] by simp

text \<open>On two NUL-terminated strings \<open>strcmp\<close> returns, with 0 exactly for equal strings and a negative value exactly
  when the first is smaller in the order of bytes; \<open>strlen\<close> returns the length.\<close>
theorem strcmp_correct:
  assumes "cstring m s1 xs" "cstring m s2 ys"
  shows "\<exists>r. strcmp m s1 s2 = Inr r \<and> (r = 0 \<longleftrightarrow> xs = ys) \<and> (r < 0 \<longleftrightarrow> byte_less xs ys) \<and> strlen m s1 = Inr (of_nat (length xs))"
  using strcmp_loop_ok [OF assms] strlen_ok [OF assms(1)] by (auto simp: strcmp_def)

definition demo_bytes :: bytes where
  "demo_bytes = (\<lambda>_. 0)(0x100 := 104, 0x101 := 105, 0x200 := 104, 0x201 := 111)"

theorem strcmp_correct_witness: "\<exists>r. strcmp demo_bytes 0x100 0x200 = Inr r \<and> r < 0 \<and> strlen demo_bytes 0x100 = Inr 2"
proof -
  have "cstring demo_bytes 0x100 [104, 105]" "cstring demo_bytes 0x200 [104, 111]" by (simp_all add: demo_bytes_def)
  from strcmp_correct [OF this] show ?thesis by auto
qed

end
