(* ===== verification/Vmm.thy ===== *)
theory Vmm
  imports Kmalloc Page_Unmap Sched_Core Atomic_Bits Strings
begin

text \<open>
  Virtual memory areas, kern/mm/vmm.c and vmm.h: a memory descriptor \<open>mm_struct\<close> owns a page
  directory and a list of areas \<open>vma_struct\<close> sorted by address, with a cache of the area found last.
  Both come from \<open>kmalloc\<close>. The lists are those of libs/list.h over the entries \<open>Mmap_list mm\<close> (the
  head) and \<open>Vma_link vma\<close>.
\<close>

section \<open>Data\<close>

datatype vm_entry = Mmap_list ptr | Vma_link ptr

fun le2vma :: "vm_entry \<Rightarrow> ptr" where
  "le2vma (Vma_link v) = v"
| "le2vma (Mmap_list m) = NULL"

record vma_struct =
  vm_mm :: ptr
  vm_start :: "64 word"
  vm_end :: "64 word"
  vm_flags :: "32 word"

record mm_struct =
  mmap_cache :: ptr
  mm_pgdir :: nat
  map_count :: int
  sm_priv :: ptr
  mm_count :: int
  mm_lock :: "64 word"

record vmm = kheap +
  vmas :: "ptr \<Rightarrow> vma_struct"
  mms :: "ptr \<Rightarrow> mm_struct"
  vm_links :: "vm_entry list_store"

definition VM_READ :: "32 word" where "VM_READ = 1"
definition VM_WRITE :: "32 word" where "VM_WRITE = 2"
definition VM_EXEC :: "32 word" where "VM_EXEC = 4"
definition VM_STACK :: "32 word" where "VM_STACK = 8"

definition sizeof_mm :: nat where "sizeof_mm = 64"
definition sizeof_vma :: nat where "sizeof_vma = 48"

definition upd_mm :: "ptr \<Rightarrow> (mm_struct \<Rightarrow> mm_struct) \<Rightarrow> 'a vmm_scheme \<Rightarrow> 'a vmm_scheme" where
  "upd_mm m f s = s\<lparr>mms := (mms s)(m := f (mms s m))\<rparr>"

definition upd_vma :: "ptr \<Rightarrow> (vma_struct \<Rightarrow> vma_struct) \<Rightarrow> 'a vmm_scheme \<Rightarrow> 'a vmm_scheme" where
  "upd_vma v f s = s\<lparr>vmas := (vmas s)(v := f (vmas s v))\<rparr>"

definition upd_links :: "(vm_entry list_store \<Rightarrow> vm_entry list_store) \<Rightarrow> 'a vmm_scheme \<Rightarrow> 'a vmm_scheme" where
  "upd_links f s = s\<lparr>vm_links := f (vm_links s)\<rparr>"

section \<open>Reference count and lock\<close>

definition set_mm_count :: "ptr \<Rightarrow> int \<Rightarrow> 'a vmm_scheme \<Rightarrow> 'a vmm_scheme" where
  "set_mm_count m v s = upd_mm m (\<lambda>x. x\<lparr>mm_count := v\<rparr>) s"

definition mm_count_inc :: "ptr \<Rightarrow> 'a vmm_scheme \<Rightarrow> int \<times> 'a vmm_scheme" where
  "mm_count_inc m s = (let s1 = upd_mm m (\<lambda>x. x\<lparr>mm_count := mm_count x + 1\<rparr>) s in (mm_count (mms s1 m), s1))"

definition mm_count_dec :: "ptr \<Rightarrow> 'a vmm_scheme \<Rightarrow> int \<times> 'a vmm_scheme" where
  "mm_count_dec m s = (let s1 = upd_mm m (\<lambda>x. x\<lparr>mm_count := mm_count x - 1\<rparr>) s in (mm_count (mms s1 m), s1))"

text \<open>
  A lock is one word; bit 0 says that it is taken. \<open>lock\<close> gives the processor away until it gets the
  lock. As seen by its caller, \<open>schedule()\<close> returns only when the process runs again, and the other
  processes act in between: that effect is the argument \<open>resched\<close>.
\<close>

definition lock_init :: "64 word" where "lock_init = 0"

definition try_lock :: "64 word \<Rightarrow> bool \<times> 64 word" where
  "try_lock w = (let (old, a) = test_and_set_bit 0 (\<lambda>_. w) in (\<not> old, a 0))"

partial_function (option) lock_loop :: "('a vmm_scheme \<Rightarrow> 'a vmm_scheme outcome) \<Rightarrow> ptr \<Rightarrow> 'a vmm_scheme \<Rightarrow> 'a vmm_scheme outcome option" where
  "lock_loop resched m s =
     (let (got, w) = try_lock (mm_lock (mms s m)); s1 = upd_mm m (\<lambda>x. x\<lparr>mm_lock := w\<rparr>) s
      in if got then Some (Inr s1) else loop_bind (resched s1) (\<lambda>s2. lock_loop resched m s2))"

definition unlock :: "64 word \<Rightarrow> (64 word) outcome" where
  "unlock w = (let (old, a) = test_and_clear_bit 0 (\<lambda>_. w) in if \<not> old then Inl (Panic ''Unlock failed.'') else Inr (a 0))"

definition lock_mm :: "('a vmm_scheme \<Rightarrow> 'a vmm_scheme outcome) \<Rightarrow> ptr \<Rightarrow> 'a vmm_scheme \<Rightarrow> 'a vmm_scheme outcome" where
  "lock_mm resched m s = (if m \<noteq> NULL then finish (lock_loop resched m s) else Inr s)"

definition unlock_mm :: "ptr \<Rightarrow> 'a vmm_scheme \<Rightarrow> 'a vmm_scheme outcome" where
  "unlock_mm m s = (if m \<noteq> NULL then obind (unlock (mm_lock (mms s m))) (\<lambda>w. Inr (upd_mm m (\<lambda>x. x\<lparr>mm_lock := w\<rparr>) s)) else Inr s)"

section \<open>Descriptors and areas\<close>

definition mm_create :: "'a vmm_scheme \<Rightarrow> (ptr \<times> 'a vmm_scheme) outcome" where
  "mm_create s = obind (kmalloc sizeof_mm s) (\<lambda>(m, s1).
     if m \<noteq> NULL then
       let s2 = upd_links (list_init (Mmap_list m)) s1;
           s3 = upd_mm m (\<lambda>x. x\<lparr>mmap_cache := NULL, mm_pgdir := NULL, map_count := 0, sm_priv := NULL\<rparr>) s2;
           s4 = set_mm_count m 0 s3
       in Inr (m, upd_mm m (\<lambda>x. x\<lparr>mm_lock := lock_init\<rparr>) s4)
     else Inr (m, s1))"

definition vma_create :: "64 word \<Rightarrow> 64 word \<Rightarrow> 32 word \<Rightarrow> 'a vmm_scheme \<Rightarrow> (ptr \<times> 'a vmm_scheme) outcome" where
  "vma_create start end vflags s = obind (kmalloc sizeof_vma s) (\<lambda>(v, s1).
     if v \<noteq> NULL then Inr (v, upd_vma v (\<lambda>x. x\<lparr>vm_start := start, vm_end := end, vm_flags := vflags\<rparr>) s1) else Inr (v, s1))"

text \<open>The search loop of \<open>find_vma\<close>: the area found, or NULL.\<close>

partial_function (option) find_vma_loop :: "vm_entry \<Rightarrow> vm_entry \<Rightarrow> 64 word \<Rightarrow> 'a vmm_scheme \<Rightarrow> ptr option" where
  "find_vma_loop list le addr s =
     (let le' = list_next (vm_links s) le in
      if le' = list then Some NULL
      else let vma = le2vma le' in
        if vm_start (vmas s vma) \<le> addr \<and> addr < vm_end (vmas s vma) then Some vma
        else find_vma_loop list le' addr s)"

definition find_vma :: "ptr \<Rightarrow> 64 word \<Rightarrow> 'a vmm_scheme \<Rightarrow> (ptr \<times> 'a vmm_scheme) outcome" where
  "find_vma m addr s =
     (if m \<noteq> NULL then
        let vma = mmap_cache (mms s m) in
        obind (if \<not> (vma \<noteq> NULL \<and> vm_start (vmas s vma) \<le> addr \<and> vm_end (vmas s vma) > addr)
               then returns (find_vma_loop (Mmap_list m) (Mmap_list m) addr s) else Inr vma)
          (\<lambda>vma. Inr (vma, if vma \<noteq> NULL then upd_mm m (\<lambda>x. x\<lparr>mmap_cache := vma\<rparr>) s else s))
      else Inr (NULL, s))"

definition check_vma_overlap :: "ptr \<Rightarrow> ptr \<Rightarrow> 'a vmm_scheme \<Rightarrow> unit outcome" where
  "check_vma_overlap prev next s =
     kassert (vm_start (vmas s prev) < vm_end (vmas s prev)) ''prev->vm_start < prev->vm_end''
     (kassert (vm_end (vmas s prev) \<le> vm_start (vmas s next)) ''prev->vm_end <= next->vm_start''
     (kassert (vm_start (vmas s next) < vm_end (vmas s next)) ''next->vm_start < next->vm_end'' (Inr ())))"

partial_function (option) insert_pos :: "vm_entry \<Rightarrow> vm_entry \<Rightarrow> vm_entry \<Rightarrow> ptr \<Rightarrow> 'a vmm_scheme \<Rightarrow> vm_entry option" where
  "insert_pos list le_prev le vma s =
     (let le' = list_next (vm_links s) le in
      if le' = list then Some le_prev
      else if vm_start (vmas s (le2vma le')) > vm_start (vmas s vma) then Some le_prev
      else insert_pos list le' le' vma s)"

definition insert_vma_struct :: "ptr \<Rightarrow> ptr \<Rightarrow> 'a vmm_scheme \<Rightarrow> 'a vmm_scheme outcome" where
  "insert_vma_struct m vma s =
     kassert (vm_start (vmas s vma) < vm_end (vmas s vma)) ''vma->vm_start < vma->vm_end''
     (obind (returns (insert_pos (Mmap_list m) (Mmap_list m) (Mmap_list m) vma s)) (\<lambda>le_prev.
      let le_next = list_next (vm_links s) le_prev in
      obind (if le_prev \<noteq> Mmap_list m then check_vma_overlap (le2vma le_prev) vma s else Inr ()) (\<lambda>_.
      obind (if le_next \<noteq> Mmap_list m then check_vma_overlap vma (le2vma le_next) s else Inr ()) (\<lambda>_.
      let s1 = upd_vma vma (\<lambda>x. x\<lparr>vm_mm := m\<rparr>) s;
          s2 = upd_links (list_add_after le_prev (Vma_link vma)) s1
      in Inr (upd_mm m (\<lambda>x. x\<lparr>map_count := map_count x + 1\<rparr>) s2)))))"

partial_function (option) free_vmas :: "ptr \<Rightarrow> 'a vmm_scheme \<Rightarrow> 'a vmm_scheme outcome option" where
  "free_vmas m s =
     (let le = list_next (vm_links s) (Mmap_list m) in
      if le = Mmap_list m then Some (Inr s)
      else loop_bind (kfree (le2vma le) (upd_links (list_del le) s)) (\<lambda>s1. free_vmas m s1))"

definition mm_destroy :: "ptr \<Rightarrow> 'a vmm_scheme \<Rightarrow> 'a vmm_scheme outcome" where
  "mm_destroy m s = kassert (mm_count (mms s m) = 0) ''mm_count(mm) == 0''
     (obind (finish (free_vmas m s)) (\<lambda>s1. kfree m s1))"

text \<open>\<open>mm_map\<close>: the result, the area to store through \<open>vma_store\<close> when that is not NULL, and the state.\<close>

definition mm_map :: "ptr \<Rightarrow> 64 word \<Rightarrow> 64 word \<Rightarrow> 32 word \<Rightarrow> 'a vmm_scheme \<Rightarrow> (int \<times> ptr option \<times> 'a vmm_scheme) outcome" where
  "mm_map m addr len vflags s =
     (let start = ROUNDDOWN addr PGSIZE; end = ROUNDUP (addr + len) PGSIZE in
      if \<not> USER_ACCESS start end then Inr (- E_INVAL, None, s)
      else kassert (m \<noteq> NULL) ''mm != NULL''
        (obind (find_vma m start s) (\<lambda>(vma, s1).
         if vma \<noteq> NULL \<and> end > vm_start (vmas s1 vma) then Inr (- E_INVAL, None, s1)
         else obind (vma_create start end vflags s1) (\<lambda>(vma, s2).
           if vma = NULL then Inr (- E_NO_MEM, None, s2)
           else obind (insert_vma_struct m vma s2) (\<lambda>s3. Inr (0, Some vma, s3))))))"

partial_function (option) dup_loop :: "ptr \<Rightarrow> ptr \<Rightarrow> vm_entry \<Rightarrow> 'a vmm_scheme \<Rightarrow> (int \<times> 'a vmm_scheme) outcome option" where
  "dup_loop to from le s =
     (let le' = list_prev (vm_links s) le in
      if le' = Mmap_list from then Some (Inr (0, s))
      else let vma = le2vma le' in
        loop_bind (vma_create (vm_start (vmas s vma)) (vm_end (vmas s vma)) (vm_flags (vmas s vma)) s) (\<lambda>(nvma, s1).
        if nvma = NULL then Some (Inr (- E_NO_MEM, s1))
        else loop_bind (insert_vma_struct to nvma s1) (\<lambda>s2.
          loop_bind (copy_range (mm_pgdir (mms s2 to)) (mm_pgdir (mms s2 from)) (vm_start (vmas s2 vma)) (vm_end (vmas s2 vma)) False s2)
            (\<lambda>(r, s3). if r \<noteq> 0 then Some (Inr (- E_NO_MEM, s3)) else dup_loop to from le' s3))))"

definition dup_mmap :: "ptr \<Rightarrow> ptr \<Rightarrow> 'a vmm_scheme \<Rightarrow> (int \<times> 'a vmm_scheme) outcome" where
  "dup_mmap to from s = kassert (to \<noteq> NULL \<and> from \<noteq> NULL) ''to != NULL && from != NULL''
     (finish (dup_loop to from (Mmap_list from) s))"

text \<open>The two loops of \<open>exit_mmap\<close>: \<open>f\<close> is \<open>unmap_range\<close>, then \<open>exit_range\<close>.\<close>

partial_function (option) each_vma ::
    "(64 word \<Rightarrow> 64 word \<Rightarrow> 'a vmm_scheme \<Rightarrow> 'a vmm_scheme outcome) \<Rightarrow> vm_entry \<Rightarrow> vm_entry \<Rightarrow> 'a vmm_scheme \<Rightarrow> 'a vmm_scheme outcome option" where
  "each_vma f list le s =
     (let le' = list_next (vm_links s) le in
      if le' = list then Some (Inr s)
      else loop_bind (f (vm_start (vmas s (le2vma le'))) (vm_end (vmas s (le2vma le'))) s) (\<lambda>s1. each_vma f list le' s1))"

definition exit_mmap :: "ptr \<Rightarrow> 'a vmm_scheme \<Rightarrow> 'a vmm_scheme outcome" where
  "exit_mmap m s = kassert (m \<noteq> NULL \<and> mm_count (mms s m) = 0) ''mm != NULL && mm_count(mm) == 0''
     (let pd = mm_pgdir (mms s m) in
      obind (finish (each_vma (unmap_range pd) (Mmap_list m) (Mmap_list m) s)) (\<lambda>s1.
      finish (each_vma (exit_range pd) (Mmap_list m) (Mmap_list m) s1)))"

section \<open>User memory\<close>

partial_function (option) mem_check_loop :: "ptr \<Rightarrow> 64 word \<Rightarrow> 64 word \<Rightarrow> bool \<Rightarrow> 'a vmm_scheme \<Rightarrow> (bool \<times> 'a vmm_scheme) outcome option" where
  "mem_check_loop m start end write s =
     (if start < end then
        loop_bind (find_vma m start s) (\<lambda>(vma, s1).
          let v = vmas s1 vma in
          if vma = NULL \<or> start < vm_start v then Some (Inr (False, s1))
          else if vm_flags v AND (if write then VM_WRITE else VM_READ) = 0 then Some (Inr (False, s1))
          else if write \<and> vm_flags v AND VM_STACK \<noteq> 0 \<and> start < vm_start v + PGSIZE then Some (Inr (False, s1))
          else mem_check_loop m (vm_end v) end write s1)
      else Some (Inr (True, s)))"

definition user_mem_check :: "ptr \<Rightarrow> 64 word \<Rightarrow> 64 word \<Rightarrow> bool \<Rightarrow> 'a vmm_scheme \<Rightarrow> (bool \<times> 'a vmm_scheme) outcome" where
  "user_mem_check m addr len write s =
     (if m \<noteq> NULL then
        if \<not> USER_ACCESS addr (addr + len) then Inr (False, s)
        else finish (mem_check_loop m addr (addr + len) write s)
      else Inr (KERN_ACCESS addr (addr + len), s))"

text \<open>The two copies move bytes of the current address space \<open>b\<close>.\<close>

definition copy_from_user :: "ptr \<Rightarrow> 64 word \<Rightarrow> 64 word \<Rightarrow> 64 word \<Rightarrow> bool \<Rightarrow> bytes \<Rightarrow> 'a vmm_scheme \<Rightarrow> (bool \<times> bytes \<times> 'a vmm_scheme) outcome" where
  "copy_from_user m dst src len writable b s = obind (user_mem_check m src len writable s) (\<lambda>(ok, s1).
     if \<not> ok then Inr (False, b, s1) else Inr (True, memcpy dst src (unat len) b, s1))"

definition copy_to_user :: "ptr \<Rightarrow> 64 word \<Rightarrow> 64 word \<Rightarrow> 64 word \<Rightarrow> bytes \<Rightarrow> 'a vmm_scheme \<Rightarrow> (bool \<times> bytes \<times> 'a vmm_scheme) outcome" where
  "copy_to_user m dst src len b s = obind (user_mem_check m dst len True s) (\<lambda>(ok, s1).
     if \<not> ok then Inr (False, b, s1) else Inr (True, memcpy dst src (unat len) b, s1))"

section \<open>The self-check\<close>

text \<open>\<open>check_vma_struct\<close>: a hundred areas, the first ten inserted downwards; the list is walked, each area is found at its two
  addresses only, nothing is found below 5, and the descriptor is destroyed. \<open>le\<close> is the list pointer of the walk.\<close>

definition check_new :: "ptr \<Rightarrow> int \<Rightarrow> 'a vmm_scheme \<Rightarrow> 'a vmm_scheme outcome" where
  "check_new m i s = obind (vma_create (of_int (i * 5)) (of_int (i * 5 + 2)) 0 s) (\<lambda>(vma, s1).
     kassert (vma \<noteq> NULL) ''vma != NULL'' (insert_vma_struct m vma s1))"

definition check_walk :: "ptr \<Rightarrow> 'a vmm_scheme \<Rightarrow> int \<Rightarrow> vm_entry \<Rightarrow> vm_entry outcome" where
  "check_walk m s i le = kassert (le \<noteq> Mmap_list m) ''le != &(mm->mmap_list)''
     (let v = vmas s (le2vma le) in kassert (vm_start v = of_int (i * 5) \<and> vm_end v = of_int (i * 5 + 2)) ''mmap'' (Inr (list_next (vm_links s) le)))"

definition check_find :: "ptr \<Rightarrow> int \<Rightarrow> 'a vmm_scheme \<Rightarrow> 'a vmm_scheme outcome" where
  "check_find m i s =
     obind (find_vma m (of_int i) s) (\<lambda>(vma1, s). kassert (vma1 \<noteq> NULL) ''vma1 != NULL''
     (obind (find_vma m (of_int (i + 1)) s) (\<lambda>(vma2, s). kassert (vma2 \<noteq> NULL) ''vma2 != NULL''
     (obind (find_vma m (of_int (i + 2)) s) (\<lambda>(vma3, s). kassert (vma3 = NULL) ''vma3 == NULL''
     (obind (find_vma m (of_int (i + 3)) s) (\<lambda>(vma4, s). kassert (vma4 = NULL) ''vma4 == NULL''
     (obind (find_vma m (of_int (i + 4)) s) (\<lambda>(vma5, s). kassert (vma5 = NULL) ''vma5 == NULL''
     (kassert (vm_start (vmas s vma1) = of_int i \<and> vm_end (vmas s vma1) = of_int (i + 2)) ''vma1''
     (kassert (vm_start (vmas s vma2) = of_int i \<and> vm_end (vmas s vma2) = of_int (i + 2)) ''vma2'' (Inr s))))))))))))"

definition check_none :: "ptr \<Rightarrow> int \<Rightarrow> 'a vmm_scheme \<Rightarrow> 'a vmm_scheme outcome" where
  "check_none m i s = obind (find_vma m (of_int i) s) (\<lambda>(vma, s1). kassert (vma = NULL) ''vma_below_5 == NULL'' (Inr s1))"

definition check_vma_struct :: "'a vmm_scheme \<Rightarrow> 'a vmm_scheme outcome" where
  "check_vma_struct s = obind (mm_create s) (\<lambda>(m, s). kassert (m \<noteq> NULL) ''mm != NULL''
     (let step1 = 10; step2 = step1 * 10 in
      obind (for_each (check_new m) (rev [1..step1]) s) (\<lambda>s.
      obind (for_each (check_new m) [step1 + 1..step2] s) (\<lambda>s.
      obind (for_each (check_walk m s) [1..step2] (list_next (vm_links s) (Mmap_list m))) (\<lambda>_.
      obind (for_each (check_find m) (map ((*) 5) [1..step2]) s) (\<lambda>s.
      obind (for_each (check_none m) (rev [0..4]) s) (\<lambda>s. mm_destroy m s)))))))"

definition vmm_init :: "'a vmm_scheme \<Rightarrow> 'a vmm_scheme outcome" where
  "vmm_init s = check_vma_struct s"

declare find_vma_loop.simps [code] insert_pos.simps [code] free_vmas.simps [code] dup_loop.simps [code]
  each_vma.simps [code] mem_check_loop.simps [code] lock_loop.simps [code]

end
