(* ===== verification/Vm_Areas.thy ===== *)
theory Vm_Areas
  imports Vmm
begin

text \<open>
  The invariant of a memory descriptor: its areas are sorted, non-empty and disjoint, and the cache
  points to one of them. \<open>find_vma\<close>, \<open>insert_vma_struct\<close>, \<open>mm_map\<close>, \<open>mm_destroy\<close> and
  \<open>user_mem_check\<close> are correct for it; descriptors and areas come from the interface \<open>object_heap\<close>.
\<close>

section \<open>The invariant\<close>

definition contains :: "vma_struct \<Rightarrow> 64 word \<Rightarrow> bool" where
  "contains v a \<longleftrightarrow> vm_start v \<le> a \<and> a < vm_end v"

fun areas_ok :: "vma_struct list \<Rightarrow> bool" where
  "areas_ok [] = True"
| "areas_ok (v # vs) \<longleftrightarrow> vm_start v < vm_end v \<and> (\<forall>w \<in> set vs. vm_end v \<le> vm_start w) \<and> areas_ok vs"

definition mm_rep :: "'a vmm_scheme \<Rightarrow> ptr \<Rightarrow> ptr list \<Rightarrow> bool" where
  "mm_rep s m vs \<longleftrightarrow> m \<noteq> NULL \<and> NULL \<notin> set vs \<and> clist (vm_links s) (Mmap_list m) (map Vma_link vs) \<and>
     areas_ok (map (vmas s) vs) \<and> map_count (mms s m) = int (length vs) \<and>
     (mmap_cache (mms s m) = NULL \<or> mmap_cache (mms s m) \<in> set vs) \<and> (\<forall>v \<in> set vs. vm_mm (vmas s v) = m)"

lemma mm_repD:
  assumes "mm_rep s m vs"
  shows "m \<noteq> NULL" "NULL \<notin> set vs" "clist (vm_links s) (Mmap_list m) (map Vma_link vs)" "areas_ok (map (vmas s) vs)"
    "map_count (mms s m) = int (length vs)" "mmap_cache (mms s m) = NULL \<or> mmap_cache (mms s m) \<in> set vs"
    "v \<in> set vs \<Longrightarrow> vm_mm (vmas s v) = m" "distinct vs"
  using assms unfolding mm_rep_def by (auto dest: clistD(1) simp: distinct_map)

lemma areas_ok_append: "areas_ok (xs @ ys) \<longleftrightarrow> areas_ok xs \<and> areas_ok ys \<and> (\<forall>v \<in> set xs. \<forall>w \<in> set ys. vm_end v \<le> vm_start w)"
  by (induction xs rule: areas_ok.induct) auto

lemma areas_nonempty: "areas_ok vs \<Longrightarrow> v \<in> set vs \<Longrightarrow> vm_start v < vm_end v"
  by (induction vs rule: areas_ok.induct) auto

text \<open>Two areas that contain the same address are the same.\<close>

lemma areas_unique:
  assumes "areas_ok (map f vs)" "v \<in> set vs" "w \<in> set vs" "contains (f v) a" "contains (f w) a"
  shows "v = w"
  using assms
proof (induction vs)
  case (Cons x xs)
  have "\<not> contains (f y) a" if "y \<in> set xs" "contains (f x) a" for y
    using that Cons.prems(1) by (auto simp: contains_def dest!: bspec)
  then show ?case using Cons by auto
qed simp

lemma upd_vmm_simps [simp]:
  "vmas (upd_mm m f s) = vmas s" "mms (upd_mm m f s) = (mms s)(m := f (mms s m))" "vm_links (upd_mm m f s) = vm_links s"
  "vmas (upd_vma v g s) = (vmas s)(v := g (vmas s v))" "mms (upd_vma v g s) = mms s" "vm_links (upd_vma v g s) = vm_links s"
  "vmas (upd_links h s) = vmas s" "mms (upd_links h s) = mms s" "vm_links (upd_links h s) = h (vm_links s)"
  by (simp_all add: upd_mm_def upd_vma_def upd_links_def)

lemma upd_vmm_heap [simp]:
  "heap_live (upd_mm m f s) L = heap_live s L" "heap_live (upd_vma v g s) L = heap_live s L" "heap_live (upd_links h s) L = heap_live s L"
  "live_objects (upd_mm m f s) A bs F xs L = live_objects s A bs F xs L"
  "live_objects (upd_vma v g s) A bs F xs L = live_objects s A bs F xs L"
  "live_objects (upd_links h s) A bs F xs L = live_objects s A bs F xs L"
  by (rule live_objects_cong; simp add: upd_mm_def upd_vma_def upd_links_def)+

lemma vmm_frame:
  assumes "heap_frame s s'" shows "vmas s' = vmas s" "mms s' = mms s" "vm_links s' = vm_links s"
  using heap_frame_fields(12) [OF assms] by (cases s; cases s'; simp)+

lemma mm_rep_heap: "heap_frame s s' \<Longrightarrow> mm_rep s' m vs = mm_rep s m vs"
  by (simp add: mm_rep_def vmm_frame)

lemma small_sizes [simp]: "small_object sizeof_mm" "small_object sizeof_vma"
  by (simp_all add: small_object_def sizeof_mm_def sizeof_vma_def SLOB_UNIT_def PAGE_SIZE_def)

section \<open>Finding an area\<close>

lemma find_vma_loop_ok:
  assumes "clist (vm_links s) h (map Vma_link (us @ vs))" "h = Mmap_list m"
  shows "find_vma_loop h (last (h # map Vma_link us)) addr s =
    Some (case find (\<lambda>v. contains (vmas s v) addr) vs of None \<Rightarrow> NULL | Some v \<Rightarrow> v)"
  using assms(1)
proof (induction vs arbitrary: us)
  case Nil
  then have "next_of (vm_links s) (last (h # map Vma_link us)) = h"
    using clist_next_at [of "vm_links s" h "map Vma_link us" "[]"] by simp
  then show ?case by (subst find_vma_loop.simps) (simp add: list_next_def)
next
  case (Cons v vs)
  have nx: "next_of (vm_links s) (last (h # map Vma_link us)) = Vma_link v"
    using clist_next_at [of "vm_links s" h "map Vma_link us" "map Vma_link (v # vs)"] Cons.prems by simp
  have IH: "find_vma_loop h (Vma_link v) addr s = Some (case find (\<lambda>v. contains (vmas s v) addr) vs of None \<Rightarrow> NULL | Some v \<Rightarrow> v)"
    using Cons.IH [of "us @ [v]"] Cons.prems by simp
  show ?case using IH nx assms(2) by (subst find_vma_loop.simps) (simp add: list_next_def Let_def contains_def)
qed

lemma find_vma_ok:
  assumes rep: "mm_rep s m vs"
  obtains r where "find_vma m addr s = Inr (r, if r \<noteq> NULL then upd_mm m (\<lambda>x. x\<lparr>mmap_cache := r\<rparr>) s else s)"
    "r = NULL \<longleftrightarrow> (\<forall>v \<in> set vs. \<not> contains (vmas s v) addr)" "r \<noteq> NULL \<longrightarrow> r \<in> set vs \<and> contains (vmas s r) addr"
    "mm_rep (if r \<noteq> NULL then upd_mm m (\<lambda>x. x\<lparr>mmap_cache := r\<rparr>) s else s) m vs"
proof -
  note D = mm_repD [OF rep]
  let ?c = "mmap_cache (mms s m)"
  have keep: "mm_rep (if r \<noteq> NULL then upd_mm m (\<lambda>x. x\<lparr>mmap_cache := r\<rparr>) s else s) m vs" if "r \<noteq> NULL \<Longrightarrow> r \<in> set vs" for r
    using rep that by (simp add: mm_rep_def)
  show thesis
  proof (cases "?c \<noteq> NULL \<and> contains (vmas s ?c) addr")
    case True
    then have "find_vma m addr s = Inr (?c, if ?c \<noteq> NULL then upd_mm m (\<lambda>x. x\<lparr>mmap_cache := ?c\<rparr>) s else s)"
      using D(1) by (simp add: find_vma_def contains_def Let_def)
    moreover have "?c \<in> set vs" using D(6) True by simp
    ultimately show thesis using that [of ?c] keep [of ?c] True by blast
  next
    case False
    define r where "r = (case find (\<lambda>v. contains (vmas s v) addr) vs of None \<Rightarrow> NULL | Some v \<Rightarrow> v)"
    have "find_vma_loop (Mmap_list m) (Mmap_list m) addr s = Some r"
      using find_vma_loop_ok [of s "Mmap_list m" "[]" vs m addr] D(3) by (simp add: r_def)
    then have "find_vma m addr s = Inr (r, if r \<noteq> NULL then upd_mm m (\<lambda>x. x\<lparr>mmap_cache := r\<rparr>) s else s)"
      using D(1) False by (simp add: find_vma_def contains_def Let_def)
    moreover have "r = NULL \<longleftrightarrow> (\<forall>v \<in> set vs. \<not> contains (vmas s v) addr)" "r \<noteq> NULL \<Longrightarrow> r \<in> set vs \<and> contains (vmas s r) addr"
    proof -
      have "find P vs = Some v \<Longrightarrow> v \<in> set vs \<and> P v" for P and v :: ptr by (metis find_Some_iff nth_mem)
      then show "r = NULL \<longleftrightarrow> (\<forall>v \<in> set vs. \<not> contains (vmas s v) addr)" "r \<noteq> NULL \<Longrightarrow> r \<in> set vs \<and> contains (vmas s r) addr"
        using D(2) by (auto simp: r_def find_None_iff split: option.splits)
    qed
    ultimately show thesis using that [of r] keep [of r] by blast
  qed
qed

section \<open>Inserting an area\<close>

lemma insert_pos_ok:
  assumes "clist (vm_links s) h (map Vma_link (us @ vs))" "h = Mmap_list m"
  shows "insert_pos h (last (h # map Vma_link us)) (last (h # map Vma_link us)) v s =
    Some (last (h # map Vma_link (us @ takeWhile (\<lambda>w. vm_start (vmas s w) \<le> vm_start (vmas s v)) vs)))"
  using assms(1)
proof (induction vs arbitrary: us)
  case Nil
  then have "next_of (vm_links s) (last (h # map Vma_link us)) = h"
    using clist_next_at [of "vm_links s" h "map Vma_link us" "[]"] by simp
  then show ?case by (subst insert_pos.simps) (simp add: list_next_def)
next
  case (Cons w vs)
  have nx: "next_of (vm_links s) (last (h # map Vma_link us)) = Vma_link w"
    using clist_next_at [of "vm_links s" h "map Vma_link us" "map Vma_link (w # vs)"] Cons.prems by simp
  show ?case
  proof (cases "vm_start (vmas s w) \<le> vm_start (vmas s v)")
    case True
    have "insert_pos h (Vma_link w) (Vma_link w) v s =
        Some (last (h # map Vma_link ((us @ [w]) @ takeWhile (\<lambda>w. vm_start (vmas s w) \<le> vm_start (vmas s v)) vs)))"
      using Cons.IH [of "us @ [w]"] Cons.prems by simp
    moreover have "\<not> vm_start (vmas s v) < vm_start (vmas s w)" using True by simp
    ultimately show ?thesis using True nx assms(2) by (subst insert_pos.simps) (simp add: list_next_def Let_def)
  next
    case False
    then have t: "takeWhile (\<lambda>w. vm_start (vmas s w) \<le> vm_start (vmas s v)) (w # vs) = []" by simp
    show ?thesis unfolding t using False nx assms(2) by (subst insert_pos.simps) (simp add: list_next_def Let_def not_le)
  qed
qed

text \<open>Where an area goes, and when it fits.\<close>

definition before :: "'a vmm_scheme \<Rightarrow> ptr \<Rightarrow> ptr list \<Rightarrow> ptr list" where
  "before s v vs = takeWhile (\<lambda>w. vm_start (vmas s w) \<le> vm_start (vmas s v)) vs"

definition after :: "'a vmm_scheme \<Rightarrow> ptr \<Rightarrow> ptr list \<Rightarrow> ptr list" where
  "after s v vs = dropWhile (\<lambda>w. vm_start (vmas s w) \<le> vm_start (vmas s v)) vs"

definition disjoint_from :: "64 word \<Rightarrow> 64 word \<Rightarrow> vma_struct \<Rightarrow> bool" where
  "disjoint_from start end v \<longleftrightarrow> vm_end v \<le> start \<or> end \<le> vm_start v"

lemma before_after [simp]: "before s v vs @ after s v vs = vs"
  by (simp add: before_def after_def)

lemma after_above:
  assumes "areas_ok (map (vmas s) vs)" "w \<in> set (after s v vs)"
  shows "vm_start (vmas s v) < vm_start (vmas s w)"
proof (cases "after s v vs")
  case (Cons x xs)
  then have "\<not> vm_start (vmas s x) \<le> vm_start (vmas s v)" unfolding after_def by (metis dropWhile_eq_Cons_conv)
  moreover have "areas_ok (map (vmas s) (before s v vs @ after s v vs))" using assms(1) by simp
  then have "areas_ok (map (vmas s) (x # xs))" unfolding map_append areas_ok_append Cons by simp
  then have "vm_start (vmas s x) < vm_end (vmas s x)" "\<forall>y \<in> set xs. vm_end (vmas s x) \<le> vm_start (vmas s y)" by auto
  ultimately show ?thesis using assms(2) Cons by fastforce
qed (use assms in simp)

lemma insert_vma_ok:
  assumes rep: "mm_rep s m vs" and v: "v \<noteq> NULL" "v \<notin> set vs"
  shows "if vm_start (vmas s v) < vm_end (vmas s v) \<and> (\<forall>w \<in> set vs. disjoint_from (vm_start (vmas s v)) (vm_end (vmas s v)) (vmas s w))
    then \<exists>s'. insert_vma_struct m v s = Inr s' \<and> mm_rep s' m (before s v vs @ v # after s v vs) \<and> vmas s' = (vmas s)(v := (vmas s v)\<lparr>vm_mm := m\<rparr>) \<and>
      (\<forall>L. heap_live s' L = heap_live s L) \<and> (\<forall>k. k \<noteq> m \<longrightarrow> mms s' k = mms s k) \<and> mms s' m = (mms s m)\<lparr>map_count := map_count (mms s m) + 1\<rparr>
    else \<exists>msg. insert_vma_struct m v s = Inl (Assert_failed msg)"
proof -
  note D = mm_repD [OF rep]
  let ?h = "Mmap_list m" and ?a = "vm_start (vmas s v)" and ?e = "vm_end (vmas s v)"
  define xs ys where "xs = before s v vs" and "ys = after s v vs"
  have vs: "vs = xs @ ys" by (simp add: xs_def ys_def)
  have cl: "clist (vm_links s) ?h (map Vma_link xs @ map Vma_link ys)" using D(3) vs by simp
  define prev where "prev = last (?h # map Vma_link xs)"
  define nxt where "nxt = hd (map Vma_link ys @ [?h])"
  have pos: "insert_pos ?h ?h ?h v s = Some prev"
    using insert_pos_ok [of s ?h "[]" vs m v] D(3) by (simp add: prev_def xs_def before_def)
  have nx: "list_next (vm_links s) prev = nxt" using clist_next_at [OF cl] by (simp add: list_next_def prev_def nxt_def)
  have oks: "areas_ok (map (vmas s) xs)" "areas_ok (map (vmas s) ys)" "\<forall>x \<in> set xs. \<forall>y \<in> set ys. vm_end (vmas s x) \<le> vm_start (vmas s y)"
    using D(4) unfolding vs map_append areas_ok_append by auto
  have below: "\<forall>x \<in> set xs. vm_start (vmas s x) \<le> ?a" unfolding xs_def before_def by (auto dest: set_takeWhileD)
  have above: "\<forall>y \<in> set ys. ?a < vm_start (vmas s y)" using after_above [OF D(4)] by (simp add: ys_def)
  have prev_iff: "prev \<noteq> ?h \<longleftrightarrow> xs \<noteq> []" "xs \<noteq> [] \<Longrightarrow> le2vma prev = last xs"
    by (auto simp: prev_def last_map split: if_splits)
  have nxt_iff: "nxt \<noteq> ?h \<longleftrightarrow> ys \<noteq> []" "ys \<noteq> [] \<Longrightarrow> le2vma nxt = hd ys" by (cases ys; simp add: nxt_def)+
  let ?ok1 = "xs \<noteq> [] \<longrightarrow> vm_end (vmas s (last xs)) \<le> ?a" and ?ok2 = "ys \<noteq> [] \<longrightarrow> ?e \<le> vm_start (vmas s (hd ys))"
  have ne: "vm_start (vmas s w) < vm_end (vmas s w)" if "w \<in> set vs" for w using areas_nonempty [OF D(4)] that by simp
  have c1: "(if prev \<noteq> ?h then check_vma_overlap (le2vma prev) v s else Inr ()) =
      (if ?ok1 then Inr () else Inl (Assert_failed ''prev->vm_end <= next->vm_start''))" if "?a < ?e"
    using that prev_iff ne [of "last xs"] vs by (auto simp: check_vma_overlap_def kassert_def)
  have c2: "(if nxt \<noteq> ?h then check_vma_overlap v (le2vma nxt) s else Inr ()) =
      (if ?ok2 then Inr () else Inl (Assert_failed ''prev->vm_end <= next->vm_start''))" if "?a < ?e"
    using that nxt_iff ne [of "hd ys"] vs by (auto simp: check_vma_overlap_def kassert_def)
  define s1 where "s1 = upd_mm m (\<lambda>x. x\<lparr>map_count := map_count x + 1\<rparr>) (upd_links (list_add_after prev (Vma_link v)) (upd_vma v (\<lambda>x. x\<lparr>vm_mm := m\<rparr>) s))"
  have run: "insert_vma_struct m v s = (if ?a < ?e then if ?ok1 then if ?ok2 then Inr s1 else Inl (Assert_failed ''prev->vm_end <= next->vm_start'')
      else Inl (Assert_failed ''prev->vm_end <= next->vm_start'') else Inl (Assert_failed ''vma->vm_start < vma->vm_end''))"
  proof (cases "?a < ?e")
    case True
    show ?thesis
      unfolding insert_vma_struct_def kassert_True [OF True] pos returns_simps obind_Inr Let_def nx c1 [OF True] c2 [OF True] s1_def
      using True by simp
  next
    case False
    then show ?thesis by (simp add: insert_vma_struct_def)
  qed
  have fits: "(\<forall>w \<in> set vs. disjoint_from ?a ?e (vmas s w)) \<longleftrightarrow> ?ok1 \<and> ?ok2" if ae: "?a < ?e"
  proof
    assume dj: "\<forall>w \<in> set vs. disjoint_from ?a ?e (vmas s w)"
    have "vm_end (vmas s x) \<le> ?a" if "x \<in> set xs" for x
    proof -
      have "disjoint_from ?a ?e (vmas s x)" "vm_start (vmas s x) \<le> ?a" using dj below that vs by auto
      then show ?thesis using ae unfolding disjoint_from_def by auto
    qed
    moreover have "?e \<le> vm_start (vmas s y)" if "y \<in> set ys" for y
    proof -
      have "disjoint_from ?a ?e (vmas s y)" "?a < vm_start (vmas s y)" "vm_start (vmas s y) < vm_end (vmas s y)"
        using dj above that vs ne [of y] by auto
      then show ?thesis unfolding disjoint_from_def by auto
    qed
    ultimately show "?ok1 \<and> ?ok2" by auto
  next
    assume ok: "?ok1 \<and> ?ok2"
    have "vm_end (vmas s x) \<le> ?a" if "x \<in> set xs" for x
    proof (cases "x = last xs")
      case False
      have "xs \<noteq> []" using that by auto
      then have "x \<in> set (butlast xs @ [last xs])" using that by simp
      then have "x \<in> set (butlast xs)" using False by simp
      moreover have "areas_ok (map (vmas s) (butlast xs @ [last xs]))" using oks(1) \<open>xs \<noteq> []\<close> by simp
      ultimately have "vm_end (vmas s x) \<le> vm_start (vmas s (last xs))" "vm_start (vmas s (last xs)) \<le> ?a"
        using below last_in_set [OF \<open>xs \<noteq> []\<close>] unfolding map_append areas_ok_append by auto
      then show ?thesis by simp
    qed (use ok that in auto)
    moreover have "?e \<le> vm_start (vmas s y)" if y: "y \<in> set ys" for y
    proof -
      obtain z zs where z: "ys = z # zs" using y by (cases ys) auto
      then have "?e \<le> vm_start (vmas s z)" "vm_start (vmas s z) < vm_end (vmas s z)" "\<forall>y \<in> set zs. vm_end (vmas s z) \<le> vm_start (vmas s y)"
        using ok oks(2) by auto
      then show ?thesis using y z by fastforce
    qed
    ultimately show "\<forall>w \<in> set vs. disjoint_from ?a ?e (vmas s w)" unfolding vs disjoint_from_def by auto
  qed
  show ?thesis
  proof (cases "?a < ?e \<and> (\<forall>w \<in> set vs. disjoint_from ?a ?e (vmas s w))")
    case True
    then have ae: "?a < ?e" and dj: "\<forall>w \<in> set vs. disjoint_from ?a ?e (vmas s w)" by auto
    have run1: "insert_vma_struct m v s = Inr s1" using run fits [OF ae] dj ae by simp
    have cl1: "clist (list_add_after prev (Vma_link v) (vm_links s)) ?h (map Vma_link (xs @ v # ys))"
    proof -
      have "Vma_link v \<notin> set (Mmap_list m # map Vma_link xs @ map Vma_link ys)" using v(2) vs by auto
      from clist_add_at [OF cl this] show ?thesis by (simp add: list_add_def prev_def)
    qed
    have v1: "vmas s1 = (vmas s)(v := (vmas s v)\<lparr>vm_mm := m\<rparr>)" by (simp add: s1_def)
    have same: "map (vmas s1) xs = map (vmas s) xs" "map (vmas s1) ys = map (vmas s) ys" using v(2) vs v1 by auto
    have "areas_ok (map (vmas s1) (xs @ v # ys))"
    proof -
      have "\<forall>x \<in> set xs. vm_end (vmas s x) \<le> ?a"
      proof
        fix x assume "x \<in> set xs"
        then have "disjoint_from ?a ?e (vmas s x)" "vm_start (vmas s x) \<le> ?a" using dj below vs by auto
        then show "vm_end (vmas s x) \<le> ?a" using ae unfolding disjoint_from_def by auto
      qed
      moreover have "\<forall>y \<in> set ys. ?e \<le> vm_start (vmas s y)"
      proof
        fix y assume y: "y \<in> set ys"
        then have "disjoint_from ?a ?e (vmas s y)" "?a < vm_start (vmas s y)" "vm_start (vmas s y) < vm_end (vmas s y)"
          using dj above vs ne [of y] by auto
        then show "?e \<le> vm_start (vmas s y)" unfolding disjoint_from_def by auto
      qed
      ultimately show ?thesis using oks ae unfolding map_append list.map same areas_ok_append by (auto simp: v1)
    qed
    then have "mm_rep s1 m (xs @ v # ys)"
      using D(1,2,5,6,7) v cl1 vs unfolding mm_rep_def by (auto simp: s1_def)
    moreover have "heap_live s1 L = heap_live s L" for L by (simp add: s1_def)
    moreover have "k \<noteq> m \<Longrightarrow> mms s1 k = mms s k" "mms s1 m = (mms s m)\<lparr>map_count := map_count (mms s m) + 1\<rparr>" for k by (simp_all add: s1_def)
    ultimately show ?thesis using run1 True v1 by (auto simp: xs_def ys_def)
  next
    case False
    then show ?thesis using run fits by auto
  qed
qed

section \<open>Creating and destroying\<close>

lemma mm_create_ok:
  assumes "heap_live s L"
  shows "\<exists>m s'. mm_create s = Inr (m, s') \<and> (if m = NULL then heap_live s' L
    else m \<notin> L \<and> heap_live s' (insert m L) \<and> mm_rep s' m [] \<and> mm_count (mms s' m) = 0 \<and> mm_pgdir (mms s' m) = NULL \<and>
      (\<forall>k vs. k \<noteq> m \<longrightarrow> mm_rep s k vs \<longrightarrow> mm_rep s' k vs))"
  using assms small_sizes(1)
proof (cases rule: kheap.alloc_cases)
  case (none s')
  then show ?thesis by (simp add: mm_create_def)
next
  case (some m s1)
  define s' where "s' = upd_mm m (\<lambda>x. x\<lparr>mm_lock := lock_init\<rparr>) (set_mm_count m 0
     (upd_mm m (\<lambda>x. x\<lparr>mmap_cache := NULL, mm_pgdir := NULL, map_count := 0, sm_priv := NULL\<rparr>) (upd_links (list_init (Mmap_list m)) s1)))"
  have "mm_create s = Inr (m, s')" using some by (simp add: mm_create_def s'_def Let_def)
  moreover have "mm_rep s' m []" using some(3) clist_init by (simp add: mm_rep_def s'_def set_mm_count_def)
  moreover have "heap_live s' (insert m L)" using some by (simp add: s'_def set_mm_count_def)
  moreover have "mm_rep s' k vs" if "k \<noteq> m" "mm_rep s k vs" for k vs
  proof -
    have "mm_rep s1 k vs" using that(2) mm_rep_heap [OF some(2)] by simp
    moreover have "clist (list_init (Mmap_list m) (vm_links s1)) (Mmap_list k) (map Vma_link vs)"
      by (rule clist_frame [OF mm_repD(3) [OF calculation]]) (use that(1) in \<open>auto simp: list_init_def\<close>)
    ultimately show ?thesis using that(1) by (simp add: mm_rep_def s'_def set_mm_count_def)
  qed
  moreover have "mm_count (mms s' m) = 0" "mm_pgdir (mms s' m) = NULL" by (simp_all add: s'_def set_mm_count_def)
  ultimately show ?thesis using some(3,4) by auto
qed

lemma vma_create_ok:
  assumes "heap_live s L"
  shows "\<exists>v s'. vma_create a e fl s = Inr (v, s') \<and> (if v = NULL then heap_frame s s' \<and> heap_live s' L
    else v \<notin> L \<and> heap_live s' (insert v L) \<and> mms s' = mms s \<and> vm_links s' = vm_links s \<and>
      vmas s' = (vmas s)(v := (vmas s v)\<lparr>vm_start := a, vm_end := e, vm_flags := fl\<rparr>))"
  using assms small_sizes(2)
proof (cases rule: kheap.alloc_cases)
  case (none s')
  then show ?thesis by (simp add: vma_create_def)
next
  case (some v s1)
  then show ?thesis using vmm_frame [OF some(2)] by (simp add: vma_create_def)
qed

lemma free_vmas_ok:
  assumes "clist (vm_links s) (Mmap_list m) (map Vma_link vs)" "heap_live s L" "set vs \<subseteq> L" "distinct vs"
  shows "\<exists>s'. free_vmas m s = Some (Inr s') \<and> heap_live s' (L - set vs)"
  using assms
proof (induction vs arbitrary: s L)
  case Nil
  then show ?case by (subst free_vmas.simps) (simp add: list_next_def)
next
  case (Cons v vs)
  let ?s1 = "upd_links (list_del (Vma_link v)) s"
  have nx: "list_next (vm_links s) (Mmap_list m) = Vma_link v" using Cons.prems(1) by (simp add: list_next_def)
  have cl: "clist (list_del (Vma_link v) (vm_links s)) (Mmap_list m) (map Vma_link vs)"
    using clist_del [of "vm_links s" "Mmap_list m" "[]" "Vma_link v" "map Vma_link vs"] Cons.prems(1) by simp
  have "heap_live ?s1 L" using Cons.prems(2) by simp
  then obtain s2 where s2: "kfree v ?s1 = Inr s2" "heap_frame ?s1 s2" "heap_live s2 (L - {v})"
    using kheap.free_ok [of ?s1 L v] Cons.prems(3) by auto
  have "clist (vm_links s2) (Mmap_list m) (map Vma_link vs)" using cl vmm_frame(3) [OF s2(2)] by simp
  then obtain s' where "free_vmas m s2 = Some (Inr s')" "heap_live s' (L - {v} - set vs)"
    using Cons.IH [of s2 "L - {v}"] s2(3) Cons.prems(3,4) by auto
  moreover have "L - {v} - set vs = L - set (v # vs)" by auto
  ultimately show ?case using nx s2(1) by (subst free_vmas.simps) simp
qed

section \<open>User memory\<close>

definition access_ok :: "vma_struct \<Rightarrow> bool \<Rightarrow> 64 word \<Rightarrow> bool" where
  "access_ok v write start \<longleftrightarrow> vm_flags v AND (if write then VM_WRITE else VM_READ) \<noteq> 0 \<and>
     (write \<and> vm_flags v AND VM_STACK \<noteq> 0 \<longrightarrow> vm_start v + PGSIZE \<le> start)"

lemma stack_page:
  assumes "vm_start v < vm_end v" "vm_end v \<le> USERTOP" "start \<le> vm_start v"
  shows "\<not> vm_start v + PGSIZE \<le> start"
proof -
  have "unat (vm_start v) < 0x80000000" using assms(1,2) by (simp add: USERTOP_def word_less_nat_alt word_le_nat_alt)
  then have "unat (vm_start v + PGSIZE) = unat (vm_start v) + 0x1000"
    by (subst unat_add_lem [THEN iffD1]) (simp_all add: PGSIZE_def)
  then show ?thesis using assms(3) by (simp add: word_le_nat_alt)
qed

lemma mem_check_ok:
  assumes "mm_rep s m vs" "\<forall>v \<in> set vs. vm_end (vmas s v) \<le> USERTOP"
  shows "\<exists>ok s'. mem_check_loop m start end write s = Some (Inr (ok, s')) \<and> mm_rep s' m vs \<and> vmas s' = vmas s \<and>
    (ok \<longleftrightarrow> (\<forall>a. start \<le> a \<and> a < end \<longrightarrow> (\<exists>v \<in> set vs. contains (vmas s v) a \<and> access_ok (vmas s v) write start)))"
  using assms
proof (induction "unat (end - start)" arbitrary: start s rule: less_induct)
  case (less start s)
  show ?case
  proof (cases "start < end")
    case False
    then show ?thesis using less.prems(1) by (subst mem_check_loop.simps) (auto simp: not_less)
  next
    case True
    obtain r where r: "find_vma m start s = Inr (r, if r \<noteq> NULL then upd_mm m (\<lambda>x. x\<lparr>mmap_cache := r\<rparr>) s else s)"
      "r = NULL \<longleftrightarrow> (\<forall>v \<in> set vs. \<not> contains (vmas s v) start)" "r \<noteq> NULL \<longrightarrow> r \<in> set vs \<and> contains (vmas s r) start"
      "mm_rep (if r \<noteq> NULL then upd_mm m (\<lambda>x. x\<lparr>mmap_cache := r\<rparr>) s else s) m vs"
      by (rule find_vma_ok [OF less.prems(1), where addr = start])
    define s1 where "s1 = (if r \<noteq> NULL then upd_mm m (\<lambda>x. x\<lparr>mmap_cache := r\<rparr>) s else s)"
    have s1: "find_vma m start s = Inr (r, s1)" "mm_rep s1 m vs" "vmas s1 = vmas s" using r by (simp_all add: s1_def)
    note D = mm_repD [OF less.prems(1)]
    show ?thesis
    proof (cases "r \<noteq> NULL \<and> access_ok (vmas s r) write start")
      case False
      have "mem_check_loop m start end write s = Some (Inr (False, s1))"
        using True False s1 r(3) by (subst mem_check_loop.simps) (auto simp: access_ok_def Let_def not_less contains_def)
      moreover have "\<not> (\<exists>v \<in> set vs. contains (vmas s v) start \<and> access_ok (vmas s v) write start)"
      proof
        assume "\<exists>v \<in> set vs. contains (vmas s v) start \<and> access_ok (vmas s v) write start"
        then obtain v where v: "v \<in> set vs" "contains (vmas s v) start" "access_ok (vmas s v) write start" by blast
        then have "r \<noteq> NULL" using r(2) by blast
        then have "v = r" using areas_unique [OF D(4) v(1) _ v(2)] r(3) by blast
        then show False using v(3) False \<open>r \<noteq> NULL\<close> by simp
      qed
      ultimately show ?thesis using s1 True by (intro exI [of _ False] exI [of _ s1]) auto
    next
      case ok: True
      let ?n = "vm_end (vmas s r)"
      have rin: "r \<in> set vs" "contains (vmas s r) start" using r(3) ok by auto
      have gt: "vm_start (vmas s r) \<le> start" "start < ?n" using rin(2) by (auto simp: contains_def)
      have step: "mem_check_loop m start end write s = mem_check_loop m ?n end write s1"
        using True ok s1 gt(1) by (subst mem_check_loop.simps) (auto simp: access_ok_def Let_def not_less not_le)
      have up: "vm_end (vmas s1 v) \<le> USERTOP" if "v \<in> set vs" for v using less.prems(2) that s1(3) by simp
      have here: "\<exists>v \<in> set vs. contains (vmas s v) a \<and> access_ok (vmas s v) write start" if "start \<le> a" "a < ?n" for a
        using that rin(1) gt(1) ok by (intro bexI [of _ r]) (auto simp: contains_def)
      show ?thesis
      proof (cases "?n < end")
        case False
        then have "mem_check_loop m ?n end write s1 = Some (Inr (True, s1))" by (subst mem_check_loop.simps) simp
        moreover have "\<exists>v \<in> set vs. contains (vmas s v) a \<and> access_ok (vmas s v) write start" if "start \<le> a \<and> a < end" for a
          using here [of a] that False by auto
        ultimately show ?thesis using step s1 by (intro exI [of _ True] exI [of _ s1]) auto
      next
        case nlt: True
        have "unat (end - ?n) < unat (end - start)"
          using nlt True gt(2) by (simp add: unat_sub word_less_nat_alt word_le_nat_alt)
        then obtain ok' s' where IH: "mem_check_loop m ?n end write s1 = Some (Inr (ok', s'))" "mm_rep s' m vs" "vmas s' = vmas s1"
            "ok' \<longleftrightarrow> (\<forall>a. ?n \<le> a \<and> a < end \<longrightarrow> (\<exists>v \<in> set vs. contains (vmas s1 v) a \<and> access_ok (vmas s1 v) write ?n))"
          using less.hyps [of ?n s1] s1(2) up by blast
        have same: "access_ok (vmas s v) write ?n \<longleftrightarrow> access_ok (vmas s v) write start"
          if v: "v \<in> set vs" "contains (vmas s v) a" "?n \<le> a" for v a
        proof -
          have "v \<noteq> r" using v(2,3) by (auto simp: contains_def)
          obtain us ws where vs: "vs = us @ r # ws" using rin(1) by (meson split_list)
          have "areas_ok (map (vmas s) us @ vmas s r # map (vmas s) ws)" using D(4) vs by simp
          then have o: "\<forall>w \<in> set us. vm_end (vmas s w) \<le> vm_start (vmas s r)" "\<forall>w \<in> set ws. ?n \<le> vm_start (vmas s w)"
            unfolding areas_ok_append by auto
          have "v \<notin> set us"
          proof
            assume "v \<in> set us"
            then have "vm_end (vmas s v) \<le> vm_start (vmas s r)" using o(1) by blast
            then show False using v(2,3) gt by (auto simp: contains_def)
          qed
          then have nv: "?n \<le> vm_start (vmas s v)" using v(1) \<open>v \<noteq> r\<close> vs o(2) by auto
          have lt: "vm_start (vmas s v) < vm_end (vmas s v)" using areas_nonempty [OF D(4)] v(1) by simp
          have "\<not> vm_start (vmas s v) + PGSIZE \<le> ?n" "\<not> vm_start (vmas s v) + PGSIZE \<le> start"
            using stack_page [OF lt] less.prems(2) v(1) nv gt(2) by auto
          then show ?thesis by (simp add: access_ok_def)
        qed
        have "ok' \<longleftrightarrow> (\<forall>a. start \<le> a \<and> a < end \<longrightarrow> (\<exists>v \<in> set vs. contains (vmas s v) a \<and> access_ok (vmas s v) write start))"
        proof -
          have "start \<le> a \<and> a < end \<longleftrightarrow> start \<le> a \<and> a < ?n \<or> ?n \<le> a \<and> a < end" for a using gt(2) nlt by auto
          moreover have "(\<exists>v \<in> set vs. contains (vmas s v) a \<and> access_ok (vmas s v) write ?n) \<longleftrightarrow>
              (\<exists>v \<in> set vs. contains (vmas s v) a \<and> access_ok (vmas s v) write start)" if "?n \<le> a" for a
            using same that by blast
          ultimately show ?thesis using IH(4) here unfolding s1(3) by blast
        qed
        then show ?thesis using step IH s1(3) by auto
      qed
    qed
  qed
qed

end
