(* ===== verification/Vm_Props.thy ===== *)
theory Vm_Props
  imports Vm_Areas
begin

text \<open>The properties of kern/mm/vmm.c, with a concrete descriptor of two areas as witness.\<close>

section \<open>A concrete descriptor\<close>

text \<open>Descriptor 500 with the areas 600 and 700, all three live objects of the heap.\<close>

definition demo_area :: "64 word \<Rightarrow> 64 word \<Rightarrow> 32 word \<Rightarrow> vma_struct" where
  "demo_area a e f = \<lparr>vm_mm = 500, vm_start = a, vm_end = e, vm_flags = f\<rparr>"

definition demo_vlinks :: "vm_entry list_store" where
  "demo_vlinks = \<lparr>prev_of = id(Mmap_list 500 := Vma_link 700, Vma_link 600 := Mmap_list 500, Vma_link 700 := Vma_link 600),
     next_of = id(Mmap_list 500 := Vma_link 600, Vma_link 600 := Vma_link 700, Vma_link 700 := Mmap_list 500)\<rparr>"

definition demo_vm :: vmm where
  "demo_vm = kheap.extend (demo_heap\<lparr>slobs := \<lambda>p. if p = 1 then \<lparr>sl_units = 1, sl_next = 1\<rparr> else \<lparr>sl_units = 4, sl_next = 0\<rparr>\<rparr>)
     (vmm.fields (\<lambda>v. if v = 600 then demo_area 0x800000 0x802000 3 else if v = 700 then demo_area 0x900000 0x901000 1 else demo_area 0 0 0)
       (\<lambda>m. \<lparr>mmap_cache = NULL, mm_pgdir = 50, map_count = 2, sm_priv = NULL, mm_count = 0, mm_lock = 0\<rparr>) demo_vlinks)"

lemma demo_vm_simps [simp]:
  "vmas demo_vm = (\<lambda>v. if v = 600 then demo_area 0x800000 0x802000 3 else if v = 700 then demo_area 0x900000 0x901000 1 else demo_area 0 0 0)"
  "mms demo_vm = (\<lambda>m. \<lparr>mmap_cache = NULL, mm_pgdir = 50, map_count = 2, sm_priv = NULL, mm_count = 0, mm_lock = 0\<rparr>)"
  "vm_links demo_vm = demo_vlinks" "slobs demo_vm = (\<lambda>p. if p = 1 then \<lparr>sl_units = 1, sl_next = 1\<rparr> else \<lparr>sl_units = 4, sl_next = 0\<rparr>)"
  "slobfree demo_vm = 1" "bigblocks demo_vm = NULL" "pages demo_vm = pages demo_mem" "page_links demo_vm = page_links demo_mem"
  "nr_free demo_vm = nr_free demo_mem" "npage demo_vm = 100"
  by (simp_all add: demo_vm_def kheap.defs vmm.defs)

lemma demo_vm_rep: "mm_rep demo_vm 500 [600, 700]"
  by (simp add: mm_rep_def clist_def demo_vlinks_def demo_area_def)

lemma demo_vm_live: "live_objects demo_vm 1 [(1, 1)] ({10..<14} \<union> {30..<38}) [] {500, 600, 700}"
proof -
  let ?F = "{10..<14} \<union> {30..<38} :: nat set"
  have "mem_ok demo_vm ?F" using demo_mem_ok
    by (simp add: mem_ok_def free_set_def free_rep_def PageProperty_def unreserved_def PageReserved_def)
  moreover have "slob_rep demo_vm 1 [(1, 1)]" by (simp add: slob_rep_def)
  moreover have "block_pages [(1, 1)] \<inter> page_units ?F = {}" by (auto simp: page_units_iff)
  moreover have "extent demo_vm p \<inter> (block_pages [(1, 1)] \<union> page_units ?F) = {}" if "p \<in> {500, 600, 700}" for p
    using that by (auto simp: extent_def page_units_iff)
  moreover have "extent demo_vm p \<inter> extent demo_vm q = {}" if "p \<in> {500, 600, 700}" "q \<in> {500, 600, 700}" "p \<noteq> q" for p q
    using that by (auto simp: extent_def)
  ultimately show ?thesis unfolding live_objects_def heap_ok_def by (auto simp: units_per_page_def)
qed

lemma demo_vm_heap: "heap_live demo_vm {500, 600, 700}"
  using demo_vm_live unfolding heap_live_def by blast

section \<open>Properties\<close>

text \<open>C29: \<open>find_vma\<close> returns the area that contains the address, or NULL exactly when none does, whatever area is in the
  cache, and keeps the invariant; of the state only the cache of the descriptor may change.\<close>
theorem find_vma_correct:
  assumes "mm_rep s m vs"
  shows "\<exists>r s'. find_vma m addr s = Inr (r, s') \<and> (r = NULL \<longleftrightarrow> (\<forall>v \<in> set vs. \<not> contains (vmas s v) addr)) \<and>
    (r \<noteq> NULL \<longrightarrow> r \<in> set vs \<and> contains (vmas s r) addr) \<and> mm_rep s' m vs \<and> (\<exists>c. s' = upd_mm m (\<lambda>x. x\<lparr>mmap_cache := c\<rparr>) s)"
proof -
  obtain r where r: "find_vma m addr s = Inr (r, if r \<noteq> NULL then upd_mm m (\<lambda>x. x\<lparr>mmap_cache := r\<rparr>) s else s)"
    "r = NULL \<longleftrightarrow> (\<forall>v \<in> set vs. \<not> contains (vmas s v) addr)" "r \<noteq> NULL \<longrightarrow> r \<in> set vs \<and> contains (vmas s r) addr"
    "mm_rep (if r \<noteq> NULL then upd_mm m (\<lambda>x. x\<lparr>mmap_cache := r\<rparr>) s else s) m vs"
    by (rule find_vma_ok [OF assms, where addr = addr])
  have "\<exists>c. (if r \<noteq> NULL then upd_mm m (\<lambda>x. x\<lparr>mmap_cache := r\<rparr>) s else s) = upd_mm m (\<lambda>x. x\<lparr>mmap_cache := c\<rparr>) s"
    by (intro exI [of _ "if r = NULL then mmap_cache (mms s m) else r"]) (simp add: upd_mm_def)
  then show ?thesis using r by blast
qed

theorem find_vma_correct_witness: "\<exists>s'. find_vma 500 0x801fff demo_vm = Inr (600, s') \<and> mm_rep s' 500 [600, 700]"
proof -
  obtain r s' where r: "find_vma 500 0x801fff demo_vm = Inr (r, s')" "r = NULL \<longleftrightarrow> (\<forall>v \<in> {600, 700}. \<not> contains (vmas demo_vm v) 0x801fff)"
    "r \<noteq> NULL \<longrightarrow> r \<in> {600, 700} \<and> contains (vmas demo_vm r) 0x801fff" "mm_rep s' 500 [600, 700]"
    using find_vma_correct [OF demo_vm_rep, of "0x801fff"] by auto
  have "r = 600" using r(2,3) by (auto simp: contains_def demo_area_def)
  then show ?thesis using r by blast
qed

text \<open>C30: \<open>insert_vma_struct\<close> puts a non-empty area that is disjoint from all others into its place in the sorted list and
  keeps the invariant; for every other area one of its assertions stops the kernel.\<close>
theorem insert_vma_sorted:
  assumes "mm_rep s m vs" "v \<noteq> NULL" "v \<notin> set vs"
  shows "if vm_start (vmas s v) < vm_end (vmas s v) \<and> (\<forall>w \<in> set vs. disjoint_from (vm_start (vmas s v)) (vm_end (vmas s v)) (vmas s w))
    then \<exists>s' xs ys. insert_vma_struct m v s = Inr s' \<and> vs = xs @ ys \<and> mm_rep s' m (xs @ v # ys)
    else \<exists>msg. insert_vma_struct m v s = Inl (Assert_failed msg)"
proof -
  have vs: "vs = before s v vs @ after s v vs" by simp
  let ?fits = "vm_start (vmas s v) < vm_end (vmas s v) \<and> (\<forall>w \<in> set vs. disjoint_from (vm_start (vmas s v)) (vm_end (vmas s v)) (vmas s w))"
  show ?thesis
  proof (cases ?fits)
    case True
    then obtain s' where "insert_vma_struct m v s = Inr s'" "mm_rep s' m (before s v vs @ v # after s v vs)"
      using insert_vma_ok [OF assms, unfolded if_P [OF True]] by blast
    then show ?thesis using True vs by metis
  next
    case False
    then show ?thesis using insert_vma_ok [OF assms] by (simp only: if_False)
  qed
qed

theorem insert_vma_sorted_witness:
  "\<exists>msg. insert_vma_struct 500 800 (upd_vma 800 (\<lambda>x. x\<lparr>vm_start := 0x801000, vm_end := 0x803000\<rparr>) demo_vm) = Inl (Assert_failed msg)"
proof -
  let ?s = "upd_vma 800 (\<lambda>x. x\<lparr>vm_start := 0x801000, vm_end := 0x803000\<rparr>) demo_vm"
  have "mm_rep ?s 500 [600, 700]" using demo_vm_rep by (simp add: mm_rep_def)
  then show ?thesis using insert_vma_sorted [of ?s 500 "[600, 700]" 800] by (simp add: disjoint_from_def demo_area_def)
qed

lemma mm_map_run:
  assumes rep: "mm_rep s m vs" and u: "USER_ACCESS (ROUNDDOWN addr PGSIZE) (ROUNDUP (addr + len) PGSIZE)"
    and free: "\<forall>v \<in> set vs. \<not> contains (vmas s v) (ROUNDDOWN addr PGSIZE)"
  shows "mm_map m addr len fl s = obind (vma_create (ROUNDDOWN addr PGSIZE) (ROUNDUP (addr + len) PGSIZE) fl s) (\<lambda>(v, s2).
           if v = NULL then Inr (- E_NO_MEM, None, s2) else obind (insert_vma_struct m v s2) (\<lambda>s3. Inr (0, Some v, s3)))"
proof -
  obtain r where r: "find_vma m (ROUNDDOWN addr PGSIZE) s = Inr (r, if r \<noteq> NULL then upd_mm m (\<lambda>x. x\<lparr>mmap_cache := r\<rparr>) s else s)"
    "r = NULL \<longleftrightarrow> (\<forall>v \<in> set vs. \<not> contains (vmas s v) (ROUNDDOWN addr PGSIZE))"
    by (rule find_vma_ok [OF rep, where addr = "ROUNDDOWN addr PGSIZE"])
  then have "find_vma m (ROUNDDOWN addr PGSIZE) s = Inr (NULL, s)" using free by simp
  then show ?thesis using u mm_repD(1) [OF rep] by (simp add: mm_map_def Let_def)
qed

text \<open>A fresh area next to an existing list.\<close>

lemma mm_rep_fresh:
  assumes "mm_rep s m vs" "v \<notin> set vs" "mms s' = mms s" "vm_links s' = vm_links s" "vmas s' = (vmas s)(v := a)"
  shows "mm_rep s' m vs"
proof -
  have "map (vmas s') vs = map (vmas s) vs" using assms(2,5) by auto
  then show ?thesis using assms unfolding mm_rep_def by auto
qed



text \<open>C32: \<open>mm_map\<close> looks only at the area around the start of the range. When the start is free but a later area begins
  inside the range, the overlap is found by the assertion in \<open>insert_vma_struct\<close>: the kernel stops instead of
  returning \<open>-E_INVAL\<close>.\<close>
theorem mm_map_panics:
  assumes rep: "mm_rep s m vs" and lv: "live_objects s A bs F xs L" "set vs \<subseteq> L" "F \<noteq> {}"
    and u: "USER_ACCESS (ROUNDDOWN addr PGSIZE) (ROUNDUP (addr + len) PGSIZE)"
    and free: "\<forall>v \<in> set vs. \<not> contains (vmas s v) (ROUNDDOWN addr PGSIZE)"
    and later: "v \<in> set vs" "ROUNDDOWN addr PGSIZE < vm_start (vmas s v)" "vm_start (vmas s v) < ROUNDUP (addr + len) PGSIZE"
  shows "\<exists>msg. mm_map m addr len fl s = Inl (Assert_failed msg)"
proof -
  let ?a = "ROUNDDOWN addr PGSIZE" and ?e = "ROUNDUP (addr + len) PGSIZE"
  obtain n s1 bs' G where k: "kmalloc sizeof_vma s = Inr (n, s1)" "heap_frame s s1"
      "if n = NULL then live_objects s1 A bs' (F - G) xs L \<and> F = {} else n \<notin> L"
    using kmalloc_live [OF lv(1) small_sizes(2)] by (metis (no_types, lifting))
  then have n: "n \<noteq> NULL" "n \<notin> set vs" using lv(2,3) by (auto split: if_splits)
  define s2 where "s2 = upd_vma n (\<lambda>x. x\<lparr>vm_start := ?a, vm_end := ?e, vm_flags := fl\<rparr>) s1"
  have create: "vma_create ?a ?e fl s = Inr (n, s2)" using k(1) n(1) by (simp add: vma_create_def s2_def)
  have rep2: "mm_rep s2 m vs"
    by (rule mm_rep_fresh [OF rep n(2)]) (simp_all add: s2_def vmm_frame [OF k(2)])
  have w: "vmas s2 v = vmas s v" "vm_start (vmas s2 n) = ?a" "vm_end (vmas s2 n) = ?e"
    using later(1) n(2) vmm_frame(1) [OF k(2)] by (auto simp: s2_def)
  have "vm_start (vmas s v) < vm_end (vmas s v)" using areas_nonempty [OF mm_repD(4) [OF rep]] later(1) by simp
  then have "\<not> disjoint_from (vm_start (vmas s2 n)) (vm_end (vmas s2 n)) (vmas s2 v)"
    using later(2,3) unfolding w disjoint_from_def by auto
  then obtain msg where "insert_vma_struct m n s2 = Inl (Assert_failed msg)"
    using insert_vma_ok [OF rep2 n] later(1) by (auto split: if_splits)
  then show ?thesis using mm_map_run [OF rep u free, of fl] create n(1) by simp
qed

theorem mm_map_panics_witness: "\<exists>msg. mm_map 500 0x8ff000 0x2000 3 demo_vm = Inl (Assert_failed msg)"
proof -
  have r: "ROUNDDOWN 0x8ff000 PGSIZE = 0x8ff000" "ROUNDUP (0x8ff000 + 0x2000) PGSIZE = 0x901000"
    by (simp_all add: ROUNDDOWN_def ROUNDUP_def PGSIZE_def)
  have "USER_ACCESS 0x8ff000 0x901000" by (simp add: USER_ACCESS_def USERBASE_def USERTOP_def)
  moreover have "\<forall>v \<in> set [600, 700]. \<not> contains (vmas demo_vm v) 0x8ff000" by (simp add: contains_def demo_area_def)
  moreover have "({10..<14} \<union> {30..<38} :: nat set) \<noteq> {}" by auto
  ultimately show ?thesis
    using mm_map_panics [OF demo_vm_rep demo_vm_live, of "0x8ff000" "0x2000" 700 3] unfolding r by (simp add: demo_area_def)
qed



text \<open>C34: \<open>user_mem_check\<close> accepts a range exactly when it is user memory and every byte of it lies in an area that allows
  the access, where a write to a stack area must start above its lowest page; it always returns, through any number of
  adjacent areas.\<close>
theorem user_mem_check_correct:
  assumes "mm_rep s m vs" "\<forall>v \<in> set vs. vm_end (vmas s v) \<le> USERTOP"
  shows "\<exists>ok s'. user_mem_check m addr len write s = Inr (ok, s') \<and> mm_rep s' m vs \<and> vmas s' = vmas s \<and>
    (ok \<longleftrightarrow> USER_ACCESS addr (addr + len) \<and>
      (\<forall>a. addr \<le> a \<and> a < addr + len \<longrightarrow> (\<exists>v \<in> set vs. contains (vmas s v) a \<and> access_ok (vmas s v) write addr)))"
proof -
  obtain ok s' where c: "mem_check_loop m addr (addr + len) write s = Some (Inr (ok, s'))" "mm_rep s' m vs" "vmas s' = vmas s"
    "ok \<longleftrightarrow> (\<forall>a. addr \<le> a \<and> a < addr + len \<longrightarrow> (\<exists>v \<in> set vs. contains (vmas s v) a \<and> access_ok (vmas s v) write addr))"
    using mem_check_ok [OF assms] by blast
  show ?thesis
  proof (cases "USER_ACCESS addr (addr + len)")
    case True
    then have "user_mem_check m addr len write s = Inr (ok, s')" using c(1) mm_repD(1) [OF assms(1)] by (simp add: user_mem_check_def)
    then show ?thesis using c True by blast
  next
    case False
    then have "user_mem_check m addr len write s = Inr (False, s)" using mm_repD(1) [OF assms(1)] by (simp add: user_mem_check_def)
    then show ?thesis using assms(1) False by blast
  qed
qed

theorem user_mem_check_correct_witness:
  "(\<exists>s'. user_mem_check 500 0x801000 0x1000 True demo_vm = Inr (True, s')) \<and> (\<exists>s'. user_mem_check 500 0x900000 1 True demo_vm = Inr (False, s'))"
proof -
  have up: "\<forall>v \<in> set [600, 700]. vm_end (vmas demo_vm v) \<le> USERTOP" by (simp add: demo_area_def USERTOP_def)
  note m = user_mem_check_correct [OF demo_vm_rep up]
  have ua: "USER_ACCESS 0x801000 (0x801000 + 0x1000)" by (simp add: USER_ACCESS_def USERBASE_def USERTOP_def)
  have acc: "access_ok (vmas demo_vm 600) True 0x801000" by (simp add: access_ok_def demo_area_def VM_WRITE_def VM_STACK_def)
  have all: "\<forall>a. 0x801000 \<le> a \<and> a < 0x801000 + 0x1000 \<longrightarrow>
      (\<exists>v \<in> set [600, 700]. contains (vmas demo_vm v) a \<and> access_ok (vmas demo_vm v) True 0x801000)"
  proof (intro allI impI)
    fix a :: "64 word"
    assume "0x801000 \<le> a \<and> a < 0x801000 + 0x1000"
    then have "contains (vmas demo_vm 600) a" by (simp add: contains_def demo_area_def word_le_nat_alt word_less_nat_alt)
    then show "\<exists>v \<in> set [600, 700]. contains (vmas demo_vm v) a \<and> access_ok (vmas demo_vm v) True 0x801000"
      using acc by (intro bexI [of _ 600]) auto
  qed
  have "\<exists>s'. user_mem_check 500 0x801000 0x1000 True demo_vm = Inr (True, s')" 
    using m [of "0x801000" "0x1000" True] ua all by (elim exE conjE) (simp only: simp_thms, blast)
  moreover have "\<not> (\<exists>v \<in> set [600, 700]. contains (vmas demo_vm v) 0x900000 \<and> access_ok (vmas demo_vm v) True 0x900000)"
    by (simp add: contains_def access_ok_def demo_area_def VM_WRITE_def)
  then have "\<not> (\<forall>a. 0x900000 \<le> a \<and> a < 0x900000 + 1 \<longrightarrow> (\<exists>v \<in> set [600, 700]. contains (vmas demo_vm v) a \<and> access_ok (vmas demo_vm v) True 0x900000))"
    by (auto dest!: spec [of _ "0x900000"])
  then have "\<exists>s'. user_mem_check 500 0x900000 1 True demo_vm = Inr (False, s')" using m [of "0x900000" 1 True] by (elim exE conjE) (simp only: simp_thms, blast)
  ultimately show ?thesis by blast
qed

end
