(* ===== verification/Printfmt.thy ===== *)
theory Printfmt
  imports Strings Error_Codes "HOL-Library.Char_ord"
begin

text \<open>
  libs/printfmt.c. \<open>putch\<close> cannot influence the formatting, so \<open>vprintfmt\<close> is modelled by the list of
  the characters it passes to \<open>putch\<close>, in order; \<open>vsnprintf\<close> folds \<open>sprintputch\<close> over that list. A format
  string is a HOL string whose end stands for the NUL; the variable arguments are a list, and taking
  an argument that is not there or has the other type is undefined.
\<close>

section \<open>Data\<close>

datatype arg = Int_arg "64 word" | Str_arg "string option"

record fmt_state =
  padc :: char
  width :: int
  precision :: int
  lflag :: nat
  altflag :: bool

definition fmt_start :: fmt_state where
  "fmt_start = \<lparr>padc = CHR '' '', width = - 1, precision = - 1, lflag = 0, altflag = False\<rparr>"

definition error_string :: "(string option) list" where
  "error_string = [None, Some ''unspecified error'', Some ''bad process'', Some ''invalid parameter'', Some ''out of memory'',
     Some ''out of processes'', Some ''segmentation fault'', None, Some ''invalid elf file'', Some ''process is killed'',
     Some ''panic failure''] @ replicate 14 None"

definition va_word :: "arg list \<Rightarrow> (64 word \<times> arg list) outcome" where
  "va_word ap = (case ap of Int_arg w # ap' \<Rightarrow> Inr (w, ap') | _ \<Rightarrow> Inl (Undefined ''va_arg''))"

definition va_int :: "arg list \<Rightarrow> (int \<times> arg list) outcome" where
  "va_int ap = obind (va_word ap) (\<lambda>(w, ap'). Inr (sint (ucast w :: 32 word), ap'))"

definition va_str :: "arg list \<Rightarrow> (string option \<times> arg list) outcome" where
  "va_str ap = (case ap of Str_arg p # ap' \<Rightarrow> Inr (p, ap') | _ \<Rightarrow> Inl (Undefined ''va_arg''))"

definition getuint :: "arg list \<Rightarrow> nat \<Rightarrow> (64 word \<times> arg list) outcome" where
  "getuint ap lf = (if lf \<ge> 1 then va_word ap else obind (va_word ap) (\<lambda>(w, ap'). Inr (ucast (ucast w :: 32 word), ap')))"

definition getint :: "arg list \<Rightarrow> nat \<Rightarrow> (64 word \<times> arg list) outcome" where
  "getint ap lf = (if lf \<ge> 1 then va_word ap else obind (va_word ap) (\<lambda>(w, ap'). Inr (scast (ucast w :: 32 word), ap')))"

section \<open>Numbers\<close>

definition digits :: string where "digits = ''0123456789abcdef''"

text \<open>The recursion ends for every base from 2; \<open>width\<close> counts down with the digits still to print.\<close>

partial_function (option) printnum :: "nat \<Rightarrow> nat \<Rightarrow> int \<Rightarrow> char \<Rightarrow> string option" where
  "printnum num base w pad =
     (let result = num div base; m = num mod base in
      Option.bind (if num \<ge> base then printnum result base (w - 1) pad else Some (replicate (nat (w - 1)) pad))
        (\<lambda>out. Some (out @ [digits ! m])))"

declare printnum.simps [code]

section \<open>Format strings\<close>

definition is_digit :: "char \<Rightarrow> bool" where
  "is_digit c \<longleftrightarrow> CHR ''0'' \<le> c \<and> c \<le> CHR ''9''"

definition digit_val :: "char \<Rightarrow> int" where
  "digit_val c = of_char c - of_char CHR ''0''"

text \<open>The width loop: \<open>ch\<close> is the digit read, the string what follows it.\<close>

fun scan_width :: "int \<Rightarrow> char \<Rightarrow> string \<Rightarrow> int \<times> string" where
  "scan_width prec ch [] = (prec * 10 + digit_val ch, [])"
| "scan_width prec ch (c # cs) =
     (let prec' = prec * 10 + digit_val ch in if is_digit c then scan_width prec' c cs else (prec', c # cs))"

definition process_precision :: "fmt_state \<Rightarrow> fmt_state" where
  "process_precision f = (if width f < 0 then f\<lparr>width := precision f, precision := - 1\<rparr> else f)"

lemma scan_width_shorter: "length (snd (scan_width prec ch cs)) \<le> length cs"
  by (induction prec ch cs rule: scan_width.induct) (auto simp: Let_def)

text \<open>The flags of a directive up to its conversion character: the label \<open>reswitch\<close>.\<close>

function parse_spec :: "string \<Rightarrow> fmt_state \<Rightarrow> arg list \<Rightarrow> (fmt_state \<times> char \<times> string \<times> arg list) outcome" where
  "parse_spec fmt f ap = (case fmt of [] \<Rightarrow> Inr (f, CHR 0x00, [], ap) | ch # cs \<Rightarrow>
     if ch = CHR ''-'' then parse_spec cs (f\<lparr>padc := CHR ''-''\<rparr>) ap
     else if ch = CHR ''0'' then parse_spec cs (f\<lparr>padc := CHR ''0''\<rparr>) ap
     else if is_digit ch then
       (case scan_width 0 ch cs of (prec, rest) \<Rightarrow> parse_spec rest (process_precision (f\<lparr>precision := prec\<rparr>)) ap)
     else if ch = CHR ''*'' then
       (case va_int ap of Inl e \<Rightarrow> Inl e | Inr (prec, ap') \<Rightarrow> parse_spec cs (process_precision (f\<lparr>precision := prec\<rparr>)) ap')
     else if ch = CHR ''.'' then parse_spec cs (if width f < 0 then f\<lparr>width := 0\<rparr> else f) ap
     else if ch = CHR ''#'' then parse_spec cs (f\<lparr>altflag := True\<rparr>) ap
     else if ch = CHR ''l'' then parse_spec cs (f\<lparr>lflag := lflag f + 1\<rparr>) ap
     else Inr (f, ch, cs, ap))"
  by auto
termination
proof (relation "measure (\<lambda>(fmt, f, ap). length fmt)")
  fix fmt f ap ch cs prec rest
  assume "fmt = ch # cs" "(prec :: int, rest) = scan_width 0 ch cs"
  then show "((rest, process_precision (f\<lparr>precision := prec\<rparr>), ap), fmt, f, ap) \<in> measure (\<lambda>(fmt, f, ap). length fmt)"
    using scan_width_shorter [of 0 ch cs] by (metis case_prod_conv in_measure le_imp_less_Suc length_Cons snd_conv)
qed auto

declare parse_spec.simps [simp del]

text \<open>\<open>%s\<close>: padding on the left unless the flag is \<open>-\<close>, at most \<open>precision\<close> characters, padding on the right.\<close>

definition c_string :: "string \<Rightarrow> string" where
  "c_string p = takeWhile (\<lambda>c. c \<noteq> CHR 0x00) p"

definition print_str :: "string option \<Rightarrow> fmt_state \<Rightarrow> string" where
  "print_str arg f =
     (let p = c_string (case arg of None \<Rightarrow> ''(null)'' | Some p \<Rightarrow> p);
          n = int (if precision f < 0 then length p else min (length p) (nat (precision f)));
          lpad = (if width f > 0 \<and> padc f \<noteq> CHR ''-'' then nat (width f - n) else 0);
          w = (if width f > 0 \<and> padc f \<noteq> CHR ''-'' then min (width f - n) 0 else width f);
          shown = (if precision f < 0 then p else take (nat (precision f)) p)
      in replicate lpad (padc f)
         @ map (\<lambda>ch. if altflag f \<and> (ch < CHR '' '' \<or> ch > CHR ''~'') then CHR ''?'' else ch) shown
         @ replicate (nat (w - int (length shown))) CHR '' '')"

definition print_number :: "64 word \<Rightarrow> nat \<Rightarrow> fmt_state \<Rightarrow> string option" where
  "print_number num base f = printnum (unat num) base (width f) (padc f)"

text \<open>\<open>%e\<close>: the message for an error code of either sign. An index below 0 is outside the array.\<close>

definition error_message :: "int \<Rightarrow> (string option) outcome" where
  "error_message err = (if err > MAXERROR then Inr None
     else if err < 0 then Inl (Undefined ''error_string'') else Inr (error_string ! nat err))"

definition C_abs :: "int \<Rightarrow> int" where
  "C_abs err = (if err < 0 then sint (- word_of_int err :: 32 word) else err)"

text \<open>\<open>emit m k\<close>: the output of \<open>m\<close> followed by that of \<open>k\<close>.\<close>

definition emit :: "string \<Rightarrow> string outcome option \<Rightarrow> string outcome option" where
  "emit out k = map_option (map_sum id ((@) out)) k"

lemma emit_simps [simp]: "emit out None = None" "emit out (Some (Inl e)) = Some (Inl e)" "emit out (Some (Inr r)) = Some (Inr (out @ r))"
  by (simp_all add: emit_def)

lemma emit_mono [partial_function_mono]: "mono_option f \<Longrightarrow> mono_option (\<lambda>g. emit out (f g))"
  unfolding emit_def monotone_def flat_ord_def by (metis option.map(1))

partial_function (option) vprintfmt :: "string \<Rightarrow> arg list \<Rightarrow> string outcome option" where
  "vprintfmt fmt ap = (case fmt of [] \<Rightarrow> Some (Inr []) | ch # cs \<Rightarrow>
     if ch = CHR 0x00 then Some (Inr [])
     else if ch \<noteq> CHR ''%'' then emit [ch] (vprintfmt cs ap)
     else loop_bind (parse_spec cs fmt_start ap) (\<lambda>(f, ch, rest, ap).
       if ch = CHR ''c'' then loop_bind (va_int ap) (\<lambda>(v, ap). emit [char_of v] (vprintfmt rest ap))
       else if ch = CHR ''e'' then
         loop_bind (va_int ap) (\<lambda>(v, ap). let err = C_abs v in
         loop_bind (error_message err) (\<lambda>msg.
         Option.bind (case msg of None \<Rightarrow> vprintfmt ''error %d'' [Int_arg (word_of_int err)] | Some p \<Rightarrow> vprintfmt ''%s'' [Str_arg (Some p)])
           (\<lambda>r. loop_bind r (\<lambda>out. emit out (vprintfmt rest ap)))))
       else if ch = CHR ''s'' then loop_bind (va_str ap) (\<lambda>(p, ap). emit (print_str p f) (vprintfmt rest ap))
       else if ch = CHR ''d'' then
         loop_bind (getint ap (lflag f)) (\<lambda>(num, ap).
         Option.bind (print_number (if sint num < 0 then - num else num) 10 f) (\<lambda>out.
         emit ((if sint num < 0 then ''-'' else []) @ out) (vprintfmt rest ap)))
       else if ch = CHR ''u'' then
         loop_bind (getuint ap (lflag f)) (\<lambda>(num, ap). Option.bind (print_number num 10 f) (\<lambda>out. emit out (vprintfmt rest ap)))
       else if ch = CHR ''o'' then
         loop_bind (getuint ap (lflag f)) (\<lambda>(num, ap). Option.bind (print_number num 8 f) (\<lambda>out. emit out (vprintfmt rest ap)))
       else if ch = CHR ''p'' then
         loop_bind (va_word ap) (\<lambda>(num, ap). Option.bind (print_number num 16 f) (\<lambda>out. emit (''0x'' @ out) (vprintfmt rest ap)))
       else if ch = CHR ''x'' then
         loop_bind (getuint ap (lflag f)) (\<lambda>(num, ap). Option.bind (print_number num 16 f) (\<lambda>out. emit out (vprintfmt rest ap)))
       else if ch = CHR ''%'' then emit ''%'' (vprintfmt rest ap)
       else emit ''%'' (vprintfmt cs ap)))"

declare vprintfmt.simps [code]

definition printfmt :: "string \<Rightarrow> arg list \<Rightarrow> string outcome" where
  "printfmt fmt ap = finish (vprintfmt fmt ap)"

section \<open>Printing to a buffer\<close>

record sprintbuf =
  buf :: "64 word"
  ebuf :: "64 word"
  cnt :: int

definition sprintputch :: "char \<Rightarrow> sprintbuf \<times> bytes \<Rightarrow> sprintbuf \<times> bytes" where
  "sprintputch ch = (\<lambda>(b, m). let b1 = b\<lparr>cnt := cnt b + 1\<rparr> in
     if buf b1 < ebuf b1 then (b1\<lparr>buf := buf b1 + 1\<rparr>, m(buf b1 := ch8 ch)) else (b1, m))"

definition vsnprintf :: "64 word \<Rightarrow> 64 word \<Rightarrow> string \<Rightarrow> arg list \<Rightarrow> bytes \<Rightarrow> (int \<times> bytes) outcome" where
  "vsnprintf str sz fmt ap m =
     (let b = \<lparr>buf = str, ebuf = str + sz - 1, cnt = 0\<rparr> in
      if str = 0 \<or> buf b > ebuf b then Inr (- E_INVAL, m)
      else obind (printfmt fmt ap) (\<lambda>out.
        let (b1, m1) = fold sprintputch out (b, m) in Inr (cnt b1, m1(buf b1 := 0))))"

definition snprintf :: "64 word \<Rightarrow> 64 word \<Rightarrow> string \<Rightarrow> arg list \<Rightarrow> bytes \<Rightarrow> (int \<times> bytes) outcome" where
  "snprintf str sz fmt ap m = vsnprintf str sz fmt ap m"

end
