(* ===== verification/Printf_Props.thy ===== *)
theory Printf_Props
  imports Printfmt
begin

text \<open>
  What libs/printfmt.c and libs/string.c guarantee together: \<open>printnum\<close> prints the digits of the number,
  \<open>vsnprintf\<close> stays inside its buffer and always returns, and \<open>strtol\<close> reads back what \<open>%ld\<close> printed.
\<close>

section \<open>Digits\<close>

text \<open>The reference: the digits of a number, the most significant first.\<close>

function num_digits :: "nat \<Rightarrow> nat \<Rightarrow> nat list" where
  "num_digits base n = (if base < 2 \<or> n < base then [n] else num_digits base (n div base) @ [n mod base])"
  by auto
termination by (relation "measure snd") auto

declare num_digits.simps [simp del]

definition digit_string :: "nat \<Rightarrow> nat \<Rightarrow> string" where
  "digit_string base n = map ((!) digits) (num_digits base n)"

lemma num_digits_below: "2 \<le> base \<Longrightarrow> d \<in> set (num_digits base n) \<Longrightarrow> d < base"
  by (induction base n rule: num_digits.induct) (subst (asm) num_digits.simps, auto split: if_splits)

lemma num_digits_value:
  fixes f :: "nat \<Rightarrow> 64 word"
  shows "2 \<le> base \<Longrightarrow> foldl (\<lambda>v d. v * of_nat base + of_nat d) 0 (num_digits base n) = (of_nat n :: 64 word)"
proof (induction base n rule: num_digits.induct)
  case (1 base n)
  show ?case
  proof (cases "n < base")
    case False
    have "of_nat (n div base) * of_nat base + of_nat (n mod base) = (of_nat (n div base * base + n mod base) :: 64 word)"
      by (simp only: of_nat_add of_nat_mult)
    also have "n div base * base + n mod base = n" by simp
    finally show ?thesis using 1 False by (subst num_digits.simps) simp
  qed (subst num_digits.simps, simp)
qed

lemma printnum_ok:
  assumes "2 \<le> base" "base \<le> 16"
  shows "printnum n base w pad = Some (replicate (nat (w - int (length (num_digits base n)))) pad @ digit_string base n)"
proof (induction n arbitrary: w rule: less_induct)
  case (less n)
  show ?case
  proof (cases "n < base")
    case True
    then have "num_digits base n = [n]" by (subst num_digits.simps) simp
    then show ?thesis using True by (subst printnum.simps) (simp add: digit_string_def)
  next
    case False
    then have nd: "num_digits base n = num_digits base (n div base) @ [n mod base]" using assms by (subst num_digits.simps) simp
    have "n div base < n" using False assms by (intro div_less_dividend) auto
    then show ?thesis using less.IH [of "n div base" "w - 1"] False
      by (subst printnum.simps) (simp add: nd digit_string_def Let_def algebra_simps)
  qed
qed

lemma print_number_ok:
  assumes "2 \<le> base" "base \<le> 16"
  shows "print_number num base f = Some (replicate (nat (width f - int (length (num_digits base (unat num))))) (padc f) @ digit_string base (unat num))"
  unfolding print_number_def by (rule printnum_ok [OF assms])

lemma digits_nth: "d < 16 \<Longrightarrow> digit_of (ch8 (digits ! d)) = Some (int d) \<and> ch8 (digits ! d) \<noteq> 0 \<and>
    ch8 (digits ! d) \<noteq> ch8 CHR '' '' \<and> ch8 (digits ! d) \<noteq> 9 \<and> ch8 (digits ! d) \<noteq> ch8 CHR ''+'' \<and> ch8 (digits ! d) \<noteq> ch8 CHR ''-'' \<and>
    ch8 (digits ! d) \<noteq> ch8 CHR ''x''"
proof -
  assume "d < 16"
  then have "d = 0 \<or> d = 1 \<or> d = 2 \<or> d = 3 \<or> d = 4 \<or> d = 5 \<or> d = 6 \<or> d = 7 \<or> d = 8 \<or> d = 9 \<or> d = 10 \<or> d = 11 \<or>
    d = 12 \<or> d = 13 \<or> d = 14 \<or> d = 15" by arith
  then show ?thesis by (elim disjE) (simp_all add: digits_def digit_of_def ch8_def)
qed

lemma strtol_digits_ok:
  assumes "cstring m s (map (\<lambda>d. ch8 (digits ! d)) ds)" "\<forall>d \<in> set ds. d < base" "base \<le> 16"
  shows "strtol_digits m s (int base) v = Some (foldl (\<lambda>v d. v * of_nat base + of_nat d) v ds, s + of_nat (length ds))"
  using assms(1,2)
proof (induction ds arbitrary: s v)
  case Nil
  then have "digit_of (m s) = None" by (simp add: digit_of_def ch8_def)
  then show ?case by (subst strtol_digits.simps) simp
next
  case (Cons d ds)
  have "d < 16" using Cons.prems assms(3) by auto
  then have dg: "digit_of (m s) = Some (int d)" using digits_nth Cons.prems(1) by simp
  have "\<not> int base \<le> int d" using Cons.prems(2) by simp
  moreover have "strtol_digits m (s + 1) (int base) (v * of_nat base + of_nat d) =
      Some (foldl (\<lambda>v d. v * of_nat base + of_nat d) (v * of_nat base + of_nat d) ds, s + 1 + of_nat (length ds))"
    using Cons by auto
  ultimately show ?case using dg by (subst strtol_digits.simps) (simp add: algebra_simps)
qed

lemma num_digits_nonempty: "num_digits base n \<noteq> []"
  by (subst num_digits.simps) simp

lemma skip_blanks_none: "m s \<noteq> ch8 CHR '' '' \<Longrightarrow> m s \<noteq> 9 \<Longrightarrow> skip_blanks m s = Some s"
  by (subst skip_blanks.simps) simp

text \<open>The string \<open>strtol\<close> reads: an optional minus sign, then the digits.\<close>

lemma strtol_number:
  assumes c: "cstring m s (map ch8 ((if neg then ''-'' else []) @ digit_string base n))" and base: "base \<in> {8, 10, 16}"
  shows "strtol m s (int base) = Inr (if neg then - of_nat n else of_nat n, s + of_nat (length ((if neg then ''-'' else []) @ digit_string base n)))"
proof -
  define t where "t = (if neg then s + 1 else s)"
  have b: "2 \<le> base" "base \<le> 16" "base \<noteq> 0" using base by auto
  have ct: "cstring m t (map (\<lambda>d. ch8 (digits ! d)) (num_digits base n))"
    using c by (auto simp: t_def digit_string_def comp_def split: if_splits)
  have below: "\<forall>d \<in> set (num_digits base n). d < base" using num_digits_below [OF b(1)] by blast
  obtain d ds where dd: "num_digits base n = d # ds" using num_digits_nonempty by (cases "num_digits base n") auto
  have mt: "m t = ch8 (digits ! d)" "d < 16" using ct below b(2) dd by auto
  note dn = digits_nth [OF mt(2)]
  have no_x: "m (t + 1) \<noteq> ch8 CHR ''x''"
  proof (cases ds)
    case Nil
    then show ?thesis using ct dd by (simp add: ch8_def)
  next
    case (Cons e es)
    then have "m (t + 1) = ch8 (digits ! e)" "e < 16" using ct dd below b(2) by auto
    then show ?thesis using digits_nth by simp
  qed
  have m_neg: "neg \<Longrightarrow> m s = ch8 CHR ''-''" using c by simp
  have dash: "ch8 CHR ''-'' \<noteq> ch8 CHR '' ''" "ch8 CHR ''-'' \<noteq> 9" "ch8 CHR ''-'' \<noteq> ch8 CHR ''+''" by (simp_all add: ch8_def)
  have "skip_blanks m s = Some s" using m_neg dash dn mt(1) by (intro skip_blanks_none; cases neg) (simp_all add: t_def)
  moreover have sign: "(if m s = ch8 CHR ''+'' then (False, s + 1) else if m s = ch8 CHR ''-'' then (True, s + 1) else (False, s)) = (neg, t)"
    using m_neg dash(3) dn mt(1) by (cases neg) (simp_all add: t_def)
  ultimately have "strtol m s (int base) = obind (returns (strtol_digits m t (int base) 0)) (\<lambda>(val, s). Inr (if neg then - val else val, s))"
    using no_x b(3) by (simp add: strtol_def Let_def)
  also have "strtol_digits m t (int base) 0 = Some (of_nat n, t + of_nat (length (num_digits base n)))"
    using strtol_digits_ok [OF ct below b(2), of 0] num_digits_value [OF b(1), of n] by simp
  finally show ?thesis by (simp add: t_def digit_string_def algebra_simps)
qed

section \<open>The buffer\<close>

definition write_bytes :: "64 word \<Rightarrow> 8 word list \<Rightarrow> bytes \<Rightarrow> bytes" where
  "write_bytes p xs m = (\<lambda>a. if unat (a - p) < length xs then xs ! unat (a - p) else m a)"

lemma write_bytes_Nil [simp]: "write_bytes p [] m = m"
  by (simp add: write_bytes_def)

lemma write_bytes_Cons:
  assumes "length xs + 1 < 2 ^ 64"
  shows "write_bytes (p + 1) xs (m(p := x)) = write_bytes p (x # xs) m"
proof
  fix a
  show "write_bytes (p + 1) xs (m(p := x)) a = write_bytes p (x # xs) m a"
  proof (cases "a = p")
    case True
    have "unat (p - (p + 1)) = 2 ^ 64 - 1" using unat_minus1 by simp
    then show ?thesis using True assms by (simp add: write_bytes_def)
  next
    case False
    then have "unat (a - p) = Suc (unat (a - (p + 1)))" using unat_pred [of "a - p"] by (simp add: diff_diff_eq)
    then show ?thesis using False by (simp add: write_bytes_def)
  qed
qed

lemma unat_Suc: "unat p < unat e \<Longrightarrow> unat (p + 1) = Suc (unat p)" for p e :: "64 word"
proof -
  assume "unat p < unat e"
  moreover have "unat e < 2 ^ 64" using unsigned_less [of e] by simp
  ultimately have "unat p + unat (1 :: 64 word) < 2 ^ LENGTH(64)" by simp
  then show ?thesis using unat_add_lem [of p 1] by simp
qed

lemma sprintputch_fold:
  assumes "unat p \<le> unat e"
  shows "fold sprintputch out (\<lparr>buf = p, ebuf = e, cnt = c\<rparr>, m) =
    (\<lparr>buf = p + of_nat (min (length out) (unat e - unat p)), ebuf = e, cnt = c + int (length out)\<rparr>,
     write_bytes p (map ch8 (take (unat e - unat p) out)) m)"
  using assms
proof (induction out arbitrary: p c m)
  case Nil
  then show ?case by simp
next
  case (Cons x xs)
  show ?case
  proof (cases "unat p < unat e")
    case True
    have u: "unat (p + 1) = Suc (unat p)" by (rule unat_Suc [OF True])
    define k where "k = unat e - unat (p + 1)"
    have k: "unat e - unat p = Suc k" using True by (simp add: k_def u)
    have st: "sprintputch x (\<lparr>buf = p, ebuf = e, cnt = c\<rparr>, m) = (\<lparr>buf = p + 1, ebuf = e, cnt = c + 1\<rparr>, m(p := ch8 x))"
      using True by (simp add: sprintputch_def Let_def word_less_nat_alt)
    have "unat e < 2 ^ 64" using unsigned_less [of e] by simp
    then have "length (map ch8 (take k xs)) + 1 < 2 ^ 64" using k by simp
    then have "write_bytes (p + 1) (map ch8 (take k xs)) (m(p := ch8 x)) = write_bytes p (map ch8 (take (Suc k) (x # xs))) m"
      using write_bytes_Cons [of "map ch8 (take k xs)" p m "ch8 x"] by simp
    note wb = this
    have "unat (p + 1) \<le> unat e" using True u by simp
    note IH = Cons.IH [OF this, of "c + 1" "m(p := ch8 x)", folded k_def]
    have mn: "min (length (x # xs)) (Suc k) = Suc (min (length xs) k)" by simp
    show ?thesis unfolding k fold.simps comp_apply st IH wb mn by simp
  next
    case False
    then have eq: "unat e - unat p = 0" by simp
    have st: "sprintputch x (\<lparr>buf = p, ebuf = e, cnt = c\<rparr>, m) = (\<lparr>buf = p, ebuf = e, cnt = c + 1\<rparr>, m)"
      using False by (simp add: sprintputch_def Let_def word_less_nat_alt)
    then show ?thesis using Cons.IH [OF Cons.prems, of "c + 1" m] by (simp add: eq)
  qed
qed

lemma vsnprintf_ok:
  assumes str: "str \<noteq> 0" "0 < sz" "unat str + unat sz \<le> 2 ^ 64" and out: "printfmt fmt ap = Inr out"
  shows "vsnprintf str sz fmt ap m = Inr (int (length out), write_bytes str (map ch8 (take (unat sz - 1) out) @ [0]) m)"
proof -
  have sz: "0 < unat sz" using str(2) by (simp add: word_less_nat_alt)
  have e1: "unat (sz - 1) = unat sz - 1" using sz by (metis unat_pred diff_Suc_1 unat_0 less_irrefl)
  have "unat str + unat (sz - 1) < 2 ^ LENGTH(64)" using str(3) sz e1 by simp
  then have "unat (str + (sz - 1)) = unat str + unat (sz - 1)" by (rule unat_add_lem [THEN iffD1])
  then have e: "unat (str + sz - 1) = unat str + (unat sz - 1)" using e1 by (simp add: algebra_simps)
  define k where "k = unat sz - 1"
  define j where "j = min (length out) k"
  have ke: "unat (str + sz - 1) - unat str = k" using e by (simp add: k_def)
  have le: "unat str \<le> unat (str + sz - 1)" using e by simp
  note f = sprintputch_fold [OF le, of out 0 m, unfolded ke, folded j_def]
  have "\<not> str > str + sz - 1" using le by (simp add: word_less_nat_alt)
  then have run: "vsnprintf str sz fmt ap m = Inr (int (length out), (write_bytes str (map ch8 (take k out)) m)(str + of_nat j := 0))"
    using str(1) out f by (simp add: vsnprintf_def Let_def)
  have jk: "j \<le> k" "length (map ch8 (take k out)) = j" by (simp_all add: j_def min.commute)
  have "unat sz < 2 ^ 64" using unsigned_less [of sz] by simp
  then have "k < 2 ^ 64" by (simp add: k_def)
  then have uj: "unat (of_nat j :: 64 word) = j" using jk(1) by (intro unat_of_nat64) simp
  have "(write_bytes str (map ch8 (take k out)) m)(str + of_nat j := 0) = write_bytes str (map ch8 (take k out) @ [0]) m"
  proof
    fix a
    have "a = str + of_nat j \<longleftrightarrow> unat (a - str) = j"
    proof
      assume "unat (a - str) = j"
      moreover have "a - str = of_nat (unat (a - str))" by simp
      ultimately have "a - str = of_nat j" by (simp only:)
      then show "a = str + of_nat j" by (simp add: algebra_simps)
    qed (simp add: uj)
    then show "((write_bytes str (map ch8 (take k out)) m)(str + of_nat j := 0)) a = write_bytes str (map ch8 (take k out) @ [0]) m a"
      using jk(2) by (auto simp: write_bytes_def nth_append)
  qed
  then show ?thesis using run by (simp add: k_def)
qed

lemma cstring_written:
  "length xs + 1 < 2 ^ 64 \<Longrightarrow> \<forall>x \<in> set xs. x \<noteq> 0 \<Longrightarrow> cstring (write_bytes p (xs @ [0]) m) p xs"
proof (induction xs arbitrary: p m)
  case Nil
  then show ?case by (simp add: write_bytes_def)
next
  case (Cons x xs)
  have "write_bytes p ((x # xs) @ [0]) m = write_bytes p (x # (xs @ [0])) m" by simp
  also have "\<dots> = write_bytes (p + 1) (xs @ [0]) (m(p := x))"
    by (rule write_bytes_Cons [symmetric]) (use Cons.prems(1) in simp)
  finally show ?case using Cons by (simp add: write_bytes_def unat_minus1)
qed

section \<open>Termination\<close>

lemma parse_spec_shorter: "parse_spec fmt f ap = Inr (f', ch, rest, ap') \<Longrightarrow> length rest \<le> length fmt"
proof (induction "length fmt" arbitrary: fmt f ap f' ch rest ap' rule: less_induct)
  case less
  show ?case
  proof (cases fmt)
    case Nil
    then show ?thesis using less.prems by (simp add: parse_spec.simps [of "[]"])
  next
    case (Cons c cs)
    have IH: "length rest \<le> Suc (length cs)" if "length g \<le> length cs" "parse_spec g f ap = Inr (f', ch, rest, ap')" for g f ap
      using less.hyps [of g f ap f' ch rest ap'] that Cons by simp
    have w: "scan_width 0 c cs = (prec, g) \<Longrightarrow> length g \<le> length cs" for prec g using scan_width_shorter [of 0 c cs] by simp
    show ?thesis
      using less.prems unfolding Cons parse_spec.simps [of "c # cs"]
      by (auto split: if_split_asm sum.split_asm prod.split_asm dest: IH [OF order_refl] IH [OF w] simp del: scan_width.simps)
  qed
qed

lemma emit_None [simp]: "emit out k = None \<longleftrightarrow> k = None"
  by (simp add: emit_def)

lemma loop_bind_None: "loop_bind m f = None \<longleftrightarrow> (\<exists>x. m = Inr x \<and> f x = None)"
  by (cases m) auto

lemma bind_None: "Option.bind m f = None \<longleftrightarrow> m = None \<or> (\<exists>x. m = Some x \<and> f x = None)"
  by (cases m) auto

lemmas None_simps = loop_bind_None bind_None

lemma print_number_returns: "base \<in> {8, 10, 16} \<Longrightarrow> print_number num base f \<noteq> None"
  using print_number_ok [of base num f] by auto

lemma parse_spec_plain: "\<not> is_digit ch \<Longrightarrow> ch \<notin> set ''-*.#l'' \<Longrightarrow> parse_spec (ch # cs) f ap = Inr (f, ch, cs, ap)"
  by (subst parse_spec.simps) (auto simp: is_digit_def)

lemma not_digit [simp]: "\<not> is_digit CHR ''s''" "\<not> is_digit CHR ''d''" "\<not> is_digit CHR ''l''" "\<not> is_digit CHR ''-''" "is_digit CHR ''5''"
  by (simp_all add: is_digit_def)

lemma vprintfmt_Nil: "vprintfmt [] ap = Some (Inr [])"
  by (subst vprintfmt.simps) simp

lemma vprintfmt_plain: "ch \<noteq> CHR 0x00 \<Longrightarrow> ch \<noteq> CHR ''%'' \<Longrightarrow> vprintfmt (ch # cs) ap = emit [ch] (vprintfmt cs ap)"
  by (subst vprintfmt.simps) simp

lemma vprintfmt_s: "vprintfmt ''%s'' ap \<noteq> None"
  by (subst vprintfmt.simps) (auto simp: parse_spec_plain vprintfmt_Nil None_simps)

lemma vprintfmt_error: "vprintfmt ''error %d'' ap \<noteq> None"
proof -
  have "vprintfmt ''%d'' ap \<noteq> None"
    by (subst vprintfmt.simps) (auto simp: parse_spec_plain vprintfmt_Nil None_simps print_number_returns)
  then show ?thesis by (simp add: vprintfmt_plain)
qed

lemma vprintfmt_not_None: "vprintfmt fmt ap \<noteq> None"
proof (induction "length fmt" arbitrary: fmt ap rule: less_induct)
  case less
  show ?case
  proof (cases fmt)
    case Nil
    then show ?thesis by (simp add: vprintfmt_Nil)
  next
    case (Cons ch cs)
    have IH: "vprintfmt g ap \<noteq> None" if "length g \<le> length cs" for g ap
      using less.hyps [of g ap] that Cons by simp
    show ?thesis
    proof (cases "ch = CHR 0x00 \<or> ch \<noteq> CHR ''%''")
      case True
      have "vprintfmt cs ap \<noteq> None" by (rule IH) simp
      then show ?thesis unfolding Cons using True by (subst vprintfmt.simps) (auto simp del: not_None_eq)
    next
      case False
      show ?thesis
      proof (cases "parse_spec cs fmt_start ap")
        case (Inl e)
        then show ?thesis unfolding Cons using False by (subst vprintfmt.simps) simp
      next
        case (Inr x)
        obtain f c g as where x: "x = (f, c, g, as)" by (cases x)
        have R: "vprintfmt g ap \<noteq> None" for ap by (rule IH [OF parse_spec_shorter [OF Inr [unfolded x]]])
        have C: "vprintfmt cs ap \<noteq> None" for ap by (rule IH) simp
        show ?thesis unfolding Cons using False Inr x R C
          by (subst vprintfmt.simps) (simp add: None_simps Let_def print_number_returns vprintfmt_s vprintfmt_error del: not_None_eq split: option.split prod.split)
      qed
    qed
  qed
qed

text \<open>C35: \<open>vprintfmt\<close> returns for every format string and all arguments (its loop and its recursion through \<open>%e\<close> end);
  only arguments that do not match the format are undefined.\<close>
theorem vprintfmt_returns: "\<exists>r. vprintfmt fmt ap = Some r"
  using vprintfmt_not_None [of fmt ap] by blast

section \<open>Properties\<close>

text \<open>C36: \<open>vsnprintf\<close> returns the length of the whole output and writes exactly the part of it that fits, then a NUL: the
  bytes at \<open>str\<close>, at most \<open>sz\<close> of them, and no other byte of memory.\<close>
theorem vsnprintf_bounded:
  assumes "str \<noteq> 0" "0 < sz" "unat str + unat sz \<le> 2 ^ 64" "printfmt fmt ap = Inr out"
  shows "\<exists>m'. vsnprintf str sz fmt ap m = Inr (int (length out), m') \<and>
    (\<forall>a. unat (a - str) \<ge> unat sz \<longrightarrow> m' a = m a) \<and>
    (\<forall>i < min (length out) (unat sz - 1). m' (str + of_nat i) = ch8 (out ! i)) \<and>
    m' (str + of_nat (min (length out) (unat sz - 1))) = 0"
proof -
  define xs where "xs = map ch8 (take (unat sz - 1) out) @ [0]"
  have l: "length xs = Suc (min (length out) (unat sz - 1))" by (simp add: xs_def min.commute)
  have "0 < unat sz" using assms(2) by (simp add: word_less_nat_alt)
  then have lsz: "length xs \<le> unat sz" using l by simp
  have "unat sz < 2 ^ 64" using unsigned_less [of sz] by simp
  then have u: "unat (of_nat i :: 64 word) = i" if "i < length xs" for i
    using that lsz by (intro unat_of_nat64) simp
  have at: "write_bytes str xs m (str + of_nat i) = xs ! i" if "i < length xs" for i
    using u [OF that] that by (simp add: write_bytes_def)
  define m' where "m' = write_bytes str xs m"
  have "m' (str + of_nat i) = ch8 (out ! i)" if "i < min (length out) (unat sz - 1)" for i
  proof -
    have "i < length xs" using that unfolding l by (rule less_SucI)
    then have "m' (str + of_nat i) = xs ! i" unfolding m'_def by (rule at)
    then show ?thesis using that by (simp add: xs_def nth_append)
  qed
  moreover have "m' (str + of_nat (min (length out) (unat sz - 1))) = 0"
  proof -
    have "min (length out) (unat sz - 1) < length xs" unfolding l by simp
    then have "m' (str + of_nat (min (length out) (unat sz - 1))) = xs ! min (length out) (unat sz - 1)" unfolding m'_def by (rule at)
    then show ?thesis by (simp add: xs_def nth_append min.commute)
  qed
  moreover have "m' a = m a" if "unat (a - str) \<ge> unat sz" for a using that lsz by (simp add: m'_def write_bytes_def)
  ultimately show ?thesis using vsnprintf_ok [OF assms, of m] unfolding xs_def [symmetric] m'_def [symmetric] by blast
qed

lemma printfmt_ld:
  "printfmt ''%ld'' [Int_arg v] = Inr ((if sint v < 0 then ''-'' else []) @ digit_string 10 (unat (if sint v < 0 then - v else v)))"
proof -
  have "parse_spec ''ld'' fmt_start [Int_arg v] = Inr (fmt_start\<lparr>lflag := 1\<rparr>, CHR ''d'', [], [Int_arg v])"
    by (subst parse_spec.simps) (simp add: parse_spec_plain fmt_start_def)
  moreover have "print_number w 10 (fmt_start\<lparr>lflag := 1\<rparr>) = Some (digit_string 10 (unat w))" for w
    using print_number_ok [of 10 w "fmt_start\<lparr>lflag := 1\<rparr>"] by (simp add: fmt_start_def)
  ultimately show ?thesis
    by (simp add: printfmt_def vprintfmt.simps [of "''%ld''"] vprintfmt_Nil getint_def va_word_def)
qed

text \<open>C37: \<open>strtol\<close> reads back what \<open>snprintf\<close> printed with \<open>%ld\<close>: the same 64-bit number, negative or not, up to its end.\<close>
theorem snprintf_strtol:
  assumes "str \<noteq> 0" "unat str + unat sz \<le> 2 ^ 64" "21 < sz"
  shows "\<exists>n m'. snprintf str sz ''%ld'' [Int_arg v] m = Inr (n, m') \<and> strtol m' str 10 = Inr (v, str + of_int n)"
proof -
  define neg where "neg \<longleftrightarrow> sint v < 0"
  define w where "w = (if neg then - v else v)"
  define out where "out = (if neg then ''-'' else []) @ digit_string 10 (unat w)"
  have out: "printfmt ''%ld'' [Int_arg v] = Inr out" using printfmt_ld [of v] by (simp add: out_def w_def neg_def)
  have len: "n < 10 ^ Suc k \<Longrightarrow> length (num_digits 10 n) \<le> Suc k" for n k
  proof (induction k arbitrary: n)
    case 0
    then show ?case by (subst num_digits.simps) simp
  next
    case (Suc k)
    have "n div 10 < 10 ^ Suc k" using Suc.prems by (simp add: div_less_iff_less_mult)
    then show ?case using Suc.IH [of "n div 10"] by (subst num_digits.simps) simp
  qed
  have "unat w < 2 ^ 64" using unsigned_less [of w] by simp
  then have "unat w < 10 ^ Suc 19" by simp
  then have "length (num_digits 10 (unat w)) \<le> 20" using len [of "unat w" 19] by simp
  then have lo: "length out \<le> 21" by (simp add: out_def digit_string_def)
  have sz: "21 < unat sz" using assms(3) by (simp add: word_less_nat_alt)
  then have "0 < sz" by (simp add: word_less_nat_alt)
  note run = vsnprintf_ok [OF assms(1) this assms(2) out, of m]
  define xs where "xs = map ch8 out"
  have tk: "take (unat sz - 1) out = out" using lo sz by simp
  have nz: "\<forall>x \<in> set xs. x \<noteq> 0"
  proof -
    have "ch8 (digits ! d) \<noteq> 0" if "d \<in> set (num_digits 10 (unat w))" for d
      using digits_nth [of d] num_digits_below [OF _ that] by simp
    then show ?thesis by (auto simp: xs_def out_def digit_string_def ch8_def)
  qed
  have "length xs + 1 < 2 ^ 64" using lo by (simp add: xs_def)
  then have cs: "cstring (write_bytes str (xs @ [0]) m) str xs" by (rule cstring_written [OF _ nz])
  have "strtol (write_bytes str (xs @ [0]) m) str (int 10) =
      Inr (if neg then - of_nat (unat w) else of_nat (unat w), str + of_nat (length out))"
    unfolding out_def by (rule strtol_number) (use cs in \<open>simp_all add: xs_def out_def\<close>)
  then have "strtol (write_bytes str (xs @ [0]) m) str 10 = Inr (v, str + of_int (int (length out)))"
    by (simp add: w_def split: if_splits)
  then show ?thesis using run unfolding tk xs_def [symmetric] snprintf_def by blast
qed

theorem snprintf_strtol_witness:
  "\<exists>n m'. snprintf 0x1000 32 ''%ld'' [Int_arg (- 273)] (\<lambda>_. 7) = Inr (n, m') \<and> strtol m' 0x1000 10 = Inr (- 273, 0x1000 + of_int n)"
  by (rule snprintf_strtol) simp_all

theorem vsnprintf_bounded_witness:
  "\<exists>m'. vsnprintf 0x1000 3 ''abcdef'' [] (\<lambda>_. 7) = Inr (6, m') \<and> m' 0x1001 = 98 \<and> m' 0x1002 = 0 \<and> m' 0x1003 = 7"
proof -
  have "printfmt ''abcdef'' [] = Inr ''abcdef''" by (simp add: printfmt_def vprintfmt_plain vprintfmt_Nil)
  then obtain m' where m': "vsnprintf 0x1000 3 ''abcdef'' [] (\<lambda>_. 7) = Inr (6, m')"
      "\<forall>a. unat (a - 0x1000) \<ge> 3 \<longrightarrow> m' a = 7" "\<forall>i < 2. m' (0x1000 + of_nat i) = ch8 (''abcdef'' ! i)" "m' (0x1000 + 2) = 0"
    using vsnprintf_bounded [of "0x1000" 3 "''abcdef''" "[]" "''abcdef''" "\<lambda>_. 7"] by auto
  then show ?thesis using m'(2) [rule_format, of "0x1003"] m'(3) [rule_format, of 1] by (intro exI [of _ m']) (simp add: ch8_def)
qed

text \<open>The flag \<open>-\<close> does not align a number to the left: the minus sign becomes the padding character, so \<open>%-5d\<close> of 42
  prints three minus signs and reads as a negative number.\<close>
theorem left_flag_pads_minus: "printfmt ''%-5d'' [Int_arg 42] = Inr ''---42''"
proof -
  have "parse_spec ''-5d'' fmt_start [Int_arg 42] = Inr (fmt_start\<lparr>padc := CHR ''-'', width := 5\<rparr>, CHR ''d'', [], [Int_arg 42])"
    by (simp add: parse_spec.simps [of "''-5d''"] parse_spec.simps [of "''5d''"] parse_spec_plain fmt_start_def process_precision_def digit_val_def)
  moreover have "num_digits 10 42 = [4, 2]" by (simp add: num_digits.simps)
  then have "print_number 42 10 (fmt_start\<lparr>padc := CHR ''-'', width := 5\<rparr>) = Some ''---42''"
    using print_number_ok [of 10 42 "fmt_start\<lparr>padc := CHR ''-'', width := 5\<rparr>"]
    by (simp add: fmt_start_def digit_string_def digits_def numeral_3_eq_3)
  ultimately show ?thesis
    by (simp add: printfmt_def vprintfmt.simps [of "''%-5d''"] vprintfmt_Nil getint_def va_word_def fmt_start_def)
qed

end
