(* ===== verification/Hash_Rand.thy ===== *)
theory Hash_Rand
  imports Prelude
begin

text \<open>libs/hash.c and libs/rand.c: the hash of process ids and the pseudo-random generator.\<close>

definition GOLDEN_RATIO_PRIME_32 :: "64 word" where "GOLDEN_RATIO_PRIME_32 = 0x9e370001"

definition hash32 :: "32 word \<Rightarrow> nat \<Rightarrow> 32 word" where
  "hash32 val bits = (let hash = ucast (ucast val * GOLDEN_RATIO_PRIME_32) :: 32 word in drop_bit (32 - bits) hash)"

lemma hash32_bound: "bits \<le> 32 \<Longrightarrow> unat (hash32 val bits) < 2 ^ bits"
proof -
  assume b: "bits \<le> 32"
  define h where "h = (ucast (ucast val * GOLDEN_RATIO_PRIME_32) :: 32 word)"
  have "unat h < 2 ^ 32" using unsigned_less [of h] by simp
  also have "(2 :: nat) ^ 32 = 2 ^ bits * 2 ^ (32 - bits)" using b by (simp flip: power_add)
  finally have "unat h div 2 ^ (32 - bits) < 2 ^ bits" by (simp add: div_less_iff_less_mult)
  then show ?thesis unfolding hash32_def Let_def h_def [symmetric] unat_drop_bit_eq by (simp add: drop_bit_eq_div)
qed

definition RAND_MAX :: "64 word" where "RAND_MAX = 2147483647"

text \<open>\<open>do_div(n, base)\<close>: the quotient stays in \<open>n\<close>, the remainder is the value.\<close>

definition do_div :: "64 word \<Rightarrow> 64 word \<Rightarrow> 64 word \<times> 32 word" where
  "do_div n base = (n div ucast (ucast base :: 32 word), ucast (n mod ucast (ucast base :: 32 word)))"

definition rand :: "64 word \<Rightarrow> int \<times> 64 word" where
  "rand nxt = (let nxt' = (nxt * 0x5DEECE66D + 0xB) AND (push_bit 48 1 - 1);
                   result = drop_bit 12 nxt'
               in (sint (snd (do_div result (RAND_MAX + 1))), nxt'))"

definition srand :: "32 word \<Rightarrow> 64 word" where
  "srand seed = ucast seed"

text \<open>Every value of \<open>rand\<close> lies between 0 and \<open>RAND_MAX\<close>.\<close>

lemma rand_range: "0 \<le> fst (rand nxt) \<and> fst (rand nxt) \<le> uint RAND_MAX"
proof -
  have "ucast (ucast (RAND_MAX + 1) :: 32 word) = (0x80000000 :: 64 word)" by (simp add: RAND_MAX_def)
  then obtain x :: "64 word" where x: "snd (do_div (drop_bit 12 ((nxt * 0x5DEECE66D + 0xB) AND (push_bit 48 1 - 1))) (RAND_MAX + 1)) = ucast (x mod 0x80000000)"
    by (simp add: do_div_def)
  define r where "r = (ucast (x mod 0x80000000) :: 32 word)"
  have "uint (x mod 0x80000000) < 2 ^ 31" by (simp add: uint_mod)
  moreover have "uint r = uint (x mod 0x80000000) mod 2 ^ 32" by (simp add: r_def unsigned_ucast_eq take_bit_eq_mod)
  ultimately have u: "uint r < 2 ^ 31" "0 \<le> uint r" by simp_all
  have "signed_take_bit 31 (uint r) = uint r" 
    by (rule signed_take_bit_int_eq_self) (rule order_trans [OF _ u(2)], simp, use u(1) in simp)
  then have "sint r = uint r" by (simp add: sint_uint)
  then show ?thesis using u x by (simp add: rand_def Let_def r_def [symmetric] RAND_MAX_def)
qed

end
