(* ===== verification/Kernel_State.thy ===== *)
theory Kernel_State
  imports Vmm Hash_Rand
begin

text \<open>
  The whole kernel state: the memory descriptors of \<open>vmm\<close> plus the process table of
  kern/process/proc.c, the trap frames (kern/trap/trap.h) and the tick counter. Also how kernel code
  reads and writes through virtual addresses: a kernel address lies in the linear map, a user
  address goes through the page tables that satp names, and an address that is not mapped with the
  right permission faults.
\<close>

section \<open>Trap frames\<close>

record trapframe =
  gpr_zero :: "64 word"
  gpr_ra :: "64 word"
  gpr_sp :: "64 word"
  gpr_gp :: "64 word"
  gpr_tp :: "64 word"
  gpr_t0 :: "64 word"
  gpr_t1 :: "64 word"
  gpr_t2 :: "64 word"
  gpr_s0 :: "64 word"
  gpr_s1 :: "64 word"
  gpr_a0 :: "64 word"
  gpr_a1 :: "64 word"
  gpr_a2 :: "64 word"
  gpr_a3 :: "64 word"
  gpr_a4 :: "64 word"
  gpr_a5 :: "64 word"
  gpr_a6 :: "64 word"
  gpr_a7 :: "64 word"
  gpr_s2 :: "64 word"
  gpr_s3 :: "64 word"
  gpr_s4 :: "64 word"
  gpr_s5 :: "64 word"
  gpr_s6 :: "64 word"
  gpr_s7 :: "64 word"
  gpr_s8 :: "64 word"
  gpr_s9 :: "64 word"
  gpr_s10 :: "64 word"
  gpr_s11 :: "64 word"
  gpr_t3 :: "64 word"
  gpr_t4 :: "64 word"
  gpr_t5 :: "64 word"
  gpr_t6 :: "64 word"
  tf_status :: "64 word"
  tf_epc :: "64 word"
  tf_tval :: "64 word"
  tf_cause :: "64 word"

definition zero_trapframe :: trapframe where
  "zero_trapframe = \<lparr>gpr_zero = 0, gpr_ra = 0, gpr_sp = 0, gpr_gp = 0, gpr_tp = 0, gpr_t0 = 0, gpr_t1 = 0, gpr_t2 = 0,
     gpr_s0 = 0, gpr_s1 = 0, gpr_a0 = 0, gpr_a1 = 0, gpr_a2 = 0, gpr_a3 = 0, gpr_a4 = 0, gpr_a5 = 0, gpr_a6 = 0, gpr_a7 = 0,
     gpr_s2 = 0, gpr_s3 = 0, gpr_s4 = 0, gpr_s5 = 0, gpr_s6 = 0, gpr_s7 = 0, gpr_s8 = 0, gpr_s9 = 0, gpr_s10 = 0, gpr_s11 = 0,
     gpr_t3 = 0, gpr_t4 = 0, gpr_t5 = 0, gpr_t6 = 0, tf_status = 0, tf_epc = 0, tf_tval = 0, tf_cause = 0\<rparr>"

definition sizeof_trapframe :: "64 word" where "sizeof_trapframe = 288"

section \<open>The kernel state\<close>

text \<open>The list of all processes runs through their \<open>list_link\<close>, the 1024 hash lists through their \<open>hash_link\<close>.\<close>

datatype proc_entry = Proc_list | List_link ptr

datatype hash_entry = Hash_list nat | Hash_link ptr

fun list2proc :: "proc_entry \<Rightarrow> ptr" where
  "list2proc (List_link p) = p"
| "list2proc Proc_list = NULL"

fun hash2proc :: "hash_entry \<Rightarrow> ptr" where
  "hash2proc (Hash_link p) = p"
| "hash2proc (Hash_list b) = NULL"

text \<open>
  \<open>forkret\<close>, \<open>kernel_thread_entry\<close> and the root of the boot page table are fixed when the kernel is
  linked and started; \<open>cons_out\<close> collects the characters the system call \<open>putc\<close> writes.
\<close>

record kernel = vmm +
  proc_links :: "proc_entry list_store"
  hash_links :: "hash_entry list_store"
  nr_process :: int
  initproc :: ptr
  next_safe :: int
  last_pid :: int
  tframes :: "64 word \<Rightarrow> trapframe"
  boot_pgdir :: nat
  forkret :: "64 word"
  kernel_thread_entry :: "64 word"
  ticks :: "64 word"
  cons_out :: "int list"

definition upd_frame :: "64 word \<Rightarrow> (trapframe \<Rightarrow> trapframe) \<Rightarrow> 'a kernel_scheme \<Rightarrow> 'a kernel_scheme" where
  "upd_frame a f s = s\<lparr>tframes := (tframes s)(a := f (tframes s a))\<rparr>"

text \<open>
  Some operations give the processor away for good (\<open>do_exit\<close>, or whatever calls it): their caller
  does not go on. Otherwise they return a value.
\<close>

datatype 'r control = Returns 'r | Leaves

section \<open>Memory through virtual addresses\<close>

definition kva :: "nat \<Rightarrow> 64 word" where
  "kva frame = page2pa frame + PHYSICAL_MEMORY_OFFSET"

definition kva2page :: "64 word \<Rightarrow> 'a mem_scheme \<Rightarrow> nat outcome" where
  "kva2page vad s = obind (PADDR vad) (pa2page s)"

definition frame_byte :: "(nat \<Rightarrow> nat \<Rightarrow> 64 word) \<Rightarrow> nat \<Rightarrow> nat \<Rightarrow> 8 word" where
  "frame_byte m f i = ucast (drop_bit (8 * (i mod 8)) (m f (i div 8)))"

definition set_frame_byte :: "nat \<Rightarrow> nat \<Rightarrow> 8 word \<Rightarrow> 'a mem_scheme \<Rightarrow> 'a mem_scheme" where
  "set_frame_byte f i b s =
     (let w = phys s f (i div 8); k = 8 * (i mod 8)
      in set_pte (f, i div 8) ((w AND NOT (push_bit k 0xFF)) OR push_bit k (ucast b)) s)"

text \<open>The frame behind an address, for an access that needs the permission \<open>need\<close>.\<close>

definition va_frame :: "64 word \<Rightarrow> 64 word \<Rightarrow> 'a mem_scheme \<Rightarrow> nat outcome" where
  "va_frame need vad s =
     (if vad \<ge> KERNBASE then Inr (unat (PPN (vad - PHYSICAL_MEMORY_OFFSET)))
      else let e = mapping (phys s) (unat (take_bit 44 (satp s))) vad
        in if e AND PTE_V \<noteq> 0 \<and> e AND need \<noteq> 0 then Inr (pte_frame e) else Inl (Undefined ''page fault''))"

definition load8 :: "64 word \<Rightarrow> 'a mem_scheme \<Rightarrow> (8 word) outcome" where
  "load8 vad s = obind (va_frame PTE_R vad s) (\<lambda>f. Inr (frame_byte (phys s) f (unat (PGOFF vad))))"

definition store8 :: "64 word \<Rightarrow> 8 word \<Rightarrow> 'a mem_scheme \<Rightarrow> 'a mem_scheme outcome" where
  "store8 vad b s = obind (va_frame PTE_W vad s) (\<lambda>f. Inr (set_frame_byte f (unat (PGOFF vad)) b s))"

fun load_bytes :: "64 word \<Rightarrow> nat \<Rightarrow> 'a mem_scheme \<Rightarrow> (8 word list) outcome" where
  "load_bytes vad 0 s = Inr []"
| "load_bytes vad (Suc n) s = obind (load8 vad s) (\<lambda>b. obind (load_bytes (vad + 1) n s) (\<lambda>bs. Inr (b # bs)))"

fun store_bytes :: "64 word \<Rightarrow> 8 word list \<Rightarrow> 'a mem_scheme \<Rightarrow> 'a mem_scheme outcome" where
  "store_bytes vad [] s = Inr s"
| "store_bytes vad (b # bs) s = obind (store8 vad b s) (store_bytes (vad + 1) bs)"

text \<open>Little-endian integers.\<close>

definition le_word :: "8 word list \<Rightarrow> 64 word" where
  "le_word bs = foldr (\<lambda>b w. push_bit 8 w OR ucast b) bs 0"

definition load_int :: "64 word \<Rightarrow> nat \<Rightarrow> 'a mem_scheme \<Rightarrow> (64 word) outcome" where
  "load_int vad n s = obind (load_bytes vad n s) (\<lambda>bs. Inr (le_word bs))"

definition int_bytes :: "int \<Rightarrow> 8 word list" where
  "int_bytes v = map (\<lambda>i. ucast (drop_bit (8 * i) (word_of_int v :: 32 word))) [0..<4]"

end
