(* ===== verification/Proc_Table.thy ===== *)
theory Proc_Table
  imports Kernel_State
begin

text \<open>
  The process table, kern/process/proc.c: process records, names, the family links, process
  numbers and the hash table that finds a process by its number.
\<close>

section \<open>Process records\<close>

definition HASH_SHIFT :: nat where "HASH_SHIFT = 10"
definition HASH_LIST_SIZE :: nat where "HASH_LIST_SIZE = 2 ^ HASH_SHIFT"
definition pid_hashfn :: "int \<Rightarrow> nat" where "pid_hashfn x = unat (hash32 (word_of_int x) HASH_SHIFT)"

definition sizeof_proc :: nat where "sizeof_proc = 328"

definition alloc_proc :: "'a kernel_scheme \<Rightarrow> (ptr \<times> 'a kernel_scheme) outcome" where
  "alloc_proc s = obind (kmalloc sizeof_proc s) (\<lambda>(proc, s1).
     if proc \<noteq> NULL then
       let s2 = upd_proc proc (\<lambda>p. p\<lparr>state := PROC_UNINIT, pid := - 1, runs := 0, kstack := 0, need_resched := False,
             parent := NULL, mm := NULL, ctx := zero_context, tf := 0, pgdir := page2pa (boot_pgdir s1), flags := 0,
             name := replicate (PROC_NAME_LEN + 1) 0, wait_state := 0, cptr := NULL, optr := NULL, yptr := NULL\<rparr>) s1;
           s3 = upd_proc proc (\<lambda>p. p\<lparr>rq := None\<rparr>) s2;
           s4 = s3\<lparr>run_links := list_init (Run_link proc) (run_links s3)\<rparr>;
           s5 = upd_proc proc (\<lambda>p. p\<lparr>time_slice := 0\<rparr>) s4;
           s6 = s5\<lparr>run_pool := skew_heap_init proc (run_pool s5)\<rparr>
       in Inr (proc, upd_proc proc (\<lambda>p. p\<lparr>lab6_stride := 0, lab6_priority := 1\<rparr>) s6)
     else Inr (proc, s1))"

text \<open>The bytes at the pointer passed as name; \<open>memcpy\<close> reads 15 of them, whatever the length of the string.\<close>

definition set_proc_name :: "ptr \<Rightarrow> (nat \<Rightarrow> 8 word) \<Rightarrow> 'a sched_scheme \<Rightarrow> 'a sched_scheme" where
  "set_proc_name proc nm s =
     (let cleared = replicate (PROC_NAME_LEN + 1) 0
      in upd_proc proc (\<lambda>p. p\<lparr>name := map nm [0..<PROC_NAME_LEN] @ drop PROC_NAME_LEN cleared\<rparr>) s)"

definition get_proc_name :: "ptr \<Rightarrow> 'a sched_scheme \<Rightarrow> 8 word list" where
  "get_proc_name proc s =
     (let cleared = replicate (PROC_NAME_LEN + 1) 0 in take PROC_NAME_LEN (name (procs s proc)) @ drop PROC_NAME_LEN cleared)"

section \<open>Family links\<close>

definition set_links :: "ptr \<Rightarrow> 'a kernel_scheme \<Rightarrow> 'a kernel_scheme" where
  "set_links proc s =
     (let s1 = s\<lparr>proc_links := list_add Proc_list (List_link proc) (proc_links s)\<rparr>;
          s2 = upd_proc proc (\<lambda>p. p\<lparr>yptr := NULL\<rparr>) s1;
          s3 = upd_proc proc (\<lambda>p. p\<lparr>optr := cptr (procs s2 (parent (procs s2 proc)))\<rparr>) s2;
          s4 = (if optr (procs s3 proc) \<noteq> NULL then upd_proc (optr (procs s3 proc)) (\<lambda>p. p\<lparr>yptr := proc\<rparr>) s3 else s3);
          s5 = upd_proc (parent (procs s4 proc)) (\<lambda>p. p\<lparr>cptr := proc\<rparr>) s4
      in s5\<lparr>nr_process := nr_process s5 + 1\<rparr>)"

definition remove_links :: "ptr \<Rightarrow> 'a kernel_scheme \<Rightarrow> 'a kernel_scheme" where
  "remove_links proc s =
     (let s1 = s\<lparr>proc_links := list_del (List_link proc) (proc_links s)\<rparr>;
          s2 = (if optr (procs s1 proc) \<noteq> NULL
                then upd_proc (optr (procs s1 proc)) (\<lambda>p. p\<lparr>yptr := yptr (procs s1 proc)\<rparr>) s1 else s1);
          s3 = (if yptr (procs s2 proc) \<noteq> NULL
                then upd_proc (yptr (procs s2 proc)) (\<lambda>p. p\<lparr>optr := optr (procs s2 proc)\<rparr>) s2
                else upd_proc (parent (procs s2 proc)) (\<lambda>p. p\<lparr>cptr := optr (procs s2 proc)\<rparr>) s2)
      in s3\<lparr>nr_process := nr_process s3 - 1\<rparr>)"

section \<open>Process numbers\<close>

text \<open>
  The scan of \<open>get_pid\<close> from the label \<open>repeat\<close> on: \<open>le\<close> is the list pointer, \<open>lp\<close> and \<open>ns\<close> are
  \<open>last_pid\<close> and \<open>next_safe\<close>.
\<close>

partial_function (option) pid_scan :: "'a kernel_scheme \<Rightarrow> proc_entry \<Rightarrow> int \<Rightarrow> int \<Rightarrow> (int \<times> int) option" where
  "pid_scan s le lp ns =
     (let le' = list_next (proc_links s) le in
      if le' = Proc_list then Some (lp, ns)
      else let n = pid (procs s (list2proc le')) in
        if n = lp then
          if lp + 1 \<ge> ns then pid_scan s Proc_list (if lp + 1 \<ge> MAX_PID then 1 else lp + 1) MAX_PID
          else pid_scan s le' (lp + 1) ns
        else if n > lp \<and> ns > n then pid_scan s le' lp n
        else pid_scan s le' lp ns)"

definition get_pid :: "'a kernel_scheme \<Rightarrow> (int \<times> 'a kernel_scheme) outcome" where
  "get_pid s =
     (let wrap = last_pid s + 1 \<ge> MAX_PID;
          lp = (if wrap then 1 else last_pid s + 1)
      in obind (if wrap \<or> lp \<ge> next_safe s then returns (pid_scan s Proc_list lp MAX_PID) else Inr (lp, next_safe s))
           (\<lambda>(lp, ns). Inr (lp, s\<lparr>last_pid := lp, next_safe := ns\<rparr>)))"

section \<open>The hash table\<close>

definition hash_proc :: "ptr \<Rightarrow> 'a kernel_scheme \<Rightarrow> 'a kernel_scheme" where
  "hash_proc proc s = s\<lparr>hash_links := list_add (Hash_list (pid_hashfn (pid (procs s proc)))) (Hash_link proc) (hash_links s)\<rparr>"

definition unhash_proc :: "ptr \<Rightarrow> 'a kernel_scheme \<Rightarrow> 'a kernel_scheme" where
  "unhash_proc proc s = s\<lparr>hash_links := list_del (Hash_link proc) (hash_links s)\<rparr>"

partial_function (option) find_pid :: "'a kernel_scheme \<Rightarrow> hash_entry \<Rightarrow> hash_entry \<Rightarrow> int \<Rightarrow> ptr option" where
  "find_pid s list le n =
     (let le' = list_next (hash_links s) le in
      if le' = list then Some NULL
      else let proc = hash2proc le' in if pid (procs s proc) = n then Some proc else find_pid s list le' n)"

definition find_proc :: "int \<Rightarrow> 'a kernel_scheme \<Rightarrow> ptr outcome" where
  "find_proc n s =
     (if 0 < n \<and> n < MAX_PID
      then let list = Hash_list (pid_hashfn n) in returns (find_pid s list list n) else Inr NULL)"

declare pid_scan.simps [code] find_pid.simps [code]

end
