(* ===== verification/Proc_Fork.thy ===== *)
theory Proc_Fork
  imports Proc_Table
begin

text \<open>
  Creating processes, kern/process/proc.c: kernel stacks, page directories, copying or sharing the
  address space, the first context of a process, \<open>do_fork\<close> and \<open>kernel_thread\<close>. \<open>cls\<close> is the
  scheduling class, \<open>resched\<close> the effect of a \<open>schedule()\<close> that returns to its caller (see \<open>lock_loop\<close>).
\<close>

definition CLONE_VM :: "32 word" where "CLONE_VM = 0x100"
definition KSTACKPAGE :: nat where "KSTACKPAGE = 2"
definition KSTACKSIZE :: "64 word" where "KSTACKSIZE = of_nat KSTACKPAGE * PGSIZE"

section \<open>Stack and page directory\<close>

definition setup_kstack :: "ptr \<Rightarrow> 'a kernel_scheme \<Rightarrow> (int \<times> 'a kernel_scheme) outcome" where
  "setup_kstack proc s = obind (alloc_pages KSTACKPAGE s) (\<lambda>(page, s1). case page of
     Some p \<Rightarrow> obind (page2kva s1 p) (\<lambda>k. Inr (0, upd_proc proc (\<lambda>x. x\<lparr>kstack := kva k\<rparr>) s1))
   | None \<Rightarrow> Inr (- E_NO_MEM, s1))"

definition put_kstack :: "ptr \<Rightarrow> 'a kernel_scheme \<Rightarrow> 'a kernel_scheme outcome" where
  "put_kstack proc s = obind (kva2page (kstack (procs s proc)) s) (\<lambda>p. free_pages p KSTACKPAGE s)"

definition setup_pgdir :: "ptr \<Rightarrow> 'a kernel_scheme \<Rightarrow> (int \<times> 'a kernel_scheme) outcome" where
  "setup_pgdir m s = obind (alloc_pages 1 s) (\<lambda>(page, s1). case page of
     None \<Rightarrow> Inr (- E_NO_MEM, s1)
   | Some p \<Rightarrow> obind (page2kva s1 p) (\<lambda>pd.
       Inr (0, upd_mm m (\<lambda>x. x\<lparr>mm_pgdir := pd\<rparr>) (copy_page pd (boot_pgdir s1) s1))))"

definition put_pgdir :: "ptr \<Rightarrow> 'a kernel_scheme \<Rightarrow> 'a kernel_scheme outcome" where
  "put_pgdir m s = obind (kva2page (kva (mm_pgdir (mms s m))) s) (\<lambda>p. free_pages p 1 s)"

section \<open>The address space of a child\<close>

text \<open>From the label \<open>good_mm\<close> on; then the cleanup labels, with the result \<open>ret\<close>.\<close>

definition share_mm :: "ptr \<Rightarrow> ptr \<Rightarrow> 'a kernel_scheme \<Rightarrow> (int \<times> 'a kernel_scheme) outcome" where
  "share_mm m proc s =
     (let s1 = upd_proc proc (\<lambda>p. p\<lparr>mm := m\<rparr>) (snd (mm_count_inc m s))
      in obind (PADDR (kva (mm_pgdir (mms s1 m)))) (\<lambda>pa. Inr (0, upd_proc proc (\<lambda>p. p\<lparr>pgdir := pa\<rparr>) s1)))"

definition copy_mm :: "('a kernel_scheme \<Rightarrow> 'a kernel_scheme outcome) \<Rightarrow> 32 word \<Rightarrow> ptr \<Rightarrow> 'a kernel_scheme \<Rightarrow> (int \<times> 'a kernel_scheme) outcome" where
  "copy_mm resched clone_flags proc s =
     (let oldmm = mm (procs s (current s)) in
      if oldmm = NULL then Inr (0, s)
      else if clone_flags AND CLONE_VM \<noteq> 0 then share_mm oldmm proc s
      else obind (mm_create s) (\<lambda>(m, s1).
        if m = NULL then Inr (- E_NO_MEM, s1)
        else obind (setup_pgdir m s1) (\<lambda>(r, s2).
          if r \<noteq> 0 then obind (mm_destroy m s2) (\<lambda>s3. Inr (- E_NO_MEM, s3))
          else obind (lock_mm resched oldmm s2) (\<lambda>s3.
            obind (dup_mmap m oldmm s3) (\<lambda>(ret, s4).
            obind (unlock_mm oldmm s4) (\<lambda>s5.
              if ret \<noteq> 0 then
                obind (exit_mmap m s5) (\<lambda>s6. obind (put_pgdir m s6) (\<lambda>s7. obind (mm_destroy m s7) (\<lambda>s8. Inr (ret, s8))))
              else share_mm m proc s5))))))"

text \<open>The trap frame at the top of the kernel stack, and the context that starts in \<open>forkret\<close>.\<close>

definition copy_thread :: "ptr \<Rightarrow> 64 word \<Rightarrow> trapframe \<Rightarrow> 'a kernel_scheme \<Rightarrow> 'a kernel_scheme" where
  "copy_thread proc esp f s =
     (let s1 = upd_proc proc (\<lambda>p. p\<lparr>tf := kstack p + KSTACKSIZE - sizeof_trapframe\<rparr>) s;
          a = tf (procs s1 proc);
          s2 = upd_frame a (\<lambda>_. f) s1;
          s3 = upd_frame a (\<lambda>x. x\<lparr>gpr_a0 := 0\<rparr>) s2;
          s4 = upd_frame a (\<lambda>x. x\<lparr>gpr_sp := (if esp = 0 then a else esp)\<rparr>) s3
      in upd_proc proc (\<lambda>p. p\<lparr>ctx := (ctx p)\<lparr>ctx_ra := forkret s4, ctx_sp := tf p\<rparr>\<rparr>) s4)"

section \<open>Fork\<close>

text \<open>Step 5 and 6 of \<open>do_fork\<close>: the child gets its number, enters the tables and becomes runnable.\<close>

definition publish :: "'a kernel_scheme sched_class \<Rightarrow> ptr \<Rightarrow> 'a kernel_scheme \<Rightarrow> (int \<times> 'a kernel_scheme) outcome" where
  "publish cls proc s =
     (let (intr_flag, s1) = intr_save s in
      obind (get_pid s1) (\<lambda>(n, s2).
        let s3 = upd_proc proc (\<lambda>p. p\<lparr>pid := n\<rparr>) s2;
            s4 = set_links proc (hash_proc proc s3)
        in obind (wakeup_proc cls proc (intr_restore intr_flag s4)) (\<lambda>s5. Inr (pid (procs s5 proc), s5))))"

definition do_fork :: "'a kernel_scheme sched_class \<Rightarrow> ('a kernel_scheme \<Rightarrow> 'a kernel_scheme outcome) \<Rightarrow>
    32 word \<Rightarrow> 64 word \<Rightarrow> trapframe \<Rightarrow> 'a kernel_scheme \<Rightarrow> (int \<times> 'a kernel_scheme) outcome" where
  "do_fork cls resched clone_flags stack f s =
     (if nr_process s \<ge> MAX_PROCESS then Inr (- E_NO_FREE_PROC, s)
      else obind (alloc_proc s) (\<lambda>(proc, s1).
        if proc = NULL then Inr (- E_NO_MEM, s1)
        else let s2 = upd_proc proc (\<lambda>p. p\<lparr>parent := current s1\<rparr>) s1 in
          kassert (wait_state (procs s2 (current s2)) = 0) ''current->wait_state == 0''
          (obind (setup_kstack proc s2) (\<lambda>(ret, s3).
            if ret \<noteq> 0 then obind (kfree proc s3) (\<lambda>s4. Inr (ret, s4))
            else obind (copy_mm resched clone_flags proc s3) (\<lambda>(ret, s4).
              if ret \<noteq> 0 then obind (put_kstack proc s4) (\<lambda>s5. obind (kfree proc s5) (\<lambda>s6. Inr (ret, s6)))
              else publish cls proc (copy_thread proc stack f s4))))))"

definition kernel_thread :: "'a kernel_scheme sched_class \<Rightarrow> ('a kernel_scheme \<Rightarrow> 'a kernel_scheme outcome) \<Rightarrow>
    64 word \<Rightarrow> 64 word \<Rightarrow> 32 word \<Rightarrow> 'a kernel_scheme \<Rightarrow> (int \<times> 'a kernel_scheme) outcome" where
  "kernel_thread cls resched fn arg clone_flags s =
     (let f = zero_trapframe\<lparr>gpr_s0 := fn, gpr_s1 := arg,
            tf_status := (sstatus s OR SSTATUS_SPP OR SSTATUS_SPIE) AND NOT SSTATUS_SIE,
            tf_epc := kernel_thread_entry s\<rparr>
      in do_fork cls resched (clone_flags OR CLONE_VM) 0 f s)"

end
