(* ===== verification/Proc_Exit.thy ===== *)
theory Proc_Exit
  imports Proc_Fork
begin

text \<open>
  The end of a process, kern/process/proc.c: \<open>do_exit\<close>, \<open>do_wait\<close>, \<open>do_kill\<close> and \<open>do_yield\<close>.
  \<open>do_exit\<close> gives the processor away and is never resumed: its value is the state in which the next
  process runs. \<open>do_wait\<close> sleeps in \<open>resched\<close>, the effect of a \<open>schedule()\<close> that returns.
\<close>

section \<open>Exit\<close>

text \<open>Leaving the address space, common to \<open>do_exit\<close> and \<open>do_execve\<close>.\<close>

definition drop_mm :: "'a kernel_scheme \<Rightarrow> 'a kernel_scheme outcome" where
  "drop_mm s =
     (let m = mm (procs s (current s)) in
      if m \<noteq> NULL then
        let (cnt, s1) = mm_count_dec m (lsatp (page2pa (boot_pgdir s)) s) in
        obind (if cnt = 0 then obind (exit_mmap m s1) (\<lambda>s2. obind (put_pgdir m s2) (\<lambda>s3. mm_destroy m s3)) else Inr s1)
          (\<lambda>s4. Inr (upd_proc (current s4) (\<lambda>p. p\<lparr>mm := NULL\<rparr>) s4))
      else Inr s)"

text \<open>The links when one child goes to \<open>initproc\<close>, which is then woken if it waits and the child is dead.\<close>

definition hand_over :: "ptr \<Rightarrow> 'a kernel_scheme \<Rightarrow> 'a kernel_scheme" where
  "hand_over proc s =
     (let s1 = upd_proc (current s) (\<lambda>p. p\<lparr>cptr := optr (procs s proc)\<rparr>) s;
          s2 = upd_proc proc (\<lambda>p. p\<lparr>yptr := NULL\<rparr>) s1;
          i = initproc s2;
          s3 = upd_proc proc (\<lambda>p. p\<lparr>optr := cptr (procs s2 i)\<rparr>) s2;
          s4 = (if optr (procs s3 proc) \<noteq> NULL then upd_proc (cptr (procs s3 i)) (\<lambda>p. p\<lparr>yptr := proc\<rparr>) s3 else s3);
          s5 = upd_proc proc (\<lambda>p. p\<lparr>parent := i\<rparr>) s4
      in upd_proc i (\<lambda>p. p\<lparr>cptr := proc\<rparr>) s5)"

definition adopt :: "'a kernel_scheme sched_class \<Rightarrow> ptr \<Rightarrow> 'a kernel_scheme \<Rightarrow> 'a kernel_scheme outcome" where
  "adopt cls proc s =
     (let s1 = hand_over proc s in
      if state (procs s1 proc) = PROC_ZOMBIE \<and> wait_state (procs s1 (initproc s1)) = WT_CHILD
      then wakeup_proc cls (initproc s1) s1 else Inr s1)"

partial_function (option) adopt_all :: "'a kernel_scheme sched_class \<Rightarrow> 'a kernel_scheme \<Rightarrow> 'a kernel_scheme outcome option" where
  "adopt_all cls s =
     (let child = cptr (procs s (current s)) in
      if child \<noteq> NULL then loop_bind (adopt cls child s) (\<lambda>s1. adopt_all cls s1) else Some (Inr s))"

definition do_exit :: "'a kernel_scheme sched_class \<Rightarrow> int \<Rightarrow> 'a kernel_scheme \<Rightarrow> 'a kernel_scheme outcome" where
  "do_exit cls error_code s =
     (if current s = idleproc s then Inl (Panic ''idleproc exit.'')
      else if current s = initproc s then Inl (Panic ''initproc exit.'')
      else obind (drop_mm s) (\<lambda>s1.
        let s2 = upd_proc (current s1) (\<lambda>p. p\<lparr>state := PROC_ZOMBIE, exit_code := error_code\<rparr>) s1;
            (intr_flag, s3) = intr_save s2;
            proc = parent (procs s3 (current s3))
        in obind (if wait_state (procs s3 proc) = WT_CHILD then wakeup_proc cls proc s3 else Inr s3) (\<lambda>s4.
           obind (finish (adopt_all cls s4)) (\<lambda>s5.
           let s6 = intr_restore intr_flag s5 in
           obind (schedule cls s6) (\<lambda>s7.
             if current s7 = current s6 then Inl (Panic ''do_exit will not return!!'') else Inr s7)))))"

section \<open>Wait\<close>

text \<open>The scan of the children along \<open>optr\<close>: whether there is one, and the first zombie.\<close>

partial_function (option) scan_children :: "'a kernel_scheme \<Rightarrow> ptr \<Rightarrow> bool \<Rightarrow> (bool \<times> ptr option) option" where
  "scan_children s proc haskid =
     (if proc \<noteq> NULL then
        if state (procs s proc) = PROC_ZOMBIE then Some (True, Some proc)
        else scan_children s (optr (procs s proc)) True
      else Some (haskid, None))"

definition look_for_zombie :: "int \<Rightarrow> 'a kernel_scheme \<Rightarrow> (bool \<times> ptr option) outcome" where
  "look_for_zombie n s =
     (if n \<noteq> 0 then
        obind (find_proc n s) (\<lambda>proc.
          if proc \<noteq> NULL \<and> parent (procs s proc) = current s
          then Inr (True, if state (procs s proc) = PROC_ZOMBIE then Some proc else None)
          else Inr (False, None))
      else returns (scan_children s (cptr (procs s (current s))) False))"

text \<open>From the label \<open>repeat\<close> to the label \<open>found\<close>: the zombie, no child, or killed while waiting.\<close>

datatype wait_result = Found ptr | No_child | Killed

partial_function (option) wait_loop :: "'a kernel_scheme sched_class \<Rightarrow> ('a kernel_scheme \<Rightarrow> 'a kernel_scheme outcome) \<Rightarrow>
    int \<Rightarrow> 'a kernel_scheme \<Rightarrow> (wait_result \<times> 'a kernel_scheme) outcome option" where
  "wait_loop cls resched n s =
     loop_bind (look_for_zombie n s) (\<lambda>(haskid, found). case found of
       Some proc \<Rightarrow> Some (Inr (Found proc, s))
     | None \<Rightarrow>
         if haskid then
           let s1 = upd_proc (current s) (\<lambda>p. p\<lparr>state := PROC_SLEEPING, wait_state := WT_CHILD\<rparr>) s in
           loop_bind (resched s1) (\<lambda>s2.
             if flags (procs s2 (current s2)) AND PF_EXITING \<noteq> 0
             then loop_bind (do_exit cls (- E_KILLED) s2) (\<lambda>s3. Some (Inr (Killed, s3)))
             else wait_loop cls resched n s2)
         else Some (Inr (No_child, s)))"

text \<open>From the label \<open>found\<close> on: the exit code is delivered and the record freed.\<close>

definition reap :: "ptr \<Rightarrow> 64 word \<Rightarrow> 'a kernel_scheme \<Rightarrow> 'a kernel_scheme outcome" where
  "reap proc code_store s =
     (if proc = idleproc s \<or> proc = initproc s then Inl (Panic ''wait idleproc or initproc.'')
      else obind (if code_store \<noteq> 0 then store_bytes code_store (int_bytes (exit_code (procs s proc))) s else Inr s) (\<lambda>s1.
        let (intr_flag, s2) = intr_save s1;
            s3 = remove_links proc (unhash_proc proc s2);
            s4 = intr_restore intr_flag s3
        in obind (put_kstack proc s4) (\<lambda>s5. kfree proc s5)))"

definition do_wait :: "'a kernel_scheme sched_class \<Rightarrow> ('a kernel_scheme \<Rightarrow> 'a kernel_scheme outcome) \<Rightarrow>
    int \<Rightarrow> 64 word \<Rightarrow> 'a kernel_scheme \<Rightarrow> (int control \<times> 'a kernel_scheme) outcome" where
  "do_wait cls resched n code_store s =
     obind (if code_store \<noteq> 0 then user_mem_check (mm (procs s (current s))) code_store 4 True s else Inr (True, s)) (\<lambda>(ok, s1).
       if \<not> ok then Inr (Returns (- E_INVAL), s1)
       else obind (finish (wait_loop cls resched n s1)) (\<lambda>(r, s2). case r of
           Found proc \<Rightarrow> obind (reap proc code_store s2) (\<lambda>s3. Inr (Returns 0, s3))
         | No_child \<Rightarrow> Inr (Returns (- E_BAD_PROC), s2)
         | Killed \<Rightarrow> Inr (Leaves, s2)))"

section \<open>Kill and yield\<close>

definition do_kill :: "'a kernel_scheme sched_class \<Rightarrow> int \<Rightarrow> 'a kernel_scheme \<Rightarrow> (int \<times> 'a kernel_scheme) outcome" where
  "do_kill cls n s = obind (find_proc n s) (\<lambda>proc.
     if proc \<noteq> NULL then
       if flags (procs s proc) AND PF_EXITING = 0 then
         let s1 = upd_proc proc (\<lambda>p. p\<lparr>flags := flags p OR PF_EXITING\<rparr>) s in
         obind (if wait_state (procs s1 proc) AND WT_INTERRUPTED \<noteq> 0 then wakeup_proc cls proc s1 else Inr s1) (\<lambda>s2. Inr (0, s2))
       else Inr (- E_KILLED, s)
     else Inr (- E_INVAL, s))"

definition do_yield :: "'a kernel_scheme \<Rightarrow> int \<times> 'a kernel_scheme" where
  "do_yield s = (0, upd_proc (current s) (\<lambda>p. p\<lparr>need_resched := True\<rparr>) s)"

definition lab6_set_priority :: "32 word \<Rightarrow> 'a kernel_scheme \<Rightarrow> 'a kernel_scheme" where
  "lab6_set_priority priority s =
     (if priority = 0 then upd_proc (current s) (\<lambda>p. p\<lparr>lab6_priority := 1\<rparr>) s
      else upd_proc (current s) (\<lambda>p. p\<lparr>lab6_priority := priority\<rparr>) s)"

declare adopt_all.simps [code] scan_children.simps [code] wait_loop.simps [code]

end
