(* ===== verification/Proc_Family.thy ===== *)
theory Proc_Family
  imports Proc_Exit
begin

text \<open>
  The family links: every process heads a list of its children that runs through \<open>optr\<close> from the
  youngest to the oldest, with \<open>yptr\<close> leading back. \<open>set_links\<close> puts a child in front, \<open>remove_links\<close>
  takes one out, and the loop of \<open>do_exit\<close> hands all children to init.
\<close>

section \<open>Lists of siblings\<close>

text \<open>\<open>siblings f y x cs z\<close>: from \<open>x\<close> along \<open>optr\<close> lie \<open>cs\<close> and then \<open>z\<close>; the younger sibling of the first is \<open>y\<close>.\<close>

fun siblings :: "(ptr \<Rightarrow> proc_struct) \<Rightarrow> ptr \<Rightarrow> ptr \<Rightarrow> ptr list \<Rightarrow> ptr \<Rightarrow> bool" where
  "siblings f y x [] z \<longleftrightarrow> x = z"
| "siblings f y x (c # cs) z \<longleftrightarrow> x = c \<and> c \<noteq> NULL \<and> yptr (f c) = y \<and> siblings f c (optr (f c)) cs z"

lemma siblings_append: "siblings f y x (us @ c # vs) z \<longleftrightarrow>
    siblings f y x us c \<and> c \<noteq> NULL \<and> yptr (f c) = last (y # us) \<and> siblings f c (optr (f c)) vs z"
  by (induction us arbitrary: y x) auto

lemma siblings_cong:
  "(\<And>c. c \<in> set cs \<Longrightarrow> yptr (f' c) = yptr (f c) \<and> optr (f' c) = optr (f c)) \<Longrightarrow> siblings f' y x cs z = siblings f y x cs z"
  by (induction cs arbitrary: y x) auto

lemma siblings_head: "siblings f y x cs z \<Longrightarrow> x = hd (cs @ [z])"
  by (cases cs) auto

lemma siblings_nonnull: "siblings f y x cs z \<Longrightarrow> c \<in> set cs \<Longrightarrow> c \<noteq> NULL"
  by (induction cs arbitrary: y x) auto

text \<open>Changing the back pointer of the first, or the forward pointer of the last.\<close>

lemma siblings_front:
  assumes "siblings f y x (c # cs) z" "distinct (c # cs)" "yptr (f' c) = y'" "optr (f' c) = optr (f c)"
    "\<And>d. d \<in> set cs \<Longrightarrow> yptr (f' d) = yptr (f d) \<and> optr (f' d) = optr (f d)"
  shows "siblings f' y' x (c # cs) z"
  using assms siblings_cong [of cs f' f] by auto

lemma siblings_back:
  assumes "siblings f y x (us @ [u]) z" "distinct (us @ [u])" "yptr (f' u) = yptr (f u)" "optr (f' u) = z'"
    "\<And>d. d \<in> set us \<Longrightarrow> yptr (f' d) = yptr (f d) \<and> optr (f' d) = optr (f d)"
  shows "siblings f' y x (us @ [u]) z'"
  using assms siblings_cong [of us f' f] by (auto simp: siblings_append)

section \<open>The invariant\<close>

text \<open>\<open>P\<close> are the processes with a parent, \<open>R\<close> all processes; \<open>kids q\<close> are the children of \<open>q\<close>, the youngest first.\<close>

definition family :: "(ptr \<Rightarrow> proc_struct) \<Rightarrow> ptr set \<Rightarrow> ptr set \<Rightarrow> (ptr \<Rightarrow> ptr list) \<Rightarrow> bool" where
  "family f P R kids \<longleftrightarrow> NULL \<notin> R \<and> P \<subseteq> R \<and> (\<forall>p \<in> P. parent (f p) \<in> R) \<and>
     (\<forall>q \<in> R. siblings f NULL (cptr (f q)) (kids q) NULL \<and> distinct (kids q) \<and> set (kids q) = {p \<in> P. parent (f p) = q})"

lemma familyD:
  assumes "family f P R kids"
  shows "NULL \<notin> R" "P \<subseteq> R" "p \<in> P \<Longrightarrow> parent (f p) \<in> R"
    "q \<in> R \<Longrightarrow> siblings f NULL (cptr (f q)) (kids q) NULL" "q \<in> R \<Longrightarrow> distinct (kids q)"
    "q \<in> R \<Longrightarrow> set (kids q) = {p \<in> P. parent (f p) = q}"
  using assms unfolding family_def by blast+

definition same_family :: "proc_struct \<Rightarrow> proc_struct \<Rightarrow> bool" where
  "same_family a b \<longleftrightarrow> parent b = parent a \<and> cptr b = cptr a \<and> yptr b = yptr a \<and> optr b = optr a"

lemma same_core_family: "same_core a b \<Longrightarrow> same_family a b"
  by (simp add: same_family_def same_core_fields)

lemma family_cong:
  assumes "\<And>p. p \<in> R \<Longrightarrow> same_family (f p) (f' p)" "family f P R kids"
  shows "family f' P R kids"
proof -
  note D = familyD [OF assms(2)]
  have e: "parent (f' p) = parent (f p)" "cptr (f' p) = cptr (f p)" "yptr (f' p) = yptr (f p)" "optr (f' p) = optr (f p)" if "p \<in> R" for p
    using assms(1) [OF that] by (simp_all add: same_family_def)
  show ?thesis
    unfolding family_def
  proof (intro conjI ballI)
    fix q assume q: "q \<in> R"
    show "set (kids q) = {p \<in> P. parent (f' p) = q}" using D(2) D(6) [OF q] e by auto
    have "siblings f' NULL (cptr (f q)) (kids q) NULL = siblings f NULL (cptr (f q)) (kids q) NULL"
      by (rule siblings_cong) (use D(2) D(6) [OF q] e in auto)
    then show "siblings f' NULL (cptr (f' q)) (kids q) NULL" using D(4) [OF q] e(2) [OF q] by simp
  qed (use D e in auto)
qed

text \<open>What two changes of the links have in common: a list other than the one changed keeps its members and links.\<close>

lemma kids_disjoint: "family f P R kids \<Longrightarrow> q \<in> R \<Longrightarrow> r \<in> R \<Longrightarrow> q \<noteq> r \<Longrightarrow> set (kids q) \<inter> set (kids r) = {}"
  using familyD(6) by fastforce

section \<open>A new child\<close>

lemma set_links_procs:
  assumes "cptr (procs s q) = o'" "parent (procs s proc) = q" "proc \<noteq> o'" "q \<noteq> proc"
  shows "parent (procs (set_links proc s) c) = parent (procs s c)"
    "cptr (procs (set_links proc s) c) = (if c = q then proc else cptr (procs s c))"
    "yptr (procs (set_links proc s) c) = (if c = proc then NULL else if o' \<noteq> NULL \<and> c = o' then proc else yptr (procs s c))"
    "optr (procs (set_links proc s) c) = (if c = proc then o' else optr (procs s c))"
  using assms by (simp_all add: set_links_def Let_def upd_proc_def)

lemma set_links_ok:
  assumes fam: "family (procs s) P R kids" and new: "proc \<notin> R" "proc \<noteq> NULL" "parent (procs s proc) \<in> R" "cptr (procs s proc) = NULL"
  shows "family (procs (set_links proc s)) (insert proc P) (insert proc R)
    (kids(parent (procs s proc) := proc # kids (parent (procs s proc)), proc := []))"
proof -
  note D = familyD [OF fam]
  let ?q = "parent (procs s proc)" and ?f = "procs s" and ?f' = "procs (set_links proc s)"
  define o' where "o' = cptr (?f ?q)"
  have sibs: "siblings ?f NULL o' (kids ?q) NULL" using D(4) [OF new(3)] by (simp add: o'_def)
  have inR: "set (kids r) \<subseteq> R" if "r \<in> R" for r using D(2) D(6) [OF that] by auto
  have o_in: "o' \<noteq> NULL \<longrightarrow> o' \<in> set (kids ?q)" using siblings_head [OF sibs] by (cases "kids ?q") auto
  then have ne: "proc \<noteq> o'" "?q \<noteq> proc" using inR [OF new(3)] new by auto
  note f' = set_links_procs [OF o'_def [symmetric] refl ne]
  have link: "yptr (?f' c) = yptr (?f c) \<and> optr (?f' c) = optr (?f c)" if "c \<noteq> proc" "c \<noteq> o' \<or> o' = NULL" for c
    using that by (auto simp: f')
  have front: "siblings ?f' proc o' (kids ?q) NULL"
  proof (cases "kids ?q")
    case Nil
    then show ?thesis using sibs by simp
  next
    case (Cons c cs)
    then have c: "c = o'" "o' \<noteq> NULL" using sibs by auto
    have other: "d \<noteq> proc \<and> d \<noteq> o'" if "d \<in> set cs" for d using that Cons c D(5) [OF new(3)] inR [OF new(3)] new(1) by auto
    have "optr (?f' c) = optr (?f c)" "yptr (?f' c) = proc" using c ne by (auto simp: f')
    then show ?thesis unfolding Cons
      by (intro siblings_front [OF sibs [unfolded Cons]]) (use D(5) [OF new(3)] Cons link other in auto)
  qed
  show ?thesis
    unfolding family_def
  proof (intro conjI ballI)
    show "NULL \<notin> insert proc R" "insert proc P \<subseteq> insert proc R" using D(1,2) new(2) by auto
    show "parent (?f' p) \<in> insert proc R" if "p \<in> insert proc P" for p using that D(3) new(3) by (auto simp: f')
    fix r assume r: "r \<in> insert proc R"
    let ?k = "(kids(?q := proc # kids ?q, proc := [])) r"
    consider "r = proc" | "r = ?q" | "r \<in> R" "r \<noteq> ?q" "r \<noteq> proc" using r by blast
    then show "siblings ?f' NULL (cptr (?f' r)) ?k NULL"
    proof cases
      case 1
      then show ?thesis using ne(2) new(4) by (simp add: f')
    next
      case 2
      then show ?thesis using ne new(2) front by (simp add: f')
    next
      case 3
      have "siblings ?f' NULL (cptr (?f r)) (kids r) NULL = siblings ?f NULL (cptr (?f r)) (kids r) NULL"
      proof (rule siblings_cong)
        fix c assume c: "c \<in> set (kids r)"
        have "c \<noteq> proc" using c inR [OF 3(1)] new(1) by auto
        moreover have "c \<noteq> o' \<or> o' = NULL" using c o_in kids_disjoint [OF fam 3(1) new(3) 3(2)] by auto
        ultimately show "yptr (?f' c) = yptr (?f c) \<and> optr (?f' c) = optr (?f c)" by (rule link)
      qed
      then show ?thesis using 3 D(4) [OF 3(1)] by (simp add: f')
    qed
    show "distinct ?k" using r D(5) [of r] D(5) [OF new(3)] inR [OF new(3)] new(1) by auto
    have "proc \<notin> P" using D(2) new(1) by blast
    moreover have "{p \<in> P. parent (?f p) = proc} = {}" using D(3) new(1) by auto
    ultimately show "set ?k = {p \<in> insert proc P. parent (?f' p) = r}"
      using r D(6) [of r] D(6) [OF new(3)] ne(2) by (auto simp: f')
  qed
qed

section \<open>A child less\<close>

lemma remove_links_procs:
  assumes "optr (procs s proc) = o'" "yptr (procs s proc) = y" "parent (procs s proc) = q" "o' \<noteq> proc" "y \<noteq> proc" "y = NULL \<or> y \<noteq> o'"
  shows "parent (procs (remove_links proc s) c) = parent (procs s c)"
    "cptr (procs (remove_links proc s) c) = (if y = NULL \<and> c = q then o' else cptr (procs s c))"
    "yptr (procs (remove_links proc s) c) = (if o' \<noteq> NULL \<and> c = o' then y else yptr (procs s c))"
    "optr (procs (remove_links proc s) c) = (if y \<noteq> NULL \<and> c = y then o' else optr (procs s c))"
  using assms by (auto simp: remove_links_def Let_def upd_proc_def)

lemma remove_links_ok:
  assumes fam: "family (procs s) P R kids" and p: "proc \<in> P" "kids proc = []"
  shows "family (procs (remove_links proc s)) (P - {proc}) (R - {proc})
    (kids(parent (procs s proc) := remove1 proc (kids (parent (procs s proc)))))"
proof -
  note D = familyD [OF fam]
  let ?q = "parent (procs s proc)" and ?f = "procs s" and ?f' = "procs (remove_links proc s)"
  have qR: "?q \<in> R" by (rule D(3) [OF p(1)])
  have pR: "proc \<in> R" using D(2) p(1) by blast
  have "proc \<in> set (kids ?q)" using D(6) [OF qR] p(1) by simp
  then obtain us vs where k: "kids ?q = us @ proc # vs" "proc \<notin> set us" by (meson split_list_first)
  have dist: "distinct (us @ proc # vs)" using D(5) [OF qR] k by simp
  have sibs: "siblings ?f NULL (cptr (?f ?q)) us proc" "proc \<noteq> NULL" "yptr (?f proc) = last (NULL # us)"
      "siblings ?f proc (optr (?f proc)) vs NULL"
    using D(4) [OF qR] by (simp_all add: k siblings_append)
  define o' where "o' = optr (?f proc)"
  define y where "y = yptr (?f proc)"
  have o': "o' = hd (vs @ [NULL])" using siblings_head [OF sibs(4)] by (simp add: o'_def)
  have kin: "us @ proc # vs \<noteq> []" "set (us @ proc # vs) \<subseteq> R" using D(2) D(6) [OF qR] k by auto
  have o_in: "o' \<noteq> NULL \<longrightarrow> o' \<in> set vs" using o' by (cases vs) auto
  have y_in: "y \<noteq> NULL \<longrightarrow> y \<in> set us" using sibs(3) by (cases us rule: rev_cases) (auto simp: y_def)
  have ne: "o' \<noteq> proc" "y \<noteq> proc" "y = NULL \<or> y \<noteq> o'" using o_in y_in dist sibs(2) by auto
  have qp: "?q \<noteq> proc" using p(2) k by auto
  note f' = remove_links_procs [OF o'_def [symmetric] y_def [symmetric] refl ne]
  have kq: "remove1 proc (kids ?q) = us @ vs" using k by (simp add: remove1_append)
  have tail: "siblings ?f' (last (NULL # us)) o' vs NULL"
  proof (cases vs)
    case Nil
    then show ?thesis using o' by simp
  next
    case (Cons v vs')
    have v: "v = o'" "o' \<noteq> NULL" using sibs(4) Cons by (auto simp: o'_def)
    have oth: "d \<noteq> o' \<and> d \<noteq> y" if "d \<in> set vs'" for d using that Cons v dist y_in sibs(2) siblings_nonnull [OF sibs(4)] by auto
    show ?thesis unfolding Cons
      by (rule siblings_front [OF sibs(4) [unfolded Cons, folded o'_def]])
        (use dist Cons v oth ne sibs(3) in \<open>auto simp: f' y_def\<close>)
  qed
  have whole: "siblings ?f' NULL (cptr (?f' ?q)) (us @ vs) NULL"
  proof (cases us rule: rev_cases)
    case Nil
    then have "y = NULL" using sibs(3) by (simp add: y_def)
    then show ?thesis using tail Nil by (simp add: f')
  next
    case (snoc us' u)
    have yu: "y = u" "u \<noteq> NULL" using sibs(3) snoc siblings_nonnull [OF sibs(1)] by (auto simp: y_def)
    have oth: "d \<noteq> o' \<and> d \<noteq> y" if "d \<in> set us'" for d
      using that snoc yu dist o_in siblings_nonnull [OF sibs(1), of d] by auto
    have "siblings ?f' NULL (cptr (?f ?q)) us o'" unfolding snoc
      by (rule siblings_back [OF sibs(1) [unfolded snoc]]) (use dist snoc yu oth ne in \<open>auto simp: f'\<close>)
    then have "siblings ?f' NULL (cptr (?f' ?q)) us o'" using yu by (simp add: f')
    then show ?thesis using tail o' siblings_nonnull [OF sibs(4)] by (cases vs) (auto simp: siblings_append)
  qed
  show ?thesis
    unfolding family_def
  proof (intro conjI ballI)
    show "NULL \<notin> R - {proc}" "P - {proc} \<subseteq> R - {proc}" using D(1,2) by auto
    show "parent (?f' c) \<in> R - {proc}" if "c \<in> P - {proc}" for c
    proof -
      have "c \<notin> set (kids proc)" using p(2) by simp
      then show ?thesis using that D(3) [of c] D(6) [OF pR] by (auto simp: f')
    qed
    fix r assume r: "r \<in> R - {proc}"
    let ?k = "(kids(?q := remove1 proc (kids ?q))) r"
    show "siblings ?f' NULL (cptr (?f' r)) ?k NULL"
    proof (cases "r = ?q")
      case True
      then show ?thesis using whole kq by simp
    next
      case False
      have "siblings ?f' NULL (cptr (?f r)) (kids r) NULL = siblings ?f NULL (cptr (?f r)) (kids r) NULL"
      proof (rule siblings_cong)
        fix c assume c: "c \<in> set (kids r)"
        have "c \<noteq> NULL" using siblings_nonnull [OF D(4)] r c by auto
        have "c \<notin> set (us @ proc # vs)" using kids_disjoint [OF fam _ qR False] c k(1) r by auto
        then have "c \<noteq> o'" "c \<noteq> y" using o_in y_in \<open>c \<noteq> NULL\<close> by auto
        then show "yptr (?f' c) = yptr (?f c) \<and> optr (?f' c) = optr (?f c)" by (simp add: f')
      qed
      then show ?thesis using False r D(4) [of r] by (simp add: f')
    qed
    show "distinct ?k" using r D(5) [of r] D(5) [OF qR] by auto
    show "set ?k = {c \<in> P - {proc}. parent (?f' c) = r}"
    proof (cases "r = ?q")
      case True
      then show ?thesis using kq k dist D(6) [OF qR] by (auto simp: f')
    next
      case False
      then show ?thesis using r D(6) [of r] by (auto simp: f')
    qed
  qed
qed

end
