(* ===== verification/Proc_Pids.thy ===== *)
theory Proc_Pids
  imports Proc_Table
begin

text \<open>
  Process numbers: the invariant of \<open>last_pid\<close> and \<open>next_safe\<close>, that \<open>get_pid\<close> returns and gives a
  number no process has, and that \<open>find_proc\<close> finds exactly the process with a number.
\<close>

section \<open>The scan of the process list\<close>

abbreviation proc_list :: "'a kernel_scheme \<Rightarrow> ptr list \<Rightarrow> bool" where
  "proc_list s ps \<equiv> clist (proc_links s) Proc_list (map List_link ps)"

text \<open>No process of \<open>ps\<close> has a number from \<open>lp\<close> up to \<open>ns\<close>, exclusively.\<close>

definition clear_between :: "'a kernel_scheme \<Rightarrow> ptr list \<Rightarrow> int \<Rightarrow> int \<Rightarrow> bool" where
  "clear_between s ps lp ns \<longleftrightarrow> (\<forall>p \<in> set ps. \<not> (lp \<le> pid (procs s p) \<and> pid (procs s p) < ns))"

text \<open>How many numbers the scan passes until it reaches the unused number \<open>f\<close>.\<close>

definition cyc :: "int \<Rightarrow> int \<Rightarrow> nat" where
  "cyc f lp = nat (if lp \<le> f then f - lp else f - lp + (MAX_PID - 1))"

lemma MAX_PID_val: "MAX_PID = 8192"
  by (simp add: MAX_PID_def MAX_PROCESS_def)

lemma cyc_step:
  assumes "1 \<le> f" "f < MAX_PID" "1 \<le> lp" "lp < MAX_PID" "lp \<noteq> f"
  shows "cyc f (if lp + 1 \<ge> MAX_PID then 1 else lp + 1) < cyc f lp"
  using assms by (auto simp: cyc_def MAX_PID_val)

lemma pid_scan_ok:
  assumes list: "proc_list s ps" and f: "1 \<le> f" "f < MAX_PID" "\<forall>p \<in> set ps. pid (procs s p) \<noteq> f"
  shows "ps = zs @ ys \<Longrightarrow> 1 \<le> lp \<Longrightarrow> lp < ns \<Longrightarrow> ns \<le> MAX_PID \<Longrightarrow> clear_between s zs lp ns \<Longrightarrow>
    \<exists>lp' ns'. pid_scan s (last (Proc_list # map List_link zs)) lp ns = Some (lp', ns') \<and>
      1 \<le> lp' \<and> lp' < ns' \<and> ns' \<le> MAX_PID \<and> clear_between s ps lp' ns'"
proof (induction "cyc f lp * (length ps + 1) + length ys" arbitrary: zs ys lp ns rule: less_induct)
  case less
  have nx: "next_of (proc_links s) (last (Proc_list # map List_link zs)) = hd (map List_link ys @ [Proc_list])"
    using clist_next_at [of "proc_links s" Proc_list "map List_link zs" "map List_link ys"] list less.prems(1) by simp
  show ?case
  proof (cases ys)
    case Nil
    then show ?thesis using nx less.prems by (subst pid_scan.simps) (simp add: list_next_def)
  next
    case (Cons y ys')
    have eq: "pid_scan s (last (Proc_list # map List_link zs)) lp ns =
        (if pid (procs s y) = lp then
           if lp + 1 \<ge> ns then pid_scan s Proc_list (if lp + 1 \<ge> MAX_PID then 1 else lp + 1) MAX_PID
           else pid_scan s (List_link y) (lp + 1) ns
         else if pid (procs s y) > lp \<and> ns > pid (procs s y) then pid_scan s (List_link y) lp (pid (procs s y))
         else pid_scan s (List_link y) lp ns)"
      using nx Cons by (subst pid_scan.simps) (simp add: list_next_def Let_def)
    have len: "length ys \<le> length ps" "length ys' < length ys" using less.prems(1) Cons by simp_all
    have go: "\<exists>lp' ns'. pid_scan s (List_link y) lp'' ns'' = Some (lp', ns') \<and>
          1 \<le> lp' \<and> lp' < ns' \<and> ns' \<le> MAX_PID \<and> clear_between s ps lp' ns'"
      if "cyc f lp'' \<le> cyc f lp" "1 \<le> lp''" "lp'' < ns''" "ns'' \<le> MAX_PID" "clear_between s (zs @ [y]) lp'' ns''" for lp'' ns''
    proof -
      have "cyc f lp'' * (length ps + 1) \<le> cyc f lp * (length ps + 1)" using that(1) mult_le_mono1 by blast
      then have "cyc f lp'' * (length ps + 1) + length ys' < cyc f lp * (length ps + 1) + length ys"
        using len(2) by linarith
      from less.hyps [OF this, of "zs @ [y]"] show ?thesis using less.prems(1) Cons that by simp
    qed
    show ?thesis
    proof (cases "pid (procs s y) = lp")
      case False
      have "clear_between s (zs @ [y]) lp (pid (procs s y))" if "lp < pid (procs s y)" "pid (procs s y) < ns"
        using that less.prems(5) by (auto simp: clear_between_def)
      moreover have "clear_between s (zs @ [y]) lp ns" if "\<not> (lp < pid (procs s y) \<and> pid (procs s y) < ns)"
        using that less.prems(5) False by (auto simp: clear_between_def)
      ultimately show ?thesis using False less.prems(2-4) go [of lp "pid (procs s y)"] go [of lp ns] unfolding eq by auto
    next
      case True
      have "y \<in> set ps" using less.prems(1) Cons by simp
      then have "lp \<noteq> f" using f(3) True by auto
      then have dec: "cyc f (if lp + 1 \<ge> MAX_PID then 1 else lp + 1) < cyc f lp"
        using f less.prems(2-4) by (intro cyc_step) auto
      show ?thesis
      proof (cases "lp + 1 \<ge> ns")
        case False
        then have "clear_between s (zs @ [y]) (lp + 1) ns" using True less.prems(5) by (auto simp: clear_between_def)
        then show ?thesis using True False dec less.prems(2-4) go [of "lp + 1" ns] unfolding eq by auto
      next
        case restart: True
        define l where "l = (if lp + 1 \<ge> MAX_PID then 1 else lp + 1)"
        have "Suc (cyc f l) \<le> cyc f lp" using dec by (simp add: l_def)
        then have "Suc (cyc f l) * (length ps + 1) \<le> cyc f lp * (length ps + 1)" using mult_le_mono1 by blast
        then have m: "cyc f l * (length ps + 1) + length ps < cyc f lp * (length ps + 1) + length ys" by simp
        have "1 \<le> l" "l < MAX_PID" using less.prems(2-4) restart by (auto simp: l_def MAX_PID_val)
        then have "\<exists>lp' ns'. pid_scan s Proc_list l MAX_PID = Some (lp', ns') \<and>
            1 \<le> lp' \<and> lp' < ns' \<and> ns' \<le> MAX_PID \<and> clear_between s ps lp' ns'"
          using less.hyps [OF m, of "[]"] by (simp add: clear_between_def)
        then show ?thesis using True restart unfolding eq l_def by simp
      qed
    qed
  qed
qed

section \<open>Fresh process numbers\<close>

text \<open>The invariant: from \<open>last_pid\<close> up to \<open>next_safe\<close>, both exclusive, no number is in use.\<close>

definition pid_ok :: "'a kernel_scheme \<Rightarrow> ptr list \<Rightarrow> bool" where
  "pid_ok s ps \<longleftrightarrow> proc_list s ps \<and> 1 \<le> last_pid s \<and> next_safe s \<le> MAX_PID \<and> clear_between s ps (last_pid s + 1) (next_safe s)"

lemma free_pid:
  assumes "int (length ps) < MAX_PID - 1"
  obtains f where "1 \<le> f" "f < MAX_PID" "\<forall>p \<in> set ps. pid (procs s p) \<noteq> f"
proof -
  let ?A = "(\<lambda>p. pid (procs s p)) ` set ps"
  have "card ?A \<le> length ps" using card_image_le [of "set ps"] card_length [of ps] by (meson List.finite_set order_trans)
  also have "length ps < card {1..<MAX_PID}" using assms by (simp add: MAX_PID_val)
  finally have "\<not> {1..<MAX_PID} \<subseteq> ?A" using card_mono [of ?A "{1..<MAX_PID}"] by auto
  then obtain f where "f \<in> {1..<MAX_PID}" "f \<notin> ?A" by blast
  then show thesis using that [of f] by auto
qed

lemma get_pid_ok:
  assumes ok: "pid_ok s ps" and len: "int (length ps) < MAX_PID - 1"
  obtains n ns where "get_pid s = Inr (n, s\<lparr>last_pid := n, next_safe := ns\<rparr>)" "1 \<le> n" "n < MAX_PID"
    "\<forall>p \<in> set ps. pid (procs s p) \<noteq> n" "ns \<le> MAX_PID" "clear_between s ps (n + 1) ns"
proof -
  define wrap where "wrap \<longleftrightarrow> last_pid s + 1 \<ge> MAX_PID"
  define lp where "lp = (if wrap then 1 else last_pid s + 1)"
  have list: "proc_list s ps" and last: "1 \<le> last_pid s" and safe: "next_safe s \<le> MAX_PID"
    and clear: "clear_between s ps (last_pid s + 1) (next_safe s)" using ok by (simp_all add: pid_ok_def)
  note goal = that
  have lp: "1 \<le> lp" "lp < MAX_PID" using last by (auto simp: lp_def wrap_def MAX_PID_val)
  have result: thesis if g: "get_pid s = Inr (n, s\<lparr>last_pid := n, next_safe := ns\<rparr>)" and n: "1 \<le> n" "n < ns" "ns \<le> MAX_PID"
      and c: "clear_between s ps n ns" for n ns
  proof (rule goal [OF g n(1) _ _ n(3)])
    show "n < MAX_PID" using n by simp
    show "\<forall>p \<in> set ps. pid (procs s p) \<noteq> n" using c n by (auto simp: clear_between_def)
    show "clear_between s ps (n + 1) ns" using c by (auto simp: clear_between_def)
  qed
  show thesis
  proof (cases "wrap \<or> lp \<ge> next_safe s")
    case True
    obtain f where f: "1 \<le> f" "f < MAX_PID" "\<forall>p \<in> set ps. pid (procs s p) \<noteq> f" using free_pid [OF len] by metis
    obtain n ns where scan: "pid_scan s Proc_list lp MAX_PID = Some (n, ns)" and n: "1 \<le> n" "n < ns" "ns \<le> MAX_PID" "clear_between s ps n ns"
      using pid_scan_ok [OF list f, of "[]" ps lp MAX_PID] lp by (auto simp: clear_between_def)
    have "get_pid s = Inr (n, s\<lparr>last_pid := n, next_safe := ns\<rparr>)"
      using True scan unfolding get_pid_def Let_def wrap_def [symmetric] lp_def [symmetric] by simp
    then show thesis using result n by blast
  next
    case False
    then have "get_pid s = Inr (lp, s\<lparr>last_pid := lp, next_safe := next_safe s\<rparr>)"
      unfolding get_pid_def Let_def wrap_def [symmetric] lp_def [symmetric] by simp
    moreover have "lp = last_pid s + 1" "lp < next_safe s" using False by (auto simp: lp_def)
    ultimately show thesis using result [of lp "next_safe s"] lp safe clear by simp
  qed
qed

section \<open>The hash table\<close>

text \<open>Every process is in the list of its number and nowhere else; the numbers are different.\<close>

definition hash_ok :: "'a kernel_scheme \<Rightarrow> ptr set \<Rightarrow> bool" where
  "hash_ok s P \<longleftrightarrow> inj_on (\<lambda>p. pid (procs s p)) P \<and> NULL \<notin> P \<and>
     (\<forall>b < HASH_LIST_SIZE. \<exists>qs. clist (hash_links s) (Hash_list b) (map Hash_link qs) \<and>
        set qs = {p \<in> P. pid_hashfn (pid (procs s p)) = b})"

lemma pid_hashfn_bound: "pid_hashfn n < HASH_LIST_SIZE"
  unfolding pid_hashfn_def HASH_LIST_SIZE_def by (rule hash32_bound) (simp add: HASH_SHIFT_def)

lemma find_pid_ok:
  assumes "clist (hash_links s) h (map Hash_link (us @ vs))" "h = Hash_list b"
  shows "find_pid s h (last (h # map Hash_link us)) n = Some (case find (\<lambda>p. pid (procs s p) = n) vs of None \<Rightarrow> NULL | Some p \<Rightarrow> p)"
  using assms(1)
proof (induction vs arbitrary: us)
  case Nil
  then have "next_of (hash_links s) (last (h # map Hash_link us)) = h"
    using clist_next_at [of "hash_links s" h "map Hash_link us" "[]"] by simp
  then show ?case by (subst find_pid.simps) (simp add: list_next_def)
next
  case (Cons v vs)
  have nx: "next_of (hash_links s) (last (h # map Hash_link us)) = Hash_link v"
    using clist_next_at [of "hash_links s" h "map Hash_link us" "map Hash_link (v # vs)"] Cons.prems by simp
  have IH: "find_pid s h (Hash_link v) n = Some (case find (\<lambda>p. pid (procs s p) = n) vs of None \<Rightarrow> NULL | Some p \<Rightarrow> p)"
    using Cons.IH [of "us @ [v]"] Cons.prems by simp
  show ?case using IH nx assms(2) by (subst find_pid.simps) (simp add: list_next_def Let_def)
qed

lemma find_proc_ok:
  assumes "hash_ok s P"
  obtains r where "find_proc n s = Inr r"
    "r = NULL \<longleftrightarrow> \<not> (0 < n \<and> n < MAX_PID) \<or> (\<forall>p \<in> P. pid (procs s p) \<noteq> n)"
    "r \<noteq> NULL \<longrightarrow> r \<in> P \<and> pid (procs s r) = n"
proof (cases "0 < n \<and> n < MAX_PID")
  case False
  then show thesis using that [of NULL] unfolding find_proc_def by auto
next
  case True
  let ?b = "pid_hashfn n"
  obtain qs where qs: "clist (hash_links s) (Hash_list ?b) (map Hash_link qs)" "set qs = {p \<in> P. pid_hashfn (pid (procs s p)) = ?b}"
    using assms pid_hashfn_bound [of n] unfolding hash_ok_def by blast
  define r where "r = (case find (\<lambda>p. pid (procs s p) = n) qs of None \<Rightarrow> NULL | Some p \<Rightarrow> p)"
  have "find_pid s (Hash_list ?b) (Hash_list ?b) n = Some r"
    using find_pid_ok [of s "Hash_list ?b" "[]" qs ?b n] qs(1) by (simp add: r_def)
  then have run: "find_proc n s = Inr r" using True by (simp add: find_proc_def Let_def)
  have sel: "find Q qs = Some v \<Longrightarrow> v \<in> set qs \<and> Q v" for Q v by (metis find_Some_iff nth_mem)
  have nn: "NULL \<notin> set qs" using assms qs(2) by (auto simp: hash_ok_def)
  have "r = NULL \<longleftrightarrow> (\<forall>p \<in> P. pid (procs s p) \<noteq> n)"
  proof (cases "find (\<lambda>p. pid (procs s p) = n) qs")
    case None
    then have "\<forall>p \<in> set qs. pid (procs s p) \<noteq> n" by (simp add: find_None_iff)
    then show ?thesis using None qs(2) by (auto simp: r_def)
  next
    case (Some v)
    then show ?thesis using sel [OF Some] nn qs(2) by (auto simp: r_def)
  qed
  moreover have "r \<noteq> NULL \<longrightarrow> r \<in> P \<and> pid (procs s r) = n"
    using sel qs(2) by (auto simp: r_def split: option.splits)
  ultimately show thesis using that [OF run] True by blast
qed

text \<open>Lists with different heads do not share entries, so entering or leaving one keeps the others.\<close>

lemma clist_other:
  assumes "clist (hash_links s) (Hash_list b) (map Hash_link qs)" "b \<noteq> c" "p \<notin> set qs"
    "clist (hash_links s) (Hash_list c) (map Hash_link rs)" "set qs \<inter> set rs = {}"
  shows "clist (list_add (Hash_list c) (Hash_link p) (hash_links s)) (Hash_list b) (map Hash_link qs)"
proof (rule clist_frame [OF assms(1)])
  let ?l = "hash_links s"
  have hd: "next_of ?l (Hash_list c) = hd (map Hash_link rs @ [Hash_list c])" by (rule clist_next [OF assms(4)])
  have ne: "next_of ?l (Hash_list c) \<noteq> e" if "e \<in> set (Hash_list b # map Hash_link qs)" for e
    using that assms(2,5) unfolding hd by (cases rs) auto
  fix e assume e: "e \<in> set (Hash_list b # map Hash_link qs)"
  then have "e \<noteq> Hash_list c" "e \<noteq> Hash_link p" using assms(2,3) by auto
  then show "next_of (list_add (Hash_list c) (Hash_link p) ?l) e = next_of ?l e"
    "prev_of (list_add (Hash_list c) (Hash_link p) ?l) e = prev_of ?l e"
    using ne [OF e] by (auto simp: list_ops)
qed

lemma clist_other_del:
  assumes "clist (hash_links s) (Hash_list b) (map Hash_link qs)" "b \<noteq> c" "p \<notin> set qs"
    "clist (hash_links s) (Hash_list c) (map Hash_link (us @ p # vs))" "set qs \<inter> set (us @ p # vs) = {}"
  shows "clist (list_del (Hash_link p) (hash_links s)) (Hash_list b) (map Hash_link qs)"
proof (rule clist_frame [OF assms(1)])
  let ?l = "hash_links s"
  have hd: "next_of ?l (Hash_link p) = hd (map Hash_link vs @ [Hash_list c])"
    "prev_of ?l (Hash_link p) = last (Hash_list c # map Hash_link us)"
    using clist_split_next [of ?l "Hash_list c" "map Hash_link us" "Hash_link p" "map Hash_link vs"]
      clist_split_prev [of ?l "Hash_list c" "map Hash_link us" "Hash_link p" "map Hash_link vs"] assms(4) by simp_all
  fix e assume e: "e \<in> set (Hash_list b # map Hash_link qs)"
  have "next_of ?l (Hash_link p) \<noteq> e" using e assms(2,5) unfolding hd by (cases vs) auto
  moreover have "prev_of ?l (Hash_link p) \<noteq> e" using e assms(2,5) unfolding hd by (cases us rule: rev_cases) auto
  ultimately show "next_of (list_del (Hash_link p) ?l) e = next_of ?l e" "prev_of (list_del (Hash_link p) ?l) e = prev_of ?l e"
    by (auto simp: list_ops)
qed

lemma hash_proc_ok:
  assumes ok: "hash_ok s P" and p: "p \<notin> P" "p \<noteq> NULL" "\<forall>q \<in> P. pid (procs s q) \<noteq> pid (procs s p)"
  shows "hash_ok (hash_proc p s) (insert p P)"
proof -
  let ?c = "pid_hashfn (pid (procs s p))"
  have ps: "procs (hash_proc p s) = procs s" by (simp add: hash_proc_def)
  have lists: "\<exists>qs. clist (hash_links s) (Hash_list b) (map Hash_link qs) \<and> set qs = {q \<in> P. pid_hashfn (pid (procs s q)) = b}"
    if "b < HASH_LIST_SIZE" for b using ok that by (simp add: hash_ok_def)
  obtain rs where rs: "clist (hash_links s) (Hash_list ?c) (map Hash_link rs)" "set rs = {q \<in> P. pid_hashfn (pid (procs s q)) = ?c}"
    using lists [OF pid_hashfn_bound] by blast
  have "\<exists>qs. clist (hash_links (hash_proc p s)) (Hash_list b) (map Hash_link qs) \<and>
      set qs = {q \<in> insert p P. pid_hashfn (pid (procs s q)) = b}" if b: "b < HASH_LIST_SIZE" for b
  proof (cases "b = ?c")
    case True
    have "clist (hash_links (hash_proc p s)) (Hash_list b) (map Hash_link (p # rs))"
      using clist_add_head [OF rs(1), of "Hash_link p"] rs(2) p(1) True by (auto simp: hash_proc_def)
    moreover have "set (p # rs) = {q \<in> insert p P. pid_hashfn (pid (procs s q)) = b}" using rs(2) True by auto
    ultimately show ?thesis by blast
  next
    case False
    obtain qs where qs: "clist (hash_links s) (Hash_list b) (map Hash_link qs)" "set qs = {q \<in> P. pid_hashfn (pid (procs s q)) = b}"
      using lists [OF b] by blast
    have "clist (hash_links (hash_proc p s)) (Hash_list b) (map Hash_link qs)"
      using clist_other [OF qs(1) False _ rs(1)] qs(2) rs(2) p(1) False by (auto simp: hash_proc_def)
    moreover have "set qs = {q \<in> insert p P. pid_hashfn (pid (procs s q)) = b}" using qs(2) False by auto
    ultimately show ?thesis by blast
  qed
  moreover have "inj_on (\<lambda>q. pid (procs s q)) (insert p P)" using ok p(1,3) by (auto simp: hash_ok_def inj_on_def)
  ultimately show ?thesis using ok p(2) by (simp add: hash_ok_def ps)
qed

lemma unhash_proc_ok:
  assumes ok: "hash_ok s P" and p: "p \<in> P"
  shows "hash_ok (unhash_proc p s) (P - {p})"
proof -
  let ?c = "pid_hashfn (pid (procs s p))"
  have ps: "procs (unhash_proc p s) = procs s" by (simp add: unhash_proc_def)
  have lists: "\<exists>qs. clist (hash_links s) (Hash_list b) (map Hash_link qs) \<and> set qs = {q \<in> P. pid_hashfn (pid (procs s q)) = b}"
    if "b < HASH_LIST_SIZE" for b using ok that by (simp add: hash_ok_def)
  obtain rs where rs: "clist (hash_links s) (Hash_list ?c) (map Hash_link rs)" "set rs = {q \<in> P. pid_hashfn (pid (procs s q)) = ?c}"
    using lists [OF pid_hashfn_bound] by blast
  then obtain us vs where uv: "rs = us @ p # vs" using p split_list [of p rs] by auto
  have dist: "distinct rs" using clistD(1) [OF rs(1)] by (simp add: distinct_map)
  have "\<exists>qs. clist (hash_links (unhash_proc p s)) (Hash_list b) (map Hash_link qs) \<and>
      set qs = {q \<in> P - {p}. pid_hashfn (pid (procs s q)) = b}" if b: "b < HASH_LIST_SIZE" for b
  proof (cases "b = ?c")
    case True
    have "clist (hash_links (unhash_proc p s)) (Hash_list b) (map Hash_link (us @ vs))"
      using clist_del [of "hash_links s" "Hash_list b" "map Hash_link us" "Hash_link p" "map Hash_link vs"] rs(1) uv True
      by (simp add: unhash_proc_def)
    moreover have "set (us @ vs) = {q \<in> P - {p}. pid_hashfn (pid (procs s q)) = b}" using rs(2) uv dist True by auto
    ultimately show ?thesis by blast
  next
    case False
    obtain qs where qs: "clist (hash_links s) (Hash_list b) (map Hash_link qs)" "set qs = {q \<in> P. pid_hashfn (pid (procs s q)) = b}"
      using lists [OF b] by blast
    have "set qs \<inter> set (us @ p # vs) = {}" "p \<notin> set qs" using qs(2) rs(2) uv False by auto
    then have "clist (hash_links (unhash_proc p s)) (Hash_list b) (map Hash_link qs)"
      using clist_other_del [OF qs(1) False, of p us vs] rs(1) uv by (simp add: unhash_proc_def)
    moreover have "set qs = {q \<in> P - {p}. pid_hashfn (pid (procs s q)) = b}" using qs(2) False by auto
    ultimately show ?thesis by blast
  qed
  moreover have "inj_on (\<lambda>q. pid (procs s q)) (P - {p})" using ok by (auto simp: hash_ok_def inj_on_def)
  ultimately show ?thesis using ok by (simp add: hash_ok_def ps)
qed

end
