(* ===== verification/Proc_Kernel.thy ===== *)
theory Proc_Kernel
  imports Proc_Family Proc_Pids Sched_Core
begin

text \<open>
  What the process manager relies on from the scheduler, as the locale \<open>kernel_procs\<close>: the contract of the
  framework, and that a freshly initialised process may join the queue. In it: the children of an exiting
  process go to init, which is woken if it waits for one of them. Interpreted on the two classes
  the kernel is built with.
\<close>

section \<open>A new process\<close>

text \<open>What \<open>alloc_proc\<close> does to the structures of the scheduler.\<close>

definition fresh_process :: "ptr \<Rightarrow> 'a sched_scheme \<Rightarrow> 'a sched_scheme \<Rightarrow> bool" where
  "fresh_process p s s' \<longleftrightarrow> (\<forall>q. q \<noteq> p \<longrightarrow> procs s' q = procs s q) \<and> lab6_priority (procs s' p) = 1 \<and>
     run_links s' = list_init (Run_link p) (run_links s) \<and> run_pool s' = skew_heap_init p (run_pool s) \<and> runq s' = runq s"

lemma fifo_fresh:
  assumes "fresh_process p s s'"
  shows "fifo_rep s Q \<Longrightarrow> p \<notin> Q \<Longrightarrow> fifo_rep s' Q" "unlinked s' p" "q \<noteq> p \<Longrightarrow> unlinked s q \<Longrightarrow> unlinked s' q"
proof -
  note f = assms [unfolded fresh_process_def]
  show "unlinked s' p" using f by (simp add: unlinked_def list_empty_def list_init_def)
  show "q \<noteq> p \<Longrightarrow> unlinked s q \<Longrightarrow> unlinked s' q" using f by (simp add: unlinked_def list_empty_def list_init_def)
  show "fifo_rep s' Q" if rep: "fifo_rep s Q" and p: "p \<notin> Q"
  proof -
    obtain q where q: "run_fifo s q" "set q = Q" using rep by (auto simp: fifo_rep_def)
    have "clist (run_links s') Run_list (map Run_link q)"
      using list_init_frame [of "run_links s" Run_list "map Run_link q" "Run_link p"] q p f by (auto simp: run_fifo_def)
    moreover have "procs s' x = procs s x" if "x \<in> set q" for x using that q(2) p f by metis
    ultimately have "run_fifo s' q" using q f by (simp add: run_fifo_def)
    then show ?thesis using q(2) by (auto simp: fifo_rep_def)
  qed
qed

lemma stride_fresh:
  assumes "fresh_process p s s'"
  shows "stride_rep s Q \<Longrightarrow> p \<notin> Q \<Longrightarrow> stride_rep s' Q" "has_priority s' p" "q \<noteq> p \<Longrightarrow> has_priority s q \<Longrightarrow> has_priority s' q"
proof -
  note f = assms [unfolded fresh_process_def]
  show "has_priority s' p" "q \<noteq> p \<Longrightarrow> has_priority s q \<Longrightarrow> has_priority s' q" using f by (simp_all add: has_priority_def)
  show "stride_rep s' Q" if rep: "stride_rep s Q" and p: "p \<notin> Q"
  proof -
    obtain t where t: "pool_tree s t" "set_tree t = Q" using rep by (auto simp: stride_rep_def)
    have sh: "sheap (run_pool s) (lab6_run_pool (runq s)) t" using t(1) by (simp add: pool_tree_def)
    have ne: "n \<noteq> p" if "n \<in> set_tree t" for n using that t(2) p by auto
    have "sheap (run_pool s') (lab6_run_pool (runq s)) t"
      by (rule sheap_frame [OF sh]) (use ne f in \<open>simp add: skew_heap_init_def\<close>)
    moreover have "rq (procs s' x) = Some The_rq" if "x \<in> set_tree t" for x
      using ne [OF that] pool_treeD(4) [OF t(1) that] f by simp
    ultimately have "pool_tree s' t" using t(1) f by (simp add: pool_tree_def)
    moreover have "lab6_priority (procs s' x) \<noteq> 0" if "x \<in> Q" for x
      using that p rep f by (auto simp: stride_rep_def)
    ultimately show ?thesis using t(2) by (auto simp: stride_rep_def)
  qed
qed

section \<open>The interface\<close>

locale kernel_procs = kernel_sched cls rep ready
  for cls :: "'c kernel_scheme sched_class" and rep and ready +
  assumes fresh_rep: "fresh_process p s s' \<Longrightarrow> rep s Q \<Longrightarrow> p \<notin> Q \<Longrightarrow> rep s' Q"
    and fresh_ready: "fresh_process p s s' \<Longrightarrow> ready s' p"
    and fresh_other: "fresh_process p s s' \<Longrightarrow> q \<noteq> p \<Longrightarrow> ready s q \<Longrightarrow> ready s' q"
begin

lemma sched_ok_unused:
  assumes ok: "sched_ok rep ready P s" and fr: "fresh_process p s s'" and p: "p \<notin> P"
    and eq: "current s' = current s" "idleproc s' = idleproc s"
  shows "sched_ok rep ready P s'"
proof -
  have old: "procs s' q = procs s q" if "q \<in> P" for q using that p fr unfolding fresh_process_def by metis
  have R: "runnable P s' = runnable P s" by (rule runnable_cong) (simp add: old)
  show ?thesis
    unfolding sched_ok_def R eq
  proof (intro conjI ballI impI)
    show "rep s' (runnable P s - {current s})"
      by (rule fresh_rep [OF fr]) (use sched_okD(1) [OF ok] p in \<open>auto simp: runnable_def\<close>)
    show "ready s' q" if "q \<in> P" "q \<notin> runnable P s - {current s}" for q
      by (rule fresh_other [OF fr _ sched_okD(2) [OF ok that]]) (use that p in auto)
  qed (use ok in \<open>auto simp: sched_ok_def\<close>)
qed

lemma sched_ok_fresh:
  assumes ok: "sched_ok rep ready P s" and fr: "fresh_process p s s'" and p: "p \<notin> P" "p \<noteq> NULL" "p \<noteq> idleproc s"
    and st: "state (procs s' p) \<noteq> PROC_RUNNABLE" and eq: "current s' = current s" "idleproc s' = idleproc s"
    and card: "card P + 1 < rq_limit"
  shows "sched_ok rep ready (insert p P) s'"
proof (rule sched_ok_insert)
  show "sched_ok rep ready P s'" by (rule sched_ok_unused [OF ok fr p(1) eq])
  show "card (insert p P) < rq_limit" using card sched_okD(3) [OF ok] by (simp add: card_insert_if)
qed (use p st eq fresh_ready [OF fr] in auto)

end

interpretation rr_procs: kernel_procs default_sched_class fifo_rep unlinked
  by (rule kernel_procs.intro [OF rr_kernel.kernel_sched_axioms], rule kernel_procs_axioms.intro) (fact fifo_fresh)+

interpretation stride_procs: kernel_procs stride_sched_class stride_rep has_priority
  by (rule kernel_procs.intro [OF stride_kernel.kernel_sched_axioms], rule kernel_procs_axioms.intro) (fact stride_fresh)+

section \<open>Handing the children to init\<close>

lemma hand_over_procs:
  assumes "current s = c" "initproc s = i" "c \<noteq> i" "proc \<noteq> c" "proc \<noteq> i" "optr (procs s proc) = n" "cptr (procs s i) = o'" "proc \<noteq> o'"
  shows "parent (procs (hand_over proc s) x) = (if x = proc then i else parent (procs s x))"
    "cptr (procs (hand_over proc s) x) = (if x = i then proc else if x = c then n else cptr (procs s x))"
    "yptr (procs (hand_over proc s) x) = (if x = proc then NULL else if o' \<noteq> NULL \<and> x = o' then proc else yptr (procs s x))"
    "optr (procs (hand_over proc s) x) = (if x = proc then o' else optr (procs s x))"
proof -
  define s1 where "s1 = upd_proc c (\<lambda>p. p\<lparr>cptr := n\<rparr>) s"
  define s2 where "s2 = upd_proc proc (\<lambda>p. p\<lparr>yptr := NULL\<rparr>) s1"
  define s3 where "s3 = upd_proc proc (\<lambda>p. p\<lparr>optr := o'\<rparr>) s2"
  define s4 where "s4 = (if o' \<noteq> NULL then upd_proc o' (\<lambda>p. p\<lparr>yptr := proc\<rparr>) s3 else s3)"
  have c2: "cptr (procs s2 i) = o'" using assms(3,5,7) by (simp add: s1_def s2_def)
  have c3: "cptr (procs s3 i) = o'" "optr (procs s3 proc) = o'" using c2 assms(5) by (simp_all add: s3_def)
  have i2: "initproc s2 = i" using assms(2) by (simp add: s1_def s2_def upd_proc_def)
  have eq: "hand_over proc s = upd_proc i (\<lambda>p. p\<lparr>cptr := proc\<rparr>) (upd_proc proc (\<lambda>p. p\<lparr>parent := i\<rparr>) s4)"
    unfolding hand_over_def Let_def assms(1,6) s1_def [symmetric] s2_def [symmetric] i2 c2 s3_def [symmetric] c3 s4_def [symmetric] ..
  have f3: "parent (procs s3 x) = parent (procs s x)" "cptr (procs s3 x) = (if x = c then n else cptr (procs s x))"
    "yptr (procs s3 x) = (if x = proc then NULL else yptr (procs s x))" "optr (procs s3 x) = (if x = proc then o' else optr (procs s x))" for x
    using assms(4) by (simp_all add: s1_def s2_def s3_def)
  have f4: "parent (procs s4 x) = parent (procs s3 x)" "cptr (procs s4 x) = cptr (procs s3 x)"
    "yptr (procs s4 x) = (if o' \<noteq> NULL \<and> x = o' then proc else yptr (procs s3 x))" "optr (procs s4 x) = optr (procs s3 x)" for x
    by (simp_all add: s4_def)
  show "parent (procs (hand_over proc s) x) = (if x = proc then i else parent (procs s x))"
    "optr (procs (hand_over proc s) x) = (if x = proc then o' else optr (procs s x))"
    unfolding eq using assms(5) by (simp_all add: f3 f4)
  show "cptr (procs (hand_over proc s) x) = (if x = i then proc else if x = c then n else cptr (procs s x))"
    unfolding eq using assms(5) by (simp add: f3 f4)
  show "yptr (procs (hand_over proc s) x) = (if x = proc then NULL else if o' \<noteq> NULL \<and> x = o' then proc else yptr (procs s x))"
    unfolding eq using assms(5,8) by (simp add: f3 f4)
qed

text \<open>A change of the family links and nothing else.\<close>

definition links_only :: "proc_struct \<Rightarrow> proc_struct \<Rightarrow> bool" where
  "links_only a b \<longleftrightarrow> b = a\<lparr>parent := parent b, cptr := cptr b, yptr := yptr b, optr := optr b\<rparr>"

lemma links_only_refl [simp]: "links_only a a"
  by (simp add: links_only_def)

lemma links_only_trans: "links_only a b \<Longrightarrow> links_only b c \<Longrightarrow> links_only a c"
  unfolding links_only_def by (elim ssubst) simp

lemma links_only_fields:
  assumes "links_only a b"
  shows "state b = state a" "pid b = pid a" "kstack b = kstack a" "mm b = mm a" "flags b = flags a" "exit_code b = exit_code a"
    "wait_state b = wait_state a" "rq b = rq a" "lab6_stride b = lab6_stride a" "lab6_priority b = lab6_priority a" "tf b = tf a" "ctx b = ctx a"
  using assms unfolding links_only_def by (cases a; cases b; simp)+

lemma upd_links_only:
  "links_only (procs s q) (procs (upd_proc p (\<lambda>x. x\<lparr>cptr := v\<rparr>) s) q)" "links_only (procs s q) (procs (upd_proc p (\<lambda>x. x\<lparr>yptr := v\<rparr>) s) q)"
  "links_only (procs s q) (procs (upd_proc p (\<lambda>x. x\<lparr>optr := v\<rparr>) s) q)" "links_only (procs s q) (procs (upd_proc p (\<lambda>x. x\<lparr>parent := v\<rparr>) s) q)"
  by (simp_all add: links_only_def)

lemma links_only_if: "links_only a (procs s q) \<Longrightarrow> links_only a (procs t q) \<Longrightarrow> links_only a (procs (if b then s else t) q)"
  by simp

lemma hand_over_frame: "links_only (procs s q) (procs (hand_over proc s) q)" "same_queue UNIV s (hand_over proc s)"
  "sched.more (hand_over proc s) = sched.more s"
proof -
  have l: "links_only (procs s q) (procs (hand_over proc s) q)" for q
    unfolding hand_over_def Let_def
    by (rule links_only_trans [OF _ upd_links_only(1)], rule links_only_trans [OF _ upd_links_only(4)], rule links_only_if,
        rule links_only_trans [OF _ upd_links_only(2)]; rule links_only_trans [OF _ upd_links_only(3)],
        rule links_only_trans [OF _ upd_links_only(2)], rule upd_links_only(1))
  show "links_only (procs s q) (procs (hand_over proc s) q)" by (rule l)
  have "run_links (hand_over proc s) = run_links s" "run_pool (hand_over proc s) = run_pool s" "runq (hand_over proc s) = runq s"
    by (simp_all add: hand_over_def Let_def)
  then show "same_queue UNIV s (hand_over proc s)" using links_only_fields [OF l] by (simp add: same_queue_def)
  show "sched.more (hand_over proc s) = sched.more s" by (simp add: hand_over_def Let_def)
qed

text \<open>While the loop runs, the first remaining child of \<open>c\<close> may still point back to the one just taken.\<close>

definition family_but :: "ptr \<Rightarrow> (ptr \<Rightarrow> proc_struct) \<Rightarrow> ptr set \<Rightarrow> ptr set \<Rightarrow> (ptr \<Rightarrow> ptr list) \<Rightarrow> bool" where
  "family_but c f P R kids \<longleftrightarrow> NULL \<notin> R \<and> P \<subseteq> R \<and> (\<forall>p \<in> P. parent (f p) \<in> R) \<and>
     (\<forall>q \<in> R. (\<exists>y. (q \<noteq> c \<longrightarrow> y = NULL) \<and> siblings f y (cptr (f q)) (kids q) NULL) \<and> distinct (kids q) \<and> set (kids q) = {p \<in> P. parent (f p) = q})"

lemma family_but_start: "family f P R kids \<Longrightarrow> family_but c f P R kids"
  unfolding family_def family_but_def by blast

lemma family_but_end: "family_but c f P R kids \<Longrightarrow> kids c = [] \<Longrightarrow> family f P R kids"
  unfolding family_def family_but_def by (metis siblings.simps(1))

lemma family_but_cong:
  assumes "\<And>p. same_family (f p) (f' p)" "family_but c f P R kids"
  shows "family_but c f' P R kids"
proof -
  have e: "parent (f' p) = parent (f p)" "cptr (f' p) = cptr (f p)" "yptr (f' p) = yptr (f p)" "optr (f' p) = optr (f p)" for p
    using assms(1) [of p] by (simp_all add: same_family_def)
  have "siblings f' y x cs z = siblings f y x cs z" for y x cs z by (rule siblings_cong) (simp add: e)
  then show ?thesis using assms(2) unfolding family_but_def e by simp
qed

lemma hand_over_ok:
  assumes fam: "family_but c (procs s) P R kids" and cur: "current s = c" "initproc s = i" "c \<noteq> i" "c \<in> R" "i \<in> R"
    and par: "parent (procs s c) \<noteq> c" "parent (procs s i) \<noteq> c" and k: "kids c = x # cs"
  shows "family_but c (procs (hand_over x s)) P R (kids(c := cs, i := x # kids i))"
proof -
  let ?f = "procs s" and ?f' = "procs (hand_over x s)"
  have D: "NULL \<notin> R" "P \<subseteq> R" "\<And>p. p \<in> P \<Longrightarrow> parent (?f p) \<in> R"
    "\<And>q. q \<in> R \<Longrightarrow> \<exists>y. (q \<noteq> c \<longrightarrow> y = NULL) \<and> siblings ?f y (cptr (?f q)) (kids q) NULL"
    "\<And>q. q \<in> R \<Longrightarrow> distinct (kids q)" "\<And>q. q \<in> R \<Longrightarrow> set (kids q) = {p \<in> P. parent (?f p) = q}"
    using fam unfolding family_but_def by blast+
  have disj: "set (kids q) \<inter> set (kids r) = {}" if "q \<in> R" "r \<in> R" "q \<noteq> r" for q r using D(6) that by auto
  have x: "x \<in> P" "parent (?f x) = c" "x \<notin> set cs" using D(5,6) [OF cur(4)] k by auto
  define n where "n = optr (?f x)"
  define o' where "o' = cptr (?f i)"
  have sc: "x \<noteq> NULL" "siblings ?f x n cs NULL" using D(4) [OF cur(4)] k by (auto simp: n_def)
  have si: "siblings ?f NULL o' (kids i) NULL" using D(4) [OF cur(5)] cur(3) by (auto simp: o'_def)
  have o_in: "o' \<noteq> NULL \<longrightarrow> o' \<in> set (kids i)" using siblings_head [OF si] by (cases "kids i") auto
  have ne: "x \<noteq> c" "x \<noteq> i" "x \<noteq> o'"
  proof -
    show "x \<noteq> c" "x \<noteq> i" using x(2) par by blast+
    show "x \<noteq> o'" using o_in sc(1) x(2) cur(3) D(6) [OF cur(5)] by blast
  qed
  note f' = hand_over_procs [OF cur(1,2,3) ne(1,2) n_def [symmetric] o'_def [symmetric] ne(3)]
  have front: "siblings ?f' x o' (kids i) NULL"
  proof (cases "kids i")
    case Nil
    then show ?thesis using si by simp
  next
    case (Cons d ds)
    then have d: "d = o'" "o' \<noteq> NULL" using si by auto
    have oth: "e \<noteq> x \<and> e \<noteq> o'" if "e \<in> set ds" for e using that Cons d D(5,6) [OF cur(5)] x(2) cur(3) by auto
    show ?thesis unfolding Cons
      by (rule siblings_front [OF si [unfolded Cons]]) (use D(5) [OF cur(5)] Cons d oth ne in \<open>auto simp: f'\<close>)
  qed
  show ?thesis
    unfolding family_but_def
  proof (intro conjI ballI)
    show "NULL \<notin> R" "P \<subseteq> R" by (rule D)+
    show "parent (?f' p) \<in> R" if "p \<in> P" for p using D(3) [OF that] cur(5) by (simp add: f')
    fix q assume q: "q \<in> R"
    let ?k = "(kids(c := cs, i := x # kids i)) q"
    show "distinct ?k" 
    proof -
      have "x \<notin> set (kids i)" using D(6) [OF cur(5)] x(2) cur(3) by simp
      moreover have "distinct cs" using D(5) [OF cur(4)] k by simp
      ultimately show ?thesis using D(5) [OF q] D(5) [OF cur(5)] by simp
    qed
    show "set ?k = {p \<in> P. parent (?f' p) = q}"
    proof -
      consider "q = c" | "q = i" | "q \<noteq> c" "q \<noteq> i" by blast
      then show ?thesis
      proof cases
        case 1
        have "{p \<in> P. parent (?f' p) = c} = {p \<in> P. parent (?f p) = c} - {x}" using cur(3) x(2) by (auto simp: f')
        also have "\<dots> = set cs" using D(6) [OF cur(4)] k x(3) by auto
        finally show ?thesis using 1 cur(3) by simp
      next
        case 2
        have "{p \<in> P. parent (?f' p) = i} = insert x {p \<in> P. parent (?f p) = i}" using x(1) by (auto simp: f')
        then show ?thesis using 2 D(6) [OF cur(5)] by simp
      next
        case 3
        have "{p \<in> P. parent (?f' p) = q} = {p \<in> P. parent (?f p) = q}" using 3 x(2) by (auto simp: f')
        then show ?thesis using 3 D(6) [OF q] by simp
      qed
    qed
    have keep: "siblings ?f' y z ds NULL = siblings ?f y z ds NULL" if "x \<notin> set ds" "o' = NULL \<or> o' \<notin> set ds" for y z ds
      by (rule siblings_cong) (use that in \<open>auto simp: f'\<close>)
    consider "q = c" | "q = i" "q \<noteq> c" | "q \<noteq> c" "q \<noteq> i" by blast
    then show "\<exists>y. (q \<noteq> c \<longrightarrow> y = NULL) \<and> siblings ?f' y (cptr (?f' q)) ?k NULL"
    proof cases
      case 1
      have "o' = NULL \<or> o' \<notin> set cs" using o_in disj [OF cur(4,5,3)] k by auto
      then show ?thesis using 1 cur(3) sc(2) keep [OF x(3)] by (auto simp: f')
    next
      case 2
      then show ?thesis using front sc(1) by (auto simp: f')
    next
      case 3
      have "x \<notin> set (kids q)" using D(6) [OF q] x(2) 3(1) by auto
      moreover have "o' = NULL \<or> o' \<notin> set (kids q)" using o_in disj [OF q cur(5) 3(2)] by auto
      ultimately have "siblings ?f' y z (kids q) NULL = siblings ?f y z (kids q) NULL" for y z by (rule keep)
      then show ?thesis using 3 D(4) [OF q] by (simp add: f')
    qed
  qed
qed

lemma kernel_of_more:
  fixes s s' :: "'a kernel_scheme"
  assumes "sched.more s' = sched.more s"
  shows "initproc s' = initproc s" "nr_process s' = nr_process s" "proc_links s' = proc_links s" "hash_links s' = hash_links s"
    "last_pid s' = last_pid s" "next_safe s' = next_safe s" "mms s' = mms s" "tframes s' = tframes s" "npage s' = npage s"
  using assms by (cases s; cases s'; simp)+

text \<open>The state of init after the loop.\<close>

definition maybe_woken :: "bool \<Rightarrow> proc_struct \<Rightarrow> proc_struct \<Rightarrow> bool" where
  "maybe_woken w a b \<longleftrightarrow> (if w then \<exists>l. links_only a l \<and> same_core (l\<lparr>state := PROC_RUNNABLE, wait_state := 0\<rparr>) b else links_only a b)"

lemma maybe_woken_fields:
  assumes "maybe_woken w a b"
  shows "kstack b = kstack a" "mm b = mm a" "state b = (if w then PROC_RUNNABLE else state a)"
proof -
  have "kstack b = kstack a \<and> mm b = mm a \<and> state b = (if w then PROC_RUNNABLE else state a)"
  proof (cases w)
    case True
    then obtain l where "links_only a l" "same_core (l\<lparr>state := PROC_RUNNABLE, wait_state := 0\<rparr>) b" using assms by (auto simp: maybe_woken_def)
    then show ?thesis using True links_only_fields(3,4) [of a l] same_core_fields(1,4,7) by fastforce
  next
    case False
    then show ?thesis using assms links_only_fields(1,3,4) [of a b] by (simp add: maybe_woken_def)
  qed
  then show "kstack b = kstack a" "mm b = mm a" "state b = (if w then PROC_RUNNABLE else state a)" by simp_all
qed

context kernel_procs begin

lemma adopt_all_ok:
  assumes "sched_ok rep ready P s" "family_but c (procs s) P R kids" "current s = c" "initproc s = i" "c \<noteq> i" "c \<in> R" "i \<in> P"
    "parent (procs s c) \<noteq> c" "parent (procs s i) \<noteq> c" "wait_state (procs s i) = WT_CHILD \<longrightarrow> state (procs s i) = PROC_SLEEPING"
  shows "\<exists>s'. adopt_all cls s = Some (Inr s') \<and> sched_ok rep ready P s' \<and>
    family (procs s') P R (kids(c := [], i := rev (kids c) @ kids i)) \<and> sched.more s' = sched.more s \<and>
    (\<forall>q. q \<noteq> i \<longrightarrow> links_only (procs s q) (procs s' q)) \<and>
    (\<exists>w. maybe_woken w (procs s i) (procs s' i) \<and>
       (w \<longleftrightarrow> wait_state (procs s i) = WT_CHILD \<and> (\<exists>x \<in> set (kids c). state (procs s x) = PROC_ZOMBIE)))"
  using assms
proof (induction "kids c" arbitrary: s kids)
  case Nil
  have iR: "c \<in> R" by (rule Nil.prems(6))
  obtain y where "siblings (procs s) y (cptr (procs s c)) [] NULL" using Nil.prems(2) iR Nil.hyps unfolding family_but_def by fastforce
  then have "adopt_all cls s = Some (Inr s)" using Nil.prems(3) by (subst adopt_all.simps) simp
  moreover have "family (procs s) P R kids" using family_but_end [OF Nil.prems(2)] Nil.hyps by simp
  moreover have k0: "kids(c := [], i := rev (kids c) @ kids i) = kids" using Nil.hyps by auto
  moreover have "maybe_woken False (procs s i) (procs s i)" by (simp add: maybe_woken_def)
  moreover have "set (kids c) = {}" using Nil.hyps by simp
  ultimately show ?case unfolding k0 using Nil.prems(1) by (intro exI [of _ s] conjI exI [of _ False]) auto
next
  case (Cons x cs)
  let ?s1 = "hand_over x s"
  have k: "kids c = x # cs" using Cons.hyps(2) by simp
  have iR: "i \<in> R" using Cons.prems(2,7) unfolding family_but_def by blast
  obtain y where "siblings (procs s) y (cptr (procs s c)) (x # cs) NULL" using Cons.prems(2,6) k unfolding family_but_def by metis
  then have cptr: "cptr (procs s (current s)) = x" "x \<noteq> NULL" using Cons.prems(3) by simp_all
  have step: "adopt_all cls s = loop_bind (adopt cls x s) (adopt_all cls)" using cptr by (subst adopt_all.simps) (simp add: Let_def)
  note fr = hand_over_frame [where proc = x and s = s]
  have lf: "state (procs ?s1 q) = state (procs s q)" "wait_state (procs ?s1 q) = wait_state (procs s q)" for q
    using links_only_fields [OF fr(1)] by simp_all
  have cpu1: "current ?s1 = c" "idleproc ?s1 = idleproc s" "initproc ?s1 = i"
    using cpu_of_more [OF fr(3)] kernel_of_more(1) [OF fr(3)] Cons.prems(3,4) by simp_all
  have ok1: "sched_ok rep ready P ?s1"
    by (rule sched_ok_stable [OF Cons.prems(1) same_queue_mono [OF fr(2) subset_UNIV]]) (simp_all add: lf cpu1 Cons.prems(3))
  let ?kids = "kids(c := cs, i := x # kids i)"
  have fam1: "family_but c (procs ?s1) P R ?kids" by (rule hand_over_ok [OF Cons.prems(2-6) iR Cons.prems(8,9) k])
  have D: "set (kids c) = {p \<in> P. parent (procs s p) = c}" "\<And>q. q \<in> R \<Longrightarrow> set (kids q) = {p \<in> P. parent (procs s p) = q}"
    using Cons.prems(2,6) unfolding family_but_def by blast+
  have x: "x \<noteq> c" "x \<noteq> i" using D(1) k Cons.prems(8,9) by auto
  have par1: "parent (procs ?s1 q) = (if q = x then i else parent (procs s q))" for q
  proof -
    have "x \<noteq> cptr (procs s i)"
    proof
      assume e: "x = cptr (procs s i)"
      have "siblings (procs s) NULL (cptr (procs s i)) (kids i) NULL" using Cons.prems(2,5) iR unfolding family_but_def by metis
      then have "x \<in> set (kids i)" using e cptr(2) siblings_head by (cases "kids i") fastforce+
      then show False using D(2) [OF iR] D(1) k Cons.prems(5) by auto
    qed
    then show ?thesis using hand_over_procs(1) [OF Cons.prems(3,4,5) x refl refl] by simp
  qed
  define w where "w \<longleftrightarrow> state (procs s x) = PROC_ZOMBIE \<and> wait_state (procs s i) = WT_CHILD"
  obtain s2 where s2: "adopt cls x s = Inr s2" "sched_ok rep ready P s2" "\<forall>q. q \<noteq> i \<longrightarrow> procs s2 q = procs ?s1 q"
      "sched.more s2 = sched.more ?s1" "if w then same_core ((procs ?s1 i)\<lparr>state := PROC_RUNNABLE, wait_state := 0\<rparr>) (procs s2 i) else s2 = ?s1"
  proof (cases w)
    case False
    then have "adopt cls x s = Inr ?s1" unfolding adopt_def Let_def cpu1 lf w_def by (rule if_not_P)
    then show thesis using ok1 False that [of ?s1] by simp
  next
    case True
    then have st: "state (procs ?s1 i) = PROC_SLEEPING" using Cons.prems(10) lf by (simp add: w_def)
    obtain s2 where "wakeup_proc cls i ?s1 = Inr s2" "sched_ok rep ready P s2" "\<forall>q. q \<noteq> i \<longrightarrow> procs s2 q = procs ?s1 q"
        "sched.more s2 = sched.more ?s1" "same_core ((procs ?s1 i)\<lparr>state := PROC_RUNNABLE, wait_state := 0\<rparr>) (procs s2 i)"
      using wakeup_ok [OF ok1 Cons.prems(7)] st by auto
    moreover have "adopt cls x s = wakeup_proc cls i ?s1" using True unfolding adopt_def Let_def cpu1 lf w_def by simp
    ultimately show thesis using True that [of s2] by simp
  qed
  have sf: "same_family (procs ?s1 p) (procs s2 p)" for p
  proof (cases "p = i \<and> w")
    case True
    then show ?thesis using s2(5) same_core_family by (fastforce simp: same_family_def)
  next
    case False
    then have "procs s2 p = procs ?s1 p" using s2(3,5) by (cases "p = i") auto
    then show ?thesis by (simp add: same_family_def)
  qed
  have fam2: "family_but c (procs s2) P R ?kids" by (rule family_but_cong [OF sf fam1])
  have cpu2: "current s2 = c" "initproc s2 = i" using cpu_of_more [OF s2(4)] kernel_of_more(1) [OF s2(4)] cpu1 by simp_all
  have par2: "parent (procs s2 c) \<noteq> c" "parent (procs s2 i) \<noteq> c"
    using sf [of c] sf [of i] par1 [of c] par1 [of i] x Cons.prems(8,9) by (auto simp: same_family_def)
  have wi: "wait_state (procs s2 i) = (if w then 0 else wait_state (procs s i))"
    using s2(5) same_core_fields(9) [of "(procs ?s1 i)\<lparr>state := PROC_RUNNABLE, wait_state := 0\<rparr>" "procs s2 i"] lf by auto
  have wt: "wait_state (procs s2 i) = WT_CHILD \<longrightarrow> state (procs s2 i) = PROC_SLEEPING"
    using wi Cons.prems(10) s2(5) lf by (auto simp: WT_CHILD_def WT_INTERRUPTED_def)
  obtain s' w' where s': "adopt_all cls s2 = Some (Inr s')" "sched_ok rep ready P s'"
      "family (procs s') P R (?kids(c := [], i := rev (?kids c) @ ?kids i))" "sched.more s' = sched.more s2"
      "\<forall>q. q \<noteq> i \<longrightarrow> links_only (procs s2 q) (procs s' q)" "maybe_woken w' (procs s2 i) (procs s' i)"
      "w' \<longleftrightarrow> wait_state (procs s2 i) = WT_CHILD \<and> (\<exists>z \<in> set cs. state (procs s2 z) = PROC_ZOMBIE)"
    using Cons.hyps(1) [of ?kids s2] s2(2) fam2 cpu2 Cons.prems(5-7) par2 wt by auto
  have "?kids(c := [], i := rev (?kids c) @ ?kids i) = kids(c := [], i := rev (kids c) @ kids i)"
    using Cons.prems(5) k by auto
  moreover have "links_only (procs s q) (procs s' q)" if "q \<noteq> i" for q
    using links_only_trans [OF fr(1), of q] s2(3) s'(5) that by simp
  moreover have "maybe_woken (w \<or> w') (procs s i) (procs s' i)"
  proof (cases w)
    case True
    then have "\<not> w'" using s'(7) wi by (simp add: WT_CHILD_def WT_INTERRUPTED_def)
    then have l: "links_only (procs s2 i) (procs s' i)" using s'(6) by (simp add: maybe_woken_def)
    obtain r t d where e: "procs s2 i = (procs ?s1 i)\<lparr>state := PROC_RUNNABLE, wait_state := 0, rq := r, time_slice := t, lab6_stride := d\<rparr>"
      using s2(5) True unfolding same_core_def by auto
    define b where "b = procs s' i"
    define m where "m = (procs ?s1 i)\<lparr>parent := parent b, cptr := cptr b, yptr := yptr b, optr := optr b\<rparr>"
    have "links_only (procs ?s1 i) m" by (simp add: links_only_def m_def)
    then have "links_only (procs s i) m" by (rule links_only_trans [OF fr(1)])
    moreover have "same_core (m\<lparr>state := PROC_RUNNABLE, wait_state := 0\<rparr>) b"
    proof -
      have "b = m\<lparr>state := PROC_RUNNABLE, wait_state := 0, rq := r, time_slice := t, lab6_stride := d\<rparr>"
        by (rule trans [OF l [unfolded links_only_def e b_def [symmetric]]], rule proc_struct.equality) (simp_all add: m_def)
      then show ?thesis unfolding same_core_def by blast
    qed
    ultimately show ?thesis using True unfolding maybe_woken_def b_def by auto
  next
    case False
    then have "procs s2 i = procs ?s1 i" using s2(5) by simp
    then have "maybe_woken w' (procs ?s1 i) (procs s' i)" using s'(6) by simp
    then have "maybe_woken w' (procs s i) (procs s' i)"
      unfolding maybe_woken_def by (cases w') (simp, blast intro: links_only_trans [OF fr(1)], simp, blast intro: links_only_trans [OF fr(1)])
    then show ?thesis using False by simp
  qed
  moreover have "(w \<or> w') \<longleftrightarrow> wait_state (procs s i) = WT_CHILD \<and> (\<exists>z \<in> set (kids c). state (procs s z) = PROC_ZOMBIE)"
  proof -
    have "i \<notin> set cs" using D(1) k Cons.prems(9) by auto
    then have "state (procs s2 z) = state (procs s z)" if "z \<in> set cs" for z using that s2(3) lf by metis
    then have "(\<exists>z \<in> set cs. state (procs s2 z) = PROC_ZOMBIE) \<longleftrightarrow> (\<exists>z \<in> set cs. state (procs s z) = PROC_ZOMBIE)" by simp
    then show ?thesis using s'(7) wi k by (auto simp: w_def WT_CHILD_def WT_INTERRUPTED_def)
  qed
  ultimately show ?case using step s2(1) s'(1-4) s2(4) fr(3) by (intro exI [of _ s'] conjI) auto
qed

end

end
