(* ===== verification/Proc_Life.thy ===== *)
theory Proc_Life
  imports Proc_Kernel
begin

text \<open>
  The invariant of the process table and the operations that keep it: \<open>do_kill\<close>, \<open>do_exit\<close> and the end of
  \<open>do_wait\<close>. A process is in the list of all processes, in the hash list of its number, in the children of
  its parent, and in the run queue exactly when it is runnable and does not run.
\<close>

section \<open>The invariant\<close>

definition waits_ok :: "proc_struct \<Rightarrow> bool" where
  "waits_ok p \<longleftrightarrow> wait_state p = 0 \<or> wait_state p = WT_CHILD \<and> state p = PROC_SLEEPING"

text \<open>\<open>ps\<close> is the list of the processes without the idle process; once init exists (\<open>I\<close>) it is the only child of the idle process.\<close>

definition proc_inv_at :: "bool \<Rightarrow> ('a kernel_scheme \<Rightarrow> ptr set \<Rightarrow> bool) \<Rightarrow> ('a kernel_scheme \<Rightarrow> ptr \<Rightarrow> bool) \<Rightarrow> 'a kernel_scheme \<Rightarrow> ptr list \<Rightarrow>
    (ptr \<Rightarrow> ptr list) \<Rightarrow> bool" where
  "proc_inv_at I rep ready s ps kids \<longleftrightarrow> sched_ok rep ready (set ps) s \<and> pid_ok s ps \<and> hash_ok s (set ps) \<and>
     family (procs s) (set ps) (insert (idleproc s) (set ps)) kids \<and> nr_process s = int (length ps) + 1 \<and>
     (I \<longrightarrow> initproc s \<in> set ps \<and> parent (procs s (initproc s)) = idleproc s) \<and>
     (\<forall>p \<in> set ps. waits_ok (procs s p) \<and> parent (procs s p) \<noteq> p \<and> (I \<longrightarrow> parent (procs s p) = idleproc s \<longrightarrow> p = initproc s) \<and>
        0 < pid (procs s p) \<and> pid (procs s p) < MAX_PID)"

abbreviation proc_inv :: "('a kernel_scheme \<Rightarrow> ptr set \<Rightarrow> bool) \<Rightarrow> ('a kernel_scheme \<Rightarrow> ptr \<Rightarrow> bool) \<Rightarrow> 'a kernel_scheme \<Rightarrow> ptr list \<Rightarrow>
    (ptr \<Rightarrow> ptr list) \<Rightarrow> bool" where
  "proc_inv \<equiv> proc_inv_at True"

lemma proc_inv_atD:
  assumes "proc_inv_at I rep ready s ps kids"
  shows "sched_ok rep ready (set ps) s" "pid_ok s ps" "hash_ok s (set ps)" "family (procs s) (set ps) (insert (idleproc s) (set ps)) kids"
    "nr_process s = int (length ps) + 1" "I \<Longrightarrow> initproc s \<in> set ps" "I \<Longrightarrow> parent (procs s (initproc s)) = idleproc s"
    "p \<in> set ps \<Longrightarrow> waits_ok (procs s p)" "p \<in> set ps \<Longrightarrow> parent (procs s p) \<noteq> p"
    "I \<Longrightarrow> p \<in> set ps \<Longrightarrow> parent (procs s p) = idleproc s \<Longrightarrow> p = initproc s" "p \<in> set ps \<Longrightarrow> 0 < pid (procs s p)" "p \<in> set ps \<Longrightarrow> pid (procs s p) < MAX_PID"
    "NULL \<notin> set ps" "idleproc s \<notin> set ps"
  using assms unfolding proc_inv_at_def by (simp_all add: sched_ok_def)

lemmas proc_invD = proc_inv_atD [where I = True, simplified]

lemma proc_inv_def:
  "proc_inv rep ready s ps kids \<longleftrightarrow> sched_ok rep ready (set ps) s \<and> pid_ok s ps \<and> hash_ok s (set ps) \<and>
     family (procs s) (set ps) (insert (idleproc s) (set ps)) kids \<and> nr_process s = int (length ps) + 1 \<and>
     initproc s \<in> set ps \<and> parent (procs s (initproc s)) = idleproc s \<and>
     (\<forall>p \<in> set ps. waits_ok (procs s p) \<and> parent (procs s p) \<noteq> p \<and> (parent (procs s p) = idleproc s \<longrightarrow> p = initproc s) \<and>
        0 < pid (procs s p) \<and> pid (procs s p) < MAX_PID)"
  by (simp add: proc_inv_at_def)

definition same_table :: "'a kernel_scheme \<Rightarrow> 'a kernel_scheme \<Rightarrow> bool" where
  "same_table s s' \<longleftrightarrow> proc_links s' = proc_links s \<and> hash_links s' = hash_links s \<and> nr_process s' = nr_process s \<and>
     initproc s' = initproc s \<and> idleproc s' = idleproc s \<and> last_pid s' = last_pid s \<and> next_safe s' = next_safe s"

lemma same_table_refl [simp]: "same_table s s"
  by (simp add: same_table_def)

lemma same_table_more: "sched.more s' = sched.more s \<Longrightarrow> same_table s s'"
  using kernel_of_more [of s' s] cpu_of_more [of s' s] by (simp add: same_table_def)

lemma same_table_cpu:
  assumes "cpu.more s' = cpu.more s" "idleproc s' = idleproc s"
  shows "same_table s s'"
  using assms by (cases s; cases s'; simp add: same_table_def)

lemma pid_ok_cong: "same_table s s' \<Longrightarrow> \<forall>p \<in> set ps. pid (procs s' p) = pid (procs s p) \<Longrightarrow> pid_ok s' ps = pid_ok s ps"
  by (simp add: pid_ok_def clear_between_def same_table_def)

lemma hash_ok_cong:
  assumes "same_table s s'" "\<forall>p \<in> P. pid (procs s' p) = pid (procs s p)" "hash_ok s P"
  shows "hash_ok s' P"
proof -
  have "{p \<in> P. pid_hashfn (pid (procs s' p)) = b} = {p \<in> P. pid_hashfn (pid (procs s p)) = b}" for b using assms(2) by auto
  then show ?thesis using assms unfolding hash_ok_def same_table_def by (auto cong: inj_on_cong)
qed

text \<open>Any step that keeps the scheduler's invariant, the tables, the numbers and the family links keeps the invariant.\<close>

lemma proc_inv_step:
  assumes inv: "proc_inv_at I rep ready s ps kids" and ok: "sched_ok rep ready (set ps) s'" and tab: "same_table s s'"
    and p: "\<And>q. pid (procs s' q) = pid (procs s q)" "\<And>q. same_family (procs s q) (procs s' q)" "\<And>q. q \<in> set ps \<Longrightarrow> waits_ok (procs s' q)"
  shows "proc_inv_at I rep ready s' ps kids"
proof -
  note D = proc_inv_atD [OF inv]
  have t: "idleproc s' = idleproc s" "initproc s' = initproc s" "nr_process s' = nr_process s" using tab by (simp_all add: same_table_def)
  have par: "parent (procs s' q) = parent (procs s q)" for q using p(2) [of q] by (simp add: same_family_def)
  have "pid_ok s' ps" using pid_ok_cong [OF tab] p(1) D(2) by simp
  moreover have "hash_ok s' (set ps)" by (rule hash_ok_cong [OF tab _ D(3)]) (simp add: p(1))
  moreover have "family (procs s') (set ps) (insert (idleproc s) (set ps)) kids" by (rule family_cong [OF p(2) D(4)])
  ultimately show ?thesis unfolding proc_inv_at_def t par p(1)
    using ok D(5-7,9-12) p(3) by blast
qed

text \<open>The heap, the allocator, the stacks and init are as before, and so are the address space and the life of every process outside \<open>C\<close>.\<close>

definition rest_kept :: "ptr set \<Rightarrow> 'a kernel_scheme \<Rightarrow> 'a kernel_scheme \<Rightarrow> bool" where
  "rest_kept C s s' \<longleftrightarrow> slobs s' = slobs s \<and> slobfree s' = slobfree s \<and> bbs s' = bbs s \<and> bigblocks s' = bigblocks s \<and>
     pages s' = pages s \<and> page_links s' = page_links s \<and> nr_free s' = nr_free s \<and> npage s' = npage s \<and>
     idleproc s' = idleproc s \<and> initproc s' = initproc s \<and>
     (\<forall>q. kstack (procs s' q) = kstack (procs s q) \<and>
        (q \<notin> C \<longrightarrow> mm (procs s' q) = mm (procs s q) \<and> (state (procs s' q) = PROC_ZOMBIE \<longleftrightarrow> state (procs s q) = PROC_ZOMBIE)))"

lemma rest_kept_refl [simp]: "rest_kept C s s"
  by (simp add: rest_kept_def)

lemma rest_kept_trans: "rest_kept C s t \<Longrightarrow> rest_kept C t u \<Longrightarrow> rest_kept C s u"
  by (simp add: rest_kept_def)

lemma rest_kept_mono: "rest_kept C s t \<Longrightarrow> C \<subseteq> D \<Longrightarrow> rest_kept D s t"
  unfolding rest_kept_def by blast

lemma rest_kept_cpu:
  assumes "cpu.more s' = cpu.more s" "idleproc s' = idleproc s"
    and "\<And>q. kstack (procs s' q) = kstack (procs s q)" "\<And>q. q \<notin> C \<Longrightarrow> mm (procs s' q) = mm (procs s q)"
      "\<And>q. q \<notin> C \<Longrightarrow> state (procs s' q) = PROC_ZOMBIE \<longleftrightarrow> state (procs s q) = PROC_ZOMBIE"
  shows "rest_kept C s s'"
proof -
  have "slobs s' = slobs s \<and> slobfree s' = slobfree s \<and> bbs s' = bbs s \<and> bigblocks s' = bigblocks s \<and>
     pages s' = pages s \<and> page_links s' = page_links s \<and> nr_free s' = nr_free s \<and> npage s' = npage s \<and> initproc s' = initproc s"
    using assms(1) by (cases s; cases s'; simp)
  then show ?thesis using assms(2-5) by (simp add: rest_kept_def)
qed

lemma rest_kept_more:
  assumes "sched.more s' = sched.more s"
    and "\<And>q. kstack (procs s' q) = kstack (procs s q)" "\<And>q. q \<notin> C \<Longrightarrow> mm (procs s' q) = mm (procs s q)"
      "\<And>q. q \<notin> C \<Longrightarrow> state (procs s' q) = PROC_ZOMBIE \<longleftrightarrow> state (procs s q) = PROC_ZOMBIE"
  shows "rest_kept C s s'"
  by (rule rest_kept_cpu [OF cpu_of_more(6) [OF assms(1)] cpu_of_more(2) [OF assms(1)] assms(2-4)])

context kernel_procs begin

text \<open>Changes of fields that neither the scheduler nor the tables look at.\<close>

lemma proc_inv_fields:
  assumes "proc_inv_at I rep ready s ps kids" "same_queue UNIV s s'" "same_table s s'" "current s' = current s"
    "\<And>q. state (procs s' q) = state (procs s q) \<and> wait_state (procs s' q) = wait_state (procs s q) \<and> same_family (procs s q) (procs s' q)"
  shows "proc_inv_at I rep ready s' ps kids"
proof (rule proc_inv_step [OF assms(1) _ assms(3)])
  show "sched_ok rep ready (set ps) s'"
    by (rule sched_ok_stable [OF proc_inv_atD(1) [OF assms(1)] same_queue_mono [OF assms(2) subset_UNIV]])
      (use assms(3-5) in \<open>auto simp: same_table_def\<close>)
  show "pid (procs s' q) = pid (procs s q)" for q using assms(2) by (simp add: same_queue_def)
  show "same_family (procs s q) (procs s' q)" for q using assms(5) by blast
  show "waits_ok (procs s' q)" if "q \<in> set ps" for q using proc_inv_atD(8) [OF assms(1) that] assms(5) [of q] by (simp add: waits_ok_def)
qed

lemma proc_inv_wakeup:
  assumes inv: "proc_inv_at I rep ready s ps kids" and p: "p \<in> set ps" "state (procs s p) \<noteq> PROC_ZOMBIE"
  obtains s' where "wakeup_proc cls p s = Inr s'" "proc_inv_at I rep ready s' ps kids" "state (procs s' p) = PROC_RUNNABLE"
    "\<forall>q. q \<noteq> p \<longrightarrow> procs s' q = procs s q" "sched.more s' = sched.more s"
    "state (procs s p) \<noteq> PROC_RUNNABLE \<longrightarrow> same_core ((procs s p)\<lparr>state := PROC_RUNNABLE, wait_state := 0\<rparr>) (procs s' p)"
    "runnable (set ps) s' = insert p (runnable (set ps) s)"
proof -
  obtain s' where s': "wakeup_proc cls p s = Inr s'" "sched_ok rep ready (set ps) s'" "state (procs s' p) = PROC_RUNNABLE"
      "\<forall>q. q \<noteq> p \<longrightarrow> procs s' q = procs s q" "sched.more s' = sched.more s"
      "state (procs s p) \<noteq> PROC_RUNNABLE \<longrightarrow> same_core ((procs s p)\<lparr>state := PROC_RUNNABLE, wait_state := 0\<rparr>) (procs s' p)"
      "runnable (set ps) s' = insert p (runnable (set ps) s)"
    using wakeup_ok [OF proc_inv_atD(1) [OF inv] p] by blast
  have same: "procs s' = procs s" if "state (procs s p) = PROC_RUNNABLE"
  proof -
    have "wakeup_proc cls p s = Inr (intr_restore (fst (intr_save s)) (snd (intr_save s)))"
      using p(2) that by (simp add: wakeup_proc_def case_prod_beta)
    then show ?thesis using s'(1) by auto
  qed
  have core: "pid (procs s' p) = pid (procs s p) \<and> same_family (procs s p) (procs s' p) \<and> waits_ok (procs s' p)"
  proof (cases "state (procs s p) = PROC_RUNNABLE")
    case True
    then show ?thesis using same proc_inv_atD(8) [OF inv p(1)] by (simp add: same_family_def)
  next
    case False
    then show ?thesis using s'(6) same_core_fields same_core_family [of "(procs s p)\<lparr>state := PROC_RUNNABLE, wait_state := 0\<rparr>"]
      by (auto simp: same_family_def waits_ok_def)
  qed
  have "proc_inv_at I rep ready s' ps kids"
  proof (rule proc_inv_step [OF inv s'(2) same_table_more [OF s'(5)]])
    show "pid (procs s' q) = pid (procs s q)" "same_family (procs s q) (procs s' q)" for q
      using core s'(4) by (cases "q = p"; simp add: same_family_def)+
    show "waits_ok (procs s' q)" if "q \<in> set ps" for q
      using core s'(4) proc_inv_atD(8) [OF inv that] by (cases "q = p") simp_all
  qed
  then show thesis using that s' by blast
qed

lemma proc_inv_intr:
  assumes inv: "proc_inv_at I rep ready s ps kids"
  shows "proc_inv_at I rep ready (snd (intr_save s)) ps kids" "proc_inv_at I rep ready (intr_restore f s) ps kids"
proof -
  have tab: "same_table s (snd (intr_save s))" "same_table s (intr_restore f s)" by (rule same_table_cpu; simp)+
  show "proc_inv_at I rep ready (snd (intr_save s)) ps kids"
    by (rule proc_inv_fields [OF inv _ tab(1)]) (simp_all add: same_queue_def same_family_def)
  show "proc_inv_at I rep ready (intr_restore f s) ps kids"
    by (rule proc_inv_fields [OF inv _ tab(2)]) (simp_all add: same_queue_def same_family_def)
qed

section \<open>Kill\<close>

lemma do_kill_ok:
  assumes inv: "proc_inv rep ready s ps kids"
  obtains (none) "do_kill cls n s = Inr (- E_INVAL, s)" "\<not> (\<exists>p \<in> set ps. pid (procs s p) = n)"
  | (again) p where "do_kill cls n s = Inr (- E_KILLED, s)" "p \<in> set ps" "pid (procs s p) = n" "flags (procs s p) AND PF_EXITING \<noteq> 0"
  | (killed) p s' where "do_kill cls n s = Inr (0, s')" "p \<in> set ps" "pid (procs s p) = n" "flags (procs s p) AND PF_EXITING = 0"
    "proc_inv rep ready s' ps kids" "flags (procs s' p) = flags (procs s p) OR PF_EXITING" "\<forall>q. q \<noteq> p \<longrightarrow> procs s' q = procs s q"
    "state (procs s' p) = (if wait_state (procs s p) = 0 then state (procs s p) else PROC_RUNNABLE)" "rest_kept {} s s'" "current s' = current s"
proof -
  note D = proc_invD [OF inv]
  obtain p where p: "find_proc n s = Inr p" "p = NULL \<longleftrightarrow> \<not> (0 < n \<and> n < MAX_PID) \<or> (\<forall>q \<in> set ps. pid (procs s q) \<noteq> n)"
      "p \<noteq> NULL \<longrightarrow> p \<in> set ps \<and> pid (procs s p) = n"
    using find_proc_ok [OF D(3), of n] by blast
  show thesis
  proof (cases "p = NULL")
    case True
    then have "\<not> (\<exists>q \<in> set ps. pid (procs s q) = n)" using p(2) D(11,12) by auto
    moreover have "do_kill cls n s = Inr (- E_INVAL, s)" using True p(1) by (simp add: do_kill_def)
    ultimately show thesis using none by blast
  next
    case False
    then have pin: "p \<in> set ps" "pid (procs s p) = n" using p(3) by simp_all
    show thesis
    proof (cases "flags (procs s p) AND PF_EXITING = 0")
      case fl: False
      then have "do_kill cls n s = Inr (- E_KILLED, s)" using p(1) False by (simp add: do_kill_def)
      then show thesis using again pin fl by blast
    next
      case fl: True
      let ?s1 = "upd_proc p (\<lambda>x. x\<lparr>flags := flags x OR PF_EXITING\<rparr>) s"
      have inv1: "proc_inv rep ready ?s1 ps kids"
        by (rule proc_inv_fields [OF inv]) (auto simp: same_queue_def same_table_def same_family_def upd_proc_def)
      have run: "do_kill cls n s = obind (if wait_state (procs s p) AND WT_INTERRUPTED \<noteq> 0 then wakeup_proc cls p ?s1 else Inr ?s1) (\<lambda>s2. Inr (0, s2))"
        using p(1) False fl by (simp add: do_kill_def)
      consider "wait_state (procs s p) = 0" | "wait_state (procs s p) = WT_CHILD" "state (procs s p) = PROC_SLEEPING"
        using D(8) [OF pin(1)] by (auto simp: waits_ok_def)
      then show thesis
      proof cases
        case 1
        then have "do_kill cls n s = Inr (0, ?s1)" using run by simp
        moreover have "rest_kept {} s ?s1" by (simp add: rest_kept_def upd_proc_def)
        moreover have "current ?s1 = current s" by (simp add: upd_proc_def)
        ultimately show thesis using killed [of ?s1 p] pin fl inv1 1 by simp
      next
        case 2
        have w: "wait_state (procs s p) AND WT_INTERRUPTED \<noteq> 0" "wait_state (procs s p) \<noteq> 0"
          using 2(1) by (simp_all add: WT_CHILD_def WT_INTERRUPTED_def)
        have st: "state (procs ?s1 p) \<noteq> PROC_ZOMBIE" "state (procs ?s1 p) \<noteq> PROC_RUNNABLE" using 2(2) by simp_all
        obtain s2 where s2: "wakeup_proc cls p ?s1 = Inr s2" "proc_inv rep ready s2 ps kids" "state (procs s2 p) = PROC_RUNNABLE"
            "\<forall>q. q \<noteq> p \<longrightarrow> procs s2 q = procs ?s1 q"
            "state (procs ?s1 p) \<noteq> PROC_RUNNABLE \<longrightarrow> same_core ((procs ?s1 p)\<lparr>state := PROC_RUNNABLE, wait_state := 0\<rparr>) (procs s2 p)"
            "sched.more s2 = sched.more ?s1"
          by (rule proc_inv_wakeup [OF inv1 pin(1) st(1)])
        have kept: "rest_kept {} s s2"
        proof (rule rest_kept_trans)
          show "rest_kept {} s ?s1" by (simp add: rest_kept_def upd_proc_def)
          note f2 = same_core_fields [OF s2(5) [rule_format, OF st(2)]]
          show "rest_kept {} ?s1 s2"
          proof (rule rest_kept_more [OF s2(6)])
            fix q
            show "kstack (procs s2 q) = kstack (procs ?s1 q)" "mm (procs s2 q) = mm (procs ?s1 q)"
              "state (procs s2 q) = PROC_ZOMBIE \<longleftrightarrow> state (procs ?s1 q) = PROC_ZOMBIE"
              using f2 s2(3,4) st(1) by (cases "q = p"; simp)+
          qed
        qed
        have "do_kill cls n s = Inr (0, s2)" using run w(1) s2(1) by simp
        moreover have "current ?s1 = current s" by (simp add: upd_proc_def)
        moreover have "flags (procs s2 p) = flags (procs s p) OR PF_EXITING" using same_core_fields(8) [OF s2(5) [rule_format, OF st(2)]] by simp
        ultimately show thesis using killed [of s2 p] pin fl s2(2-4) w(2) kept cpu_of_more(1) [OF s2(6)] by simp
      qed
    qed
  qed
qed

end

end
