(* ===== verification/Proc_End.thy ===== *)
theory Proc_End
  imports Proc_Life
begin

text \<open>
  The end of a process: \<open>do_exit\<close> makes it a zombie, wakes its parent and gives its children to init;
  \<open>reap\<close>, the last part of \<open>do_wait\<close>, removes it from the tables and frees its stack and record.
\<close>

context kernel_procs begin

section \<open>Exit\<close>

text \<open>Dropping an address space that others still use, or none.\<close>

lemma drop_mm_shared:
  assumes inv: "proc_inv rep ready s ps kids" and m: "mm (procs s (current s)) = NULL \<or> mm_count (mms s (mm (procs s (current s)))) \<noteq> 1"
  obtains s1 where "drop_mm s = Inr s1" "proc_inv rep ready s1 ps kids" "current s1 = current s" "idleproc s1 = idleproc s" "initproc s1 = initproc s"
    "procs s1 = (procs s)(current s := (procs s (current s))\<lparr>mm := NULL\<rparr>)" "rest_kept {current s} s s1"
proof (cases "mm (procs s (current s)) = NULL")
  case True
  then have "(procs s)(current s := (procs s (current s))\<lparr>mm := NULL\<rparr>) = procs s" by (intro ext) simp
  moreover have "drop_mm s = Inr s" using True by (simp add: drop_mm_def)
  ultimately show thesis using that [of s] inv by simp
next
  case False
  let ?m = "mm (procs s (current s))"
  let ?a = "snd (mm_count_dec ?m (lsatp (page2pa (boot_pgdir s)) s))"
  let ?s1 = "upd_proc (current s) (\<lambda>p. p\<lparr>mm := NULL\<rparr>) ?a"
  have a: "procs ?a = procs s" "current ?a = current s" "idleproc ?a = idleproc s" "run_links ?a = run_links s" "run_pool ?a = run_pool s"
    "runq ?a = runq s" "same_table s ?a"
    by (simp_all add: mm_count_dec_def Let_def upd_mm_def lsatp_def same_table_def)
  have "fst (mm_count_dec ?m (lsatp (page2pa (boot_pgdir s)) s)) \<noteq> 0"
    using m False by (simp add: mm_count_dec_def Let_def upd_mm_def lsatp_def)
  then have run: "drop_mm s = Inr ?s1" using False a(2) by (simp add: drop_mm_def Let_def case_prod_beta)
  have cur: "current ?s1 = current s" "idleproc ?s1 = idleproc s" using a by (simp_all add: upd_proc_def)
  have tab: "same_table s ?s1" using a(7) by (simp add: same_table_def upd_proc_def)
  have pr: "procs ?s1 = (procs s)(current s := (procs s (current s))\<lparr>mm := NULL\<rparr>)" using a(1) by (auto simp: fun_eq_iff)
  have "proc_inv rep ready ?s1 ps kids"
    by (rule proc_inv_fields [OF inv _ tab cur(1)]) (auto simp: same_queue_def same_family_def pr a)
  moreover have "rest_kept {current s} s ?s1"
    by (simp add: rest_kept_def mm_count_dec_def Let_def upd_mm_def lsatp_def upd_proc_def)
  ultimately show thesis using that [OF run] cur tab pr by (simp add: same_table_def)
qed

text \<open>The current process may change its own state: it is not in the run queue.\<close>

lemma proc_inv_current:
  assumes inv: "proc_inv rep ready s ps kids" and tab: "same_table s s'" "current s' = current s" "same_queue UNIV s s'"
    and p: "\<And>q. q \<noteq> current s \<Longrightarrow> procs s' q = procs s q" "same_family (procs s (current s)) (procs s' (current s))" "waits_ok (procs s' (current s))"
  shows "proc_inv rep ready s' ps kids"
proof (rule proc_inv_step [OF inv _ tab(1)])
  note D = sched_okD [OF proc_invD(1) [OF inv]]
  have R: "runnable (set ps) s' - {current s} = runnable (set ps) s - {current s}" using p(1) unfolding runnable_def by auto
  have "rep s' (runnable (set ps) s - {current s})" by (rule rep_stable [OF D(1) same_queue_mono [OF tab(3) subset_UNIV]])
  moreover have "ready s' q" if "q \<in> set ps" "q \<notin> runnable (set ps) s - {current s}" for q
    by (rule ready_stable [OF D(2) [OF that] same_queue_mono [OF tab(3) subset_UNIV]])
  moreover have "idleproc s' = idleproc s" using tab(1) by (simp add: same_table_def)
  ultimately show "sched_ok rep ready (set ps) s'"
    using proc_invD(1) [OF inv] unfolding sched_ok_def tab(2) R by simp
  show "pid (procs s' q) = pid (procs s q)" for q using tab(3) by (simp add: same_queue_def)
  show "same_family (procs s q) (procs s' q)" for q using p(1,2) by (cases "q = current s") (simp_all add: same_family_def)
  show "waits_ok (procs s' q)" if "q \<in> set ps" for q
    using p(1,3) proc_invD(8) [OF inv that] by (cases "q = current s") simp_all
qed

lemma proc_inv_schedule:
  assumes inv: "proc_inv rep ready s ps kids"
  obtains s' where "schedule cls s = Inr s'" "proc_inv rep ready s' ps kids" "scheduled (set ps) s s'"
proof -
  obtain s' where s': "schedule cls s = Inr s'" "sched_ok rep ready (set ps) s'" "scheduled (set ps) s s'"
    using schedule_ok [OF proc_invD(1) [OF inv]] by blast
  have f: "pid (procs s' q) = pid (procs s q)" "same_proc (procs s q) (procs s' q)" "wait_state (procs s' q) = wait_state (procs s q)"
      "state (procs s' q) = state (procs s q)" for q
    using s'(3) unfolding scheduled_def by blast+
  have tab: "same_table s s'" by (rule same_table_cpu) (use s'(3) in \<open>simp_all add: scheduled_def\<close>)
  have "proc_inv rep ready s' ps kids"
    by (rule proc_inv_step [OF inv s'(2) tab]) (use f proc_invD(8) [OF inv] in \<open>simp_all add: same_family_def same_proc_def waits_ok_def\<close>)
  then show thesis using that s'(1,3) by blast
qed

text \<open>The invariant after the family links have changed, read off the lists of children.\<close>

lemma proc_inv_family:
  assumes inv: "proc_inv rep ready s ps kids" and ok: "sched_ok rep ready (set ps) s'" and tab: "same_table s s'"
    and pid: "\<And>q. pid (procs s' q) = pid (procs s q)" and w: "\<And>q. q \<in> set ps \<Longrightarrow> waits_ok (procs s' q)"
    and fam: "family (procs s') (set ps) (insert (idleproc s) (set ps)) kids'"
    and k: "kids' (idleproc s) = kids (idleproc s)" "\<And>p. p \<in> set ps \<Longrightarrow> p \<notin> set (kids' p)"
  shows "proc_inv rep ready s' ps kids'"
proof -
  note D = proc_invD [OF inv]
  note F = familyD [OF fam]
  have t: "idleproc s' = idleproc s" "initproc s' = initproc s" "nr_process s' = nr_process s" using tab by (simp_all add: same_table_def)
  have idle: "parent (procs s' p) = idleproc s \<longleftrightarrow> parent (procs s p) = idleproc s" if "p \<in> set ps" for p
    using F(6) [of "idleproc s"] familyD(6) [OF D(4), of "idleproc s"] k(1) that by auto
  have self: "parent (procs s' p) \<noteq> p" if "p \<in> set ps" for p using F(6) [of p] k(2) [OF that] that by auto
  have "pid_ok s' ps" using pid_ok_cong [OF tab] pid D(2) by simp
  moreover have "hash_ok s' (set ps)" by (rule hash_ok_cong [OF tab _ D(3)]) (simp add: pid)
  ultimately show ?thesis unfolding proc_inv_def t pid
    using ok fam w self idle D(5-7,10-12) by blast
qed

lemma do_exit_ok:
  assumes inv: "proc_inv rep ready s ps kids" and c: "current s = c" "c \<in> set ps" "c \<noteq> initproc s" "state (procs s c) = PROC_RUNNABLE"
    and m: "mm (procs s c) = NULL \<or> mm_count (mms s (mm (procs s c))) \<noteq> 1"
  shows "\<exists>s'. do_exit cls code s = Inr s' \<and> proc_inv rep ready s' ps (kids(c := [], initproc s := rev (kids c) @ kids (initproc s))) \<and>
    current s' \<noteq> c \<and> state (procs s' c) = PROC_ZOMBIE \<and> exit_code (procs s' c) = code \<and> mm (procs s' c) = NULL \<and>
    (wait_state (procs s (parent (procs s c))) = WT_CHILD \<longrightarrow> state (procs s' (parent (procs s c))) = PROC_RUNNABLE) \<and>
    (wait_state (procs s (initproc s)) = WT_CHILD \<and> (\<exists>z \<in> set (kids c). state (procs s z) = PROC_ZOMBIE) \<longrightarrow>
       state (procs s' (initproc s)) = PROC_RUNNABLE) \<and> rest_kept {c} s s' \<and>
    (current s' \<in> set ps \<longrightarrow> state (procs s' (current s')) = PROC_RUNNABLE)"
proof -
  define i where "i = initproc s"
  define par where "par = parent (procs s c)"
  note D = proc_invD [OF inv]
  note F = familyD [OF D(4)]
  have i: "i \<in> set ps" "c \<noteq> i" "i \<noteq> idleproc s" using D(6,14) c(3) by (auto simp: i_def)
  have ci: "c \<noteq> idleproc s" using D(14) c(2) by blast
  have par: "par \<in> set ps" "par \<noteq> c" using F(3) [OF c(2)] D(9,10) [OF c(2)] c(3) by (auto simp: par_def)
  obtain s1 where s1: "drop_mm s = Inr s1" "proc_inv rep ready s1 ps kids" "current s1 = c" "idleproc s1 = idleproc s" "initproc s1 = i"
      "procs s1 = (procs s)(c := (procs s c)\<lparr>mm := NULL\<rparr>)" "rest_kept {c} s s1"
    using drop_mm_shared [OF inv] m c(1) unfolding i_def by metis
  define s2 where "s2 = upd_proc c (\<lambda>p. p\<lparr>state := PROC_ZOMBIE, exit_code := code\<rparr>) s1"
  define f where "f = fst (intr_save s2)"
  define s3 where "s3 = snd (intr_save s2)"
  have "wait_state (procs s c) = 0" using D(8) [OF c(2)] c(4) by (simp add: waits_ok_def)
  then have inv2: "proc_inv rep ready s2 ps kids"
    by (intro proc_inv_current [OF s1(2)])
      (simp_all add: s1 s2_def same_table_def upd_proc_def same_queue_def same_family_def waits_ok_def)
  have inv3: "proc_inv rep ready s3 ps kids" unfolding s3_def by (rule proc_inv_intr(1) [OF inv2])
  have p3: "procs s3 q = (if q = c then (procs s c)\<lparr>mm := NULL, state := PROC_ZOMBIE, exit_code := code\<rparr> else procs s q)" for q
    by (simp add: s3_def s2_def s1(6))
  have c3: "current s3 = c" "idleproc s3 = idleproc s" "initproc s3 = i" 
  proof -
    have "same_table s2 s3" unfolding s3_def by (rule same_table_cpu) simp_all
    then show "initproc s3 = i" using s1(5) by (simp add: same_table_def s2_def upd_proc_def)
    show "current s3 = c" "idleproc s3 = idleproc s" using s1(3,4) by (simp_all add: s3_def s2_def upd_proc_def)
  qed
  have par3: "parent (procs s3 (current s3)) = par" by (simp add: c3 p3 par_def)
  have wk: "wait_state (procs s3 par) = wait_state (procs s par)" using par(2) by (simp add: p3)
  obtain s4 where s4: "(if wait_state (procs s par) = WT_CHILD then wakeup_proc cls par s3 else Inr s3) = Inr s4"
      "proc_inv rep ready s4 ps kids" "sched.more s4 = sched.more s3" "\<forall>q. q \<noteq> par \<longrightarrow> procs s4 q = procs s3 q"
      "if wait_state (procs s par) = WT_CHILD
       then state (procs s4 par) = PROC_RUNNABLE \<and> same_core ((procs s3 par)\<lparr>state := PROC_RUNNABLE, wait_state := 0\<rparr>) (procs s4 par) else s4 = s3"
  proof (cases "wait_state (procs s par) = WT_CHILD")
    case True
    then have "state (procs s par) = PROC_SLEEPING" using D(8) [OF par(1)] by (simp add: waits_ok_def WT_CHILD_def WT_INTERRUPTED_def)
    then have st: "state (procs s3 par) \<noteq> PROC_ZOMBIE" "state (procs s3 par) \<noteq> PROC_RUNNABLE" using par(2) by (simp_all add: p3)
    obtain s4 where "wakeup_proc cls par s3 = Inr s4" "proc_inv rep ready s4 ps kids" "state (procs s4 par) = PROC_RUNNABLE"
        "\<forall>q. q \<noteq> par \<longrightarrow> procs s4 q = procs s3 q" "sched.more s4 = sched.more s3"
        "state (procs s3 par) \<noteq> PROC_RUNNABLE \<longrightarrow> same_core ((procs s3 par)\<lparr>state := PROC_RUNNABLE, wait_state := 0\<rparr>) (procs s4 par)"
      by (rule proc_inv_wakeup [OF inv3 par(1) st(1)])
    then show thesis using that [of s4] True st(2) by simp
  next
    case False
    then show thesis using that [of s3] inv3 by simp
  qed
  note D4 = proc_invD [OF s4(2)]
  have c4: "current s4 = c" "idleproc s4 = idleproc s" "initproc s4 = i"
    using cpu_of_more [OF s4(3)] kernel_of_more(1) [OF s4(3)] c3 by simp_all
  have cR: "c \<in> insert (idleproc s4) (set ps)" using c(2) by simp
  have w4: "wait_state (procs s4 i) = WT_CHILD \<longrightarrow> state (procs s4 i) = PROC_SLEEPING"
    using D4(8) [OF i(1)] by (auto simp: waits_ok_def WT_CHILD_def WT_INTERRUPTED_def)
  have pr4: "parent (procs s4 c) \<noteq> c" "parent (procs s4 i) \<noteq> c" using D4(9) [OF c(2)] D4(7) ci unfolding c4 by simp_all
  obtain s5 w where s5: "adopt_all cls s4 = Some (Inr s5)" "sched_ok rep ready (set ps) s5"
      "family (procs s5) (set ps) (insert (idleproc s) (set ps)) (kids(c := [], i := rev (kids c) @ kids i))" "sched.more s5 = sched.more s4"
      "\<forall>q. q \<noteq> i \<longrightarrow> links_only (procs s4 q) (procs s5 q)" "maybe_woken w (procs s4 i) (procs s5 i)"
      "w \<longleftrightarrow> wait_state (procs s4 i) = WT_CHILD \<and> (\<exists>x \<in> set (kids c). state (procs s4 x) = PROC_ZOMBIE)"
    using adopt_all_ok [OF D4(1) family_but_start [OF D4(4)] c4(1,3) i(2) cR i(1) pr4 w4] unfolding c4 by blast
  let ?kids = "kids(c := [], i := rev (kids c) @ kids i)"
  have mw: "pid (procs s5 i) = pid (procs s4 i)" "waits_ok (procs s5 i)" "w \<or> state (procs s4 i) = PROC_RUNNABLE \<Longrightarrow> state (procs s5 i) = PROC_RUNNABLE"
  proof -
    have "pid (procs s5 i) = pid (procs s4 i) \<and> waits_ok (procs s5 i) \<and> (w \<or> state (procs s4 i) = PROC_RUNNABLE \<longrightarrow> state (procs s5 i) = PROC_RUNNABLE)"
    proof (cases w)
      case True
      then obtain l where "links_only (procs s4 i) l" "same_core (l\<lparr>state := PROC_RUNNABLE, wait_state := 0\<rparr>) (procs s5 i)"
        using s5(6) by (auto simp: maybe_woken_def)
      then show ?thesis using same_core_fields(1,2,9) [of "l\<lparr>state := PROC_RUNNABLE, wait_state := 0\<rparr>" "procs s5 i"] links_only_fields(2)
        by (auto simp: waits_ok_def)
    next
      case False
      then have "links_only (procs s4 i) (procs s5 i)" using s5(6) by (simp add: maybe_woken_def)
      then show ?thesis using links_only_fields(1,2,7) [of "procs s4 i" "procs s5 i"] D4(8) [OF i(1)] False by (simp add: waits_ok_def)
    qed
    then show "pid (procs s5 i) = pid (procs s4 i)" "waits_ok (procs s5 i)" "w \<or> state (procs s4 i) = PROC_RUNNABLE \<Longrightarrow> state (procs s5 i) = PROC_RUNNABLE"
      by blast+
  qed
  have lf: "state (procs s5 q) = state (procs s4 q)" "pid (procs s5 q) = pid (procs s4 q)" "wait_state (procs s5 q) = wait_state (procs s4 q)"
      "exit_code (procs s5 q) = exit_code (procs s4 q)" "mm (procs s5 q) = mm (procs s4 q)" if "q \<noteq> i" for q
    using links_only_fields [of "procs s4 q" "procs s5 q"] s5(5) that by simp_all
  have inv5: "proc_inv rep ready s5 ps ?kids"
  proof (rule proc_inv_family [OF s4(2) s5(2) same_table_more [OF s5(4)]])
    show "pid (procs s5 q) = pid (procs s4 q)" for q using lf(2) mw(1) by (cases "q = i") simp_all
    show "waits_ok (procs s5 q)" if "q \<in> set ps" for q
      using lf(1,3) mw(2) D4(8) [OF that] by (cases "q = i") (simp_all add: waits_ok_def)
    show "family (procs s5) (set ps) (insert (idleproc s4) (set ps)) ?kids" unfolding c4 by (rule s5(3))
    show "?kids (idleproc s4) = kids (idleproc s4)" using ci i(3) unfolding c4 by auto
    fix p assume p: "p \<in> set ps"
    have "p \<notin> set (kids p)" using F(6) [of p] D(9) [OF p] p by simp
    moreover have "i \<notin> set (kids c)" using F(6) [of c] D(7) ci c(2) by (simp add: i_def)
    ultimately show "p \<notin> set (?kids p)" using i(2) by auto
  qed
  have inv6: "proc_inv rep ready (intr_restore f s5) ps ?kids" by (rule proc_inv_intr(2) [OF inv5])
  obtain s7 where s7: "schedule cls (intr_restore f s5) = Inr s7" "proc_inv rep ready s7 ps ?kids" "scheduled (set ps) (intr_restore f s5) s7"
    using proc_inv_schedule [OF inv6] by blast
  have c5: "current s5 = c" "idleproc s5 = idleproc s" using cpu_of_more [OF s5(4)] c4 by simp_all
  have zc: "state (procs s5 c) = PROC_ZOMBIE" "exit_code (procs s5 c) = code" "mm (procs s5 c) = NULL"
    using lf [OF i(2)] s4(4) par(2) by (simp_all add: p3)
  have "c \<notin> runnable (set ps) (intr_restore f s5)" using zc(1) by (simp add: runnable_def)
  then have cur7: "current s7 \<noteq> c" using s7(3) ci c5(2) unfolding scheduled_def by (auto split: if_splits)
  have run: "do_exit cls code s = Inr s7"
  proof -
    have isv: "intr_save s2 = (f, s3)" by (simp add: f_def s3_def)
    have "do_exit cls code s = obind (if wait_state (procs s3 par) = WT_CHILD then wakeup_proc cls par s3 else Inr s3) (\<lambda>s4.
           obind (finish (adopt_all cls s4)) (\<lambda>s5. let s6 = intr_restore f s5 in obind (schedule cls s6) (\<lambda>s7.
             if current s7 = current s6 then Inl (Panic ''do_exit will not return!!'') else Inr s7)))"
      unfolding do_exit_def using c(1,3) ci s1(1,3) isv par3 by (simp add: s2_def [symmetric])
    then show ?thesis using wk s4(1) s5(1) s7(1) cur7 c5(1) by simp
  qed
  have keep: "state (procs s7 q) = state (procs s5 q)" "exit_code (procs s7 q) = exit_code (procs s5 q)" "mm (procs s7 q) = mm (procs s5 q)" for q
    using s7(3) unfolding scheduled_def same_proc_def by simp_all
  have "state (procs s7 par) = PROC_RUNNABLE" if "wait_state (procs s par) = WT_CHILD"
  proof -
    have "state (procs s4 par) = PROC_RUNNABLE" using s4(5) that by simp
    then have "state (procs s5 par) = PROC_RUNNABLE" using lf(1) mw(3) by (cases "par = i") simp_all
    then show ?thesis by (simp add: keep)
  qed
  moreover have "state (procs s7 i) = PROC_RUNNABLE" if a: "wait_state (procs s i) = WT_CHILD" "\<exists>z \<in> set (kids c). state (procs s z) = PROC_ZOMBIE"
  proof (cases "i = par")
    case True
    then show ?thesis using s4(5) a(1) mw(3) by (simp add: keep)
  next
    case False
    have "wait_state (procs s4 i) = WT_CHILD" using False s4(4) i(2) a(1) by (simp add: p3)
    moreover obtain z where z: "z \<in> set (kids c)" "state (procs s z) = PROC_ZOMBIE" using a(2) by blast
    have zps: "z \<in> set ps" "parent (procs s z) = c" using z(1) F(6) [of c] c(2) by simp_all
    have "state (procs s4 z) = PROC_ZOMBIE"
    proof (cases "z = par")
      case True
      then have "wait_state (procs s par) \<noteq> WT_CHILD" using z(2) D(8) [OF zps(1)] by (auto simp: waits_ok_def WT_CHILD_def WT_INTERRUPTED_def)
      then have "s4 = s3" using s4(5) by simp
      then show ?thesis using z(2) by (simp add: p3)
    next
      case nz: False
      then show ?thesis using s4(4) z(2) by (simp add: p3)
    qed
    ultimately have w using s5(7) z(1) by blast
    then show ?thesis using mw(3) by (simp add: keep)
  qed
  moreover have "rest_kept {c} s s7"
  proof -
    have k1: "rest_kept {c} s1 s3"
      by (rule rest_kept_cpu) (simp_all add: s3_def s2_def upd_proc_def)
    have k3: "rest_kept {c} s3 s4"
    proof (rule rest_kept_more [OF s4(3)])
      fix q
      have "wait_state (procs s par) = WT_CHILD \<longrightarrow> state (procs s3 par) \<noteq> PROC_ZOMBIE"
        using D(8) [OF par(1)] par(2) by (auto simp: waits_ok_def WT_CHILD_def WT_INTERRUPTED_def p3)
      then have pz: "kstack (procs s4 par) = kstack (procs s3 par) \<and> mm (procs s4 par) = mm (procs s3 par) \<and>
          (state (procs s4 par) = PROC_ZOMBIE \<longleftrightarrow> state (procs s3 par) = PROC_ZOMBIE)"
        using s4(5) same_core_fields(4,7) [of "(procs s3 par)\<lparr>state := PROC_RUNNABLE, wait_state := 0\<rparr>" "procs s4 par"] by (auto split: if_splits)
      show "kstack (procs s4 q) = kstack (procs s3 q)" "mm (procs s4 q) = mm (procs s3 q)"
        "state (procs s4 q) = PROC_ZOMBIE \<longleftrightarrow> state (procs s3 q) = PROC_ZOMBIE"
        using pz s4(4) by (cases "q = par"; simp)+
    qed
    have k4: "rest_kept {c} s4 s5"
    proof (rule rest_kept_more [OF s5(4)])
      fix q
      have iz: "kstack (procs s5 i) = kstack (procs s4 i) \<and> mm (procs s5 i) = mm (procs s4 i) \<and>
          (state (procs s5 i) = PROC_ZOMBIE \<longleftrightarrow> state (procs s4 i) = PROC_ZOMBIE)"
        using maybe_woken_fields [OF s5(6)] s5(7) w4 by (cases w) simp_all
      show "kstack (procs s5 q) = kstack (procs s4 q)" "mm (procs s5 q) = mm (procs s4 q)"
        "state (procs s5 q) = PROC_ZOMBIE \<longleftrightarrow> state (procs s4 q) = PROC_ZOMBIE"
        using iz links_only_fields(1,3,4) [of "procs s4 q" "procs s5 q"] s5(5) by (cases "q = i"; simp)+
    qed
    have k5: "rest_kept {c} s5 (intr_restore f s5)" by (rule rest_kept_cpu) simp_all
    have k6: "rest_kept {c} (intr_restore f s5) s7"
      by (rule rest_kept_cpu) (use s7(3) in \<open>simp_all add: scheduled_def same_proc_def\<close>)
    show ?thesis
      by (rule rest_kept_trans [OF s1(7) rest_kept_trans [OF k1 rest_kept_trans [OF k3 rest_kept_trans [OF k4 rest_kept_trans [OF k5 k6]]]]])
  qed
  moreover have "state (procs s7 (current s7)) = PROC_RUNNABLE" if "current s7 \<in> set ps"
    using that s7(3) proc_invD(14) [OF inv6] unfolding scheduled_def runnable_def by (auto split: if_splits)
  ultimately show ?thesis using run s7(2) cur7 zc unfolding keep [symmetric] i_def [symmetric] par_def [symmetric]
    by (intro exI [of _ s7]) simp
qed

end

end
