(* ===== verification/Proc_Start.thy ===== *)
theory Proc_Start
  imports Proc_Life
begin

text \<open>
  The start of a process: \<open>publish\<close>, the part of \<open>do_fork\<close> that gives the prepared child its number, enters it
  into the tables and makes it runnable, keeps the invariant of the process table.
\<close>

section \<open>Frames\<close>

text \<open>The fields of the memory subsystem.\<close>

definition same_memory :: "'a kernel_scheme \<Rightarrow> 'a kernel_scheme \<Rightarrow> bool" where
  "same_memory s s' \<longleftrightarrow> slobs s' = slobs s \<and> slobfree s' = slobfree s \<and> bbs s' = bbs s \<and> bigblocks s' = bigblocks s \<and>
     pages s' = pages s \<and> page_links s' = page_links s \<and> nr_free s' = nr_free s \<and> npage s' = npage s \<and> phys s' = phys s \<and>
     vmas s' = vmas s \<and> mms s' = mms s \<and> vm_links s' = vm_links s \<and> tframes s' = tframes s"

lemma same_memory_refl [simp]: "same_memory s s"
  by (simp add: same_memory_def)

lemma same_memory_trans: "same_memory s t \<Longrightarrow> same_memory t u \<Longrightarrow> same_memory s u"
  by (simp add: same_memory_def)

lemma same_memory_more: "sched.more s' = sched.more s \<Longrightarrow> same_memory s s'"
  by (cases s; cases s'; simp add: same_memory_def)

lemma same_memory_cpu: "cpu.more s' = cpu.more s \<Longrightarrow> same_memory s s'"
  by (cases s; cases s'; simp add: same_memory_def)

lemma live_objects_memory:
  assumes "same_memory s s'"
  shows "live_objects s' A bs F xs L = live_objects s A bs F xs L"
  by (rule live_objects_cong) (use assms in \<open>simp_all add: same_memory_def\<close>)

text \<open>Linking and unlinking a process changes family links, the list of all processes and its length.\<close>

definition table_frame :: "('a kernel_scheme \<Rightarrow> 'a kernel_scheme) \<Rightarrow> 'a kernel_scheme \<Rightarrow> bool" where
  "table_frame g s \<longleftrightarrow> (\<forall>q. links_only (procs s q) (procs (g s) q)) \<and> same_queue UNIV s (g s) \<and> same_memory s (g s) \<and>
     current (g s) = current s \<and> idleproc (g s) = idleproc s \<and> initproc (g s) = initproc s \<and> hash_links (g s) = hash_links s \<and>
     last_pid (g s) = last_pid s \<and> next_safe (g s) = next_safe s"

lemma table_frameD:
  assumes "table_frame g s"
  shows "links_only (procs s q) (procs (g s) q)" "same_queue UNIV s (g s)" "same_memory s (g s)"
    "current (g s) = current s" "idleproc (g s) = idleproc s" "initproc (g s) = initproc s" "hash_links (g s) = hash_links s"
    "last_pid (g s) = last_pid s" "next_safe (g s) = next_safe s"
  using assms unfolding table_frame_def by blast+

lemma upd_proc_kernel [simp]:
  "current (upd_proc p f s) = current s" "idleproc (upd_proc p f s) = idleproc s" "initproc (upd_proc p f s) = initproc s"
  "hash_links (upd_proc p f s) = hash_links s" "last_pid (upd_proc p f s) = last_pid s" "next_safe (upd_proc p f s) = next_safe s"
  "proc_links (upd_proc p f s) = proc_links s" "nr_process (upd_proc p f s) = nr_process s" "same_memory (upd_proc p f s) t = same_memory s t"
  "same_memory t (upd_proc p f s) = same_memory t s"
  by (simp_all add: upd_proc_def same_memory_def)

lemma same_memory_fields [simp]:
  "same_memory t (s\<lparr>proc_links := l\<rparr>) = same_memory t s" "same_memory t (s\<lparr>hash_links := h\<rparr>) = same_memory t s"
  "same_memory t (s\<lparr>nr_process := n\<rparr>) = same_memory t s" "same_memory t (s\<lparr>last_pid := m, next_safe := k\<rparr>) = same_memory t s"
  by (simp_all add: same_memory_def)

lemma same_queue_links:
  assumes "\<And>q. links_only (procs s q) (procs s' q)" "run_links s' = run_links s" "run_pool s' = run_pool s" "runq s' = runq s"
  shows "same_queue UNIV s s'"
  using assms(2-4) links_only_fields(2,8-10) [OF assms(1)] by (simp add: same_queue_def)

lemma set_links_frame: "table_frame (set_links proc) s" "proc_links (set_links proc s) = list_add Proc_list (List_link proc) (proc_links s)"
  "nr_process (set_links proc s) = nr_process s + 1"
proof -
  have l: "links_only (procs s q) (procs (set_links proc s) q)" for q
  proof -
    define s1 where "s1 = s\<lparr>proc_links := list_add Proc_list (List_link proc) (proc_links s)\<rparr>"
    have e: "links_only (procs s q) (procs s1 q)" by (simp add: s1_def)
    have m: "procs (s\<lparr>nr_process := n\<rparr>) = procs s" for s :: "'a kernel_scheme" and n by simp
    show ?thesis unfolding set_links_def Let_def s1_def [symmetric] m
      by (rule links_only_trans [OF _ upd_links_only(1)], rule links_only_if;
          (rule links_only_trans [OF _ upd_links_only(2)])?; rule links_only_trans [OF _ upd_links_only(3)],
          rule links_only_trans [OF e upd_links_only(2)])
  qed
  have "same_queue UNIV s (set_links proc s)" by (rule same_queue_links [OF l]) (simp_all add: set_links_def Let_def)
  then show "table_frame (set_links proc) s"
    unfolding table_frame_def using l by (simp add: set_links_def Let_def)
qed (simp_all add: set_links_def Let_def)

lemma remove_links_frame: "table_frame (remove_links proc) s" "proc_links (remove_links proc s) = list_del (List_link proc) (proc_links s)"
  "nr_process (remove_links proc s) = nr_process s - 1"
proof -
  have l: "links_only (procs s q) (procs (remove_links proc s) q)" for q
  proof -
    define s1 where "s1 = s\<lparr>proc_links := list_del (List_link proc) (proc_links s)\<rparr>"
    have e: "links_only (procs s q) (procs s1 q)" by (simp add: s1_def)
    have m: "procs (s\<lparr>nr_process := n\<rparr>) = procs s" for s :: "'a kernel_scheme" and n by simp
    show ?thesis unfolding remove_links_def Let_def s1_def [symmetric] m
      by (rule links_only_if; (rule links_only_trans [OF _ upd_links_only(3)] links_only_trans [OF _ upd_links_only(1)]);
          rule links_only_if; (rule e links_only_trans [OF e upd_links_only(2)]))
  qed
  have "same_queue UNIV s (remove_links proc s)" by (rule same_queue_links [OF l]) (simp_all add: remove_links_def Let_def)
  then show "table_frame (remove_links proc) s"
    unfolding table_frame_def using l by (simp add: remove_links_def Let_def)
qed (simp_all add: remove_links_def Let_def)

lemma hash_ok_same:
  assumes "hash_links s' = hash_links s" "\<forall>p \<in> P. pid (procs s' p) = pid (procs s p)" "hash_ok s P"
  shows "hash_ok s' P"
proof -
  have "{p \<in> P. pid_hashfn (pid (procs s' p)) = b} = {p \<in> P. pid_hashfn (pid (procs s p)) = b}" for b using assms(2) by auto
  then show ?thesis using assms unfolding hash_ok_def by (auto cong: inj_on_cong)
qed

section \<open>Entering the tables\<close>

text \<open>The number of the first process.\<close>

lemma get_pid_first:
  assumes "proc_list s []" "MAX_PID \<le> last_pid s + 1"
  shows "get_pid s = Inr (1, s\<lparr>last_pid := 1, next_safe := MAX_PID\<rparr>)"
proof -
  have "list_next (proc_links s) Proc_list = Proc_list" using assms(1) by (auto simp: list_next_def)
  then have "pid_scan s Proc_list 1 MAX_PID = Some (1, MAX_PID)" by (subst pid_scan.simps) simp
  then show ?thesis using assms(2) by (simp add: get_pid_def Let_def)
qed

context kernel_procs begin

lemma publish_ok:
  assumes inv: "proc_inv_at I rep ready s0 ps kids" and fr: "fresh_process p s0 s" and tab: "same_table s0 s" "current s = current s0"
    and p: "p \<notin> set ps" "p \<noteq> NULL" "p \<noteq> idleproc s0" "state (procs s p) = PROC_UNINIT" "wait_state (procs s p) = 0"
      "cptr (procs s p) = NULL" "parent (procs s p) = c" "c \<in> set ps \<or> c = idleproc s0 \<and> \<not> I"
    and room: "nr_process s0 < MAX_PROCESS"
  shows "\<exists>n s'. publish cls p s = Inr (n, s') \<and> proc_inv_at I rep ready s' (p # ps) (kids(c := p # kids c, p := [])) \<and>
    0 < n \<and> n < MAX_PID \<and> (\<forall>q \<in> set ps. pid (procs s q) \<noteq> n) \<and> pid (procs s' p) = n \<and> state (procs s' p) = PROC_RUNNABLE \<and>
    parent (procs s' p) = c \<and> kstack (procs s' p) = kstack (procs s p) \<and> mm (procs s' p) = mm (procs s p) \<and> tf (procs s' p) = tf (procs s p) \<and>
    ctx (procs s' p) = ctx (procs s p) \<and> (\<forall>q. q \<noteq> p \<longrightarrow> links_only (procs s q) (procs s' q)) \<and> same_memory s s' \<and> current s' = current s0 \<and> idleproc s' = idleproc s0 \<and>
    (ps = [] \<and> MAX_PID \<le> last_pid s0 + 1 \<longrightarrow> n = 1)"
proof -
  note D = proc_inv_atD [OF inv]
  have t: "proc_links s = proc_links s0" "hash_links s = hash_links s0" "nr_process s = nr_process s0" "initproc s = initproc s0"
    "idleproc s = idleproc s0" "last_pid s = last_pid s0" "next_safe s = next_safe s0" using tab(1) by (simp_all add: same_table_def)
  have old: "procs s q = procs s0 q" if "q \<noteq> p" for q using that fr by (simp add: fresh_process_def)
  have oldps: "procs s q = procs s0 q" if "q \<in> set ps" for q using old that p(1) by metis
  define i where "i = initproc s0"
  have cp: "c \<noteq> p" "I \<Longrightarrow> c \<noteq> idleproc s0" using p(1,3,8) D(14) by blast+
  define s1 where "s1 = snd (intr_save s)"
  define f where "f = fst (intr_save s)"
  have c1: "cpu.more s1 = cpu.more s" "procs s1 = procs s" "current s1 = current s" "idleproc s1 = idleproc s" by (simp_all add: s1_def)
  have tab1: "same_table s s1" by (rule same_table_cpu) (simp_all add: c1)
  have t1: "proc_links s1 = proc_links s0" "hash_links s1 = hash_links s0" "nr_process s1 = nr_process s0" "initproc s1 = initproc s0"
    "idleproc s1 = idleproc s0" "last_pid s1 = last_pid s0" "next_safe s1 = next_safe s0"
    using tab1 t by (simp_all add: same_table_def)
  have "pid_ok s1 ps" using D(2) oldps by (simp add: pid_ok_def clear_between_def t1 c1(2))
  moreover have len: "int (length ps) < MAX_PID - 1" using D(5) room by (simp add: MAX_PID_def MAX_PROCESS_def)
  ultimately obtain n ns where g: "get_pid s1 = Inr (n, s1\<lparr>last_pid := n, next_safe := ns\<rparr>)" "1 \<le> n" "n < MAX_PID"
      "\<forall>q \<in> set ps. pid (procs s1 q) \<noteq> n" "ns \<le> MAX_PID" "clear_between s1 ps (n + 1) ns"
    by (rule get_pid_ok)
  have first: "n = 1" if "ps = []" "MAX_PID \<le> last_pid s0 + 1"
  proof -
    have "proc_list s0 []" using D(2) that(1) by (simp add: pid_ok_def)
    then have "proc_list s1 []" by (simp only: t1)
    moreover have "MAX_PID \<le> last_pid s1 + 1" using that(2) by (simp only: t1)
    ultimately have "get_pid s1 = Inr (1, s1\<lparr>last_pid := 1, next_safe := MAX_PID\<rparr>)" by (rule get_pid_first)
    with g(1) have "Inr (n, s1\<lparr>last_pid := n, next_safe := ns\<rparr>) = (Inr (1, s1\<lparr>last_pid := 1, next_safe := MAX_PID\<rparr>) :: (int \<times> _) outcome)"
      by (rule trans [OF sym])
    then show ?thesis by (simp only: sum.inject prod.inject)
  qed
  define s2 where "s2 = s1\<lparr>last_pid := n, next_safe := ns\<rparr>"
  define s3 where "s3 = upd_proc p (\<lambda>x. x\<lparr>pid := n\<rparr>) s2"
  have e3: "current s3 = current s0" "idleproc s3 = idleproc s0" "initproc s3 = i" "proc_links s3 = proc_links s0" "hash_links s3 = hash_links s0"
    "nr_process s3 = nr_process s0" "last_pid s3 = n" "next_safe s3 = ns" "run_links s3 = run_links s" "run_pool s3 = run_pool s" "runq s3 = runq s"
    by (simp_all add: s3_def s2_def t1 c1 tab(2) t(5) i_def) (simp_all add: s1_def)
  have p3: "procs s3 q = (if q = p then (procs s p)\<lparr>pid := n\<rparr> else procs s0 q)" for q using old by (simp add: s3_def s2_def c1)
  have m3: "same_memory s s3" using same_memory_cpu [OF c1(1)] by (simp add: s3_def s2_def)
  have fr3: "fresh_process p s0 s3" using fr by (simp add: fresh_process_def p3 e3)
  have card: "card (set ps) + 1 < rq_limit"
  proof -
    have "length ps + 1 < rq_limit" using D(5) room by (simp add: MAX_PROCESS_def rq_limit_def)
    then show ?thesis using card_length [of ps] by linarith
  qed
  have ok3: "sched_ok rep ready (insert p (set ps)) s3"
    by (rule sched_ok_fresh [OF D(1) fr3 p(1-3) _ e3(1,2) card]) (simp add: p3 p(4))
  define s4 where "s4 = hash_proc p s3"
  define s5 where "s5 = set_links p s4"
  have p4: "procs s4 = procs s3" "current s4 = current s3" "idleproc s4 = idleproc s3" "initproc s4 = initproc s3" "proc_links s4 = proc_links s3"
    "nr_process s4 = nr_process s3" "last_pid s4 = last_pid s3" "next_safe s4 = next_safe s3" "same_memory s3 s4" "same_queue UNIV s3 s4"
    by (simp_all add: s4_def hash_proc_def same_queue_def)
  note L = table_frameD [OF set_links_frame(1) [of p s4], folded s5_def]
  note lf = links_only_fields [OF L(1)]
  have par4: "parent (procs s4 p) = c" by (simp add: p4 p3 p(7))
  have st: "state (procs s5 q) = state (procs s3 q)" "pid (procs s5 q) = pid (procs s3 q)" "wait_state (procs s5 q) = wait_state (procs s3 q)" for q
    using lf(1,2,7) by (simp_all add: p4)
  have sq: "same_queue UNIV s3 s5" using p4(1,10) L(2) by (simp add: same_queue_def)
  have ok5: "sched_ok rep ready (insert p (set ps)) s5"
    by (rule sched_ok_stable [OF ok3 same_queue_mono [OF sq subset_UNIV]]) (simp_all add: st L p4)
  have hash: "hash_ok s5 (insert p (set ps))"
  proof (rule hash_ok_same)
    have "hash_ok s3 (set ps)" by (rule hash_ok_same [OF _ _ D(3)]) (use p(1) in \<open>auto simp: e3 p3\<close>)
    then show "hash_ok s4 (insert p (set ps))" unfolding s4_def
      by (rule hash_proc_ok [OF _ p(1,2)]) (use g(4) p(1) oldps in \<open>auto simp: p3 c1\<close>)
  qed (simp_all add: L st p4)
  have pids: "pid_ok s5 (p # ps)"
  proof -
    have "proc_list s0 ps" using D(2) by (simp add: pid_ok_def)
    then have "proc_list s5 (p # ps)"
      using clist_add_head [of "proc_links s0" Proc_list "map List_link ps" "List_link p"] p(1)
      by (auto simp: s5_def set_links_frame(2) p4 e3)
    moreover have "clear_between s5 (p # ps) (n + 1) ns" using g(6) oldps p(1) by (auto simp: clear_between_def st p3 c1)
    ultimately show ?thesis using g(2,5) by (simp add: pid_ok_def L p4 e3)
  qed
  have fam: "family (procs s5) (insert p (set ps)) (insert (idleproc s0) (insert p (set ps))) (kids(c := p # kids c, p := []))"
  proof -
    have "family (procs s4) (set ps) (insert (idleproc s0) (set ps)) kids"
    proof (rule family_cong [OF _ D(4)])
      fix q assume "q \<in> insert (idleproc s0) (set ps)"
      then have "q \<noteq> p" using p(1,3) by auto
      then show "same_family (procs s0 q) (procs s4 q)" by (simp add: same_family_def p4 p3)
    qed
    from set_links_ok [OF this, of p] have "c = idleproc s0 \<or> c \<in> set ps \<Longrightarrow> ?thesis"
      using p(1-3,6) unfolding par4 s5_def [symmetric] by (simp add: p4 p3 insert_commute)
    then show ?thesis using p(8) by blast
  qed
  have par5: "parent (procs s5 q) = (if q = p then c else parent (procs s0 q))" for q
  proof -
    have "parent (procs s5 q) = parent (procs s4 q)" unfolding s5_def by (simp add: set_links_def Let_def upd_proc_def)
    then show ?thesis by (simp add: p4 p3 p(7))
  qed
  have inv5: "proc_inv_at I rep ready s5 (p # ps) (kids(c := p # kids c, p := []))"
    unfolding proc_inv_at_def list.set L(5,6) p4(3,4) e3(2,3) par5 st
  proof (intro conjI ballI impI)
    show "nr_process s5 = int (length (p # ps)) + 1" using D(5) by (simp add: s5_def set_links_frame(3) p4 e3)
    show "(if i = p then c else parent (procs s0 i)) = idleproc s0" "i \<in> insert p (set ps)" if I using D(6,7) [OF that] p(1) by (auto simp: i_def)
    fix q assume q: "q \<in> insert p (set ps)"
    show "waits_ok (procs s5 q)" using D(8) [of q] q p(5) by (auto simp: waits_ok_def st p3)
    show "(if q = p then c else parent (procs s0 q)) \<noteq> q" using D(9) [of q] q cp(1) by auto
    show "0 < pid (procs s3 q)" "pid (procs s3 q) < MAX_PID" using D(11,12) [of q] q g(2,3) by (auto simp: p3)
    show "q = i" if I "(if q = p then c else parent (procs s0 q)) = idleproc s0"
      using D(10) [OF that(1), of q] q cp(2) [OF that(1)] that(2) by (auto simp: i_def split: if_splits)
  qed (use ok5 pids hash fam in auto)
  define s6 where "s6 = intr_restore f s5"
  have inv6: "proc_inv_at I rep ready s6 (p # ps) (kids(c := p # kids c, p := []))" unfolding s6_def by (rule proc_inv_intr(2) [OF inv5])
  have p6: "procs s6 = procs s5" "current s6 = current s5" "idleproc s6 = idleproc s5" "same_memory s5 s6"
    by (simp_all add: s6_def) (rule same_memory_cpu, simp)
  have un: "state (procs s6 p) = PROC_UNINIT" by (simp add: p6 st p3 p(4))
  obtain s7 where s7: "wakeup_proc cls p s6 = Inr s7" "proc_inv_at I rep ready s7 (p # ps) (kids(c := p # kids c, p := []))" "state (procs s7 p) = PROC_RUNNABLE"
      "\<forall>q. q \<noteq> p \<longrightarrow> procs s7 q = procs s6 q" "sched.more s7 = sched.more s6"
      "state (procs s6 p) \<noteq> PROC_RUNNABLE \<longrightarrow> same_core ((procs s6 p)\<lparr>state := PROC_RUNNABLE, wait_state := 0\<rparr>) (procs s7 p)"
    by (rule proc_inv_wakeup [OF inv6, of p]) (simp_all add: un)
  have core: "same_core ((procs s6 p)\<lparr>state := PROC_RUNNABLE, wait_state := 0\<rparr>) (procs s7 p)" using s7(6) un by simp
  have ctx7: "ctx (procs s7 p) = ctx (procs s6 p)" using core by (auto simp: same_core_def)
  note cf = same_core_fields [OF core]
  have run: "publish cls p s = Inr (pid (procs s7 p), s7)"
  proof -
    have "intr_save s = (f, s1)" by (simp add: f_def s1_def)
    then show ?thesis using g(1) s7(1) unfolding publish_def
      by (simp add: s2_def [symmetric] s3_def [symmetric] s4_def [symmetric] s5_def [symmetric] s6_def [symmetric] Let_def)
  qed
  have pid7: "pid (procs s7 p) = n" using cf(2) by (simp add: p6 st p3)
  have others: "links_only (procs s q) (procs s7 q)" if "q \<noteq> p" for q
    using L(1) [of q] s7(4) that by (simp add: p6 p4 p3 old)
  have "same_memory s s7"
    using same_memory_trans [OF m3 same_memory_trans [OF p4(9) same_memory_trans [OF L(3) same_memory_trans [OF p6(4) same_memory_more [OF s7(5)]]]]] .
  moreover have "current s7 = current s0" "idleproc s7 = idleproc s0" using cpu_of_more(1,2) [OF s7(5)] by (simp_all add: p6 L p4 e3)
  moreover have "parent (procs s7 p) = c" "kstack (procs s7 p) = kstack (procs s p)" "mm (procs s7 p) = mm (procs s p)"
    "tf (procs s7 p) = tf (procs s p)" "ctx (procs s7 p) = ctx (procs s p)"
    using cf(4,6,7,17) ctx7 lf(3,4,11,12) par5 by (simp_all add: p6 p4 p3)
  ultimately show ?thesis
    using run [unfolded pid7] s7(2,3) g(2-4) others pid7 first unfolding c1(2) by (intro exI [of _ n] exI [of _ s7]) simp
qed

end

end
