(* ===== verification/Proc_Heap.thy ===== *)
theory Proc_Heap
  imports Proc_Start
begin

text \<open>
  The memory of a process: its record from the kernel heap and the two pages of its kernel stack. \<open>procs_heap\<close>
  says that records, stacks, free blocks and free pages share no memory; \<open>alloc_proc\<close>, \<open>setup_kstack\<close>,
  \<open>put_kstack\<close> and \<open>kfree\<close> keep it.
\<close>

section \<open>Two pages\<close>

lemma alloc_two_ok:
  assumes "mem_ok s F"
  shows "\<exists>r s'. alloc_pages KSTACKPAGE s = Inr (r, s') \<and> pmm_frame s s' \<and> (\<forall>q. unreserved s' q = unreserved s q) \<and>
    (case r of None \<Rightarrow> mem_ok s' F | Some k \<Rightarrow> {k..<k + 2} \<subseteq> F \<and> mem_ok s' (F - {k..<k + 2}))"
proof -
  have F: "free_set s F" using assms by (simp add: mem_ok_def)
  obtain r s' where s': "alloc_pages 2 s = Inr (r, s')" "pmm_frame s s'"
      "\<forall>p. unreserved s' p = unreserved s p \<and> page_ref s' p = page_ref s p"
      "case r of None \<Rightarrow> free_set s' F | Some p \<Rightarrow> {p..<p + 2} \<subseteq> F \<and> free_set s' (F - {p..<p + 2})"
    using pa.alloc_ok [OF F, of 2] by auto
  then show ?thesis
    using pmm_frame_phys [OF s'(2)] assms unfolding KSTACKPAGE_def
    by (intro exI [of _ r] exI [of _ s']) (auto simp: mem_ok_def split: option.splits)
qed

lemma free_two_ok:
  assumes "mem_ok s F" "{k..<k + 2} \<inter> F = {}" "k + 1 < npage s" "\<forall>j \<in> {k..<k + 2}. unreserved s j" "room_above F k"
  shows "\<exists>s'. free_pages k KSTACKPAGE s = Inr s' \<and> pmm_frame s s' \<and> mem_ok s' (F \<union> {k..<k + 2}) \<and> (\<forall>q. unreserved s' q = unreserved s q)"
proof -
  have F: "free_set s F" "npage s < 2 ^ 32" "\<forall>p \<in> F. p < npage s \<and> unreserved s p" using assms(1) by (auto simp: mem_ok_def)
  have "F \<subseteq> {..<npage s} - {k..<k + 2}" using F(3) assms(2) by auto
  then have "card F \<le> card ({..<npage s} - {k..<k + 2})" by (intro card_mono) auto
  also have "\<dots> = npage s - 2" using assms(3) by (subst card_Diff_subset) auto
  finally have "card F + 2 < 2 ^ 32" using F(2) assms(3) by simp
  then obtain s' where s': "free_pages k 2 s = Inr s'" "pmm_frame s s'" "free_set s' ({k..<k + 2} \<union> F)"
    "\<forall>q. unreserved s' q = unreserved s q \<and> page_ref s' q = (if q \<in> {k..<k + 2} then 0 else page_ref s q)"
    using pa.free_ok [OF F(1), of 2 k] assms(2,4,5) by (auto simp: room_above_def)
  then show ?thesis
    using pmm_frame_phys [OF s'(2)] F assms(3,4) unfolding KSTACKPAGE_def
    by (intro exI [of _ s']) (auto simp: mem_ok_def Un_commute)
qed

section \<open>Kernel stacks\<close>

text \<open>The pages \<open>k\<close> and \<open>k + 1\<close> belong to a stack: neither the page allocator nor the heap has them.\<close>

definition stack_at :: "'a kheap_scheme \<Rightarrow> ptr \<Rightarrow> blocks \<Rightarrow> nat set \<Rightarrow> ptr list \<Rightarrow> ptr set \<Rightarrow> nat \<Rightarrow> bool" where
  "stack_at s A bs F xs L k \<longleftrightarrow> k + 1 < npage s \<and> (\<forall>j \<in> {k..<k + 2}. unreserved s j \<and> j \<notin> F \<and> A + 1 < j * units_per_page) \<and>
     page_units {k..<k + 2} \<inter> (block_pages bs \<union> (\<Union>q \<in> L. extent s q)) = {} \<and> (\<forall>b \<in> set xs. bb_pages (bbs s b) \<notin> page_units {k..<k + 2})"

definition stacks_ok :: "'a kheap_scheme \<Rightarrow> ptr \<Rightarrow> blocks \<Rightarrow> nat set \<Rightarrow> ptr list \<Rightarrow> ptr set \<Rightarrow> (ptr \<Rightarrow> nat) \<Rightarrow> ptr set \<Rightarrow> bool" where
  "stacks_ok s A bs F xs L K P \<longleftrightarrow> (\<forall>p \<in> P. kstack (procs s p) = kva (K p) \<and> stack_at s A bs F xs L (K p)) \<and>
     (\<forall>p \<in> P. \<forall>q \<in> P. p \<noteq> q \<longrightarrow> {K p..<K p + 2} \<inter> {K q..<K q + 2} = {})"

text \<open>The records of the processes \<open>P\<close> and of the idle process are live objects, and every process of \<open>P\<close> has its own stack.\<close>

definition procs_heap :: "'a kheap_scheme \<Rightarrow> ptr \<Rightarrow> blocks \<Rightarrow> nat set \<Rightarrow> ptr list \<Rightarrow> ptr set \<Rightarrow> (ptr \<Rightarrow> nat) \<Rightarrow> ptr set \<Rightarrow> bool" where
  "procs_heap s A bs F xs L K P \<longleftrightarrow> live_objects s A bs F xs L \<and> insert (idleproc s) P \<subseteq> L \<and> stacks_ok s A bs F xs L K P"

lemma stacks_okD:
  assumes "stacks_ok s A bs F xs L K P" "p \<in> P"
  shows "kstack (procs s p) = kva (K p)" "stack_at s A bs F xs L (K p)" "q \<in> P \<Longrightarrow> p \<noteq> q \<Longrightarrow> {K p..<K p + 2} \<inter> {K q..<K q + 2} = {}"
  using assms unfolding stacks_ok_def by blast+

text \<open>The footprint \<open>F\<close>, \<open>bs\<close>, \<open>L\<close> of the allocators may change as long as it stays off the stack.\<close>

lemma stack_at_mono:
  assumes st: "stack_at s A bs F xs L k" and n: "npage s' = npage s" "\<forall>q. unreserved s' q = unreserved s q" "bbs s' = bbs s"
    and F: "F' \<inter> {k..<k + 2} = {}"
    and bs: "block_pages bs' \<union> (\<Union>q \<in> L'. extent s' q) \<subseteq> block_pages bs \<union> (\<Union>q \<in> L. extent s q) \<union> page_units G" "G \<inter> {k..<k + 2} = {}"
  shows "stack_at s' A bs' F' xs L' k"
proof -
  have off: "X' \<subseteq> X \<union> U \<Longrightarrow> S \<inter> X = {} \<Longrightarrow> U \<inter> S = {} \<Longrightarrow> S \<inter> X' = {}" for X X' U S :: "nat set" by blast
  have "page_units {k..<k + 2} \<inter> (block_pages bs' \<union> (\<Union>q \<in> L'. extent s' q)) = {}"
  proof (rule off [OF bs(1)])
    show "page_units {k..<k + 2} \<inter> (block_pages bs \<union> (\<Union>q \<in> L. extent s q)) = {}" using st by (simp only: stack_at_def)
    show "page_units G \<inter> page_units {k..<k + 2} = {}" using bs(2) unfolding disjoint_iff page_units_iff by blast
  qed
  moreover have "unreserved s' j \<and> j \<notin> F' \<and> A + 1 < j * units_per_page" if j: "j \<in> {k..<k + 2}" for j
  proof -
    have "unreserved s j" "A + 1 < j * units_per_page" using st j unfolding stack_at_def by blast+
    moreover have "j \<notin> F'" using F j by blast
    ultimately show ?thesis using n(2) by simp
  qed
  moreover have "k + 1 < npage s'" "\<forall>b \<in> set xs. bb_pages (bbs s' b) \<notin> page_units {k..<k + 2}"
    using st unfolding stack_at_def n(1,3) by blast+
  ultimately show ?thesis unfolding stack_at_def by blast
qed

text \<open>Pages may move between the allocator and the stacks.\<close>

lemma live_objects_pages:
  assumes lv: "live_objects s A bs F xs L" and fr: "pmm_frame s s'" and m: "mem_ok s' F'"
    and F: "\<forall>p \<in> F'. A + 1 < p * units_per_page" "page_units F' \<inter> (block_pages bs \<union> (\<Union>q \<in> L. extent s q)) = {}"
      "\<forall>b \<in> set xs. bb_pages (bbs s b) \<notin> page_units F'"
  shows "live_objects s' A bs F' xs L" "extent s' q = extent s q" "bbs s' = bbs s"
proof -
  note D = live_objectsD [OF lv]
  note f = pmm_frame_heap [OF fr]
  have e: "extent s' q = extent s q" for q by (simp add: extent_def f)
  have "slob_rep s' A bs" using D(1) by (simp add: heap_ok_def slob_rep_def f)
  then have "heap_ok s' A bs F'" using m F(1,2) by (auto simp: heap_ok_def)
  moreover have "big_list s' (bigblocks s') xs" using D(2) big_list_cong [of s' s] f by simp
  ultimately show "live_objects s' A bs F' xs L"
    unfolding live_objects_def e f
  proof (intro conjI ballI impI)
    fix p assume p: "p \<in> L"
    show "A + 1 < p - 1" "2 \<le> sl_units (slobs s (p - 1))" by (rule D(3) [OF p], rule D(4) [OF p])
    show "extent s p \<inter> (block_pages bs \<union> page_units F') = {}" using D(5) [OF p] F(2) p by blast
    show "extent s p \<inter> extent s q = {}" if "q \<in> L" "p \<noteq> q" for q by (rule D(6) [OF p that])
  next
    fix b assume b: "b \<in> set xs"
    show "bb_pages (bbs s b) \<notin> block_pages bs \<union> page_units F' \<union> (\<Union>p \<in> L. extent s p)"
      using D(7) [OF b] F(3) b by blast
  qed (use f in simp_all)
  show "extent s' q = extent s q" "bbs s' = bbs s" by (rule e, rule f)
qed

lemma procs_heapD:
  assumes "procs_heap s A bs F xs L K P"
  shows "live_objects s A bs F xs L" "idleproc s \<in> L" "P \<subseteq> L" "stacks_ok s A bs F xs L K P"
  using assms unfolding procs_heap_def by blast+

text \<open>Only the state of the allocators and the stack pointers matter.\<close>

lemma procs_heap_cong:
  assumes ok: "procs_heap s A bs F xs L K P"
    and eq: "slobs s' = slobs s" "slobfree s' = slobfree s" "bbs s' = bbs s" "bigblocks s' = bigblocks s"
      "pages s' = pages s" "page_links s' = page_links s" "nr_free s' = nr_free s" "npage s' = npage s" "idleproc s' = idleproc s"
    and k: "\<And>p. p \<in> P \<Longrightarrow> kstack (procs s' p) = kstack (procs s p)"
  shows "procs_heap s' A bs F xs L K P"
proof -
  have e: "extent s' q = extent s q" for q by (simp add: extent_def eq(1))
  have "stack_at s' A bs F xs L j = stack_at s A bs F xs L j" for j
    by (simp add: stack_at_def e eq unreserved_def PageReserved_def)
  then have "stacks_ok s' A bs F xs L K P" using procs_heapD(4) [OF ok] k unfolding stacks_ok_def by simp
  then show ?thesis using procs_heapD(1-3) [OF ok] unfolding procs_heap_def live_objects_cong(1) [OF eq(1-8)] eq(9) by simp
qed

lemma kmalloc_procs:
  assumes ok: "procs_heap s A bs F xs L K P" and n: "small_object n"
  shows "\<exists>p s' bs' F'. kmalloc n s = Inr (p, s') \<and> F' \<subseteq> F \<and> heap_frame s s' \<and>
    (if p = NULL then procs_heap s' A bs' F' xs L K P else p \<notin> L \<and> procs_heap s' A bs' F' xs (insert p L) K P)"
proof -
  note H = procs_heapD [OF ok]
  obtain p s' bs' G where k: "kmalloc n s = Inr (p, s')" "G \<subseteq> F" "heap_frame s s'"
      "\<forall>q \<in> L. extent s' q = extent s q" "\<forall>q. unreserved s' q = unreserved s q" "bbs s' = bbs s"
      "if p = NULL then live_objects s' A bs' (F - G) xs L \<and> F = {} \<and> block_pages bs' = block_pages bs
       else p \<notin> L \<and> live_objects s' A bs' (F - G) xs (insert p L) \<and> extent s' p \<subseteq> block_pages bs \<union> page_units G \<and>
         SLOB_UNITS (n + SLOB_UNIT) = sl_units (slobs s' (p - 1)) \<and> block_pages bs' \<union> extent s' p = block_pages bs \<union> page_units G"
    using kmalloc_keeps [OF H(1) n] by blast
  note fr = heap_frame_fields [OF k(3)]
  define L' where "L' = (if p = NULL then L else insert p L)"
  have lv: "live_objects s' A bs' (F - G) xs L'" using k(7) unfolding L'_def by (metis (full_types))
  have foot: "block_pages bs' \<union> (\<Union>q \<in> L'. extent s' q) \<subseteq> block_pages bs \<union> (\<Union>q \<in> L. extent s q) \<union> page_units G"
    using k(4,7) unfolding L'_def by (cases "p = NULL") auto
  have "stack_at s' A bs' (F - G) xs L' (K q)" if "q \<in> P" for q
  proof (rule stack_at_mono [OF stacks_okD(2) [OF H(4) that] fr(10) k(5,6) _ foot])
    have "F \<inter> {K q..<K q + 2} = {}" using stacks_okD(2) [OF H(4) that] by (auto simp: stack_at_def)
    then show "(F - G) \<inter> {K q..<K q + 2} = {}" "G \<inter> {K q..<K q + 2} = {}" using k(2) by blast+
  qed
  then have "stacks_ok s' A bs' (F - G) xs L' K P" using H(4) unfolding stacks_ok_def fr(1) by blast
  then have "procs_heap s' A bs' (F - G) xs L' K P" using lv H(2,3) unfolding procs_heap_def fr(6) L'_def by auto
  then show ?thesis using k(1,3,7) unfolding L'_def
    by (intro exI [of _ p] exI [of _ s'] exI [of _ bs'] exI [of _ "F - G"]) (cases "p = NULL"; simp)
qed

lemma kfree_procs:
  assumes ok: "procs_heap s A bs F xs L K P" and p: "p \<in> L" "p \<noteq> idleproc s" "p \<notin> P"
  shows "\<exists>s' bs'. kfree p s = Inr s' \<and> heap_frame s s' \<and> procs_heap s' A bs' F xs (L - {p}) K P"
proof -
  note H = procs_heapD [OF ok]
  obtain s' bs' where k: "kfree p s = Inr s'" "live_objects s' A bs' F xs (L - {p})" "block_pages bs' = block_pages bs \<union> extent s p"
      "heap_frame s s'" "\<forall>q \<in> L - {p}. extent s' q = extent s q" "\<forall>q. unreserved s' q = unreserved s q" "bbs s' = bbs s"
    using kfree_live [OF H(1) p(1)] by blast
  note fr = heap_frame_fields [OF k(4)]
  have foot: "block_pages bs' \<union> (\<Union>q \<in> L - {p}. extent s' q) \<subseteq> block_pages bs \<union> (\<Union>q \<in> L. extent s q) \<union> page_units {}"
    using k(3,5) p(1) by auto
  have "stack_at s' A bs' F xs (L - {p}) (K q)" if "q \<in> P" for q
    by (rule stack_at_mono [OF stacks_okD(2) [OF H(4) that] fr(10) k(6,7) _ foot])
      (use stacks_okD(2) [OF H(4) that] in \<open>auto simp: stack_at_def\<close>)
  then have "stacks_ok s' A bs' F xs (L - {p}) K P" using H(4) unfolding stacks_ok_def fr(1) by blast
  then have "procs_heap s' A bs' F xs (L - {p}) K P" using k(2) H(2,3) p(2,3) unfolding procs_heap_def fr(6) by blast
  then show ?thesis using k(1,4) by blast
qed

section \<open>Process records and stacks\<close>

lemma alloc_proc_ok:
  assumes ok: "procs_heap s A bs F xs L K P"
  shows "\<exists>p s' bs' F'. alloc_proc s = Inr (p, s') \<and> F' \<subseteq> F \<and>
    (if p = NULL then heap_frame s s' \<and> procs_heap s' A bs' F' xs L K P
     else p \<notin> L \<and> procs_heap s' A bs' F' xs (insert p L) K P \<and> fresh_process p s s' \<and> current s' = current s \<and> idleproc s' = idleproc s \<and>
       kheap.more s' = kheap.more s \<and> npage s' = npage s \<and> state (procs s' p) = PROC_UNINIT \<and> wait_state (procs s' p) = 0 \<and>
       cptr (procs s' p) = NULL \<and> mm (procs s' p) = NULL \<and> flags (procs s' p) = 0 \<and> runs (procs s' p) = 0)"
proof -
  have "small_object sizeof_proc" by (simp add: small_object_def sizeof_proc_def SLOB_UNIT_def PAGE_SIZE_def)
  then obtain p s1 bs' F' where k: "kmalloc sizeof_proc s = Inr (p, s1)" "F' \<subseteq> F" "heap_frame s s1"
      "if p = NULL then procs_heap s1 A bs' F' xs L K P else p \<notin> L \<and> procs_heap s1 A bs' F' xs (insert p L) K P"
    using kmalloc_procs [OF ok] by blast
  note fr = heap_frame_fields [OF k(3)]
  show ?thesis
  proof (cases "p = NULL")
    case True
    then have "alloc_proc s = Inr (NULL, s1)" using k(1) by (simp add: alloc_proc_def)
    then show ?thesis using k(2-4) True by (intro exI [of _ NULL] exI [of _ s1] exI [of _ bs'] exI [of _ F']) simp
  next
    case False
    obtain s' where s': "alloc_proc s = Inr (p, s')" "fresh_process p s1 s'" "state (procs s' p) = PROC_UNINIT" "wait_state (procs s' p) = 0"
        "cptr (procs s' p) = NULL" "mm (procs s' p) = NULL" "flags (procs s' p) = 0" "runs (procs s' p) = 0" "cpu.more s' = cpu.more s1"
        "current s' = current s1" "idleproc s' = idleproc s1"
      using k(1) False by (auto simp: alloc_proc_def Let_def fresh_process_def upd_proc_def)
    have m: "slobs s' = slobs s1" "slobfree s' = slobfree s1" "bbs s' = bbs s1" "bigblocks s' = bigblocks s1"
      "pages s' = pages s1" "page_links s' = page_links s1" "nr_free s' = nr_free s1" "npage s' = npage s1" "kheap.more s' = kheap.more s1"
      using s'(9) by (cases s'; cases s1; simp)+
    have pP: "p \<notin> P" using k(4) False procs_heapD(3) [OF ok] by auto
    have "procs_heap s1 A bs' F' xs (insert p L) K P" using k(4) False by simp
    then have "procs_heap s' A bs' F' xs (insert p L) K P"
    proof (rule procs_heap_cong [OF _ m(1-8) s'(11)])
      fix q assume "q \<in> P"
      then have "q \<noteq> p" using pP by metis
      then show "kstack (procs s' q) = kstack (procs s1 q)" using s'(2) by (simp add: fresh_process_def)
    qed
    moreover have "fresh_process p s s'" using s'(2) by (simp add: fresh_process_def fr)
    ultimately show ?thesis
      using s' k(2,4) False m(8,9) fr(5,6,10,12) by (intro exI [of _ p] exI [of _ s'] exI [of _ bs'] exI [of _ F']) simp
  qed
qed

lemma setup_kstack_ok:
  assumes ok: "procs_heap s A bs F xs L K P" and p: "p \<in> L" "p \<notin> P"
  shows "(\<exists>s'. setup_kstack p s = Inr (- E_NO_MEM, s') \<and> heap_frame s s' \<and> procs_heap s' A bs F xs L K P) \<or>
    (\<exists>k s1. setup_kstack p s = Inr (0, upd_proc p (\<lambda>x. x\<lparr>kstack := kva k\<rparr>) s1) \<and> heap_frame s s1 \<and> {k..<k + 2} \<subseteq> F \<and>
       procs_heap (upd_proc p (\<lambda>x. x\<lparr>kstack := kva k\<rparr>) s1) A bs (F - {k..<k + 2}) xs L (K(p := k)) (insert p P))"
proof -
  note H = procs_heapD [OF ok]
  note D = live_objectsD [OF H(1)]
  have m: "mem_ok s F" using D(1) by (simp add: heap_ok_def)
  obtain r s1 where r: "alloc_pages KSTACKPAGE s = Inr (r, s1)" "pmm_frame s s1" "\<forall>q. unreserved s1 q = unreserved s q"
      "case r of None \<Rightarrow> mem_ok s1 F | Some k \<Rightarrow> {k..<k + 2} \<subseteq> F \<and> mem_ok s1 (F - {k..<k + 2})"
    using alloc_two_ok [OF m] by blast
  have hf: "heap_frame s s1" by (rule heap_frame_pmm [OF r(2)])
  note fr = heap_frame_fields [OF hf]
  have off: "\<forall>q \<in> F. A + 1 < q * units_per_page" "page_units F \<inter> (block_pages bs \<union> (\<Union>q \<in> L. extent s q)) = {}"
      "\<forall>b \<in> set xs. bb_pages (bbs s b) \<notin> page_units F"
    using D(1,5,7) unfolding heap_ok_def by blast+
  have part: "live_objects s1 A bs F' xs L" "extent s1 q = extent s q" "bbs s1 = bbs s" if "mem_ok s1 F'" "F' \<subseteq> F" for F' q
  proof -
    have "page_units F' \<subseteq> page_units F" by (rule page_units_mono [OF that(2)])
    then have "\<forall>q \<in> F'. A + 1 < q * units_per_page" "page_units F' \<inter> (block_pages bs \<union> (\<Union>q \<in> L. extent s q)) = {}"
      "\<forall>b \<in> set xs. bb_pages (bbs s b) \<notin> page_units F'" using off that(2) by blast+
    from live_objects_pages [OF H(1) r(2) that(1) this]
    show "live_objects s1 A bs F' xs L" "extent s1 q = extent s q" "bbs s1 = bbs s" by blast+
  qed
  have st: "stack_at s1 A bs F' xs L (K q)" if "mem_ok s1 F'" "F' \<subseteq> F" "q \<in> P" for F' q
  proof (rule stack_at_mono [OF stacks_okD(2) [OF H(4) that(3)] fr(10) r(3) part(3) [OF that(1,2)]])
    show "F' \<inter> {K q..<K q + 2} = {}" using stacks_okD(2) [OF H(4) that(3)] that(2) by (auto simp: stack_at_def)
    show "block_pages bs \<union> (\<Union>q \<in> L. extent s1 q) \<subseteq> block_pages bs \<union> (\<Union>q \<in> L. extent s q) \<union> page_units {}"
      using part(2) [OF that(1,2)] by auto
  qed simp
  show ?thesis
  proof (cases r)
    case None
    then have mm1: "mem_ok s1 F" using r(4) by simp
    have "stacks_ok s1 A bs F xs L K P" using st [OF mm1 subset_refl] H(4) unfolding stacks_ok_def fr(1) by blast
    then have "procs_heap s1 A bs F xs L K P" using part(1) [OF mm1 subset_refl] H(2,3) unfolding procs_heap_def fr(6) by blast
    then show ?thesis using None r(1) hf by (simp add: setup_kstack_def)
  next
    case (Some k)
    define F' where "F' = F - {k..<k + 2}"
    define s2 where "s2 = upd_proc p (\<lambda>x. x\<lparr>kstack := kva k\<rparr>) s1"
    have k: "{k..<k + 2} \<subseteq> F" "mem_ok s1 F'" "F' \<subseteq> F" using r(4) Some by (auto simp: F'_def)
    then have kF: "k \<in> F" "k + 1 \<in> F" by auto
    have np: "k + 1 < npage s" "npage s < 2 ^ 32" "\<forall>j \<in> {k..<k + 2}. unreserved s j" using m kF k(1) unfolding mem_ok_def by blast+
    have "page2kva s1 k = Inr k" unfolding page2kva_def by (rule KADDR_page2pa) (use np fr(10) in simp_all)
    then have run: "setup_kstack p s = Inr (0, s2)" using r(1) Some by (simp add: setup_kstack_def s2_def)
    have new: "stack_at s1 A bs F' xs L k"
    proof -
      have "page_units {k..<k + 2} \<subseteq> page_units F" by (rule page_units_mono [OF k(1)])
      then have "page_units {k..<k + 2} \<inter> (block_pages bs \<union> (\<Union>q \<in> L. extent s1 q)) = {}"
          "\<forall>b \<in> set xs. bb_pages (bbs s1 b) \<notin> page_units {k..<k + 2}"
        using off(2,3) unfolding part(2,3) [OF k(2,3)] by blast+
      moreover have "\<forall>j \<in> {k..<k + 2}. unreserved s1 j \<and> j \<notin> F' \<and> A + 1 < j * units_per_page"
        using np(3) r(3) off(1) k(1) by (auto simp: F'_def)
      ultimately show ?thesis using np(1) fr(10) unfolding stack_at_def by simp
    qed
    have apart: "{k..<k + 2} \<inter> {K q..<K q + 2} = {}" if "q \<in> P" for q
    proof -
      have "{K q..<K q + 2} \<inter> F = {}" using stacks_okD(2) [OF H(4) that] by (auto simp: stack_at_def)
      then show ?thesis using k(1) by blast
    qed
    have s2: "stack_at s2 A bs F' xs L j = stack_at s1 A bs F' xs L j" for j
      by (simp add: s2_def upd_proc_def stack_at_def extent_def unreserved_def PageReserved_def)
    have ne: "q \<noteq> p" if "q \<in> P" for q using that p(2) by metis
    have "stacks_ok s2 A bs F' xs L (K(p := k)) (insert p P)"
      unfolding stacks_ok_def s2
    proof (intro conjI ballI impI)
      fix q assume q: "q \<in> insert p P"
      show "kstack (procs s2 q) = kva ((K(p := k)) q)"
        using q stacks_okD(1) [OF H(4), of q] by (auto simp: s2_def fr(1))
      show "stack_at s1 A bs F' xs L ((K(p := k)) q)" using q new st [OF k(2,3), of q] by (cases "q = p") simp_all
      fix q' assume q': "q' \<in> insert p P" "q \<noteq> q'"
      then consider "q = p" "q' \<in> P" | "q' = p" "q \<in> P" | "q \<in> P" "q' \<in> P" using q by blast
      then show "{(K(p := k)) q..<(K(p := k)) q + 2} \<inter> {(K(p := k)) q'..<(K(p := k)) q' + 2} = {}"
      proof cases
        case 1
        then show ?thesis using apart ne by simp
      next
        case 2
        then show ?thesis using apart [of q] ne by (simp add: Int_commute)
      next
        case 3
        then show ?thesis using stacks_okD(3) [OF H(4) 3(1) 3(2) q'(2)] ne by simp
      qed
    qed
    moreover have "live_objects s2 A bs F' xs L"
      using part(1) [OF k(2,3)] live_objects_cong(1) [of s2 s1] by (simp add: s2_def upd_proc_def)
    ultimately have "procs_heap s2 A bs F' xs L (K(p := k)) (insert p P)"
      using H(2,3) p(1) fr(6) by (simp add: procs_heap_def s2_def upd_proc_def)
    then show ?thesis using run hf k(1) unfolding s2_def F'_def by blast
  qed
qed

text \<open>Physical memory that the linear map covers without wrap-around; the map starts at the kernel.\<close>

definition ram_page :: "nat \<Rightarrow> bool" where
  "ram_page k \<longleftrightarrow> 0x80200 \<le> k \<and> k < 0xC0000"

lemma unat_page2pa: "k < 2 ^ 52 \<Longrightarrow> unat (page2pa k) = k * 4096"
  unfolding page2pa_def push_bit_eq_mult by (simp add: unat_word_ariths unat_of_nat take_bit_eq_mod)

lemma kva_above: "ram_page k \<Longrightarrow> KERNBASE \<le> kva k"
proof -
  assume r: "ram_page k"
  have u: "unat (page2pa k) = k * 4096" by (rule unat_page2pa) (use r in \<open>simp add: ram_page_def\<close>)
  have "unat (kva k) = k * 4096 + 0xFFFFFFFF40000000"
    unfolding kva_def PHYSICAL_MEMORY_OFFSET_def unat_word_ariths u using r by (simp add: ram_page_def)
  then show ?thesis using r by (simp add: word_le_nat_alt KERNBASE_def ram_page_def)
qed

lemma kva2page_kva:
  assumes "ram_page k" "k < npage s" "npage s < 2 ^ 32"
  shows "kva2page (kva k) s = Inr k"
proof -
  have "KADDR s (page2pa k) = Inr k" by (rule KADDR_page2pa) (use assms in simp_all)
  then have "pa2page s (page2pa k) = Inr k" by (auto simp: KADDR_def pa2page_def split: if_splits)
  moreover have "PADDR (kva k) = Inr (page2pa k)" using kva_above [OF assms(1)] unfolding PADDR_def by (simp add: kva_def)
  ultimately show ?thesis by (simp add: kva2page_def)
qed

lemma put_kstack_ok:
  assumes ok: "procs_heap s A bs F xs L K P" and p: "p \<in> P" "ram_page (K p)" "room_above F (K p)"
  shows "\<exists>s'. put_kstack p s = Inr s' \<and> heap_frame s s' \<and> procs_heap s' A bs (F \<union> {K p..<K p + 2}) xs L K (P - {p})"
proof -
  note H = procs_heapD [OF ok]
  note D = live_objectsD [OF H(1)]
  define k where "k = K p"
  define F' where "F' = F \<union> {k..<k + 2}"
  have m: "mem_ok s F" using D(1) by (simp add: heap_ok_def)
  have st: "stack_at s A bs F xs L k" unfolding k_def by (rule stacks_okD(2) [OF H(4) p(1)])
  have np: "k + 1 < npage s" "\<forall>j \<in> {k..<k + 2}. unreserved s j" "{k..<k + 2} \<inter> F = {}" "npage s < 2 ^ 32"
    using st unfolding stack_at_def by (simp, blast, blast, use m in \<open>simp add: mem_ok_def\<close>)
  obtain s1 where s1: "free_pages k KSTACKPAGE s = Inr s1" "pmm_frame s s1" "mem_ok s1 F'" "\<forall>q. unreserved s1 q = unreserved s q"
    using free_two_ok [OF m np(3,1,2)] p(3) unfolding k_def F'_def by blast
  have hf: "heap_frame s s1" by (rule heap_frame_pmm [OF s1(2)])
  note fr = heap_frame_fields [OF hf]
  have kp: "kva2page (kva k) s = Inr k" by (rule kva2page_kva) (use p(2) np in \<open>simp_all add: k_def\<close>)
  have run: "put_kstack p s = Inr s1" using stacks_okD(1) [OF H(4) p(1)] kp s1(1) by (simp add: put_kstack_def k_def)
  have pu: "page_units F' = page_units F \<union> page_units {k..<k + 2}" by (auto simp: F'_def page_units_iff)
  have off: "\<forall>q \<in> F'. A + 1 < q * units_per_page" "page_units F' \<inter> (block_pages bs \<union> (\<Union>q \<in> L. extent s q)) = {}"
      "\<forall>b \<in> set xs. bb_pages (bbs s b) \<notin> page_units F'"
  proof -
    have st': "\<forall>j \<in> {k..<k + 2}. A + 1 < j * units_per_page"
        "page_units {k..<k + 2} \<inter> (block_pages bs \<union> (\<Union>q \<in> L. extent s q)) = {}"
        "\<forall>b \<in> set xs. bb_pages (bbs s b) \<notin> page_units {k..<k + 2}"
      using st unfolding stack_at_def by blast+
    have hp: "\<forall>q \<in> F. A + 1 < q * units_per_page" "block_pages bs \<inter> page_units F = {}" using D(1) by (simp_all add: heap_ok_def)
    show "\<forall>q \<in> F'. A + 1 < q * units_per_page" using hp(1) st'(1) unfolding F'_def by blast
    show "page_units F' \<inter> (block_pages bs \<union> (\<Union>q \<in> L. extent s q)) = {}" unfolding pu using hp(2) st'(2) D(5) by blast
    show "\<forall>b \<in> set xs. bb_pages (bbs s b) \<notin> page_units F'" unfolding pu using st'(3) D(7) by blast
  qed
  note lv = live_objects_pages [OF H(1) s1(2,3) off]
  have "stack_at s1 A bs F' xs L (K q)" if q: "q \<in> P - {p}" for q
  proof (rule stack_at_mono [OF stacks_okD(2) [OF H(4)] fr(10) s1(4) lv(3)])
    show "q \<in> P" using q by simp
    have "{K q..<K q + 2} \<inter> {K p..<K p + 2} = {}" using stacks_okD(3) [OF H(4)] q p(1) by blast
    moreover have "F \<inter> {K q..<K q + 2} = {}" using stacks_okD(2) [OF H(4)] q by (fastforce simp: stack_at_def)
    ultimately show "F' \<inter> {K q..<K q + 2} = {}" unfolding F'_def k_def by blast
    show "block_pages bs \<union> (\<Union>q \<in> L. extent s1 q) \<subseteq> block_pages bs \<union> (\<Union>q \<in> L. extent s q) \<union> page_units {}"
      using lv(2) by auto
  qed simp
  then have "stacks_ok s1 A bs F' xs L K (P - {p})" using H(4) unfolding stacks_ok_def fr(1) by blast
  then have "procs_heap s1 A bs F' xs L K (P - {p})" using lv(1) H(2,3) unfolding procs_heap_def fr(6) by blast
  then show ?thesis using run hf unfolding F'_def k_def by blast
qed

end
