(* ===== verification/Proc_Create.thy ===== *)
theory Proc_Create
  imports Proc_Heap
begin

text \<open>
  \<open>do_fork\<close> as a whole, for a kernel thread or a thread that shares the address space: either it reports that
  memory has run out and gives everything back, or the new process has its own record and stack, a
  new number and a place in the tables.
\<close>

section \<open>A child in preparation\<close>

text \<open>\<open>t\<close> is \<open>s\<close> after the record \<open>p\<close> has been filled in for a child of \<open>c\<close>; no table knows it yet.\<close>

definition prepared :: "'a kernel_scheme \<Rightarrow> ptr \<Rightarrow> ptr \<Rightarrow> 'a kernel_scheme \<Rightarrow> bool" where
  "prepared s p c t \<longleftrightarrow> fresh_process p s t \<and> same_table s t \<and> current t = current s \<and> forkret t = forkret s \<and>
     state (procs t p) = PROC_UNINIT \<and> wait_state (procs t p) = 0 \<and> cptr (procs t p) = NULL \<and> parent (procs t p) = c"

lemma preparedD:
  assumes "prepared s p c t"
  shows "fresh_process p s t" "same_table s t" "current t = current s" "forkret t = forkret s" "state (procs t p) = PROC_UNINIT"
    "wait_state (procs t p) = 0" "cptr (procs t p) = NULL" "parent (procs t p) = c" "q \<noteq> p \<Longrightarrow> procs t q = procs s q"
  using assms unfolding prepared_def fresh_process_def by blast+

lemma prepared_step:
  assumes pr: "prepared s p c t" and o: "\<And>q. q \<noteq> p \<Longrightarrow> procs t' q = procs t q"
    and l: "run_links t' = run_links t" "run_pool t' = run_pool t" "runq t' = runq t" "current t' = current t" "forkret t' = forkret t" "same_table t t'"
    and f: "state (procs t' p) = state (procs t p)" "wait_state (procs t' p) = wait_state (procs t p)" "cptr (procs t' p) = cptr (procs t p)"
      "parent (procs t' p) = parent (procs t p)" "lab6_priority (procs t' p) = lab6_priority (procs t p)"
  shows "prepared s p c t'"
  using pr o l f unfolding prepared_def fresh_process_def same_table_def by simp

lemma same_table_heap: "kheap.more s' = kheap.more s \<Longrightarrow> idleproc s' = idleproc s \<Longrightarrow> same_table s s'"
  by (cases s; cases s'; simp add: same_table_def)

lemma forkret_heap: "kheap.more s' = kheap.more s \<Longrightarrow> forkret s' = forkret s \<and> mms s' = mms s \<and> tframes s' = tframes s"
  for s s' :: "'a kernel_scheme" by (cases s; cases s'; simp)

lemma prepared_heap:
  assumes pr: "prepared s p c t" and fr: "heap_frame t t'"
  shows "prepared s p c t'"
proof -
  note h = heap_frame_fields [OF fr]
  show ?thesis
    by (rule prepared_step [OF pr _ h(2-5) _ same_table_heap [OF h(12,6)]]) (use forkret_heap [OF h(12)] in \<open>simp_all add: h(1)\<close>)
qed

section \<open>The address space and the first context\<close>

text \<open>What \<open>copy_mm\<close> does when the child has no address space, or shares its parent's.\<close>

lemma copy_mm_ok:
  assumes pr: "prepared s p c t" and cur: "current s = c" "c \<noteq> p" and new: "mm (procs t p) = NULL"
    and m: "mm (procs t c) = NULL \<or> fl AND CLONE_VM \<noteq> 0 \<and> KERNBASE \<le> kva (mm_pgdir (mms t (mm (procs t c))))"
  shows "\<exists>t'. copy_mm resched fl p t = Inr (0, t') \<and> prepared s p c t' \<and> kstack (procs t' p) = kstack (procs t p) \<and> mm (procs t' p) = mm (procs t c) \<and>
    (mm (procs t c) \<noteq> NULL \<longrightarrow> mm_count (mms t' (mm (procs t c))) = mm_count (mms t (mm (procs t c))) + 1) \<and>
    (\<forall>A bs F xs L K P. procs_heap t A bs F xs L K P \<longrightarrow> procs_heap t' A bs F xs L K P)"
proof (cases "mm (procs t c) = NULL")
  case True
  then have "copy_mm resched fl p t = Inr (0, t)" using preparedD(3) [OF pr] cur(1) by (simp add: copy_mm_def)
  then show ?thesis using pr new True by (intro exI [of _ t]) simp
next
  case False
  define m where "m = mm (procs t c)"
  define pa where "pa = kva (mm_pgdir (mms t m)) - PHYSICAL_MEMORY_OFFSET"
  define t' where "t' = upd_proc p (\<lambda>x. x\<lparr>pgdir := pa\<rparr>) (upd_proc p (\<lambda>x. x\<lparr>mm := m\<rparr>) (snd (mm_count_inc m t)))"
  have c: "fl AND CLONE_VM \<noteq> 0" "\<not> kva (mm_pgdir (mms t m)) < KERNBASE" "m \<noteq> NULL" using m False by (auto simp: m_def)
  have "share_mm m p t = Inr (0, t')"
    using c(2) by (simp add: share_mm_def Let_def mm_count_inc_def upd_mm_def PADDR_def t'_def pa_def upd_proc_def)
  then have run: "copy_mm resched fl p t = Inr (0, t')" using preparedD(3) [OF pr] cur(1) c(1,3) by (simp add: copy_mm_def m_def [symmetric])
  have fields: "run_links t' = run_links t" "run_pool t' = run_pool t" "runq t' = runq t" "current t' = current t" "forkret t' = forkret t"
      "slobs t' = slobs t" "slobfree t' = slobfree t" "bbs t' = bbs t" "bigblocks t' = bigblocks t" "pages t' = pages t"
      "page_links t' = page_links t" "nr_free t' = nr_free t" "npage t' = npage t" "idleproc t' = idleproc t"
    by (simp_all add: t'_def mm_count_inc_def upd_mm_def upd_proc_def)
  have pt: "procs t' q = (if q = p then (procs t p)\<lparr>mm := m, pgdir := pa\<rparr> else procs t q)" for q
    by (simp add: t'_def mm_count_inc_def upd_mm_def)
  have "same_table t t'" by (simp add: same_table_def t'_def mm_count_inc_def upd_mm_def upd_proc_def)
  then have "prepared s p c t'" by (intro prepared_step [OF pr]) (simp_all add: fields pt)
  moreover have "procs_heap t' A bs F xs L K P" if "procs_heap t A bs F xs L K P" for A bs F xs L K P
    by (rule procs_heap_cong [OF that]) (simp_all add: fields pt)
  moreover have "mm_count (mms t' m) = mm_count (mms t m) + 1" by (simp add: t'_def mm_count_inc_def upd_mm_def upd_proc_def)
  ultimately show ?thesis using run c(3) by (intro exI [of _ t']) (simp add: pt m_def [symmetric])
qed

lemma copy_thread_ok:
  fixes t :: "'a kernel_scheme" and st :: "64 word" and f :: trapframe
  assumes pr: "prepared s p c t"
  defines "t' \<equiv> copy_thread p st f t" and "a \<equiv> kstack (procs t p) + KSTACKSIZE - sizeof_trapframe"
  shows "prepared s p c t'" "kstack (procs t' p) = kstack (procs t p)" "mm (procs t' p) = mm (procs t p)" "mms t' = mms t"
    "tf (procs t' p) = a" "tframes t' a = f\<lparr>gpr_a0 := 0, gpr_sp := (if st = 0 then a else st)\<rparr>"
    "ctx_ra (ctx (procs t' p)) = forkret s" "ctx_sp (ctx (procs t' p)) = a" "procs_heap t A bs F xs L K P \<Longrightarrow> procs_heap t' A bs F xs L K P"
proof -
  have pt: "procs t' q = (if q = p then (procs t p)\<lparr>tf := a, ctx := (ctx (procs t p))\<lparr>ctx_ra := forkret t, ctx_sp := a\<rparr>\<rparr> else procs t q)" for q
    by (simp add: t'_def a_def copy_thread_def Let_def upd_frame_def upd_proc_def)
  have fields: "run_links t' = run_links t" "run_pool t' = run_pool t" "runq t' = runq t" "current t' = current t" "forkret t' = forkret t"
      "slobs t' = slobs t" "slobfree t' = slobfree t" "bbs t' = bbs t" "bigblocks t' = bigblocks t" "pages t' = pages t"
      "page_links t' = page_links t" "nr_free t' = nr_free t" "npage t' = npage t" "idleproc t' = idleproc t" "mms t' = mms t"
    by (simp_all add: t'_def copy_thread_def Let_def upd_frame_def upd_proc_def)
  have "same_table t t'" by (simp add: same_table_def t'_def copy_thread_def Let_def upd_frame_def upd_proc_def)
  then show "prepared s p c t'" by (intro prepared_step [OF pr]) (simp_all add: fields pt)
  show "kstack (procs t' p) = kstack (procs t p)" "mm (procs t' p) = mm (procs t p)" "mms t' = mms t" "tf (procs t' p) = a"
    "ctx_ra (ctx (procs t' p)) = forkret s" "ctx_sp (ctx (procs t' p)) = a" using preparedD(4) [OF pr] by (simp_all add: pt fields)
  show "tframes t' a = f\<lparr>gpr_a0 := 0, gpr_sp := (if st = 0 then a else st)\<rparr>"
    by (simp add: t'_def a_def copy_thread_def Let_def upd_frame_def upd_proc_def)
  show "procs_heap t' A bs F xs L K P" if "procs_heap t A bs F xs L K P"
    by (rule procs_heap_cong [OF that]) (simp_all add: fields pt)
qed

section \<open>Fork\<close>

context kernel_procs begin

lemma proc_inv_unused:
  assumes inv: "proc_inv_at I rep ready s ps kids" and pr: "prepared s p c t" and p: "p \<notin> set ps" "p \<noteq> idleproc s"
  shows "proc_inv_at I rep ready t ps kids"
proof -
  note D = proc_inv_atD [OF inv]
  note T = preparedD [OF pr]
  have tab: "idleproc t = idleproc s" "initproc t = initproc s" "nr_process t = nr_process s" "proc_links t = proc_links s"
    "hash_links t = hash_links s" "last_pid t = last_pid s" "next_safe t = next_safe s" using T(2) by (simp_all add: same_table_def)
  have old: "procs t q = procs s q" if "q \<in> set ps" for q using T(9) that p(1) by metis
  have "pid_ok t ps" using D(2) old by (simp add: pid_ok_def clear_between_def tab)
  moreover have "hash_ok t (set ps)" by (rule hash_ok_same [OF tab(5) _ D(3)]) (simp add: old)
  moreover have "sched_ok rep ready (set ps) t" by (rule sched_ok_unused [OF D(1) T(1) p(1) T(3) tab(1)])
  moreover have "family (procs t) (set ps) (insert (idleproc s) (set ps)) kids"
  proof (rule family_cong [OF _ D(4)])
    fix q assume "q \<in> insert (idleproc s) (set ps)"
    then have "q \<noteq> p" using p by auto
    then show "same_family (procs s q) (procs t q)" using T(9) by (simp add: same_family_def)
  qed
  moreover have "parent (procs t (initproc s)) = idleproc s" if I using old [OF D(6)] D(7) that by simp
  ultimately show ?thesis
    unfolding proc_inv_at_def tab
  proof (intro conjI ballI impI)
    fix q assume q: "q \<in> set ps"
    show "waits_ok (procs t q)" "parent (procs t q) \<noteq> q" "0 < pid (procs t q)" "pid (procs t q) < MAX_PID"
      unfolding old [OF q] by (rule D(8) [OF q], rule D(9) [OF q], rule D(11) [OF q], rule D(12) [OF q])
    show "q = initproc s" if I "parent (procs t q) = idleproc s" using D(10) [OF that(1) q] that(2) unfolding old [OF q] .
  qed (use D(5,6) in simp_all)
qed

lemma proc_inv_heap:
  assumes inv: "proc_inv_at I rep ready s ps kids" and fr: "heap_frame s s'"
  shows "proc_inv_at I rep ready s' ps kids"
proof -
  note h = heap_frame_fields [OF fr]
  show ?thesis
    by (rule proc_inv_fields [OF inv _ same_table_heap [OF h(12,6)] h(5)]) (simp_all add: same_queue_def same_family_def h)
qed

text \<open>The memory the new process owns comes from the free memory; everything else keeps its place.\<close>

lemma do_fork_ok:
  assumes inv: "proc_inv_at I rep ready s ps kids" and hp: "procs_heap s A bs F xs L K (set ps)"
    and c: "current s = c" "c \<in> set ps \<or> c = idleproc s \<and> \<not> I" "wait_state (procs s c) = 0" and room: "nr_process s < MAX_PROCESS"
    and m: "mm (procs s c) = NULL \<or> fl AND CLONE_VM \<noteq> 0 \<and> KERNBASE \<le> kva (mm_pgdir (mms s (mm (procs s c))))"
  shows "(\<exists>s' bs' F'. do_fork cls resched fl st f s = Inr (- E_NO_MEM, s') \<and> F' \<subseteq> F \<and>
       proc_inv_at I rep ready s' ps kids \<and> procs_heap s' A bs' F' xs L K (set ps)) \<or>
    (\<exists>n p k s' bs' F'. do_fork cls resched fl st f s = Inr (n, s') \<and> F' \<subseteq> F \<and> p \<notin> L \<and> {k..<k + 2} \<subseteq> F \<and>
       proc_inv_at I rep ready s' (p # ps) (kids(c := p # kids c, p := [])) \<and>
       procs_heap s' A bs' F' xs (insert p L) (K(p := k)) (set (p # ps)) \<and>
       0 < n \<and> n < MAX_PID \<and> (\<forall>q \<in> set ps. pid (procs s q) \<noteq> n) \<and> pid (procs s' p) = n \<and> state (procs s' p) = PROC_RUNNABLE \<and>
       parent (procs s' p) = c \<and> mm (procs s' p) = mm (procs s c) \<and> current s' = c \<and>
       tf (procs s' p) = kva k + KSTACKSIZE - sizeof_trapframe \<and>
       tframes s' (tf (procs s' p)) = f\<lparr>gpr_a0 := 0, gpr_sp := (if st = 0 then tf (procs s' p) else st)\<rparr> \<and>
       ctx_ra (ctx (procs s' p)) = forkret s \<and> ctx_sp (ctx (procs s' p)) = tf (procs s' p) \<and>
       (\<forall>q. q \<noteq> p \<longrightarrow> links_only (procs s q) (procs s' q)) \<and> idleproc s' = idleproc s \<and> (ps = [] \<and> MAX_PID \<le> last_pid s + 1 \<longrightarrow> n = 1))" (is "?none \<or> ?some")
proof -
  note D = proc_inv_atD [OF inv]
  note H = procs_heapD [OF hp]
  obtain p s1 bs1 F1 where a: "alloc_proc s = Inr (p, s1)" "F1 \<subseteq> F"
      "if p = NULL then heap_frame s s1 \<and> procs_heap s1 A bs1 F1 xs L K (set ps)
       else p \<notin> L \<and> procs_heap s1 A bs1 F1 xs (insert p L) K (set ps) \<and> fresh_process p s s1 \<and> current s1 = current s \<and> idleproc s1 = idleproc s \<and>
         kheap.more s1 = kheap.more s \<and> npage s1 = npage s \<and> state (procs s1 p) = PROC_UNINIT \<and> wait_state (procs s1 p) = 0 \<and>
         cptr (procs s1 p) = NULL \<and> mm (procs s1 p) = NULL \<and> flags (procs s1 p) = 0 \<and> runs (procs s1 p) = 0"
    using alloc_proc_ok [OF hp] by blast
  show ?thesis
  proof (cases "p = NULL")
    case True
    then have "do_fork cls resched fl st f s = Inr (- E_NO_MEM, s1)" using room a(1) by (simp add: do_fork_def)
    moreover have "heap_frame s s1" "procs_heap s1 A bs1 F1 xs L K (set ps)" using a(3) True by simp_all
    ultimately have "do_fork cls resched fl st f s = Inr (- E_NO_MEM, s1) \<and> F1 \<subseteq> F \<and> proc_inv_at I rep ready s1 ps kids \<and>
        procs_heap s1 A bs1 F1 xs L K (set ps)" using proc_inv_heap [OF inv] a(2) by simp
    then show ?thesis by blast
  next
    case False
    then have b: "p \<notin> L" "procs_heap s1 A bs1 F1 xs (insert p L) K (set ps)" "fresh_process p s s1" "current s1 = current s" "idleproc s1 = idleproc s"
        "kheap.more s1 = kheap.more s" "state (procs s1 p) = PROC_UNINIT" "wait_state (procs s1 p) = 0" "cptr (procs s1 p) = NULL" "mm (procs s1 p) = NULL"
      using a(3) by simp_all
    have p: "p \<notin> set ps" "p \<noteq> idleproc s" "c \<noteq> p" using b(1) H(2,3) c(2) by auto
    define s2 where "s2 = upd_proc p (\<lambda>x. x\<lparr>parent := current s1\<rparr>) s1"
    have pr2: "prepared s p c s2"
      using b(3-9) c(1) same_table_heap [OF b(6,5)] forkret_heap [OF b(6)]
      unfolding prepared_def fresh_process_def s2_def by (simp add: same_table_def upd_proc_def)
    have hp2: "procs_heap s2 A bs1 F1 xs (insert p L) K (set ps)"
      by (rule procs_heap_cong [OF b(2)]) (simp_all add: s2_def upd_proc_def)
    have mms2: "mms s2 = mms s" "tframes s2 = tframes s" "mm (procs s2 p) = NULL" using forkret_heap [OF b(6)] b(10) by (simp_all add: s2_def upd_proc_def)
    have wc: "wait_state (procs s2 (current s2)) = 0" using preparedD(3,9) [OF pr2] p(3) c by metis
    have run: "do_fork cls resched fl st f s = obind (setup_kstack p s2) (\<lambda>(ret, s3).
            if ret \<noteq> 0 then obind (kfree p s3) (\<lambda>s4. Inr (ret, s4))
            else obind (copy_mm resched fl p s3) (\<lambda>(ret, s4).
              if ret \<noteq> 0 then obind (put_kstack p s4) (\<lambda>s5. obind (kfree p s5) (\<lambda>s6. Inr (ret, s6)))
              else publish cls p (copy_thread p st f s4)))"
      using room a(1) False wc unfolding do_fork_def by (simp only: Let_def s2_def [symmetric] obind_Inr case_prod_conv kassert_True if_False not_le not_less if_not_P)
    have pL: "p \<in> insert p L" by simp
    from setup_kstack_ok [OF hp2 pL p(1)] show ?thesis
    proof (elim disjE exE conjE)
      fix s3 assume k: "setup_kstack p s2 = Inr (- E_NO_MEM, s3)" "heap_frame s2 s3" "procs_heap s3 A bs1 F1 xs (insert p L) K (set ps)"
      have pr3: "prepared s p c s3" by (rule prepared_heap [OF pr2 k(2)])
      have "p \<noteq> idleproc s3" using p(2) preparedD(2) [OF pr3] by (simp add: same_table_def)
      then obtain s4 bs4 where s4: "kfree p s3 = Inr s4" "heap_frame s3 s4" "procs_heap s4 A bs4 F1 xs (insert p L - {p}) K (set ps)"
        using kfree_procs [OF k(3) pL _ p(1)] by blast
      have "insert p L - {p} = L" using b(1) by blast
      moreover have "proc_inv_at I rep ready s4 ps kids" by (rule proc_inv_unused [OF inv prepared_heap [OF pr3 s4(2)] p(1,2)])
      moreover have "do_fork cls resched fl st f s = Inr (- E_NO_MEM, s4)" using run k(1) s4(1) by (simp add: E_NO_MEM_def)
      ultimately have "do_fork cls resched fl st f s = Inr (- E_NO_MEM, s4) \<and> F1 \<subseteq> F \<and> proc_inv_at I rep ready s4 ps kids \<and>
          procs_heap s4 A bs4 F1 xs L K (set ps)" using s4(3) a(2) by simp
      then show ?thesis by blast
    next
      fix k t assume k: "setup_kstack p s2 = Inr (0, upd_proc p (\<lambda>x. x\<lparr>kstack := kva k\<rparr>) t)" "heap_frame s2 t" "{k..<k + 2} \<subseteq> F1"
        "procs_heap (upd_proc p (\<lambda>x. x\<lparr>kstack := kva k\<rparr>) t) A bs1 (F1 - {k..<k + 2}) xs (insert p L) (K(p := k)) (insert p (set ps))"
      define s3 where "s3 = upd_proc p (\<lambda>x. x\<lparr>kstack := kva k\<rparr>) t"
      define F3 where "F3 = F1 - {k..<k + 2}"
      note h = heap_frame_fields [OF k(2)]
      have pr3: "prepared s p c s3"
        by (rule prepared_step [OF prepared_heap [OF pr2 k(2)]]) (simp_all add: s3_def same_table_def upd_proc_def)
      have f3: "kstack (procs s3 p) = kva k" "mm (procs s3 p) = NULL" "mms s3 = mms s"
        using forkret_heap [OF h(12)] mms2 by (simp_all add: s3_def h(1)) (simp add: upd_proc_def)
      have mc: "mm (procs s3 c) = mm (procs s c)" using preparedD(9) [OF pr3 p(3)] by simp
      obtain s4 where s4: "copy_mm resched fl p s3 = Inr (0, s4)" "prepared s p c s4" "kstack (procs s4 p) = kva k" "mm (procs s4 p) = mm (procs s c)"
          "\<forall>A bs F xs L K P. procs_heap s3 A bs F xs L K P \<longrightarrow> procs_heap s4 A bs F xs L K P"
        using copy_mm_ok [OF pr3 c(1) p(3) f3(2), of fl resched] m unfolding mc f3 by blast
      have hp4: "procs_heap s4 A bs1 F3 xs (insert p L) (K(p := k)) (insert p (set ps))" using k(4) s4(5) unfolding s3_def F3_def by blast
      define s5 where "s5 = copy_thread p st f s4"
      note T = copy_thread_ok [OF s4(2), where st = st and f = f, folded s5_def, unfolded s4(3)]
      note P5 = preparedD [OF T(1)]
      have hp5: "procs_heap s5 A bs1 F3 xs (insert p L) (K(p := k)) (insert p (set ps))" by (rule T(9) [OF hp4])
      have pz: "p \<noteq> NULL" by (rule False)
      obtain n s' where s': "publish cls p s5 = Inr (n, s')" "proc_inv_at I rep ready s' (p # ps) (kids(c := p # kids c, p := []))"
          "0 < n" "n < MAX_PID" "\<forall>q \<in> set ps. pid (procs s5 q) \<noteq> n" "pid (procs s' p) = n" "state (procs s' p) = PROC_RUNNABLE"
          "parent (procs s' p) = c" "kstack (procs s' p) = kstack (procs s5 p)" "mm (procs s' p) = mm (procs s5 p)" "tf (procs s' p) = tf (procs s5 p)"
          "ctx (procs s' p) = ctx (procs s5 p)" "\<forall>q. q \<noteq> p \<longrightarrow> links_only (procs s5 q) (procs s' q)" "same_memory s5 s'" "current s' = current s" "idleproc s' = idleproc s"
          "ps = [] \<and> MAX_PID \<le> last_pid s + 1 \<longrightarrow> n = 1"
        using publish_ok [OF inv P5(1,2,3) p(1) pz p(2) P5(5,6,7,8) c(2) room] by blast
      have old: "pid (procs s5 q) = pid (procs s q)" if "q \<in> set ps" for q using P5(9) that p(1) by metis
      have hp': "procs_heap s' A bs1 F3 xs (insert p L) (K(p := k)) (insert p (set ps))"
      proof (rule procs_heap_cong [OF hp5])
        show "kstack (procs s' q) = kstack (procs s5 q)" if "q \<in> insert p (set ps)" for q
          using s'(9) s'(13) links_only_fields(3) by (cases "q = p") auto
        show "idleproc s' = idleproc s5" using s'(16) P5(2) by (simp add: same_table_def)
      qed (use s'(14) in \<open>simp_all add: same_memory_def\<close>)
      have "do_fork cls resched fl st f s = Inr (n, s')" using run k(1) s4(1) s'(1) by (simp add: s3_def [symmetric] s5_def)
      moreover have "F3 \<subseteq> F" "{k..<k + 2} \<subseteq> F" using a(2) k(3) by (auto simp: F3_def)
      ultimately have ?some
        using b(1) s'(2-8,10-12,15,16,17) hp' T(3,5-8) s4(4) old c(1) s'(13,14) P5(9)
        by (intro exI [of _ n] exI [of _ p] exI [of _ k] exI [of _ s'] exI [of _ bs1] exI [of _ F3]) (simp add: same_memory_def)
      then show ?thesis ..
    qed
  qed
qed

end

end
