(* ===== verification/Proc_Wait.thy ===== *)
theory Proc_Wait
  imports Proc_End Proc_Create
begin

text \<open>
  The end of \<open>do_wait\<close>: which child it finds, and that \<open>reap\<close> takes a dead child out of every table and
  gives its stack and record back.
\<close>

section \<open>The search\<close>

text \<open>The children \<open>do_wait\<close> looks at: all of them, or the one with the number it was given.\<close>

definition candidates :: "'a sched_scheme \<Rightarrow> int \<Rightarrow> ptr list \<Rightarrow> ptr list" where
  "candidates s n cs = filter (\<lambda>q. n = 0 \<or> pid (procs s q) = n) cs"

abbreviation is_zombie :: "'a sched_scheme \<Rightarrow> ptr \<Rightarrow> bool" where
  "is_zombie s q \<equiv> state (procs s q) = PROC_ZOMBIE"

lemma scan_children_ok:
  "siblings (procs s) y x cs NULL \<Longrightarrow> scan_children s x h = Some (h \<or> cs \<noteq> [], List.find (is_zombie s) cs)"
proof (induction cs arbitrary: x y h)
  case Nil
  then show ?case by (subst scan_children.simps) simp
next
  case (Cons c cs)
  then have c: "x = c" "c \<noteq> NULL" "siblings (procs s) c (optr (procs s c)) cs NULL" by simp_all
  show ?case by (subst scan_children.simps) (use c(1,2) Cons.IH [OF c(3), of True] in simp)
qed

lemma singleton_list: "distinct xs \<Longrightarrow> set xs = {r} \<Longrightarrow> xs = [r]"
  by (cases xs; cases "tl xs") auto

lemma look_for_zombie_ok:
  assumes inv: "proc_inv rep ready s ps kids" and c: "current s = c" "c \<in> set ps"
  shows "look_for_zombie n s = Inr (candidates s n (kids c) \<noteq> [], List.find (is_zombie s) (candidates s n (kids c)))"
proof (cases "n = 0")
  case True
  have "siblings (procs s) NULL (cptr (procs s c)) (kids c) NULL" using familyD(4) [OF proc_invD(4) [OF inv]] c(2) by simp
  from scan_children_ok [OF this, of False] show ?thesis using True c(1) by (simp add: look_for_zombie_def candidates_def)
next
  case False
  note D = proc_invD [OF inv]
  have kids: "set (kids c) = {q \<in> set ps. parent (procs s q) = c}" "distinct (kids c)"
    using familyD(5,6) [OF D(4), of c] c(2) by simp_all
  have uniq: "q = r" if "q \<in> set ps" "r \<in> set ps" "pid (procs s q) = pid (procs s r)" for q r
    using D(3) that unfolding hash_ok_def inj_on_def by blast
  obtain r where r: "find_proc n s = Inr r" "r = NULL \<longleftrightarrow> \<not> (0 < n \<and> n < MAX_PID) \<or> (\<forall>p \<in> set ps. pid (procs s p) \<noteq> n)"
      "r \<noteq> NULL \<longrightarrow> r \<in> set ps \<and> pid (procs s r) = n"
    using find_proc_ok [OF D(3)] by blast
  show ?thesis
  proof (cases "r \<noteq> NULL \<and> parent (procs s r) = c")
    case True
    then have "r \<in> set (kids c)" "pid (procs s r) = n" "r \<in> set ps" using r(3) kids(1) by blast+
    then have one: "set (candidates s n (kids c)) = {r}" using False kids(1) uniq by (auto simp: candidates_def)
    have "distinct (candidates s n (kids c))" using kids(2) by (simp add: candidates_def)
    then have "candidates s n (kids c) = [r]" using one by (rule singleton_list)
    then show ?thesis using True False r(1) c(1) by (simp add: look_for_zombie_def)
  next
    case no: False
    have "candidates s n (kids c) = []"
    proof (rule ccontr)
      assume "candidates s n (kids c) \<noteq> []"
      then obtain q where "q \<in> set (candidates s n (kids c))" by (cases "candidates s n (kids c)") auto
      then have q: "q \<in> set ps" "parent (procs s q) = c" "pid (procs s q) = n" using False kids(1) by (auto simp: candidates_def)
      then have "r \<noteq> NULL" using r(2) D(11,12) [OF q(1)] by auto
      then have "r = q" using r(3) uniq q by blast
      then show False using no q(2) \<open>r \<noteq> NULL\<close> by blast
    qed
    then show ?thesis using no False r(1) c(1) by (simp add: look_for_zombie_def)
  qed
qed

section \<open>Reaping\<close>

context kernel_procs begin

lemma unlink_ok:
  assumes inv: "proc_inv rep ready s ps kids" and z: "z \<in> set ps" "z \<noteq> initproc s" "z \<noteq> current s" "is_zombie s z" "kids z = []"
  defines "t \<equiv> remove_links z (unhash_proc z s)" and "par \<equiv> parent (procs s z)"
  shows "proc_inv rep ready t (remove1 z ps) (kids(par := remove1 z (kids par)))" "same_memory s t"
    "links_only (procs s q) (procs t q)" "current t = current s" "idleproc t = idleproc s" "initproc t = initproc s"
proof -
  note D = proc_invD [OF inv]
  define u where "u = unhash_proc z s"
  have u: "procs u = procs s" "current u = current s" "idleproc u = idleproc s" "initproc u = initproc s" "proc_links u = proc_links s"
    "nr_process u = nr_process s" "last_pid u = last_pid s" "next_safe u = next_safe s" "same_memory s u" "same_queue UNIV s u"
    by (simp_all add: u_def unhash_proc_def same_queue_def)
  have t: "t = remove_links z u" by (simp add: t_def u_def)
  note L = table_frameD [OF remove_links_frame(1) [of z u], folded t]
  note lf = links_only_fields [OF L(1), unfolded u(1)]
  have par: "parent (procs t q) = parent (procs s q)" for q
    by (simp add: t u(1) [symmetric] remove_links_def Let_def upd_proc_def)
  have dist: "distinct ps" using clistD(1) [of "proc_links s" Proc_list "map List_link ps"] D(2) by (simp add: pid_ok_def distinct_map)
  then have set: "set (remove1 z ps) = set ps - {z}" by simp
  have zi: "z \<noteq> idleproc s" using D(14) z(1) by blast
  have "sched_ok rep ready (set ps - {z}) t"
  proof (rule sched_ok_stable [OF sched_ok_remove [OF D(1) z(3)]])
    show "state (procs s z) \<noteq> PROC_RUNNABLE" using z(4) by simp
    show "same_queue (set ps - {z}) s t"
      by (rule same_queue_mono [OF _ subset_UNIV]) (use u(1,10) L(2) in \<open>simp add: same_queue_def\<close>)
  qed (simp_all add: lf L u)
  moreover have "pid_ok t (remove1 z ps)"
  proof -
    obtain us vs where uv: "ps = us @ z # vs" using split_list z(1) by fast
    then have "remove1 z ps = us @ vs" using dist by (auto simp: remove1_append)
    moreover have "proc_list s (us @ z # vs)" using D(2) uv by (simp add: pid_ok_def)
    ultimately have "proc_list t (remove1 z ps)"
      using clist_del [of "proc_links s" Proc_list "map List_link us" "List_link z" "map List_link vs"]
      by (simp add: t remove_links_frame(2) u(5))
    moreover have "clear_between t (remove1 z ps) (last_pid s + 1) (next_safe s)" using D(2) by (simp add: pid_ok_def clear_between_def set lf)
    ultimately show ?thesis using D(2) by (simp add: pid_ok_def L u)
  qed
  moreover have "hash_ok t (set ps - {z})"
  proof (rule hash_ok_same)
    show "hash_ok u (set ps - {z})" unfolding u_def by (rule unhash_proc_ok [OF D(3) z(1)])
  qed (simp_all add: L lf u)
  moreover have "family (procs t) (set ps - {z}) (insert (idleproc s) (set ps - {z})) (kids(par := remove1 z (kids par)))"
  proof -
    have "family (procs u) (set ps) (insert (idleproc s) (set ps)) kids" using D(4) by (simp add: u)
    from remove_links_ok [OF this z(1,5)] show ?thesis using zi unfolding t [symmetric] u(1) par_def by (simp add: insert_Diff_if)
  qed
  moreover have "nr_process t = int (length (remove1 z ps)) + 1"
  proof -
    have "length ps = Suc (length (remove1 z ps))" using z(1) length_pos_if_in_set [OF z(1)] by (simp only: length_remove1 if_True Suc_diff_1)
    then show ?thesis using D(5) by (simp add: t remove_links_frame(3) u(6))
  qed
  ultimately show "proc_inv rep ready t (remove1 z ps) (kids(par := remove1 z (kids par)))"
    unfolding proc_inv_def set L(5,6) u(3,4) par lf(2)
  proof (intro conjI ballI impI)
    fix q assume "q \<in> set ps - {z}"
    then have q: "q \<in> set ps" by simp
    show "waits_ok (procs t q)" using D(8) [OF q] by (simp add: waits_ok_def lf)
    show "parent (procs s q) \<noteq> q" "0 < pid (procs s q)" "pid (procs s q) < MAX_PID" by (rule D(9) [OF q], rule D(11) [OF q], rule D(12) [OF q])
    show "q = initproc s" if "parent (procs s q) = idleproc s" by (rule D(10) [OF q that])
  qed (use D(6,7) z(2) in simp_all)
  show "same_memory s t" by (rule same_memory_trans [OF u(9) L(3)])
  show "links_only (procs s q) (procs t q)" using L(1) [of q] by (simp add: u)
  show "current t = current s" "idleproc t = idleproc s" "initproc t = initproc s" by (simp_all add: L u)
qed

lemma store_bytes_phys: "store_bytes v bs s = Inr s' \<Longrightarrow> \<exists>m. s' = s\<lparr>phys := m\<rparr>"
proof (induction bs arbitrary: v s)
  case Nil
  then show ?case by (intro exI [of _ "phys s"]) simp
next
  case (Cons b bs)
  then obtain s1 where s1: "store8 v b s = Inr s1" "store_bytes (v + 1) bs s1 = Inr s'" by (auto simp: obind_eq_Inr)
  obtain m where "s1 = s\<lparr>phys := m\<rparr>"
    using s1(1) by (auto simp: store8_def obind_eq_Inr set_frame_byte_def set_pte_def Let_def)
  then show ?case using Cons.IH [OF s1(2)] by auto
qed

lemma reap_ok:
  assumes inv: "proc_inv rep ready s ps kids" and hp: "procs_heap s A bs F xs L K (set ps)"
    and z: "z \<in> set ps" "z \<noteq> initproc s" "z \<noteq> current s" "is_zombie s z" "kids z = []" "ram_page (K z)" "room_above F (K z)"
    and out: "out = 0 \<or> store_bytes out (int_bytes (exit_code (procs s z))) s = Inr s1"
  shows "\<exists>s' bs'. reap z out s = Inr s' \<and>
    proc_inv rep ready s' (remove1 z ps) (kids(parent (procs s z) := remove1 z (kids (parent (procs s z))))) \<and>
    procs_heap s' A bs' (F \<union> {K z..<K z + 2}) xs (L - {z}) K (set ps - {z}) \<and> current s' = current s \<and>
    (out \<noteq> 0 \<longrightarrow> phys s' = phys s1) \<and> (out = 0 \<longrightarrow> phys s' = phys s) \<and>
    (\<forall>q. links_only (procs s q) (procs s' q)) \<and> idleproc s' = idleproc s \<and> initproc s' = initproc s"
proof -
  define s0 where "s0 = (if out = 0 then s else s1)"
  obtain m where m: "s0 = s\<lparr>phys := m\<rparr>"
  proof (cases "out = 0")
    case True
    then show thesis using that [of "phys s"] by (simp add: s0_def)
  next
    case False
    then obtain m where "s1 = s\<lparr>phys := m\<rparr>" using store_bytes_phys out by blast
    then show thesis using that [of m] False by (simp add: s0_def)
  qed
  have store: "(if out \<noteq> 0 then store_bytes out (int_bytes (exit_code (procs s z))) s else Inr s) = Inr s0"
    using out by (auto simp: s0_def)
  define f where "f = fst (intr_save s0)"
  define s2 where "s2 = snd (intr_save s0)"
  have inv0: "proc_inv rep ready s0 ps kids"
    by (rule proc_inv_fields [OF inv]) (simp_all add: m same_queue_def same_table_def same_family_def)
  have inv2: "proc_inv rep ready s2 ps kids" unfolding s2_def by (rule proc_inv_intr(1) [OF inv0])
  have e2: "procs s2 = procs s" "current s2 = current s" "idleproc s2 = idleproc s" by (simp_all add: s2_def m)
  have "same_table s0 s2" unfolding s2_def by (rule same_table_cpu) simp_all
  then have i2: "initproc s2 = initproc s" by (simp add: same_table_def m)
  have mem2: "same_memory s0 s2" unfolding s2_def by (rule same_memory_cpu) simp
  define s3 where "s3 = remove_links z (unhash_proc z s2)"
  define s4 where "s4 = intr_restore f s3"
  have z2: "z \<noteq> initproc s2" "z \<noteq> current s2" "is_zombie s2 z" using z(2-4) by (simp_all add: e2 i2)
  note U = unlink_ok [OF inv2 z(1) z2 z(5), folded s3_def, unfolded e2]
  have inv4: "proc_inv rep ready s4 (remove1 z ps) (kids(parent (procs s z) := remove1 z (kids (parent (procs s z)))))"
    unfolding s4_def by (rule proc_inv_intr(2) [OF U(1)])
  have e4: "procs s4 = procs s3" "current s4 = current s" "idleproc s4 = idleproc s" by (simp_all add: s4_def U)
  have "same_memory s3 s4" unfolding s4_def by (rule same_memory_cpu) simp
  then have mem4: "same_memory s0 s4" using same_memory_trans [OF mem2 same_memory_trans [OF U(2)]] by blast
  have hp4: "procs_heap s4 A bs F xs L K (set ps)"
    by (rule procs_heap_cong [OF hp]) (use mem4 links_only_fields(3) [OF U(3)] in \<open>simp_all add: same_memory_def m e4\<close>)
  obtain s5 where s5: "put_kstack z s4 = Inr s5" "heap_frame s4 s5" "procs_heap s5 A bs (F \<union> {K z..<K z + 2}) xs L K (set ps - {z})"
    using put_kstack_ok [OF hp4 z(1,6,7)] by blast
  have zL: "z \<in> L" "z \<noteq> idleproc s5" "z \<notin> set ps - {z}"
    using procs_heapD(3) [OF hp] z(1) proc_invD(14) [OF inv] heap_frame_fields(6) [OF s5(2)] by (auto simp: e4)
  obtain s6 bs6 where s6: "kfree z s5 = Inr s6" "heap_frame s5 s6" "procs_heap s6 A bs6 (F \<union> {K z..<K z + 2}) xs (L - {z}) K (set ps - {z})"
    using kfree_procs [OF s5(3) zL] by blast
  have fr: "heap_frame s4 s6" by (rule heap_frame_trans [OF s5(2) s6(2)])
  have "same_table s3 s4" unfolding s4_def by (rule same_table_cpu) simp_all
  moreover have "same_table s4 s6" by (rule same_table_heap [OF heap_frame_fields(12,6) [OF fr]])
  ultimately have init6: "initproc s6 = initproc s" using U(6) i2 by (simp add: same_table_def)
  have "z \<noteq> idleproc s" using proc_invD(14) [OF inv] z(1) by blast
  moreover have "intr_save s0 = (f, s2)" by (simp add: f_def s2_def)
  ultimately have "reap z out s = Inr s6"
    using store s5(1) s6(1) z(2) unfolding reap_def by (simp add: s3_def [symmetric] s4_def [symmetric] Let_def)
  moreover have "phys s6 = phys s0" using heap_frame_fields(11) [OF fr] mem4 by (simp add: same_memory_def)
  ultimately show ?thesis
    using proc_inv_heap [OF inv4 fr] s6(3) heap_frame_fields(1,5,6) [OF fr] e4 U(3) init6
    by (intro exI [of _ s6] exI [of _ bs6]) (simp add: s0_def)
qed

section \<open>Wait\<close>

lemma find_member: "List.find P xs = Some x \<Longrightarrow> x \<in> set xs \<and> P x"
  by (auto simp: find_Some_iff)

lemma do_wait_ok:
  fixes n :: int
  assumes inv: "proc_inv rep ready s ps kids" and hp: "procs_heap s A bs F xs L K (set ps)" and c: "current s = c" "c \<in> set ps"
  defines "cs \<equiv> candidates s n (kids c)"
  shows "cs = [] \<Longrightarrow> do_wait cls resched n 0 s = Inr (Returns (- E_BAD_PROC), s)"
    "List.find (is_zombie s) cs = Some z \<Longrightarrow> kids z = [] \<Longrightarrow> ram_page (K z) \<Longrightarrow> room_above F (K z) \<Longrightarrow>
      \<exists>s' bs'. do_wait cls resched n 0 s = Inr (Returns 0, s') \<and> proc_inv rep ready s' (remove1 z ps) (kids(c := remove1 z (kids c))) \<and>
        procs_heap s' A bs' (F \<union> {K z..<K z + 2}) xs (L - {z}) K (set ps - {z}) \<and> current s' = c \<and>
        (\<forall>q. links_only (procs s q) (procs s' q)) \<and> idleproc s' = idleproc s \<and> initproc s' = initproc s"
    "cs \<noteq> [] \<Longrightarrow> List.find (is_zombie s) cs = None \<Longrightarrow>
      resched (upd_proc c (\<lambda>p. p\<lparr>state := PROC_SLEEPING, wait_state := WT_CHILD\<rparr>) s) = Inr s2 \<Longrightarrow>
      flags (procs s2 (current s2)) AND PF_EXITING = 0 \<Longrightarrow> do_wait cls resched n 0 s = do_wait cls resched n 0 s2"
proof -
  have look: "look_for_zombie n s = Inr (cs \<noteq> [], List.find (is_zombie s) cs)"
    unfolding cs_def by (rule look_for_zombie_ok [OF inv c])
  have kids: "set (kids c) = {q \<in> set ps. parent (procs s q) = c}" using familyD(6) [OF proc_invD(4) [OF inv], of c] c(2) by simp
  show "do_wait cls resched n 0 s = Inr (Returns (- E_BAD_PROC), s)" if "cs = []"
    unfolding do_wait_def using look that by (subst wait_loop.simps) simp
  show "do_wait cls resched n 0 s = do_wait cls resched n 0 s2"
    if "cs \<noteq> []" "List.find (is_zombie s) cs = None" "resched (upd_proc c (\<lambda>p. p\<lparr>state := PROC_SLEEPING, wait_state := WT_CHILD\<rparr>) s) = Inr s2"
      "flags (procs s2 (current s2)) AND PF_EXITING = 0"
    unfolding do_wait_def using look that c(1) by (subst wait_loop.simps) simp
  assume z: "List.find (is_zombie s) cs = Some z" "kids z = []" "ram_page (K z)" "room_above F (K z)"
  have zc: "z \<in> set (kids c)" "is_zombie s z" using find_member [OF z(1)] by (auto simp: cs_def candidates_def)
  have zps: "z \<in> set ps" "parent (procs s z) = c" using zc(1) kids by auto
  have "z \<noteq> current s" using proc_invD(9) [OF inv zps(1)] zps(2) c(1) by auto
  moreover have "z \<noteq> initproc s" using proc_invD(7,14) [OF inv] zps(2) c(2) by auto
  ultimately obtain s' bs' where r: "reap z 0 s = Inr s'" "proc_inv rep ready s' (remove1 z ps) (kids(c := remove1 z (kids c)))"
      "procs_heap s' A bs' (F \<union> {K z..<K z + 2}) xs (L - {z}) K (set ps - {z})" "current s' = c"
      "\<forall>q. links_only (procs s q) (procs s' q)" "idleproc s' = idleproc s" "initproc s' = initproc s"
    using reap_ok [OF inv hp zps(1) _ _ zc(2) z(2-4), of 0 s] unfolding zps(2) c(1) by blast
  have "do_wait cls resched n 0 s = Inr (Returns 0, s')"
    unfolding do_wait_def using look z(1) r(1) by (subst wait_loop.simps) simp
  then show "\<exists>s' bs'. do_wait cls resched n 0 s = Inr (Returns 0, s') \<and> proc_inv rep ready s' (remove1 z ps) (kids(c := remove1 z (kids c))) \<and>
        procs_heap s' A bs' (F \<union> {K z..<K z + 2}) xs (L - {z}) K (set ps - {z}) \<and> current s' = c \<and>
        (\<forall>q. links_only (procs s q) (procs s' q)) \<and> idleproc s' = idleproc s \<and> initproc s' = initproc s"
    using r(2-7) by blast
qed

end

end
