(* ===== verification/Demo_Kernel.thy ===== *)
theory Demo_Kernel
  imports Proc_Wait
begin

text \<open>
  A concrete kernel, the starting point of the witnesses about processes: init (record 400, number 1) waits for a
  child, its child 500 (number 2) runs, 600 (number 3) is a dead child of 500, and 700 is the idle process.
  Eight pages from page 0x80280 on are free.
\<close>

definition demo_task :: "proc_state \<Rightarrow> int \<Rightarrow> ptr \<Rightarrow> ptr \<Rightarrow> nat \<Rightarrow> proc_struct" where
  "demo_task st i par ch k = \<lparr>state = st, pid = i, runs = 0, kstack = kva k, need_resched = False, parent = par,
     mm = NULL, ctx = zero_context, tf = 0x1000, pgdir = 0x80400000, flags = 0, name = replicate 16 0,
     exit_code = 7, wait_state = (if st = PROC_SLEEPING then WT_CHILD else 0), cptr = ch, yptr = NULL, optr = NULL,
     rq = None, time_slice = 3, lab6_stride = 0, lab6_priority = 1\<rparr>"

definition demo_tasks :: "ptr \<Rightarrow> proc_struct" where
  "demo_tasks p = (if p = 400 then demo_task PROC_SLEEPING 1 700 500 0x80210
     else if p = 500 then demo_task PROC_RUNNABLE 2 400 600 0x80212
     else if p = 600 then demo_task PROC_ZOMBIE 3 500 NULL 0x80214 else demo_task PROC_RUNNABLE 0 NULL 400 0x80216)"

definition demo_stacks :: "ptr \<Rightarrow> nat" where
  "demo_stacks p = (if p = 400 then 0x80210 else if p = 500 then 0x80212 else if p = 600 then 0x80214 else 0x80216)"

definition demo_kids :: "ptr \<Rightarrow> ptr list" where
  "demo_kids p = (if p = 700 then [400] else if p = 400 then [500] else if p = 500 then [600] else [])"

definition demo_all :: "proc_entry list_store" where
  "demo_all = \<lparr>prev_of = id(Proc_list := List_link 400, List_link 600 := Proc_list, List_link 500 := List_link 600, List_link 400 := List_link 500),
     next_of = id(Proc_list := List_link 600, List_link 600 := List_link 500, List_link 500 := List_link 400, List_link 400 := Proc_list)\<rparr>"

text \<open>The hash lists as \<open>hash_proc\<close> builds them.\<close>

definition demo_hash :: "ptr list \<Rightarrow> hash_entry list_store" where
  "demo_hash ps = foldr (\<lambda>p. list_add (Hash_list (pid_hashfn (pid (demo_tasks p)))) (Hash_link p)) ps \<lparr>prev_of = id, next_of = id\<rparr>"

definition demo_frame :: trapframe where
  "demo_frame = zero_trapframe\<lparr>tf_epc := 0x800020, tf_cause := 8\<rparr>"

definition demo_kernel :: kernel where
  "demo_kernel = \<lparr>procs = demo_tasks, run_links = \<lparr>prev_of = id, next_of = id\<rparr>,
     run_pool = \<lparr>parent_of = (\<lambda>_. None), left_of = (\<lambda>_. None), right_of = (\<lambda>_. None)\<rparr>,
     runq = \<lparr>proc_num = 0, max_time_slice = MAX_TIME_SLICE, lab6_run_pool = None\<rparr>,
     current = 500, idleproc = 700, sstatus = SSTATUS_SIE, satp = 0, regs = zero_context,
     pages = (\<lambda>p. \<lparr>pg_ref = 0, pg_flags = (if p = 0x80280 then 2 else 0), property = (if p = 0x80280 then 8 else 0), pra_vaddr = 0\<rparr>),
     page_links = \<lparr>prev_of = id(Free_list := Page_link 0x80280, Page_link 0x80280 := Free_list),
       next_of = id(Free_list := Page_link 0x80280, Page_link 0x80280 := Free_list)\<rparr>,
     nr_free = 8, phys = (\<lambda>_ _. 0), npage = 0x80300,
     slobs = (\<lambda>p. if p = 1 then \<lparr>sl_units = 1, sl_next = 1\<rparr> else \<lparr>sl_units = 22, sl_next = 0\<rparr>), slobfree = 1,
     bbs = (\<lambda>_. \<lparr>bb_order = 0, bb_pages = 0, bb_next = 0\<rparr>), bigblocks = NULL,
     vmas = (\<lambda>_. \<lparr>vm_mm = NULL, vm_start = 0, vm_end = 0, vm_flags = 0\<rparr>),
     mms = (\<lambda>_. \<lparr>mmap_cache = NULL, mm_pgdir = 0, map_count = 0, sm_priv = NULL, mm_count = 0, mm_lock = 0\<rparr>),
     vm_links = \<lparr>prev_of = id, next_of = id\<rparr>,
     proc_links = demo_all, hash_links = demo_hash [600, 500, 400], nr_process = 4, initproc = 400, next_safe = MAX_PID, last_pid = 3,
     tframes = (\<lambda>_. demo_frame), boot_pgdir = 0x80205, forkret = 0xFFFFFFFFC0200100, kernel_thread_entry = 0xFFFFFFFFC0200200,
     ticks = 0, cons_out = []\<rparr>"

lemma demo_kernel_simps [simp]:
  "procs demo_kernel = demo_tasks" "current demo_kernel = 500" "idleproc demo_kernel = 700" "initproc demo_kernel = 400"
  "runq demo_kernel = \<lparr>proc_num = 0, max_time_slice = MAX_TIME_SLICE, lab6_run_pool = None\<rparr>" "proc_links demo_kernel = demo_all"
  "hash_links demo_kernel = demo_hash [600, 500, 400]" "nr_process demo_kernel = 4" "next_safe demo_kernel = MAX_PID" "last_pid demo_kernel = 3"
  "npage demo_kernel = 0x80300" "slobs demo_kernel = (\<lambda>p. if p = 1 then \<lparr>sl_units = 1, sl_next = 1\<rparr> else \<lparr>sl_units = 22, sl_next = 0\<rparr>)"
  "slobfree demo_kernel = 1" "bigblocks demo_kernel = NULL" "nr_free demo_kernel = 8" "tframes demo_kernel = (\<lambda>_. demo_frame)"
  by (simp_all add: demo_kernel_def)

lemma demo_task_simps [simp]:
  "state (demo_task st i par ch k) = st" "pid (demo_task st i par ch k) = i" "parent (demo_task st i par ch k) = par"
  "kstack (demo_task st i par ch k) = kva k" "cptr (demo_task st i par ch k) = ch" "yptr (demo_task st i par ch k) = NULL"
  "optr (demo_task st i par ch k) = NULL" "lab6_priority (demo_task st i par ch k) = 1" "mm (demo_task st i par ch k) = NULL"
  "flags (demo_task st i par ch k) = 0" "tf (demo_task st i par ch k) = 0x1000" "need_resched (demo_task st i par ch k) = False"
  "wait_state (demo_task st i par ch k) = (if st = PROC_SLEEPING then WT_CHILD else 0)"
  by (simp_all add: demo_task_def)

lemma demo_hash_ok: "hash_ok demo_kernel {600, 500, 400}"
proof -
  define s0 where "s0 = demo_kernel\<lparr>hash_links := \<lparr>prev_of = id, next_of = id\<rparr>\<rparr>"
  have p0: "procs s0 = demo_tasks" by (simp add: s0_def)
  have "hash_ok s0 {}" by (simp add: hash_ok_def s0_def clist_def)
  then have h1: "hash_ok (hash_proc 400 s0) {400}" by (rule hash_proc_ok) simp_all
  have p1: "procs (hash_proc 400 s0) = demo_tasks" by (simp add: hash_proc_def p0)
  have h2: "hash_ok (hash_proc 500 (hash_proc 400 s0)) {500, 400}"
    by (rule hash_proc_ok [OF h1]) (simp_all add: p1 demo_tasks_def)
  have p2: "procs (hash_proc 500 (hash_proc 400 s0)) = demo_tasks" by (simp add: hash_proc_def p0)
  have h3: "hash_ok (hash_proc 600 (hash_proc 500 (hash_proc 400 s0))) {600, 500, 400}"
    by (rule hash_proc_ok [OF h2]) (simp_all add: p2 demo_tasks_def)
  show ?thesis by (rule hash_ok_same [OF _ _ h3]) (simp_all add: hash_proc_def p0 demo_hash_def s0_def)
qed

lemma demo_sched: "sched_ok stride_rep has_priority {600, 500, 400} demo_kernel"
proof -
  have R: "runnable {600, 500, 400} demo_kernel - {current demo_kernel} = {}" by (auto simp: runnable_def demo_tasks_def)
  have "stride_rep demo_kernel {}" by (simp add: stride_rep_def pool_tree_def sheap_def)
  then show ?thesis unfolding sched_ok_def R by (simp add: has_priority_def demo_tasks_def rq_limit_def)
qed

lemma demo_family: "family (procs demo_kernel) {600, 500, 400} (insert (idleproc demo_kernel) {600, 500, 400}) demo_kids"
  unfolding family_def by (auto simp: demo_tasks_def demo_kids_def)

lemma demo_inv: "proc_inv stride_rep has_priority demo_kernel [600, 500, 400] demo_kids"
proof -
  have "pid_ok demo_kernel [600, 500, 400]"
    by (simp add: pid_ok_def clist_def demo_all_def clear_between_def demo_tasks_def MAX_PID_val)
  then show ?thesis using demo_sched demo_hash_ok demo_family
    unfolding proc_inv_def by (simp add: waits_ok_def demo_tasks_def MAX_PID_val)
qed

lemma demo_free: "mem_ok demo_kernel {0x80280..<0x80288}"
proof -
  have "free_rep demo_kernel [(0x80280, 8)]"
    by (auto simp: free_rep_def demo_kernel_def clist_def PageProperty_def PG_property_def bit_2_iff)
  then have "free_set demo_kernel {0x80280..<0x80288}" unfolding free_set_def by (intro exI [of _ "[(0x80280, 8)]"]) simp
  then show ?thesis by (auto simp: mem_ok_def unreserved_def PageReserved_def PG_reserved_def demo_kernel_def)
qed

lemma demo_kernel_heap: "procs_heap demo_kernel 1 [(1, 1)] {0x80280..<0x80288} [] {400, 500, 600, 700} demo_stacks (set [600, 500, 400])"
proof -
  let ?F = "{0x80280..<0x80288} :: nat set" and ?L = "{400, 500, 600, 700} :: ptr set"
  have ext: "extent demo_kernel p = {p - 1..<p + 21}" if "p \<in> ?L" for p using that by (auto simp: extent_def)
  have low: "extent demo_kernel p \<subseteq> {399..<721}" if "p \<in> ?L" for p using that unfolding ext [OF that] by auto
  have far: "page_units G \<inter> {..<1000} = {}" if "\<forall>j \<in> G. 4 \<le> j" for G
    using that by (fastforce simp: page_units_def units_per_page_def)
  have apart: "extent demo_kernel p \<inter> extent demo_kernel q = {}" if "p \<in> ?L" "q \<in> ?L" "p \<noteq> q" for p q
    using that(3) that(1,2) unfolding ext [OF that(1)] ext [OF that(2)] by auto
  have rep: "slob_rep demo_kernel 1 [(1, 1)]" by (simp add: slob_rep_def)
  have F: "page_units ?F \<inter> {..<1000} = {}" by (rule far) auto
  then have fl: "block_pages [(1, 1)] \<inter> page_units ?F = {}" by auto
  have "live_objects demo_kernel 1 [(1, 1)] ?F [] ?L"
    unfolding live_objects_def heap_ok_def
  proof (intro conjI ballI impI)
    fix p assume p: "p \<in> ?L"
    show "1 + 1 < p - 1" "2 \<le> sl_units (slobs demo_kernel (p - 1))" using p by auto
    have "extent demo_kernel p \<inter> block_pages [(1, 1)] = {}" using low [OF p] by auto
    moreover have "extent demo_kernel p \<inter> page_units ?F = {}" using low [OF p] F by fastforce
    ultimately show "extent demo_kernel p \<inter> (block_pages [(1, 1)] \<union> page_units ?F) = {}" by blast
    show "extent demo_kernel p \<inter> extent demo_kernel q = {}" if "q \<in> ?L" "p \<noteq> q" for q by (rule apart [OF p that])
  qed (use rep demo_free fl in \<open>auto simp: units_per_page_def\<close>)
  moreover have "stack_at demo_kernel 1 [(1, 1)] ?F [] ?L (demo_stacks p)" if "p \<in> set [600, 500, 400]" for p
  proof -
    have k: "0x80210 \<le> demo_stacks p" "demo_stacks p < 0x80216" using that by (auto simp: demo_stacks_def)
    have u: "page_units {demo_stacks p..<demo_stacks p + 2} \<inter> {..<1000} = {}" by (rule far) (use k in auto)
    have "(\<Union>q \<in> ?L. extent demo_kernel q) \<subseteq> {..<1000}" using low by fastforce
    moreover have "block_pages [(1, 1)] \<subseteq> {..<1000}" by auto
    ultimately have "page_units {demo_stacks p..<demo_stacks p + 2} \<inter> (block_pages [(1, 1)] \<union> (\<Union>q \<in> ?L. extent demo_kernel q)) = {}"
      using u by blast
    then show ?thesis using k by (auto simp: stack_at_def units_per_page_def unreserved_def PageReserved_def PG_reserved_def demo_kernel_def)
  qed
  moreover have "kstack (procs demo_kernel p) = kva (demo_stacks p)" for p by (simp add: demo_tasks_def demo_stacks_def)
  ultimately show ?thesis by (auto simp: procs_heap_def stacks_ok_def) (auto simp: demo_stacks_def)
qed

end
