(* ===== verification/Proc_Exec.thy ===== *)
theory Proc_Exec
  imports Proc_Exit
begin

text \<open>
  Running a program, kern/process/proc.c and libs/elf.h: \<open>load_icode\<close> builds an address space from
  an ELF image, \<open>do_execve\<close> replaces the one of the current process, \<open>kernel_execve\<close> starts the first
  program. The image is read through its virtual address, field by field, as the code does.
\<close>

section \<open>The image\<close>

definition ELF_MAGIC :: "32 word" where "ELF_MAGIC = 0x464C457F"
definition ELF_PT_LOAD :: "32 word" where "ELF_PT_LOAD = 1"
definition ELF_PF_X :: "32 word" where "ELF_PF_X = 1"
definition ELF_PF_W :: "32 word" where "ELF_PF_W = 2"
definition ELF_PF_R :: "32 word" where "ELF_PF_R = 4"

text \<open>The fields \<open>load_icode\<close> reads: a name, the offset in the structure and the size in bytes.\<close>

record elfhdr =
  e_magic :: "32 word"
  e_entry :: "64 word"
  e_phoff :: "64 word"
  e_phnum :: nat

record proghdr =
  p_type :: "32 word"
  p_flags :: "32 word"
  p_offset :: "64 word"
  p_va :: "64 word"
  p_filesz :: "64 word"
  p_memsz :: "64 word"

definition sizeof_proghdr :: "64 word" where "sizeof_proghdr = 56"

definition read_elfhdr :: "64 word \<Rightarrow> 'a mem_scheme \<Rightarrow> elfhdr outcome" where
  "read_elfhdr a s =
     obind (load_int a 4 s) (\<lambda>magic. obind (load_int (a + 24) 8 s) (\<lambda>entry. obind (load_int (a + 32) 8 s) (\<lambda>phoff.
     obind (load_int (a + 56) 2 s) (\<lambda>phnum.
     Inr \<lparr>e_magic = ucast magic, e_entry = entry, e_phoff = phoff, e_phnum = unat phnum\<rparr>))))"

definition read_proghdr :: "64 word \<Rightarrow> 'a mem_scheme \<Rightarrow> proghdr outcome" where
  "read_proghdr a s =
     obind (load_int a 4 s) (\<lambda>type. obind (load_int (a + 4) 4 s) (\<lambda>fl. obind (load_int (a + 8) 8 s) (\<lambda>off.
     obind (load_int (a + 16) 8 s) (\<lambda>vaddr. obind (load_int (a + 32) 8 s) (\<lambda>filesz. obind (load_int (a + 40) 8 s) (\<lambda>memsz.
     Inr \<lparr>p_type = ucast type, p_flags = ucast fl, p_offset = off, p_va = vaddr, p_filesz = filesz, p_memsz = memsz\<rparr>))))))"

section \<open>Segments\<close>

definition USTACKTOP :: "64 word" where "USTACKTOP = USERTOP"
definition USTACKPAGE :: "64 word" where "USTACKPAGE = 256"
definition USTACKSIZE :: "64 word" where "USTACKSIZE = USTACKPAGE * PGSIZE"

definition vm_flags_of :: "32 word \<Rightarrow> 32 word" where
  "vm_flags_of pf = (if pf AND ELF_PF_X \<noteq> 0 then VM_EXEC else 0) OR (if pf AND ELF_PF_W \<noteq> 0 then VM_WRITE else 0)
     OR (if pf AND ELF_PF_R \<noteq> 0 then VM_READ else 0)"

definition perm_of :: "32 word \<Rightarrow> 32 word" where
  "perm_of vf = ucast (PTE_U OR PTE_V) OR (if vf AND VM_READ \<noteq> 0 then ucast PTE_R else 0)
     OR (if vf AND VM_WRITE \<noteq> 0 then ucast (PTE_W OR PTE_R) else 0) OR (if vf AND VM_EXEC \<noteq> 0 then ucast PTE_X else 0)"

text \<open>Bytes into a frame: \<open>memcpy\<close> from a virtual address, or \<open>memset\<close> to 0 when there is none.\<close>

fun fill_frame :: "nat \<Rightarrow> nat \<Rightarrow> (64 word) option \<Rightarrow> nat \<Rightarrow> 'a mem_scheme \<Rightarrow> 'a mem_scheme outcome" where
  "fill_frame f off from 0 s = Inr s"
| "fill_frame f off None (Suc n) s = fill_frame f (off + 1) None n (set_frame_byte f off 0 s)"
| "fill_frame f off (Some a) (Suc n) s =
     obind (load8 a s) (\<lambda>b. fill_frame f (off + 1) (Some (a + 1)) n (set_frame_byte f off b s))"

text \<open>
  The two loops of part (3.6): pages are allocated from \<open>la\<close> on until \<open>start\<close> reaches \<open>end\<close>. The value
  is None when a page could not be had, otherwise \<open>start\<close>, \<open>la\<close> and the last page.
\<close>

partial_function (option) fill_pages :: "nat \<Rightarrow> 32 word \<Rightarrow> 64 word \<Rightarrow> (64 word) option \<Rightarrow> 64 word \<Rightarrow> 64 word \<Rightarrow> nat option \<Rightarrow>
    'a kernel_scheme \<Rightarrow> ((64 word \<times> 64 word \<times> nat option) option \<times> 'a kernel_scheme) outcome option" where
  "fill_pages pd perm end from start la page s =
     (if start < end then
        loop_bind (pgdir_alloc_page pd la perm s) (\<lambda>(r, s1). case r of
          None \<Rightarrow> Some (Inr (None, s1))
        | Some p \<Rightarrow>
            let off = start - la;
                la' = la + PGSIZE;
                sz = (if end < la' then PGSIZE - off - (la' - end) else PGSIZE - off)
            in loop_bind (page2kva s1 p) (\<lambda>k. loop_bind (fill_frame k (unat off) from (unat sz) s1) (\<lambda>s2.
                 fill_pages pd perm end (map_option (\<lambda>a. a + sz) from) (start + sz) la' (Some p) s2)))
      else Some (Inr (Some (start, la, page), s)))"

text \<open>Part (3.6.2) before its loop: the rest of the last page of the file contents.\<close>

definition bss_head :: "64 word \<Rightarrow> 64 word \<Rightarrow> 64 word \<Rightarrow> nat option \<Rightarrow> 'a kernel_scheme \<Rightarrow> (64 word \<times> 'a kernel_scheme) outcome" where
  "bss_head end start la page s =
     (let off = start + PGSIZE - la;
          sz = (if end < la then PGSIZE - off - (la - end) else PGSIZE - off)
      in case page of None \<Rightarrow> Inl (Undefined ''page'')
         | Some p \<Rightarrow> obind (page2kva s p) (\<lambda>k. obind (fill_frame k (unat off) None (unat sz) s) (\<lambda>s1.
             kassert ((end < la \<and> start + sz = end) \<or> (end \<ge> la \<and> start + sz = la)) ''bss'' (Inr (start + sz, s1)))))"

definition load_segment :: "64 word \<Rightarrow> ptr \<Rightarrow> 64 word \<Rightarrow> 'a kernel_scheme \<Rightarrow> (int \<times> 'a kernel_scheme) outcome" where
  "load_segment binary m ph s =
     obind (read_proghdr ph s) (\<lambda>h.
     if p_type h \<noteq> ELF_PT_LOAD then Inr (0, s)
     else if p_filesz h > p_memsz h then Inr (- E_INVAL_ELF, s)
     else let vf = vm_flags_of (p_flags h); perm = perm_of vf in
       obind (mm_map m (p_va h) (p_memsz h) vf s) (\<lambda>(ret, _, s1).
       if ret \<noteq> 0 then Inr (ret, s1)
       else let pd = mm_pgdir (mms s1 m); start = p_va h; la = ROUNDDOWN start PGSIZE; fend = p_va h + p_filesz h; mend = p_va h + p_memsz h in
         obind (finish (fill_pages pd perm fend (Some (binary + p_offset h)) start la None s1)) (\<lambda>(r, s2). case r of
           None \<Rightarrow> Inr (- E_NO_MEM, s2)
         | Some (start, la, page) \<Rightarrow>
             if start < la \<and> start = mend then Inr (0, s2)
             else obind (if start < la then bss_head mend start la page s2 else Inr (start, s2)) (\<lambda>(start, s3).
               obind (finish (fill_pages pd perm mend None start la page s3)) (\<lambda>(r, s4).
               Inr (case r of None \<Rightarrow> - E_NO_MEM | Some _ \<Rightarrow> 0, s4))))))"

fun load_segments :: "64 word \<Rightarrow> ptr \<Rightarrow> 64 word \<Rightarrow> nat \<Rightarrow> 'a kernel_scheme \<Rightarrow> (int \<times> 'a kernel_scheme) outcome" where
  "load_segments binary m ph 0 s = Inr (0, s)"
| "load_segments binary m ph (Suc n) s = obind (load_segment binary m ph s) (\<lambda>(ret, s1).
     if ret \<noteq> 0 then Inr (ret, s1) else load_segments binary m (ph + sizeof_proghdr) n s1)"

section \<open>Loading a program\<close>

text \<open>The user stack: an area of 256 pages, the top four of them present.\<close>

definition stack_page :: "ptr \<Rightarrow> 64 word \<Rightarrow> 'a kernel_scheme \<Rightarrow> 'a kernel_scheme outcome" where
  "stack_page m i s = obind (pgdir_alloc_page (mm_pgdir (mms s m)) (USTACKTOP - i * PGSIZE) (ucast PTE_USER) s) (\<lambda>(r, s1).
     kassert (r \<noteq> None) ''pgdir_alloc_page != NULL'' (Inr s1))"

definition user_stack :: "ptr \<Rightarrow> 'a kernel_scheme \<Rightarrow> (int \<times> 'a kernel_scheme) outcome" where
  "user_stack m s = obind (mm_map m (USTACKTOP - USTACKSIZE) USTACKSIZE (VM_READ OR VM_WRITE OR VM_STACK) s) (\<lambda>(ret, _, s1).
     if ret \<noteq> 0 then Inr (ret, s1) else obind (for_each (stack_page m) [1, 2, 3, 4] s1) (\<lambda>s2. Inr (0, s2)))"

text \<open>Parts (5) and (6): the new address space becomes current and the trap frame enters user mode.\<close>

definition enter_user :: "64 word \<Rightarrow> ptr \<Rightarrow> 'a kernel_scheme \<Rightarrow> 'a kernel_scheme outcome" where
  "enter_user binary m s =
     (let s1 = upd_proc (current s) (\<lambda>p. p\<lparr>mm := m\<rparr>) (snd (mm_count_inc m s)) in
      obind (PADDR (kva (mm_pgdir (mms s1 m)))) (\<lambda>pa.
      let s2 = lsatp pa (upd_proc (current s1) (\<lambda>p. p\<lparr>pgdir := pa\<rparr>) s1);
          a = tf (procs s2 (current s2));
          sst = tf_status (tframes s2 a)
      in obind (read_elfhdr binary s2) (\<lambda>elf.
         Inr (upd_frame a (\<lambda>_. zero_trapframe\<lparr>gpr_sp := USTACKTOP, tf_epc := e_entry elf,
           tf_status := (sst AND NOT SSTATUS_SPP) OR SSTATUS_SPIE\<rparr>) s2))))"

definition load_icode :: "64 word \<Rightarrow> 'a kernel_scheme \<Rightarrow> (int \<times> 'a kernel_scheme) outcome" where
  "load_icode binary s =
     (if mm (procs s (current s)) \<noteq> NULL then Inl (Panic ''load_icode: current->mm must be empty.'')
      else obind (mm_create s) (\<lambda>(m, s1).
        if m = NULL then Inr (- E_NO_MEM, s1)
        else obind (setup_pgdir m s1) (\<lambda>(r, s2).
          if r \<noteq> 0 then obind (mm_destroy m s2) (\<lambda>s3. Inr (- E_NO_MEM, s3))
          else obind (read_elfhdr binary s2) (\<lambda>elf.
            if e_magic elf \<noteq> ELF_MAGIC
            then obind (put_pgdir m s2) (\<lambda>s3. obind (mm_destroy m s3) (\<lambda>s4. Inr (- E_INVAL_ELF, s4)))
            else obind (obind (load_segments binary m (binary + e_phoff elf) (e_phnum elf) s2) (\<lambda>(ret, s3).
                          if ret \<noteq> 0 then Inr (ret, s3) else user_stack m s3)) (\<lambda>(ret, s4).
              if ret \<noteq> 0
              then obind (exit_mmap m s4) (\<lambda>s5. obind (put_pgdir m s5) (\<lambda>s6. obind (mm_destroy m s6) (\<lambda>s7. Inr (ret, s7))))
              else obind (enter_user binary m s4) (\<lambda>s5. Inr (0, s5)))))))"

definition do_execve :: "'a kernel_scheme sched_class \<Rightarrow> 64 word \<Rightarrow> 64 word \<Rightarrow> 64 word \<Rightarrow> 'a kernel_scheme \<Rightarrow> (int control \<times> 'a kernel_scheme) outcome" where
  "do_execve cls nm len binary s =
     obind (user_mem_check (mm (procs s (current s))) nm len False s) (\<lambda>(ok, s1).
       if \<not> ok then Inr (Returns (- E_INVAL), s1)
       else let len = (if len > of_nat PROC_NAME_LEN then of_nat PROC_NAME_LEN else len) in
         obind (load_bytes nm (unat len) s1) (\<lambda>bs.
         let local_name = bs @ drop (unat len) (replicate (PROC_NAME_LEN + 1) 0) in
         obind (drop_mm s1) (\<lambda>s2. obind (load_icode binary s2) (\<lambda>(ret, s3).
           if ret \<noteq> 0 then obind (do_exit cls ret s3) (\<lambda>s4. Inr (Leaves, s4))
           else Inr (Returns 0, set_proc_name (current s3) (\<lambda>i. local_name ! i) s3)))))"

text \<open>\<open>kernel_execve\<close> continues at \<open>__trapret\<close> with the new frame, whose address is the value.\<close>

definition kernel_execve :: "'a kernel_scheme sched_class \<Rightarrow> 64 word \<Rightarrow> 64 word \<Rightarrow> 'a kernel_scheme \<Rightarrow> (64 word control \<times> 'a kernel_scheme) outcome" where
  "kernel_execve cls nm binary s =
     obind (strlen (\<lambda>a. frame_byte (phys s) (unat (PPN (a - PHYSICAL_MEMORY_OFFSET))) (unat (PGOFF a))) nm) (\<lambda>len.
     let old_tf = tf (procs s (current s));
         new_tf = kstack (procs s (current s)) + KSTACKSIZE - sizeof_trapframe;
         s1 = upd_frame new_tf (\<lambda>_. tframes s old_tf) s;
         s2 = upd_proc (current s1) (\<lambda>p. p\<lparr>tf := new_tf\<rparr>) s1
     in obind (do_execve cls nm len binary s2) (\<lambda>(r, s3).
          Inr (case r of Returns _ \<Rightarrow> Returns new_tf | Leaves \<Rightarrow> Leaves, s3)))"

declare fill_pages.simps [code]

end
