(* ===== verification/Proc_Init.thy ===== *)
theory Proc_Init
  imports Proc_Exec
begin

text \<open>
  The first processes, kern/process/proc.c: \<open>proc_init\<close> makes the running thread of control the idle
  process and creates init, whose body \<open>init_main\<close> creates the first user process and waits for all
  of them. Addresses fixed by the linker (functions, the boot stack, string literals, the embedded
  program) are arguments.
\<close>

text \<open>The body of \<open>user_main\<close>; \<open>nm\<close> and \<open>binary\<close> are the name and the image of the embedded program.\<close>

definition user_main :: "'a kernel_scheme sched_class \<Rightarrow> 64 word \<Rightarrow> 64 word \<Rightarrow> 'a kernel_scheme \<Rightarrow> (64 word control \<times> 'a kernel_scheme) outcome" where
  "user_main cls nm binary s = kernel_execve cls nm binary s"

text \<open>The loop of \<open>init_main\<close>: it ends when no child is left.\<close>

partial_function (option) wait_all :: "'a kernel_scheme sched_class \<Rightarrow> ('a kernel_scheme \<Rightarrow> 'a kernel_scheme outcome) \<Rightarrow>
    'a kernel_scheme \<Rightarrow> (unit control \<times> 'a kernel_scheme) outcome option" where
  "wait_all cls resched s =
     loop_bind (do_wait cls resched 0 0 s) (\<lambda>(r, s1). case r of
       Leaves \<Rightarrow> Some (Inr (Leaves, s1))
     | Returns v \<Rightarrow> if v = 0 then loop_bind (resched s1) (\<lambda>s2. wait_all cls resched s2) else Some (Inr (Returns (), s1)))"

definition init_main :: "'a kernel_scheme sched_class \<Rightarrow> ('a kernel_scheme \<Rightarrow> 'a kernel_scheme outcome) \<Rightarrow> 64 word \<Rightarrow>
    'a kernel_scheme \<Rightarrow> (int control \<times> 'a kernel_scheme) outcome" where
  "init_main cls resched user_main_addr s =
     obind (kernel_thread cls resched user_main_addr 0 0 s) (\<lambda>(n, s1).
     if n \<le> 0 then Inl (Panic ''create user_main failed.'')
     else obind (finish (wait_all cls resched s1)) (\<lambda>(r, s2). case r of
         Leaves \<Rightarrow> Inr (Leaves, s2)
       | Returns _ \<Rightarrow>
           let i = initproc s2 in
           kassert (cptr (procs s2 i) = NULL \<and> yptr (procs s2 i) = NULL \<and> optr (procs s2 i) = NULL) ''initproc->cptr == NULL''
           (kassert (nr_process s2 = 2) ''nr_process == 2''
           (kassert (list_next (proc_links s2) Proc_list = List_link i) ''list_next(&proc_list) == &(initproc->list_link)''
           (kassert (list_prev (proc_links s2) Proc_list = List_link i) ''list_prev(&proc_list) == &(initproc->list_link)''
           (Inr (Returns 0, s2)))))))"

definition init_lists :: "'a kernel_scheme \<Rightarrow> 'a kernel_scheme" where
  "init_lists s =
     (let s1 = s\<lparr>proc_links := list_init Proc_list (proc_links s)\<rparr>
      in s1\<lparr>hash_links := fold (\<lambda>i. list_init (Hash_list i)) [0..<HASH_LIST_SIZE] (hash_links s1)\<rparr>)"

definition proc_init :: "'a kernel_scheme sched_class \<Rightarrow> ('a kernel_scheme \<Rightarrow> 'a kernel_scheme outcome) \<Rightarrow> 64 word \<Rightarrow> 64 word \<Rightarrow>
    (nat \<Rightarrow> 8 word) \<Rightarrow> (nat \<Rightarrow> 8 word) \<Rightarrow> 'a kernel_scheme \<Rightarrow> 'a kernel_scheme outcome" where
  "proc_init cls resched bootstack init_main_addr idle_name init_name s =
     obind (alloc_proc (init_lists s)) (\<lambda>(idle, s1).
     let s2 = s1\<lparr>idleproc := idle\<rparr> in
     if idle = NULL then Inl (Panic ''cannot alloc idleproc.'')
     else let s3 = upd_proc idle (\<lambda>p. p\<lparr>pid := 0, state := PROC_RUNNABLE, kstack := bootstack, need_resched := True\<rparr>) s2;
              s4 = set_proc_name idle idle_name s3;
              s5 = s4\<lparr>nr_process := nr_process s4 + 1, current := idle\<rparr>
       in obind (kernel_thread cls resched init_main_addr 0 0 s5) (\<lambda>(n, s6).
          if n \<le> 0 then Inl (Panic ''create init_main failed.'')
          else obind (find_proc n s6) (\<lambda>i.
            let s7 = set_proc_name i init_name (s6\<lparr>initproc := i\<rparr>) in
            kassert (idleproc s7 \<noteq> NULL \<and> pid (procs s7 (idleproc s7)) = 0) ''idleproc->pid == 0''
            (kassert (initproc s7 \<noteq> NULL \<and> pid (procs s7 (initproc s7)) = 1) ''initproc->pid == 1'' (Inr s7)))))"

text \<open>One iteration of the endless loop of the idle process.\<close>

definition cpu_idle_step :: "('a kernel_scheme \<Rightarrow> 'a kernel_scheme outcome) \<Rightarrow> 'a kernel_scheme \<Rightarrow> 'a kernel_scheme outcome" where
  "cpu_idle_step resched s = (if need_resched (procs s (current s)) then resched s else Inr s)"

text \<open>Where a new process starts: \<open>forkret\<close> resumes it from its trap frame.\<close>

definition forkret_frame :: "'a kernel_scheme \<Rightarrow> trapframe" where
  "forkret_frame s = tframes s (tf (procs s (current s)))"

declare wait_all.simps [code]

end
