(* ===== verification/Proc_Boot.thy ===== *)
theory Proc_Boot
  imports Proc_Create Proc_Init
begin

text \<open>
  The start of the process manager: after \<open>sched_init\<close>, \<open>proc_init\<close> either stops for lack of memory or sets up the idle
  process and init so that the invariants of the process table and of memory hold.
\<close>

section \<open>Empty tables\<close>

lemma hash_lists_empty:
  "b < n \<Longrightarrow> clist (fold (\<lambda>i. list_init (Hash_list i)) [0..<n] h) (Hash_list b) []"
proof (induction n arbitrary: h)
  case (Suc n)
  define h' where "h' = fold (\<lambda>i. list_init (Hash_list i)) [0..<n] h"
  have "fold (\<lambda>i. list_init (Hash_list i)) [0..<Suc n] h = list_init (Hash_list n) h'" by (simp add: h'_def)
  moreover have "clist (list_init (Hash_list n) h') (Hash_list b) []"
  proof (cases "b = n")
    case True
    then show ?thesis by (simp add: clist_init)
  next
    case False
    then show ?thesis using Suc.IH [of h] Suc.prems by (intro list_init_frame) (simp_all add: h'_def)
  qed
  ultimately show ?case by simp
qed simp

lemma init_lists_ok:
  "proc_list (init_lists s) []" "b < HASH_LIST_SIZE \<Longrightarrow> clist (hash_links (init_lists s)) (Hash_list b) []"
  "procs (init_lists s) = procs s" "nr_process (init_lists s) = nr_process s"
  "last_pid (init_lists s) = last_pid s" "next_safe (init_lists s) = next_safe s" "same_memory s (init_lists s)" "same_queue UNIV s (init_lists s)"
  using hash_lists_empty [of b HASH_LIST_SIZE] by (simp_all add: init_lists_def clist_init same_memory_def same_queue_def)

section \<open>The first record\<close>

lemma alloc_proc_first:
  assumes lv: "live_objects s A bs F xs {}"
  shows "\<exists>p s' bs' F'. alloc_proc s = Inr (p, s') \<and> F' \<subseteq> F \<and>
    (p \<noteq> NULL \<longrightarrow> live_objects s' A bs' F' xs {p} \<and> fresh_process p s s' \<and> kheap.more s' = kheap.more s \<and> idleproc s' = idleproc s \<and>
       wait_state (procs s' p) = 0 \<and> cptr (procs s' p) = NULL \<and> mm (procs s' p) = NULL)"
proof -
  have "small_object sizeof_proc" by (simp add: small_object_def sizeof_proc_def SLOB_UNIT_def PAGE_SIZE_def)
  then obtain p s1 bs' G where k: "kmalloc sizeof_proc s = Inr (p, s1)" "G \<subseteq> F" "heap_frame s s1"
      "p \<noteq> NULL \<longrightarrow> live_objects s1 A bs' (F - G) xs {p}"
    using kmalloc_keeps [OF lv] by (metis (no_types))
  note fr = heap_frame_fields [OF k(3)]
  show ?thesis
  proof (cases "p = NULL")
    case True
    then have "alloc_proc s = Inr (NULL, s1)" using k(1) by (simp add: alloc_proc_def)
    then show ?thesis by blast
  next
    case False
    obtain s' where s': "alloc_proc s = Inr (p, s')" "fresh_process p s1 s'" "wait_state (procs s' p) = 0"
        "cptr (procs s' p) = NULL" "mm (procs s' p) = NULL" "cpu.more s' = cpu.more s1" "idleproc s' = idleproc s1"
      using k(1) False by (auto simp: alloc_proc_def Let_def fresh_process_def upd_proc_def)
    have "live_objects s' A bs' (F - G) xs {p}"
      using k(4) False live_objects_memory [OF same_memory_cpu [OF s'(6)]] by simp
    moreover have "kheap.more s' = kheap.more s1" using s'(6) by (cases s'; cases s1; simp)
    moreover have "fresh_process p s s'" using s'(2) by (simp add: fresh_process_def fr)
    ultimately show ?thesis using s' fr(6,12) by (intro exI [of _ p] exI [of _ s'] exI [of _ bs'] exI [of _ "F - G"]) auto
  qed
qed

section \<open>The idle process\<close>

context kernel_procs begin

lemma idle_ok:
  fixes s s1 :: "'c kernel_scheme" and st :: "64 word" and nm :: "nat \<Rightarrow> 8 word"
  assumes q: "rep s {}" and al: "alloc_proc (init_lists s) = Inr (p, s1)" "p \<noteq> NULL" "live_objects s1 A bs F xs {p}"
      "fresh_process p (init_lists s) s1" "kheap.more s1 = kheap.more (init_lists s)" "idleproc s1 = idleproc (init_lists s)"
      "wait_state (procs s1 p) = 0" "cptr (procs s1 p) = NULL" "mm (procs s1 p) = NULL"
    and zero: "nr_process s = 0" "1 \<le> last_pid s" "next_safe s \<le> last_pid s + 1" "next_safe s \<le> MAX_PID"
  defines "s5 \<equiv> (set_proc_name p nm (upd_proc p (\<lambda>x. x\<lparr>pid := 0, state := PROC_RUNNABLE, kstack := st, need_resched := True\<rparr>) (s1\<lparr>idleproc := p\<rparr>)))
    \<lparr>nr_process := 1, current := p\<rparr>"
  shows "proc_inv_at False rep ready s5 [] (\<lambda>_. [])" "procs_heap s5 A bs F xs {p} K {}" "current s5 = p" "idleproc s5 = p"
    "wait_state (procs s5 p) = 0" "mm (procs s5 p) = NULL" "pid (procs s5 p) = 0" "last_pid s5 = last_pid s"
proof -
  have t1: "same_table (init_lists s) s1" by (rule same_table_heap [OF al(5,6)])
  have f: "proc_links s5 = proc_links (init_lists s)" "hash_links s5 = hash_links (init_lists s)" "last_pid s5 = last_pid s" "next_safe s5 = next_safe s"
    "nr_process s5 = 1" "current s5 = p" "idleproc s5 = p"
    using t1 by (simp_all add: s5_def set_proc_name_def same_table_def init_lists_ok)
  have p5: "procs s5 p = (procs s1 p)\<lparr>pid := 0, state := PROC_RUNNABLE, kstack := st, need_resched := True, name := name (procs s5 p)\<rparr>"
    by (simp add: s5_def set_proc_name_def upd_proc_def)
  show "current s5 = p" "idleproc s5 = p" "last_pid s5 = last_pid s" by (fact f)+
  show "wait_state (procs s5 p) = 0" "mm (procs s5 p) = NULL" "pid (procs s5 p) = 0" using al(7,9) by (subst p5, simp)+
  have "rep (init_lists s) {}" by (rule rep_stable [OF q]) (simp add: same_queue_def init_lists_def)
  then have "rep s1 {}" by (rule fresh_rep [OF al(4)]) simp
  then have "rep s5 {}" by (rule rep_stable) (simp add: same_queue_def s5_def set_proc_name_def)
  then have "sched_ok rep ready {} s5" using al(2) f by (simp add: sched_ok_def runnable_def rq_limit_def)
  moreover have "proc_list s5 []" using init_lists_ok(1) [of s] by (simp only: f)
  then have "pid_ok s5 []" using zero by (simp add: pid_ok_def clear_between_def f)
  moreover have "hash_ok s5 {}" using init_lists_ok(2) [of _ s] by (auto simp: hash_ok_def f intro!: exI [of _ "[]"])
  moreover have "family (procs s5) {} {p} (\<lambda>_. [])" using al(2,8) by (simp add: family_def) (subst p5, simp)
  ultimately show "proc_inv_at False rep ready s5 [] (\<lambda>_. [])" by (simp add: proc_inv_at_def f)
  have "same_memory s1 s5" by (simp add: same_memory_def s5_def set_proc_name_def upd_proc_def)
  from live_objects_memory [OF this] have "live_objects s5 A bs F xs {p}" using al(3) by simp
  then show "procs_heap s5 A bs F xs {p} K {}" by (simp add: procs_heap_def stacks_ok_def f)
qed

text \<open>The invariant becomes the full one when \<open>initproc\<close> is set.\<close>

lemma proc_inv_init:
  assumes inv: "proc_inv_at False rep ready s ps kids" and i: "i \<in> set ps" "parent (procs s i) = idleproc s"
    "\<forall>q \<in> set ps. parent (procs s q) = idleproc s \<longrightarrow> q = i"
  shows "proc_inv rep ready (s\<lparr>initproc := i\<rparr>) ps kids"
proof -
  note D = proc_inv_atD [OF inv]
  have "sched_ok rep ready (set ps) (s\<lparr>initproc := i\<rparr>)"
    by (rule sched_ok_stable [OF D(1)]) (simp_all add: same_queue_def)
  moreover have "pid_ok (s\<lparr>initproc := i\<rparr>) ps" using D(2) by (simp add: pid_ok_def clear_between_def)
  moreover have "hash_ok (s\<lparr>initproc := i\<rparr>) (set ps)" using D(3) by (simp add: hash_ok_def)
  ultimately show ?thesis
    unfolding proc_inv_def
  proof (intro conjI ballI impI)
    fix q assume q: "q \<in> set ps"
    show "waits_ok (procs (s\<lparr>initproc := i\<rparr>) q)" "parent (procs (s\<lparr>initproc := i\<rparr>) q) \<noteq> q"
      "0 < pid (procs (s\<lparr>initproc := i\<rparr>) q)" "pid (procs (s\<lparr>initproc := i\<rparr>) q) < MAX_PID"
      using D(8) [OF q] D(9) [OF q] D(11) [OF q] D(12) [OF q] by simp_all
    show "q = initproc (s\<lparr>initproc := i\<rparr>)" if "parent (procs (s\<lparr>initproc := i\<rparr>) q) = idleproc (s\<lparr>initproc := i\<rparr>)"
      using i(3) q that by simp
  qed (use D(4,5) i(1,2) in simp_all)
qed

lemma proc_init_ok:
  assumes q: "rep s {}" and lv: "live_objects s A bs F xs {}"
    and zero: "nr_process s = 0" "last_pid s = MAX_PID" "next_safe s = MAX_PID"
  shows "proc_init cls resched st main n0 n1 s \<in> {Inl (Panic ''cannot alloc idleproc.''), Inl (Panic ''create init_main failed.'')} \<or>
    (\<exists>c p K s' bs' F'. proc_init cls resched st main n0 n1 s = Inr s' \<and> F' \<subseteq> F \<and> c \<noteq> p \<and> current s' = c \<and> idleproc s' = c \<and> initproc s' = p \<and>
       proc_inv rep ready s' [p] ((\<lambda>_. [])(c := [p], p := [])) \<and> procs_heap s' A bs' F' xs {c, p} K {p} \<and>
       pid (procs s' c) = 0 \<and> pid (procs s' p) = 1 \<and> state (procs s' p) = PROC_RUNNABLE \<and> ctx_ra (ctx (procs s' p)) = forkret s)"
proof -
  have lv0: "live_objects (init_lists s) A bs F xs {}" using lv unfolding live_objects_memory [OF init_lists_ok(7)] .
  obtain c s1 bs1 F1 where al: "alloc_proc (init_lists s) = Inr (c, s1)" "F1 \<subseteq> F"
      "c \<noteq> NULL \<longrightarrow> live_objects s1 A bs1 F1 xs {c} \<and> fresh_process c (init_lists s) s1 \<and> kheap.more s1 = kheap.more (init_lists s) \<and>
        idleproc s1 = idleproc (init_lists s) \<and> wait_state (procs s1 c) = 0 \<and> cptr (procs s1 c) = NULL \<and> mm (procs s1 c) = NULL"
    using alloc_proc_first [OF lv0] by blast
  show ?thesis
  proof (cases "c = NULL")
    case True
    then show ?thesis using al(1) by (simp add: proc_init_def)
  next
    case False
    define s5 where "s5 = (set_proc_name c n0 (upd_proc c (\<lambda>x. x\<lparr>pid := 0, state := PROC_RUNNABLE, kstack := st, need_resched := True\<rparr>) (s1\<lparr>idleproc := c\<rparr>)))
      \<lparr>nr_process := 1, current := c\<rparr>"
    have pre: "1 \<le> last_pid s" "next_safe s \<le> last_pid s + 1" "next_safe s \<le> MAX_PID" using zero by (simp_all add: MAX_PID_val)
    have a: "live_objects s1 A bs1 F1 xs {c}" "fresh_process c (init_lists s) s1" "kheap.more s1 = kheap.more (init_lists s)"
      "idleproc s1 = idleproc (init_lists s)" "wait_state (procs s1 c) = 0" "cptr (procs s1 c) = NULL" "mm (procs s1 c) = NULL"
      using al(3) False by blast+
    note I = idle_ok [OF q al(1) False a zero(1) pre, where nm = n0 and st = st, folded s5_def]
    have "nr_process s1 = 0" using same_table_heap [OF a(3,4)] zero(1) by (simp add: same_table_def init_lists_ok)
    then have run: "proc_init cls resched st main n0 n1 s = obind (kernel_thread cls resched main 0 0 s5) (\<lambda>(n, s6).
          if n \<le> 0 then Inl (Panic ''create init_main failed.'')
          else obind (find_proc n s6) (\<lambda>i.
            let s7 = set_proc_name i n1 (s6\<lparr>initproc := i\<rparr>) in
            kassert (idleproc s7 \<noteq> NULL \<and> pid (procs s7 (idleproc s7)) = 0) ''idleproc->pid == 0''
            (kassert (initproc s7 \<noteq> NULL \<and> pid (procs s7 (initproc s7)) = 1) ''initproc->pid == 1'' (Inr s7))))"
      using al(1) False by (simp add: proc_init_def Let_def s5_def set_proc_name_def)
    define f where "f = zero_trapframe\<lparr>gpr_s0 := main, gpr_s1 := 0, tf_status := (sstatus s5 OR SSTATUS_SPP OR SSTATUS_SPIE) AND NOT SSTATUS_SIE,
      tf_epc := kernel_thread_entry s5\<rparr>"
    have th: "kernel_thread cls resched main 0 0 s5 = do_fork cls resched (0 OR CLONE_VM) 0 f s5" by (simp add: kernel_thread_def f_def)
    have "nr_process s5 < MAX_PROCESS" using proc_inv_atD(5) [OF I(1)] by (simp add: MAX_PROCESS_def)
    from do_fork_ok [OF I(1) I(2) [where K = "\<lambda>_. 0", unfolded list.set(1) [symmetric]] I(3) _ I(5) this, of "0 OR CLONE_VM" resched 0 f] I(4,6,8) zero(2)
    consider (none) s6 where "kernel_thread cls resched main 0 0 s5 = Inr (- E_NO_MEM, s6)"
      | (some) p k s6 bs6 F6 where "kernel_thread cls resched main 0 0 s5 = Inr (1, s6)" "F6 \<subseteq> F1" "p \<notin> {c}"
          "proc_inv_at False rep ready s6 [p] ((\<lambda>_. [])(c := [p], p := []))" "procs_heap s6 A bs6 F6 xs {p, c} ((\<lambda>_. 0)(p := k)) {p}"
          "pid (procs s6 p) = 1" "state (procs s6 p) = PROC_RUNNABLE" "parent (procs s6 p) = c" "current s6 = c" "idleproc s6 = c"
          "ctx_ra (ctx (procs s6 p)) = forkret s5" "\<forall>q. q \<noteq> p \<longrightarrow> links_only (procs s5 q) (procs s6 q)"
      unfolding th by (auto simp: MAX_PID_val)
    then show ?thesis
    proof cases
      case none
      then show ?thesis using run by (simp add: E_NO_MEM_def)
    next
      case some
      define s7 where "s7 = set_proc_name p n1 (s6\<lparr>initproc := p\<rparr>)"
      have ne: "p \<noteq> c" "p \<noteq> NULL" using some(3) proc_inv_atD(13) [OF some(4)] by auto
      have "hash_ok s6 {p}" using proc_inv_atD(3) [OF some(4)] by simp
      then obtain r where "find_proc 1 s6 = Inr r" "r = NULL \<longleftrightarrow> \<not> (0 < (1 :: int) \<and> 1 < MAX_PID) \<or> (\<forall>q \<in> {p}. pid (procs s6 q) \<noteq> 1)"
          "r \<noteq> NULL \<longrightarrow> r \<in> {p} \<and> pid (procs s6 r) = 1" by (rule find_proc_ok)
      then have found: "find_proc 1 s6 = Inr p" using some(6) by (simp add: MAX_PID_val)
      have p7: "procs s7 q = (if q = p then (procs s6 p)\<lparr>name := name (procs s7 p)\<rparr> else procs s6 q)" for q
        by (simp add: s7_def set_proc_name_def upd_proc_def)
      have f7: "current s7 = c" "idleproc s7 = c" "initproc s7 = p" using some(9,10) by (simp_all add: s7_def set_proc_name_def)
      have "pid (procs s6 c) = 0" using links_only_fields(2) [of "procs s5 c" "procs s6 c"] some(12) ne(1) I(7) by simp
      then have pids: "pid (procs s7 c) = 0" "pid (procs s7 p) = 1" using ne(1) some(6) by (subst p7, simp)+
      have ran: "proc_init cls resched st main n0 n1 s = Inr s7"
        using run some(1) found f7 pids False ne(2) by (simp add: s7_def [symmetric])
      have "proc_inv rep ready (s6\<lparr>initproc := p\<rparr>) [p] ((\<lambda>_. [])(c := [p], p := []))"
        by (rule proc_inv_init [OF some(4)]) (use some(8,10) in simp_all)
      then have inv: "proc_inv rep ready s7 [p] ((\<lambda>_. [])(c := [p], p := []))"
        by (rule proc_inv_fields) (simp_all add: s7_def set_proc_name_def same_queue_def same_table_def same_family_def upd_proc_def)
      have heap: "procs_heap s7 A bs6 F6 xs {c, p} ((\<lambda>_. 0)(p := k)) {p}"
        by (rule procs_heap_cong [OF some(5) [unfolded insert_commute [of p]]]) (simp_all add: s7_def set_proc_name_def upd_proc_def)
      have st: "state (procs s7 p) = PROC_RUNNABLE" "ctx_ra (ctx (procs s7 p)) = forkret s5" using some(7,11) by (subst p7, simp)+
      have "forkret s5 = forkret s" using forkret_heap [OF a(3)] by (simp add: s5_def set_proc_name_def init_lists_def upd_proc_def)
      then show ?thesis
        using ran inv heap st pids f7 ne(1) some(2) al(2)
        by (intro disjI2 exI [of _ c] exI [of _ p] exI [of _ "(\<lambda>_. 0)(p := k)"] exI [of _ s7] exI [of _ bs6] exI [of _ F6]) auto
    qed
  qed
qed

end

end
