(* ===== verification/Syscall.thy ===== *)
theory Syscall
  imports Proc_Init
begin

text \<open>
  System calls, kern/syscall/syscall.c and libs/unistd.h: \<open>syscall\<close> takes the number and the arguments
  from the trap frame of the current process and stores the result there.
\<close>

definition SYS_exit :: nat where "SYS_exit = 1"
definition SYS_fork :: nat where "SYS_fork = 2"
definition SYS_wait :: nat where "SYS_wait = 3"
definition SYS_exec :: nat where "SYS_exec = 4"
definition SYS_yield :: nat where "SYS_yield = 10"
definition SYS_kill :: nat where "SYS_kill = 12"
definition SYS_gettime :: nat where "SYS_gettime = 17"
definition SYS_getpid :: nat where "SYS_getpid = 18"
definition SYS_putc :: nat where "SYS_putc = 30"
definition SYS_pgdir :: nat where "SYS_pgdir = 31"
definition SYS_lab6_set_priority :: nat where "SYS_lab6_set_priority = 255"

definition int_arg :: "64 word \<Rightarrow> int" where
  "int_arg w = sint (ucast w :: 32 word)"

type_synonym 'a handler = "64 word list \<Rightarrow> 'a kernel_scheme \<Rightarrow> (int control \<times> 'a kernel_scheme) outcome"

definition ret :: "(int \<times> 'a kernel_scheme) outcome \<Rightarrow> (int control \<times> 'a kernel_scheme) outcome" where
  "ret m = obind m (\<lambda>(v, s). Inr (Returns v, s))"

section \<open>The handlers\<close>

definition sys_exit :: "'a kernel_scheme sched_class \<Rightarrow> 'a handler" where
  "sys_exit cls arg s = obind (do_exit cls (int_arg (arg ! 0)) s) (\<lambda>s1. Inr (Leaves, s1))"

definition sys_fork :: "'a kernel_scheme sched_class \<Rightarrow> ('a kernel_scheme \<Rightarrow> 'a kernel_scheme outcome) \<Rightarrow> 'a handler" where
  "sys_fork cls resched arg s =
     (let f = tframes s (tf (procs s (current s))) in ret (do_fork cls resched 0 (gpr_sp f) f s))"

definition sys_wait :: "'a kernel_scheme sched_class \<Rightarrow> ('a kernel_scheme \<Rightarrow> 'a kernel_scheme outcome) \<Rightarrow> 'a handler" where
  "sys_wait cls resched arg s = do_wait cls resched (int_arg (arg ! 0)) (arg ! 1) s"

definition sys_exec :: "'a kernel_scheme sched_class \<Rightarrow> 'a handler" where
  "sys_exec cls arg s = do_execve cls (arg ! 0) (arg ! 1) (arg ! 2) s"

definition sys_yield :: "'a handler" where
  "sys_yield arg s = ret (Inr (do_yield s))"

definition sys_kill :: "'a kernel_scheme sched_class \<Rightarrow> 'a handler" where
  "sys_kill cls arg s = ret (do_kill cls (int_arg (arg ! 0)) s)"

definition sys_getpid :: "'a handler" where
  "sys_getpid arg s = Inr (Returns (pid (procs s (current s))), s)"

definition sys_putc :: "'a handler" where
  "sys_putc arg s = Inr (Returns 0, s\<lparr>cons_out := cons_out s @ [int_arg (arg ! 0)]\<rparr>)"

definition sys_pgdir :: "'a handler" where
  "sys_pgdir arg s = Inr (Returns 0, s)"

text \<open>\<open>(int)ticks * 10\<close>; an overflow of the product wraps around.\<close>

definition sys_gettime :: "'a handler" where
  "sys_gettime arg s = Inr (Returns (sint (ucast (ticks s) * 10 :: 32 word)), s)"

definition sys_lab6_set_priority :: "'a handler" where
  "sys_lab6_set_priority arg s = Inr (Returns 0, lab6_set_priority (ucast (arg ! 0)) s)"

section \<open>Dispatch\<close>

definition syscalls :: "'a kernel_scheme sched_class \<Rightarrow> ('a kernel_scheme \<Rightarrow> 'a kernel_scheme outcome) \<Rightarrow> nat \<Rightarrow> 'a handler option" where
  "syscalls cls resched = Map.empty(SYS_exit \<mapsto> sys_exit cls, SYS_fork \<mapsto> sys_fork cls resched, SYS_wait \<mapsto> sys_wait cls resched,
     SYS_exec \<mapsto> sys_exec cls, SYS_yield \<mapsto> sys_yield, SYS_kill \<mapsto> sys_kill cls, SYS_getpid \<mapsto> sys_getpid, SYS_putc \<mapsto> sys_putc,
     SYS_pgdir \<mapsto> sys_pgdir, SYS_gettime \<mapsto> sys_gettime, SYS_lab6_set_priority \<mapsto> sys_lab6_set_priority)"

definition NUM_SYSCALLS :: int where "NUM_SYSCALLS = 256"

definition syscall :: "'a kernel_scheme sched_class \<Rightarrow> ('a kernel_scheme \<Rightarrow> 'a kernel_scheme outcome) \<Rightarrow> 'a kernel_scheme \<Rightarrow>
    (unit control \<times> 'a kernel_scheme) outcome" where
  "syscall cls resched s =
     (let a = tf (procs s (current s)); f = tframes s a; num = int_arg (gpr_a0 f) in
      case (if num \<ge> 0 \<and> num < NUM_SYSCALLS then syscalls cls resched (nat num) else None) of
        Some handler \<Rightarrow>
          obind (handler [gpr_a1 f, gpr_a2 f, gpr_a3 f, gpr_a4 f, gpr_a5 f] s) (\<lambda>(r, s1). case r of
            Leaves \<Rightarrow> Inr (Leaves, s1)
          | Returns v \<Rightarrow> Inr (Returns (), upd_frame a (\<lambda>x. x\<lparr>gpr_a0 := word_of_int v\<rparr>) s1))
      | None \<Rightarrow> Inl (Panic ''undefined syscall''))"

end
