(* ===== verification/Trap.thy ===== *)
theory Trap
  imports Syscall
begin

text \<open>
  Interrupts and exceptions, kern/trap/trap.c: \<open>trap\<close> is called with the address of the saved trap
  frame. The timer interrupt drives the scheduler; the other causes print a message, stop the kernel or
  enter a system call. Messages are not modelled. \<open>IRQ_S_TIMER\<close> and the exception codes are those of
  libs/riscv.h.
\<close>

definition IRQ_S_TIMER :: "64 word" where "IRQ_S_TIMER = 5"
definition CAUSE_MISALIGNED_STORE :: "64 word" where "CAUSE_MISALIGNED_STORE = 6"
definition CAUSE_USER_ECALL :: "64 word" where "CAUSE_USER_ECALL = 8"
definition CAUSE_SUPERVISOR_ECALL :: "64 word" where "CAUSE_SUPERVISOR_ECALL = 9"

definition trap_in_kernel :: "trapframe \<Rightarrow> bool" where
  "trap_in_kernel f = (tf_status f AND SSTATUS_SPP \<noteq> 0)"

text \<open>The top bit of the cause marks an interrupt; \<open>(cause << 1) >> 1\<close> on the unsigned field clears it.\<close>

definition interrupt_cause :: "64 word \<Rightarrow> 64 word" where
  "interrupt_cause c = drop_bit 1 (push_bit 1 c)"

definition interrupt_handler :: "'a kernel_scheme sched_class \<Rightarrow> trapframe \<Rightarrow> 'a kernel_scheme \<Rightarrow> 'a kernel_scheme" where
  "interrupt_handler cls f s =
     (if interrupt_cause (tf_cause f) = IRQ_S_TIMER then
        let s1 = s\<lparr>ticks := ticks s + 1\<rparr>
        in if current s1 \<noteq> NULL then sched_class_proc_tick cls (current s1) s1 else s1
      else s)"

definition exception_handler :: "'a kernel_scheme sched_class \<Rightarrow> ('a kernel_scheme \<Rightarrow> 'a kernel_scheme outcome) \<Rightarrow> 64 word \<Rightarrow>
    'a kernel_scheme \<Rightarrow> (unit control \<times> 'a kernel_scheme) outcome" where
  "exception_handler cls resched a s =
     (let c = tf_cause (tframes s a) in
      if c = CAUSE_MISALIGNED_STORE then Inl (Panic ''AMO address misaligned'')
      else if c = CAUSE_USER_ECALL \<or> c = CAUSE_SUPERVISOR_ECALL
      then syscall cls resched (upd_frame a (\<lambda>x. x\<lparr>tf_epc := tf_epc x + 4\<rparr>) s)
      else Inr (Returns (), s))"

definition trap_dispatch :: "'a kernel_scheme sched_class \<Rightarrow> ('a kernel_scheme \<Rightarrow> 'a kernel_scheme outcome) \<Rightarrow> 64 word \<Rightarrow>
    'a kernel_scheme \<Rightarrow> (unit control \<times> 'a kernel_scheme) outcome" where
  "trap_dispatch cls resched a s =
     (if sint (tf_cause (tframes s a)) < 0 then Inr (Returns (), interrupt_handler cls (tframes s a) s)
      else exception_handler cls resched a s)"

definition trap :: "'a kernel_scheme sched_class \<Rightarrow> ('a kernel_scheme \<Rightarrow> 'a kernel_scheme outcome) \<Rightarrow> 64 word \<Rightarrow>
    'a kernel_scheme \<Rightarrow> (unit control \<times> 'a kernel_scheme) outcome" where
  "trap cls resched a s =
     (if current s = NULL then trap_dispatch cls resched a s
      else let otf = tf (procs s (current s));
               s1 = upd_proc (current s) (\<lambda>p. p\<lparr>tf := a\<rparr>) s;
               in_kernel = trap_in_kernel (tframes s1 a)
        in obind (trap_dispatch cls resched a s1) (\<lambda>(r, s2). case r of
             Leaves \<Rightarrow> Inr (Leaves, s2)
           | Returns _ \<Rightarrow>
               let s3 = upd_proc (current s2) (\<lambda>p. p\<lparr>tf := otf\<rparr>) s2 in
               if in_kernel then Inr (Returns (), s3)
               else if flags (procs s3 (current s3)) AND PF_EXITING \<noteq> 0
               then obind (do_exit cls (- E_KILLED) s3) (\<lambda>s4. Inr (Leaves, s4))
               else if need_resched (procs s3 (current s3)) then obind (resched s3) (\<lambda>s4. Inr (Returns (), s4))
               else Inr (Returns (), s3)))"

end
