(* ===== verification/Proc_Props.thy ===== *)
theory Proc_Props
  imports Demo_Kernel Proc_Boot Trap
begin

text \<open>
  The properties of the process manager and of traps, on the stride class with which the kernel is built.
\<close>

section \<open>Process numbers\<close>

text \<open>C10: \<open>get_pid\<close> returns, with a number from 1 to \<open>MAX_PID - 1\<close> that no process has, and keeps the invariant of \<open>last_pid\<close>
  and \<open>next_safe\<close>: no process has a number strictly between them.\<close>
theorem get_pid_fresh:
  assumes "pid_ok s ps" "int (length ps) < MAX_PROCESS"
  shows "\<exists>n ns. get_pid s = Inr (n, s\<lparr>last_pid := n, next_safe := ns\<rparr>) \<and> 1 \<le> n \<and> n < MAX_PID \<and> (\<forall>p \<in> set ps. pid (procs s p) \<noteq> n) \<and>
    pid_ok (s\<lparr>last_pid := n, next_safe := ns\<rparr>) ps"
proof -
  have "int (length ps) < MAX_PID - 1" using assms(2) by (simp add: MAX_PID_def MAX_PROCESS_def)
  then obtain n ns where g: "get_pid s = Inr (n, s\<lparr>last_pid := n, next_safe := ns\<rparr>)" "1 \<le> n" "n < MAX_PID"
      "\<forall>p \<in> set ps. pid (procs s p) \<noteq> n" "ns \<le> MAX_PID" "clear_between s ps (n + 1) ns"
    using get_pid_ok [OF assms(1)] by blast
  then have "pid_ok (s\<lparr>last_pid := n, next_safe := ns\<rparr>) ps" using assms(1) by (simp add: pid_ok_def clear_between_def)
  then show ?thesis using g(1-4) by blast
qed

theorem get_pid_fresh_witness: "\<exists>n s'. get_pid demo_kernel = Inr (n, s') \<and> 1 \<le> n \<and> n \<notin> {1, 2, 3}"
proof -
  have "pid_ok demo_kernel [600, 500, 400]" using proc_invD(2) [OF demo_inv] .
  then show ?thesis using get_pid_fresh [of demo_kernel "[600, 500, 400]"] by (auto simp: demo_tasks_def MAX_PROCESS_def)
qed

text \<open>C11: \<open>find_proc\<close> returns and finds exactly the process with the number, NULL when none has it or the number is out of range.\<close>
theorem find_proc_exact:
  assumes "hash_ok s P"
  shows "\<exists>r. find_proc n s = Inr r \<and> (r \<noteq> NULL \<longrightarrow> r \<in> P \<and> pid (procs s r) = n) \<and>
    (0 < n \<and> n < MAX_PID \<longrightarrow> (\<forall>p \<in> P. pid (procs s p) = n \<longrightarrow> r = p)) \<and> (\<not> (0 < n \<and> n < MAX_PID) \<longrightarrow> r = NULL)"
proof -
  obtain r where r: "find_proc n s = Inr r" "r = NULL \<longleftrightarrow> \<not> (0 < n \<and> n < MAX_PID) \<or> (\<forall>p \<in> P. pid (procs s p) \<noteq> n)"
      "r \<noteq> NULL \<longrightarrow> r \<in> P \<and> pid (procs s r) = n" using find_proc_ok [OF assms] by blast
  have "inj_on (\<lambda>p. pid (procs s p)) P" using assms by (simp add: hash_ok_def)
  then have "r = p" if "0 < n" "n < MAX_PID" "p \<in> P" "pid (procs s p) = n" for p
    using r(2,3) that unfolding inj_on_def by blast
  then show ?thesis using r by blast
qed

theorem find_proc_exact_witness: "find_proc 3 demo_kernel = Inr 600"
proof -
  have "hash_ok demo_kernel {600, 500, 400}" by (rule demo_hash_ok)
  from find_proc_exact [OF this, of 3] show ?thesis by (auto simp: demo_tasks_def MAX_PID_val)
qed

section \<open>The first processes\<close>

lemma sched_init_frame:
  assumes "sched_init False s = (cls, s1)"
  shows "cls = stride_sched_class" "stride_rep s1 {}" "sched.more s1 = sched.more s"
proof -
  have e: "s1 = stride_init (upd_runq (\<lambda>r. r\<lparr>max_time_slice := MAX_TIME_SLICE\<rparr>) s)" "cls = stride_sched_class"
    using assms by (simp_all add: sched_init_def Let_def stride_sched_class_def)
  show "cls = stride_sched_class" by (rule e(2))
  show "stride_rep s1 {}" unfolding e(1) by (rule stride.init_rep)
  show "sched.more s1 = sched.more s" unfolding e(1) stride.init_frame(2) by (simp add: upd_runq_def)
qed



section \<open>The life of a process\<close>







text \<open>C9: \<open>do_kill\<close> returns \<open>-E_INVAL\<close> when no process has the number and \<open>-E_KILLED\<close> when it is already being killed, changing
  nothing. Otherwise it marks exactly that process, wakes it when it waits, changes no other process, and keeps the invariant.\<close>
theorem do_kill_correct:
  assumes "proc_inv stride_rep has_priority s ps kids"
  shows "(do_kill stride_sched_class n s = Inr (- E_INVAL, s) \<and> (\<forall>p \<in> set ps. pid (procs s p) \<noteq> n)) \<or>
    (\<exists>p \<in> set ps. pid (procs s p) = n \<and>
      (if flags (procs s p) AND PF_EXITING \<noteq> 0 then do_kill stride_sched_class n s = Inr (- E_KILLED, s)
       else \<exists>s'. do_kill stride_sched_class n s = Inr (0, s') \<and> proc_inv stride_rep has_priority s' ps kids \<and>
         flags (procs s' p) = flags (procs s p) OR PF_EXITING \<and> (\<forall>q. q \<noteq> p \<longrightarrow> procs s' q = procs s q) \<and>
         state (procs s' p) = (if wait_state (procs s p) = 0 then state (procs s p) else PROC_RUNNABLE)))"
  by (rule stride_procs.do_kill_ok [OF assms, of n]) (blast, auto)

theorem do_kill_correct_witness:
  "\<exists>s'. do_kill stride_sched_class 1 demo_kernel = Inr (0, s') \<and> flags (procs s' 400) = PF_EXITING \<and> state (procs s' 400) = PROC_RUNNABLE"
  using do_kill_correct [OF demo_inv, of 1] by (auto simp: demo_tasks_def WT_CHILD_def WT_INTERRUPTED_def)

section \<open>Traps\<close>

lemma syscalls_undefined: "k \<notin> {1, 2, 3, 4, 10, 12, 17, 18, 30, 31, 255} \<Longrightarrow> syscalls cls resched k = None"
  by (simp add: syscalls_def SYS_exit_def SYS_fork_def SYS_wait_def SYS_exec_def SYS_yield_def SYS_kill_def SYS_getpid_def SYS_putc_def
      SYS_pgdir_def SYS_gettime_def SYS_lab6_set_priority_def)

text \<open>C13: An environment call whose number (the low 32 bits of \<open>a0\<close>, signed) is not in the table stops the kernel, from user mode too: no
  error is returned to the program.\<close>
theorem undefined_syscall_panics:
  assumes "tf_cause (tframes s a) = CAUSE_USER_ECALL" "current s \<noteq> NULL"
    and "int_arg (gpr_a0 (tframes s a)) \<notin> {1, 2, 3, 4, 10, 12, 17, 18, 30, 31, 255}"
  shows "trap cls resched a s = Inl (Panic ''undefined syscall'')"
proof -
  let ?s1 = "upd_proc (current s) (\<lambda>p. p\<lparr>tf := a\<rparr>) s"
  define t where "t = upd_frame a (\<lambda>x. x\<lparr>tf_epc := tf_epc x + 4\<rparr>) ?s1"
  have t: "tf (procs t (current t)) = a" "gpr_a0 (tframes t a) = gpr_a0 (tframes s a)"
    by (simp_all add: t_def upd_frame_def upd_proc_def)
  define m where "m = int_arg (gpr_a0 (tframes s a))"
  have "syscalls cls resched (nat m) = None" if "m \<ge> 0"
  proof -
    obtain k where k: "m = int k" using \<open>m \<ge> 0\<close> by (rule nonneg_int_cases)
    then have "nat m \<notin> {1, 2, 3, 4, 10, 12, 17, 18, 30, 31, 255}" using assms(3) unfolding m_def [symmetric] by auto
    then show ?thesis by (rule syscalls_undefined)
  qed
  then have "(if m \<ge> 0 \<and> m < NUM_SYSCALLS then syscalls cls resched (nat m) else None) = None" by simp
  then have "syscall cls resched t = Inl (Panic ''undefined syscall'')" unfolding syscall_def Let_def t m_def by simp
  moreover have "tframes ?s1 = tframes s" by (simp add: upd_proc_def)
  ultimately have "trap_dispatch cls resched a ?s1 = Inl (Panic ''undefined syscall'')"
    using assms(1) by (simp add: trap_dispatch_def exception_handler_def t_def [symmetric] CAUSE_USER_ECALL_def CAUSE_MISALIGNED_STORE_def)
  then show ?thesis using assms(2) by (simp add: trap_def Let_def)
qed

theorem undefined_syscall_panics_witness:
  "trap stride_sched_class Inr 0x1000 demo_kernel = Inl (Panic ''undefined syscall'')"
  by (rule undefined_syscall_panics) (simp_all add: demo_frame_def zero_trapframe_def CAUSE_USER_ECALL_def int_arg_def)

text \<open>C12: A timer interrupt in user mode, while a process other than the idle process runs with some of its time slice left, counts one
  tick, takes one from the slice and touches no other process. When the slice is used up the process gives the processor away
  through \<open>schedule()\<close> before it returns to user mode, otherwise it goes on at once.\<close>
theorem timer_preempts:
  fixes s :: "'a kernel_scheme"
  assumes "tf_cause (tframes s a) = 0x8000000000000005" "\<not> trap_in_kernel (tframes s a)" "current s = c" "c \<noteq> NULL" "c \<noteq> idleproc s"
    and "flags (procs s c) AND PF_EXITING = 0" "\<not> need_resched (procs s c)" "0 < time_slice (procs s c)"
  shows "\<exists>s'. ticks s' = ticks s + 1 \<and> current s' = c \<and> time_slice (procs s' c) = time_slice (procs s c) - 1 \<and> tf (procs s' c) = tf (procs s c) \<and>
    (need_resched (procs s' c) \<longleftrightarrow> time_slice (procs s c) = 1) \<and> (\<forall>q. q \<noteq> c \<longrightarrow> procs s' q = procs s q) \<and>
    trap stride_sched_class resched a s =
      (if time_slice (procs s c) = 1 then obind (resched s') (\<lambda>s4. Inr (Returns (), s4)) else Inr (Returns (), s'))"
proof -
  let ?s1 = "upd_proc c (\<lambda>p. p\<lparr>tf := a\<rparr>) s"
  define s2 where "s2 = tick_slice c (?s1\<lparr>ticks := ticks ?s1 + 1\<rparr>)"
  define s' where "s' = upd_proc c (\<lambda>p. p\<lparr>tf := tf (procs s c)\<rparr>) s2"
  have irq: "interrupt_cause 0x8000000000000005 = IRQ_S_TIMER" "sint (0x8000000000000005 :: 64 word) < 0"
    by (simp_all add: interrupt_cause_def IRQ_S_TIMER_def)
  have e1: "tframes ?s1 = tframes s" "current ?s1 = c" "idleproc ?s1 = idleproc s" using assms(3) by (simp_all add: upd_proc_def)
  have "trap_dispatch stride_sched_class resched a ?s1 = Inr (Returns (), s2)"
    using assms(1,4,5) irq e1
    by (simp add: trap_dispatch_def interrupt_handler_def Let_def sched_class_proc_tick_def stride_sched_class_def stride_proc_tick_def s2_def)
  moreover have f2: "current s2 = c" "ticks s2 = ticks s + 1" "procs s2 q = (if q = c then (procs s c)\<lparr>tf := a, time_slice := time_slice (procs s c) - 1,
      need_resched := (time_slice (procs s c) = 1)\<rparr> else procs s q)" for q
    using assms(3,7,8) by (auto simp: s2_def tick_slice_def Let_def upd_proc_def)
  moreover have p': "procs s' q = (if q = c then (procs s c)\<lparr>time_slice := time_slice (procs s c) - 1,
      need_resched := (time_slice (procs s c) = 1)\<rparr> else procs s q)" "current s' = c" "ticks s' = ticks s + 1" for q
    by (simp_all add: s'_def f2) (simp_all add: upd_proc_def f2)
  ultimately have "trap stride_sched_class resched a s =
      (if time_slice (procs s c) = 1 then obind (resched s') (\<lambda>s4. Inr (Returns (), s4)) else Inr (Returns (), s'))"
    using assms(2-4,6) by (simp add: trap_def Let_def e1 s'_def [symmetric])
  then show ?thesis using p' by (intro exI [of _ s']) simp
qed

theorem timer_preempts_witness:
  "\<exists>s'. trap stride_sched_class Inr 0x1000 (demo_kernel\<lparr>tframes := \<lambda>_. demo_frame\<lparr>tf_cause := 0x8000000000000005\<rparr>\<rparr>) = Inr (Returns (), s') \<and> ticks s' = 1"
proof -
  let ?s = "demo_kernel\<lparr>tframes := \<lambda>_. demo_frame\<lparr>tf_cause := 0x8000000000000005\<rparr>\<rparr>"
  have "tf_cause (tframes ?s 0x1000) = 0x8000000000000005" "\<not> trap_in_kernel (tframes ?s 0x1000)" "current ?s = 500" "500 \<noteq> NULL" "500 \<noteq> idleproc ?s"
    "flags (procs ?s 500) AND PF_EXITING = 0" "\<not> need_resched (procs ?s 500)" "0 < time_slice (procs ?s 500)"
    by (simp_all add: trap_in_kernel_def demo_frame_def zero_trapframe_def demo_tasks_def demo_task_def)
  from timer_preempts [OF this, of Inr] show ?thesis by (auto simp: demo_tasks_def demo_task_def demo_kernel_def)
qed

end
