(* ===== verification/Byte_Memory.thy ===== *)
theory Byte_Memory
  imports Strings
begin

text \<open>
  Lists of bytes in memory, which the device tree, the line reader and the monitor share: \<open>bytes_at m a xs\<close> says that the
  bytes \<open>xs\<close> lie at the address \<open>a\<close>, \<open>placed b xs\<close> is the memory with \<open>xs\<close> at \<open>b\<close> and 0 elsewhere.
\<close>

fun bytes_at :: "bytes \<Rightarrow> 64 word \<Rightarrow> 8 word list \<Rightarrow> bool" where
  "bytes_at m a [] \<longleftrightarrow> True"
| "bytes_at m a (x # xs) \<longleftrightarrow> m a = x \<and> bytes_at m (a + 1) xs"

lemma bytes_at_append: "bytes_at m a (xs @ ys) \<longleftrightarrow> bytes_at m a xs \<and> bytes_at m (a + of_nat (length xs)) ys"
  by (induction xs arbitrary: a) (auto simp: ac_simps)

lemma bytes_at_cstring: "bytes_at m a (xs @ [0]) \<Longrightarrow> 0 \<notin> set xs \<Longrightarrow> cstring m a xs"
  by (induction xs arbitrary: a) auto

lemma cstring_bytes_at: "cstring m a xs \<longleftrightarrow> bytes_at m a (xs @ [0]) \<and> 0 \<notin> set xs"
  by (induction xs arbitrary: a) auto

lemma bytes_at_cong: "bytes_at m a xs \<Longrightarrow> (\<And>i. i < length xs \<Longrightarrow> m' (a + of_nat i) = m (a + of_nat i)) \<Longrightarrow> bytes_at m' a xs"
proof (induction xs arbitrary: a)
  case (Cons x xs)
  have "m' (a + 1 + of_nat i) = m (a + 1 + of_nat i)" if "i < length xs" for i
    using Cons.prems(2) [of "Suc i"] that by (simp add: add.assoc)
  then show ?case using Cons.IH [of "a + 1"] Cons.prems(1) Cons.prems(2) [of 0] by simp
qed simp

lemma of_nat_offset: "i < 2 ^ 64 \<Longrightarrow> j < 2 ^ 64 \<Longrightarrow> a + of_nat i = a + of_nat j \<longleftrightarrow> i = j" for a :: "64 word"
  by (metis add_left_cancel unat_of_nat64)

lemma bytes_at_extend:
  assumes "bytes_at m a xs" "length xs < 2 ^ 64"
  shows "bytes_at (m(a + of_nat (length xs) := x)) a (xs @ [x])"
proof -
  have "bytes_at (m(a + of_nat (length xs) := x)) a xs"
    using assms of_nat_offset by (intro bytes_at_cong [OF assms(1)]) auto
  then show ?thesis by (simp add: bytes_at_append)
qed

definition placed :: "64 word \<Rightarrow> 8 word list \<Rightarrow> bytes" where
  "placed b xs = (\<lambda>a. if unat (a - b) < length xs then xs ! unat (a - b) else 0)"

lemma bytes_at_placed:
  assumes "length xs < 2 ^ 64" "k + length ys \<le> length xs" "take (length ys) (drop k xs) = ys"
  shows "bytes_at (placed b xs) (b + of_nat k) ys"
  using assms
proof (induction ys arbitrary: k)
  case (Cons y ys)
  have "k < length xs" "unat (of_nat k :: 64 word) = k" using Cons.prems(1,2) by (simp_all add: unat_of_nat64)
  moreover from Cons.prems(3) have "drop k xs = y # drop (Suc k) xs"
    using \<open>k < length xs\<close> by (simp add: Cons_nth_drop_Suc [symmetric])
  then have "xs ! k = y" using \<open>k < length xs\<close> by (simp add: Cons_nth_drop_Suc [symmetric])
  moreover have "bytes_at (placed b xs) (b + of_nat (Suc k)) ys"
    using Cons.prems \<open>drop k xs = _\<close> by (intro Cons.IH) simp_all
  ultimately show ?case by (simp add: placed_def ac_simps)
qed simp

end
