(* ===== verification/Device_Tree.thy ===== *)
theory Device_Tree
  imports Byte_Memory Page_Range
begin

text \<open>
  The device tree the firmware leaves in memory, kern/driver/dtb.c: \<open>dtb_init\<close> looks for the \<open>reg\<close> property of
  the memory node. Numbers are big-endian in the tree and little-endian in the processor. The messages on the console
  are not modelled; the literals \<open>"memory"\<close> and \<open>"reg"\<close> lie where the linker put them.
\<close>

section \<open>Reading numbers\<close>

definition load32 :: "bytes \<Rightarrow> 64 word \<Rightarrow> 32 word" where
  "load32 m a = ucast (m a) OR push_bit 8 (ucast (m (a + 1))) OR push_bit 16 (ucast (m (a + 2))) OR push_bit 24 (ucast (m (a + 3)))"

definition load64 :: "bytes \<Rightarrow> 64 word \<Rightarrow> 64 word" where
  "load64 m a = ucast (load32 m a) OR push_bit 32 (ucast (load32 m (a + 4)))"

definition fdt32_to_cpu :: "32 word \<Rightarrow> 32 word" where
  "fdt32_to_cpu x = push_bit 24 (x AND 0xff) OR push_bit 16 (drop_bit 8 x AND 0xff) OR push_bit 8 (drop_bit 16 x AND 0xff) OR (drop_bit 24 x AND 0xff)"

definition fdt64_to_cpu :: "64 word \<Rightarrow> 64 word" where
  "fdt64_to_cpu x = push_bit 32 (ucast (fdt32_to_cpu (ucast (x AND 0xffffffff)))) OR ucast (fdt32_to_cpu (ucast (drop_bit 32 x)))"

section \<open>The scan\<close>

definition FDT_BEGIN_NODE :: "32 word" where "FDT_BEGIN_NODE = 1"
definition FDT_END_NODE :: "32 word" where "FDT_END_NODE = 2"
definition FDT_PROP :: "32 word" where "FDT_PROP = 3"
definition FDT_NOP :: "32 word" where "FDT_NOP = 4"
definition FDT_END :: "32 word" where "FDT_END = 9"

text \<open>\<open>lmem\<close> and \<open>lreg\<close> are the addresses of the two literals, \<open>strs\<close> is \<open>strings_base\<close>, \<open>p\<close> is \<open>struct_ptr\<close>; the length of a
  name is an \<open>int\<close>.\<close>

partial_function (option) memory_scan :: "bytes \<Rightarrow> 64 word \<Rightarrow> 64 word \<Rightarrow> 64 word \<Rightarrow> 64 word \<Rightarrow> bool \<Rightarrow> ((64 word \<times> 64 word) option) outcome option" where
  "memory_scan m lmem lreg strs p in_memory_node =
     (let token = fdt32_to_cpu (load32 m p); p1 = p + 4 in
      if token = FDT_BEGIN_NODE then
        loop_bind (strlen m p1) (\<lambda>n.
          let name_len = ucast n :: 32 word in
          memory_scan m lmem lreg strs ((p1 + scast name_len + 4) AND NOT 3) (if strncmp m p1 lmem 6 = 0 then True else in_memory_node))
      else if token = FDT_END_NODE then memory_scan m lmem lreg strs p1 False
      else if token = FDT_PROP then
        let prop_len = fdt32_to_cpu (load32 m p1);
            prop_nameoff = fdt32_to_cpu (load32 m (p1 + 4));
            prop_name = strs + ucast prop_nameoff;
            prop_data = p1 + 8 in
        loop_bind (if in_memory_node then strcmp m prop_name lreg else Inr 1) (\<lambda>c.
          if in_memory_node \<and> c = 0 \<and> prop_len \<ge> 16
          then Some (Inr (Some (fdt64_to_cpu (load64 m prop_data), fdt64_to_cpu (load64 m (prop_data + 8)))))
          else memory_scan m lmem lreg strs ((prop_data + ucast prop_len + 3) AND NOT 3) in_memory_node)
      else if token = FDT_NOP then memory_scan m lmem lreg strs p1 in_memory_node
      else Some (Inr None))"

text \<open>The offsets of \<open>magic\<close>, \<open>off_dt_struct\<close> and \<open>off_dt_strings\<close> in the header are 0, 8 and 12.\<close>

definition extract_memory_info :: "bytes \<Rightarrow> 64 word \<Rightarrow> 64 word \<Rightarrow> 64 word \<Rightarrow> ((64 word \<times> 64 word) option) outcome" where
  "extract_memory_info m lmem lreg dtb_vaddr =
     (let struct_offset = fdt32_to_cpu (load32 m (dtb_vaddr + 8));
          strings_offset = fdt32_to_cpu (load32 m (dtb_vaddr + 12))
      in finish (memory_scan m lmem lreg (dtb_vaddr + ucast strings_offset) (dtb_vaddr + ucast struct_offset) False))"

text \<open>The two static variables.\<close>

record dtb_info =
  memory_base :: "64 word"
  memory_size :: "64 word"

definition dtb_init :: "bytes \<Rightarrow> 64 word \<Rightarrow> 64 word \<Rightarrow> 64 word \<Rightarrow> dtb_info \<Rightarrow> dtb_info outcome" where
  "dtb_init m lmem lreg boot_dtb d =
     (if boot_dtb = 0 then Inr d
      else let dtb_vaddr = boot_dtb + PHYSICAL_MEMORY_OFFSET; magic = fdt32_to_cpu (load32 m dtb_vaddr) in
        if magic \<noteq> 0xd00dfeed then Inr d
        else obind (extract_memory_info m lmem lreg dtb_vaddr) (\<lambda>r. case r of
          Some (mem_base, mem_size) \<Rightarrow> Inr (d\<lparr>memory_base := mem_base, memory_size := mem_size\<rparr>)
        | None \<Rightarrow> Inr d))"

definition get_memory_base :: "dtb_info \<Rightarrow> 64 word" where "get_memory_base d = memory_base d"
definition get_memory_size :: "dtb_info \<Rightarrow> 64 word" where "get_memory_size d = memory_size d"

declare memory_scan.simps [code]

section \<open>Big-endian numbers\<close>

definition be32 :: "32 word \<Rightarrow> 8 word list" where
  "be32 w = [ucast (drop_bit 24 w), ucast (drop_bit 16 w), ucast (drop_bit 8 w), ucast w]"

definition be_value :: "8 word list \<Rightarrow> 64 word" where
  "be_value xs = foldl (\<lambda>v x. push_bit 8 v OR ucast x) 0 xs"

lemma length_be32 [simp]: "length (be32 w) = 4"
  by (simp add: be32_def)

lemma bit_ff: "bit (0xff :: 32 word) n \<longleftrightarrow> n < 8"
proof -
  have e: "(0xff :: 32 word) = mask 8" by (simp add: mask_eq_exp_minus_1)
  show ?thesis unfolding e by (auto simp: bit_mask_iff)
qed

text \<open>The bits of a widened byte and of a widened or narrowed half.\<close>

lemma bit_of_byte: "bit (ucast b :: 32 word) n \<longleftrightarrow> n < 8 \<and> bit b n" "bit (ucast b :: 64 word) n \<longleftrightarrow> n < 8 \<and> bit b n" for b :: "8 word"
  by (auto simp: bit_unsigned_iff dest: bit_imp_le_length)

lemma bit_of_half: "bit (ucast h :: 64 word) n \<longleftrightarrow> n < 32 \<and> bit h n" for h :: "32 word"
  by (auto simp: bit_unsigned_iff dest: bit_imp_le_length)

lemma bit_to_half: "bit (ucast w :: 32 word) n \<longleftrightarrow> n < 32 \<and> bit w n" for w :: "64 word"
  by (auto simp: bit_unsigned_iff)

lemma bit_to_byte: "bit (ucast w :: 8 word) n \<longleftrightarrow> n < 8 \<and> bit w n" for w :: "32 word"
  by (auto simp: bit_unsigned_iff)

lemmas byte_bits = bit_or_iff bit_and_iff bit_push_bit_iff bit_drop_bit_eq bit_of_byte bit_of_half bit_to_half bit_to_byte bit_ff

text \<open>A bit of a word lies in one of its bytes.\<close>

lemma bytes32:
  fixes n :: nat
  assumes "n < 32"
  obtains i where "i < 8" "n = i" | i where "i < 8" "n = 8 + i" | i where "i < 8" "n = 16 + i" | i where "i < 8" "n = 24 + i"
proof -
  have *: "n < 8 \<or> n - 8 < 8 \<and> n = 8 + (n - 8) \<or> n - 16 < 8 \<and> n = 16 + (n - 16) \<or> n - 24 < 8 \<and> n = 24 + (n - 24)"
    using assms by arith
  then show thesis using that by blast
qed

lemma swap_load32:
  "fdt32_to_cpu (load32 m a) = push_bit 24 (ucast (m a)) OR push_bit 16 (ucast (m (a + 1))) OR push_bit 8 (ucast (m (a + 2))) OR ucast (m (a + 3))"
proof -
  define ff :: "32 word" where "ff = 0xff"
  have f: "bit ff n \<longleftrightarrow> n < 8" for n by (simp only: ff_def bit_ff)
  show ?thesis unfolding fdt32_to_cpu_def load32_def ff_def [symmetric]
  proof (rule bit_word_eqI)
    fix n assume "n < LENGTH(32)"
    then have "n < 32" by simp
    then show "bit (push_bit 24 ((ucast (m a) OR push_bit 8 (ucast (m (a + 1))) OR push_bit 16 (ucast (m (a + 2))) OR push_bit 24 (ucast (m (a + 3)))) AND ff) OR
        push_bit 16 (drop_bit 8 (ucast (m a) OR push_bit 8 (ucast (m (a + 1))) OR push_bit 16 (ucast (m (a + 2))) OR push_bit 24 (ucast (m (a + 3)))) AND ff) OR
        push_bit 8 (drop_bit 16 (ucast (m a) OR push_bit 8 (ucast (m (a + 1))) OR push_bit 16 (ucast (m (a + 2))) OR push_bit 24 (ucast (m (a + 3)))) AND ff) OR
        (drop_bit 24 (ucast (m a) OR push_bit 8 (ucast (m (a + 1))) OR push_bit 16 (ucast (m (a + 2))) OR push_bit 24 (ucast (m (a + 3)))) AND ff)) n =
      bit (push_bit 24 (ucast (m a)) OR push_bit 16 (ucast (m (a + 1))) OR push_bit 8 (ucast (m (a + 2))) OR ucast (m (a + 3)) :: 32 word) n"
      by (cases rule: bytes32) (simp_all add: byte_bits f)
  qed
qed

lemma swap32:
  assumes "bytes_at m a (be32 w)"
  shows "fdt32_to_cpu (load32 m a) = w"
proof (rule bit_word_eqI)
  fix n assume "n < LENGTH(32)"
  then have "n < 32" by simp
  have m: "m a = ucast (drop_bit 24 w)" "m (a + 1) = ucast (drop_bit 16 w)" "m (a + 2) = ucast (drop_bit 8 w)" "m (a + 3) = ucast w"
    using assms by (simp_all add: be32_def add.assoc)
  from \<open>n < 32\<close> show "bit (fdt32_to_cpu (load32 m a)) n = bit w n"
    by (cases rule: bytes32) (simp_all add: swap_load32 m byte_bits)
qed

lemma load64_halves:
  "ucast (load64 m a AND 0xffffffff) = load32 m a" "ucast (drop_bit 32 (load64 m a)) = load32 m (a + 4)"
proof -
  have ff: "(0xffffffff :: 64 word) = mask 32" by (simp add: mask_eq_exp_minus_1)
  show "ucast (load64 m a AND 0xffffffff) = load32 m a"
    unfolding ff load64_def by (rule bit_word_eqI) (simp add: byte_bits bit_mask_iff)
  show "ucast (drop_bit 32 (load64 m a)) = load32 m (a + 4)"
    unfolding load64_def by (rule bit_word_eqI) (simp add: byte_bits)
qed

lemma swap64:
  assumes "bytes_at m a xs" "length xs = 8"
  shows "fdt64_to_cpu (load64 m a) = be_value xs"
proof -
  obtain x0 x1 x2 x3 x4 x5 x6 x7 where xs: "xs = [x0, x1, x2, x3, x4, x5, x6, x7]"
    using assms(2) by (auto simp: eval_nat_numeral length_Suc_conv)
  have m: "m a = x0" "m (a + 1) = x1" "m (a + 2) = x2" "m (a + 3) = x3" "m (a + 4) = x4"
    "m (a + 4 + 1) = x5" "m (a + 4 + 2) = x6" "m (a + 4 + 3) = x7"
    using assms(1) by (simp_all add: xs add.assoc)
  show ?thesis
    unfolding fdt64_to_cpu_def load64_halves swap_load32 xs be_value_def m
  proof (rule bit_word_eqI)
    fix n assume n: "n < LENGTH(64)"
    let ?l = "push_bit 32 (ucast (push_bit 24 (ucast x0) OR push_bit 16 (ucast x1) OR push_bit 8 (ucast x2) OR ucast x3 :: 32 word)) OR
      ucast (push_bit 24 (ucast x4) OR push_bit 16 (ucast x5) OR push_bit 8 (ucast x6) OR ucast x7 :: 32 word) :: 64 word"
    let ?r = "foldl (\<lambda>v x. push_bit 8 v OR ucast x) 0 [x0, x1, x2, x3, x4, x5, x6, x7] :: 64 word"
    show "bit ?l n = bit ?r n"
    proof (cases "n < 32")
      case True
      then show ?thesis by (cases rule: bytes32) (simp_all add: byte_bits)
    next
      case False
      then have "n - 32 < 32" and n: "n = 32 + (n - 32)" using n by simp_all
      from this(1) show ?thesis by (cases rule: bytes32; subst (1 2) n) (simp_all add: byte_bits)
    qed
  qed
qed

section \<open>Alignment and strings\<close>

lemma aligned_up:
  fixes p :: "64 word"
  assumes "take_bit 2 p = 0"
  shows "(p + of_nat k) AND NOT 3 = p + of_nat (k - k mod 4)" "\<And>j. take_bit 2 (p + of_nat (4 * j)) = 0"
    "take_bit 2 (p + of_nat (k - k mod 4)) = 0"
proof -
  have m: "(3 :: 64 word) = mask 2" by (simp add: mask_eq_exp_minus_1)
  have tb: "take_bit 2 w = of_nat (unat w mod 4)" for w :: "64 word"
    by (rule word_unat_eq_iff [THEN iffD2]) (simp add: unsigned_take_bit_eq unat_of_nat64 take_bit_eq_mod unat_mod)
  have "unat (take_bit 2 p) = 0" using assms by simp
  then have z: "unat p mod 4 = 0" by (simp add: unsigned_take_bit_eq take_bit_eq_mod unat_mod)
  have u: "unat (p + of_nat i) mod 4 = i mod 4" for i
  proof -
    have "unat (p + of_nat i) = (unat p + i) mod 2 ^ 64"
      by (simp add: unat_word_ariths unat_of_nat mod_add_right_eq)
    also have "\<dots> mod 4 = (unat p + i) mod 4" by (rule mod_mod_cancel) simp
    also have "\<dots> = (unat p mod 4 + i) mod 4" by (rule mod_add_left_eq [symmetric])
    finally show ?thesis using z by simp
  qed
  have t: "take_bit 2 (p + of_nat i) = of_nat (i mod 4)" for i
    unfolding tb u by (rule refl)
  have "w AND NOT (mask 2) = w - take_bit 2 w" for w :: "64 word"
  proof -
    have "w AND NOT (mask 2) = w AND NOT (take_bit 2 w)"
      by (rule bit_word_eqI) (auto simp: bit_and_iff bit_not_iff bit_mask_iff bit_take_bit_iff)
    also have "\<dots> = w - take_bit 2 w"
      by (rule disjunctive_diff_eq_and_not [symmetric]) (rule bit_word_eqI, auto simp: bit_and_iff bit_not_iff bit_take_bit_iff)
    finally show ?thesis .
  qed
  from this [of "p + of_nat k"] have "(p + of_nat k) AND NOT (mask 2) = (p + of_nat k) - take_bit 2 (p + of_nat k)" .
  then show "(p + of_nat k) AND NOT 3 = p + of_nat (k - k mod 4)" by (simp add: m t of_nat_diff)
  show a: "take_bit 2 (p + of_nat (4 * j)) = 0" for j by (subst t) simp
  show "take_bit 2 (p + of_nat (k - k mod 4)) = 0" unfolding minus_mod_eq_mult_div by (rule a)
qed

lemma strncmp_zero:
  "cstring m s1 xs \<Longrightarrow> cstring m s2 ys \<Longrightarrow> strncmp m s1 s2 n = 0 \<longleftrightarrow> take n xs = take n ys"
proof (induction m s1 s2 n arbitrary: xs ys rule: strncmp.induct)
  case (2 m s1 s2 n)
  then show ?case by (cases xs; cases ys) (auto simp: word_uint_eq_iff [symmetric])
qed simp

lemma strcmp_zero: "cstring m s1 xs \<Longrightarrow> cstring m s2 ys \<Longrightarrow> \<exists>r. strcmp m s1 s2 = Inr r \<and> (r = 0 \<longleftrightarrow> xs = ys)"
  using strcmp_loop_ok [of m s1 xs s2 ys] by (auto simp: strcmp_def)

section \<open>The tree as a list of tokens\<close>

text \<open>The structure block of a device tree, and what the scan looks for in it: the first \<open>reg\<close> of at least 16 bytes between the
  begin of a node whose name starts with \<open>memory\<close> and the next end of a node. \<open>names\<close> gives the string at an offset.\<close>

datatype item = Begin_node "8 word list" | End_node | Property "32 word" "8 word list" | Nop

definition pad4 :: "8 word list \<Rightarrow> 8 word list" where
  "pad4 xs = xs @ replicate ((4 - length xs mod 4) mod 4) 0"

fun item_bytes :: "item \<Rightarrow> 8 word list" where
  "item_bytes (Begin_node nm) = be32 FDT_BEGIN_NODE @ pad4 (nm @ [0])"
| "item_bytes End_node = be32 FDT_END_NODE"
| "item_bytes (Property off data) = be32 FDT_PROP @ be32 (of_nat (length data)) @ be32 off @ pad4 data"
| "item_bytes Nop = be32 FDT_NOP"

definition struct_bytes :: "item list \<Rightarrow> 8 word list" where
  "struct_bytes items = concat (map item_bytes items) @ be32 FDT_END"

fun item_ok :: "item \<Rightarrow> bool" where
  "item_ok (Begin_node nm) \<longleftrightarrow> 0 \<notin> set nm \<and> length nm < 2 ^ 31"
| "item_ok (Property off data) \<longleftrightarrow> length data < 2 ^ 32"
| "item_ok _ \<longleftrightarrow> True"

fun find_reg :: "(32 word \<Rightarrow> 8 word list) \<Rightarrow> bool \<Rightarrow> item list \<Rightarrow> (64 word \<times> 64 word) option" where
  "find_reg names inside [] = None"
| "find_reg names inside (Begin_node nm # items) = find_reg names (inside \<or> take 6 nm = map ch8 ''memory'') items"
| "find_reg names inside (End_node # items) = find_reg names False items"
| "find_reg names inside (Property off data # items) =
     (if inside \<and> names off = map ch8 ''reg'' \<and> 16 \<le> length data then Some (be_value (take 8 data), be_value (take 8 (drop 8 data)))
      else find_reg names inside items)"
| "find_reg names inside (Nop # items) = find_reg names inside items"

lemma length_pad4: "length (pad4 xs) = length xs + 3 - (length xs + 3) mod 4"
proof -
  define q r where "q = length xs div 4" and "r = length xs mod 4"
  have l: "length xs = 4 * q + r" and "r < 4" by (simp_all add: q_def r_def)
  then consider "r = 0" | "r = 1" | "r = 2" | "r = 3" by linarith
  then show ?thesis by cases (simp_all add: pad4_def r_def [symmetric], simp_all add: l)
qed

lemma bytes_at_pad4:
  assumes "bytes_at m a (pad4 xs @ ys)"
  shows "bytes_at m a xs \<and> bytes_at m (a + of_nat (length xs + 3 - (length xs + 3) mod 4)) ys"
proof
  show "bytes_at m a xs" using assms unfolding pad4_def append_assoc bytes_at_append by (rule conjunct1)
  show "bytes_at m (a + of_nat (length xs + 3 - (length xs + 3) mod 4)) ys"
    using assms unfolding bytes_at_append length_pad4 by (rule conjunct2)
qed

section \<open>The scan finds what the list says\<close>

lemma token_values [simp]:
  "FDT_BEGIN_NODE = 1" "FDT_END_NODE = 2" "FDT_PROP = 3" "FDT_NOP = 4" "FDT_END = 9"
  by (simp_all add: FDT_BEGIN_NODE_def FDT_END_NODE_def FDT_PROP_def FDT_NOP_def FDT_END_def)

lemma scast_len:
  assumes "n < 2 ^ 31"
  shows "(scast (ucast (of_nat n :: 64 word) :: 32 word) :: 64 word) = of_nat n"
proof -
  have u: "uint (of_nat n :: 32 word) = int n" using assms by (simp add: unsigned_of_nat take_bit_nat_eq_self)
  have "sint (of_nat n :: 32 word) = signed_take_bit 31 (int n)" by (simp add: sint_uint u)
  also have "\<dots> = int n" using assms by (simp add: signed_take_bit_int_eq_self)
  finally have "(scast (of_nat n :: 32 word) :: 64 word) = of_nat n" by (simp add: scast_eq)
  moreover have "(ucast (of_nat n :: 64 word) :: 32 word) = of_nat n"
    by (rule word_unat_eq_iff [THEN iffD2]) (use assms in \<open>simp add: unsigned_ucast_eq unsigned_of_nat take_bit_nat_eq_self\<close>)
  ultimately show ?thesis by simp
qed

lemma ucast_len: "n < 2 ^ 32 \<Longrightarrow> (ucast (of_nat n :: 32 word) :: 64 word) = of_nat n"
  by (simp add: unsigned_of_nat take_bit_nat_eq_self)

lemma scan_items:
  assumes "bytes_at m p (struct_bytes items)" "take_bit 2 p = 0" "\<forall>i \<in> set items. item_ok i"
    "\<forall>off data. Property off data \<in> set items \<longrightarrow> cstring m (strs + ucast off) (names off)"
    "cstring m lmem (map ch8 ''memory'')" "cstring m lreg (map ch8 ''reg'')"
  shows "memory_scan m lmem lreg strs p inside = Some (Inr (find_reg names inside items))"
  using assms
proof (induction items arbitrary: p inside)
  case Nil
  then show ?case
    by (subst memory_scan.simps) (simp add: struct_bytes_def swap32)
next
  case (Cons x items)
  show ?case
  proof (cases x)
    case (Begin_node nm)
    have b: "bytes_at m p (be32 FDT_BEGIN_NODE)" and r: "bytes_at m (p + 4) (pad4 (nm @ [0]) @ struct_bytes items)"
      using Cons.prems(1) unfolding Begin_node struct_bytes_def by (simp_all add: bytes_at_append add.assoc)
    define q where "q = p + 4 + of_nat (length nm + 4 - (length nm + 4) mod 4)"
    have nm: "cstring m (p + 4) nm" and q: "bytes_at m q (struct_bytes items)"
      using bytes_at_pad4 [OF r] Cons.prems(3) Begin_node by (auto simp: q_def intro: bytes_at_cstring)
    have m6: "strncmp m (p + 4) lmem 6 = 0 \<longleftrightarrow> take 6 nm = map ch8 ''memory''"
      using strncmp_zero [OF nm Cons.prems(5), of 6] by simp
    have p1: "take_bit 2 (p + 4) = 0" using aligned_up(2) [OF Cons.prems(2), of 1] by simp
    have e: "(p + 4 + of_nat (length nm) + 4) AND NOT 3 = q" "take_bit 2 q = 0"
      using aligned_up(1,3) [OF p1, of "length nm + 4"] by (simp_all add: q_def add.assoc)
    show ?thesis
      using Cons.IH [OF q e(2)] Cons.prems(3-6) e(1)
      by (subst memory_scan.simps) (simp add: Begin_node swap32 [OF b] strlen_ok [OF nm] scast_len m6 Let_def)
  next
    case End_node
    have b: "bytes_at m p (be32 FDT_END_NODE)" and r: "bytes_at m (p + 4) (struct_bytes items)"
      using Cons.prems(1) unfolding End_node struct_bytes_def by (simp_all add: bytes_at_append add.assoc)
    have a: "take_bit 2 (p + 4) = 0" using aligned_up(2) [OF Cons.prems(2), of 1] by simp
    show ?thesis
      using Cons.IH [OF r a] Cons.prems(3-6)
      by (subst memory_scan.simps) (simp add: End_node swap32 [OF b] Let_def)
  next
    case (Property off data)
    have b: "bytes_at m p (be32 FDT_PROP)" "bytes_at m (p + 4) (be32 (of_nat (length data)))" "bytes_at m (p + 4 + 4) (be32 off)"
      and r: "bytes_at m (p + 4 + 8) (pad4 data @ struct_bytes items)"
      using Cons.prems(1) unfolding Property struct_bytes_def by (simp_all add: bytes_at_append add.assoc)
    define q where "q = p + 4 + 8 + of_nat (length data + 3 - (length data + 3) mod 4)"
    have d: "bytes_at m (p + 4 + 8) data" and q: "bytes_at m q (struct_bytes items)"
      using bytes_at_pad4 [OF r] by (auto simp: q_def)
    have p3: "take_bit 2 (p + 4 + 8) = 0" using aligned_up(2) [OF Cons.prems(2), of 3] by (simp add: add.assoc)
    have e: "(p + 4 + 8 + of_nat (length data) + 3) AND NOT 3 = q" "take_bit 2 q = 0"
      using aligned_up(1,3) [OF p3, of "length data + 3"] by (simp_all add: q_def add.assoc)
    have len: "length data < 2 ^ 32" using Cons.prems(3) Property by simp
    have ge: "(16 :: 32 word) \<le> of_nat (length data) \<longleftrightarrow> 16 \<le> length data"
      using len by (simp add: word_le_nat_alt unsigned_of_nat take_bit_nat_eq_self)
    have nm: "cstring m (strs + ucast off) (names off)" using Cons.prems(4) Property by simp
    obtain c where c: "strcmp m (strs + ucast off) lreg = Inr c" "c = 0 \<longleftrightarrow> names off = map ch8 ''reg''"
      using strcmp_zero [OF nm Cons.prems(6)] by blast
    have ok: "\<forall>i \<in> set items. item_ok i" using Cons.prems(3) by simp
    have nms: "\<forall>off data. Property off data \<in> set items \<longrightarrow> cstring m (strs + ucast off) (names off)"
      using Cons.prems(4) by simp
    have rest: "memory_scan m lmem lreg strs q inside = Some (Inr (find_reg names inside items))"
      by (rule Cons.IH [OF q e(2) ok nms Cons.prems(5,6)])
    have found: "fdt64_to_cpu (load64 m (p + 4 + 8)) = be_value (take 8 data)"
      "fdt64_to_cpu (load64 m (p + 4 + 8 + 8)) = be_value (take 8 (drop 8 data))" if "16 \<le> length data"
    proof -
      have "data = take 8 data @ take 8 (drop 8 data) @ drop 16 data" by (metis append_take_drop_id drop_drop numeral_Bit0)
      then have "bytes_at m (p + 4 + 8) (take 8 data @ take 8 (drop 8 data) @ drop 16 data)" using d by metis
      then have "bytes_at m (p + 4 + 8) (take 8 data)" "bytes_at m (p + 4 + 8 + 8) (take 8 (drop 8 data))"
        using that unfolding bytes_at_append by simp_all
      then show "fdt64_to_cpu (load64 m (p + 4 + 8)) = be_value (take 8 data)"
        "fdt64_to_cpu (load64 m (p + 4 + 8 + 8)) = be_value (take 8 (drop 8 data))"
        using that by (simp_all add: swap64)
    qed
    show ?thesis
      using c rest e(1) found swap32 [OF b(3)]
      by (subst memory_scan.simps; cases inside) (simp_all add: Property swap32 [OF b(1)] swap32 [OF b(2)] swap32 [OF b(3)] ucast_len [OF len] ge Let_def)
  next
    case Nop
    have b: "bytes_at m p (be32 FDT_NOP)" and r: "bytes_at m (p + 4) (struct_bytes items)"
      using Cons.prems(1) unfolding Nop struct_bytes_def by (simp_all add: bytes_at_append add.assoc)
    have a: "take_bit 2 (p + 4) = 0" using aligned_up(2) [OF Cons.prems(2), of 1] by simp
    show ?thesis
      using Cons.IH [OF r a] Cons.prems(3-6)
      by (subst memory_scan.simps) (simp add: Nop swap32 [OF b] Let_def)
  qed
qed

text \<open>C26: On a device tree in the standard encoding (header, structure block, strings) \<open>dtb_init\<close> returns, and stores the base
  and size that the list of its tokens gives: the first \<open>reg\<close> of 16 bytes or more inside a node whose name starts with
  \<open>memory\<close>, read big-endian. Without one both variables keep their values.\<close>
theorem dtb_finds_memory:
  assumes "boot_dtb \<noteq> 0" "v = boot_dtb + PHYSICAL_MEMORY_OFFSET"
    and "bytes_at m v (be32 0xd00dfeed)" "bytes_at m (v + 8) (be32 struct_offset @ be32 strings_offset)"
    and "bytes_at m (v + ucast struct_offset) (struct_bytes items)" "take_bit 2 (v + ucast struct_offset) = 0" "\<forall>i \<in> set items. item_ok i"
    and "\<forall>off data. Property off data \<in> set items \<longrightarrow> cstring m (v + ucast strings_offset + ucast off) (names off)"
    and "cstring m lmem (map ch8 ''memory'')" "cstring m lreg (map ch8 ''reg'')"
  shows "dtb_init m lmem lreg boot_dtb d = Inr (case find_reg names False items of
      Some (base, sz) \<Rightarrow> d\<lparr>memory_base := base, memory_size := sz\<rparr> | None \<Rightarrow> d)"
proof -
  have so: "fdt32_to_cpu (load32 m (v + 8)) = struct_offset" "fdt32_to_cpu (load32 m (v + 12)) = strings_offset"
    using assms(4) by (auto simp: bytes_at_append add.assoc intro!: swap32)
  have "extract_memory_info m lmem lreg v = Inr (find_reg names False items)"
    unfolding extract_memory_info_def so Let_def scan_items [OF assms(5-10)] by simp
  then show ?thesis
    using assms(1) swap32 [OF assms(3)] by (auto simp: dtb_init_def assms(2) [symmetric] Let_def split: option.splits)
qed

text \<open>A tree with a chosen node, a memory node with two properties, and the end.\<close>

definition demo_items :: "item list" where
  "demo_items = [Begin_node [], Begin_node (map ch8 ''chosen''), Property 0 [1, 2, 3], End_node,
     Nop, Begin_node (map ch8 ''memory@80000000''), Property 4 (map ch8 ''memory''),
     Property 0 [0, 0, 0, 0, 0x80, 0, 0, 0, 0, 0, 0, 0, 0x08, 0, 0, 0], End_node, End_node]"

definition demo_dtb :: "8 word list" where
  "demo_dtb = be32 0xd00dfeed @ be32 0 @ be32 40 @ be32 16 @ map ch8 ''reg'' @ [0] @ map ch8 ''device_type'' @ [0] @
     map ch8 ''memory'' @ [0, 0] @ struct_bytes demo_items"

lemma demo_text:
  "map ch8 ''reg'' = [114, 101, 103]" "map ch8 ''memory'' = [109, 101, 109, 111, 114, 121]"
  "map ch8 ''device_type'' = [100, 101, 118, 105, 99, 101, 95, 116, 121, 112, 101]"
  by (simp_all add: ch8_def)

definition demo_head :: "8 word list" where
  "demo_head = [0xd0, 0x0d, 0xfe, 0xed, 0, 0, 0, 0, 0, 0, 0, 40, 0, 0, 0, 16, 114, 101, 103, 0,
     100, 101, 118, 105, 99, 101, 95, 116, 121, 112, 101, 0, 109, 101, 109, 111, 114, 121, 0, 0]"

lemma demo_dtb_eq: "demo_dtb = demo_head @ struct_bytes demo_items" "length demo_head = 40" "length (struct_bytes demo_items) = 124"
proof -
  show "demo_dtb = demo_head @ struct_bytes demo_items" unfolding demo_dtb_def demo_head_def demo_text by (simp add: be32_def)
  show "length demo_head = 40" by (simp add: demo_head_def)
  show "length (struct_bytes demo_items) = 124" by (simp add: struct_bytes_def demo_items_def length_pad4)
qed

lemma demo_head_at: "k + length ys \<le> 40 \<Longrightarrow> take (length ys) (drop k demo_head) = ys \<Longrightarrow> bytes_at (placed b demo_dtb) (b + of_nat k) ys"
  by (rule bytes_at_placed) (simp_all add: demo_dtb_eq)

text \<open>The tree lies at \<open>0x82200000\<close>, with the literals in its own strings block.\<close>

theorem dtb_finds_memory_witness:
  "dtb_init (placed 0xFFFFFFFFC2200000 demo_dtb) 0xFFFFFFFFC2200020 0xFFFFFFFFC2200010 0x82200000 \<lparr>memory_base = 0, memory_size = 0\<rparr>
     = Inr \<lparr>memory_base = 0x80000000, memory_size = 0x08000000\<rparr>"
proof -
  let ?v = "0xFFFFFFFFC2200000 :: 64 word" and ?m = "placed 0xFFFFFFFFC2200000 demo_dtb"
  define names :: "32 word \<Rightarrow> 8 word list" where "names = (\<lambda>off. if off = 0 then map ch8 ''reg'' else map ch8 ''device_type'')"
  have v: "?v = 0x82200000 + PHYSICAL_MEMORY_OFFSET" by (simp add: PHYSICAL_MEMORY_OFFSET_def)
  have magic: "bytes_at ?m ?v (be32 0xd00dfeed)" using demo_head_at [of 0 "be32 0xd00dfeed" ?v] by (simp add: be32_def demo_head_def)
  have offs: "bytes_at ?m (?v + 8) (be32 40 @ be32 16)" using demo_head_at [of 8 "be32 40 @ be32 16" ?v] by (simp add: be32_def demo_head_def)
  have items: "bytes_at ?m (?v + ucast (40 :: 32 word)) (struct_bytes demo_items)"
    using bytes_at_placed [of demo_dtb 40 "struct_bytes demo_items" ?v] by (simp add: demo_dtb_eq)
  have al: "take_bit 2 (?v + ucast (40 :: 32 word)) = 0" by (simp add: take_bit_eq_mask mask_eq_exp_minus_1)
  have ok: "\<forall>i \<in> set demo_items. item_ok i" by (simp add: demo_items_def ch8_def)
  have reg: "cstring ?m (?v + 16) (map ch8 ''reg'')"
    unfolding demo_text by (rule bytes_at_cstring) (use demo_head_at [of 16 "[114, 101, 103, 0]" ?v] in \<open>simp_all add: demo_head_def\<close>)
  have dev: "cstring ?m (?v + 20) (map ch8 ''device_type'')"
    unfolding demo_text by (rule bytes_at_cstring) (use demo_head_at [of 20 "[100, 101, 118, 105, 99, 101, 95, 116, 121, 112, 101, 0]" ?v] in \<open>simp_all add: demo_head_def\<close>)
  have mem: "cstring ?m (?v + 32) (map ch8 ''memory'')"
    unfolding demo_text by (rule bytes_at_cstring) (use demo_head_at [of 32 "[109, 101, 109, 111, 114, 121, 0]" ?v] in \<open>simp_all add: demo_head_def\<close>)
  have nms: "\<forall>off data. Property off data \<in> set demo_items \<longrightarrow> cstring ?m (?v + ucast (16 :: 32 word) + ucast off) (names off)"
    using reg dev by (auto simp: demo_items_def names_def)
  have "find_reg names False demo_items = Some (0x80000000, 0x08000000)"
    by (simp add: demo_items_def names_def ch8_def be_value_def)
  then show ?thesis
    using dtb_finds_memory [OF _ v magic offs items al ok nms, of "?v + 32" "?v + 16"] mem reg by simp
qed

end
