(* ===== verification/Console.thy ===== *)
theory Console
  imports Printf_Props Byte_Memory
begin

text \<open>
  Input and output of characters: kern/driver/console.c, kern/libs/stdio.c and kern/libs/readline.c. The firmware behind
  the console is represented by the values its calls give and get: \<open>stdin\<close> are the results of the calls of
  \<open>sbi_console_getchar\<close> still to come, after which it says 0 for ever, \<open>stdout\<close> the bytes given to \<open>sbi_console_putchar\<close>
  so far. The calls run with interrupts off, which \<open>local_intr_restore\<close> undoes.
\<close>

section \<open>The devices\<close>

record console =
  stdin :: "int list"
  stdout :: "8 word list"

definition cons_putc :: "int \<Rightarrow> console \<Rightarrow> console" where
  "cons_putc c con = con\<lparr>stdout := stdout con @ [word_of_int c]\<rparr>"

definition cons_getc :: "console \<Rightarrow> int \<times> console" where
  "cons_getc con = (case stdin con of [] \<Rightarrow> (0, con) | c # cs \<Rightarrow> (c, con\<lparr>stdin := cs\<rparr>))"

section \<open>The standard functions\<close>

definition cputch :: "int \<Rightarrow> console \<times> int \<Rightarrow> console \<times> int" where
  "cputch c = (\<lambda>(con, n). (cons_putc c con, n + 1))"

definition vcprintf :: "string \<Rightarrow> arg list \<Rightarrow> console \<Rightarrow> (int \<times> console) outcome" where
  "vcprintf fmt ap con = obind (printfmt fmt ap) (\<lambda>out.
     let (con1, n) = fold (\<lambda>ch. cputch (of_char ch)) out (con, 0) in Inr (n, con1))"

definition cprintf :: "string \<Rightarrow> arg list \<Rightarrow> console \<Rightarrow> (int \<times> console) outcome" where
  "cprintf fmt ap con = vcprintf fmt ap con"

definition cputchar :: "int \<Rightarrow> console \<Rightarrow> console" where
  "cputchar c con = cons_putc c con"

partial_function (option) cputs_loop :: "bytes \<Rightarrow> 64 word \<Rightarrow> console \<times> int \<Rightarrow> (console \<times> int) option" where
  "cputs_loop m str st = (let c = m str in if c \<noteq> 0 then cputs_loop m (str + 1) (cputch (uint c) st) else Some st)"

definition cputs :: "bytes \<Rightarrow> 64 word \<Rightarrow> console \<Rightarrow> (int \<times> console) outcome" where
  "cputs m str con = obind (returns (cputs_loop m str (con, 0))) (\<lambda>st. let (con1, n) = cputch 10 st in Inr (n, con1))"

partial_function (option) getchar :: "console \<Rightarrow> (int \<times> console) option" where
  "getchar con = (let r = cons_getc con in if fst r = 0 then getchar (snd r) else Some r)"

section \<open>Reading a line\<close>

definition BUFSIZE :: nat where "BUFSIZE = 1024"

text \<open>\<open>bp\<close> is the address of the static array; a result \<open>None\<close> is NULL. The loop waits for ever when no character comes.\<close>

partial_function (option) readline_loop :: "64 word \<Rightarrow> nat \<Rightarrow> bytes \<Rightarrow> console \<Rightarrow> (64 word option \<times> bytes \<times> console) option" where
  "readline_loop bp i m con = Option.bind (getchar con) (\<lambda>r.
     let c = fst r; con1 = snd r in
     if c < 0 then Some (None, m, con1)
     else if c \<ge> 32 \<and> i < BUFSIZE - 1 then readline_loop bp (i + 1) (m(bp + of_nat i := word_of_int c)) (cputchar c con1)
     else if c = 8 \<and> i > 0 then readline_loop bp (i - 1) m (cputchar c con1)
     else if c = 10 \<or> c = 13 then Some (Some bp, m(bp + of_nat i := 0), cputchar c con1)
     else readline_loop bp i m con1)"

definition readline :: "64 word \<Rightarrow> string option \<Rightarrow> bytes \<Rightarrow> console \<Rightarrow> (64 word option \<times> bytes \<times> console) outcome" where
  "readline bp prompt m con =
     obind (case prompt of None \<Rightarrow> Inr (0, con) | Some s \<Rightarrow> cprintf ''%s'' [Str_arg (Some s)] con) (\<lambda>(n, con1).
     returns (readline_loop bp 0 m con1))"

declare cputs_loop.simps [code] getchar.simps [code] readline_loop.simps [code]

section \<open>The line editor\<close>

text \<open>The reference: a list of bytes that a backspace shortens and that never grows beyond 1023; a negative value gives up,
  a newline or carriage return ends the line. Without either there is no result.\<close>

fun edit_line :: "8 word list \<Rightarrow> int list \<Rightarrow> (8 word list option \<times> int list) option" where
  "edit_line xs [] = None"
| "edit_line xs (c # cs) =
     (if c < 0 then Some (None, cs)
      else if 32 \<le> c then edit_line (if length xs < 1023 then xs @ [word_of_int c] else xs) cs
      else if c = 8 then edit_line (butlast xs) cs
      else if c = 10 \<or> c = 13 then Some (Some xs, cs)
      else edit_line xs cs)"

section \<open>Waiting for a character\<close>

lemma getchar_empty:
  assumes "getchar con = Some r"
  shows "stdin con \<noteq> []"
  using assms
proof (rule getchar.raw_induct [where P = "\<lambda>con r. stdin con \<noteq> []", rotated])
  fix f con r
  assume "\<And>con r. f con = Some r \<Longrightarrow> stdin con \<noteq> []"
    and "(let r = cons_getc con in if fst r = 0 then f (snd r) else Some r) = Some r"
  then show "stdin con \<noteq> []" by (auto simp: cons_getc_def Let_def split: list.splits if_splits)
qed

lemma getchar_simps [simp]:
  "stdin con = [] \<Longrightarrow> getchar con = None"
  "stdin con = c # cs \<Longrightarrow> c \<noteq> 0 \<Longrightarrow> getchar con = Some (c, con\<lparr>stdin := cs\<rparr>)"
  "stdin con = 0 # cs \<Longrightarrow> getchar con = getchar (con\<lparr>stdin := cs\<rparr>)"
proof -
  show "stdin con = [] \<Longrightarrow> getchar con = None" using getchar_empty [of con] by (cases "getchar con") auto
  show "stdin con = c # cs \<Longrightarrow> c \<noteq> 0 \<Longrightarrow> getchar con = Some (c, con\<lparr>stdin := cs\<rparr>)"
    by (subst getchar.simps) (simp add: cons_getc_def)
  show "stdin con = 0 # cs \<Longrightarrow> getchar con = getchar (con\<lparr>stdin := cs\<rparr>)"
    by (subst getchar.simps) (simp add: cons_getc_def)
qed

section \<open>The loop is the line editor\<close>

text \<open>What \<open>readline_loop\<close> promises for a result of the editor.\<close>

fun line_result :: "64 word \<Rightarrow> bytes \<Rightarrow> (8 word list option \<times> int list) option \<Rightarrow> (64 word option \<times> bytes \<times> console) option \<Rightarrow> bool" where
  "line_result bp m None r \<longleftrightarrow> r = None"
| "line_result bp m (Some (line, rest)) r \<longleftrightarrow> (\<exists>m' con'. r = Some (map_option (\<lambda>_. bp) line, m', con') \<and> stdin con' = rest \<and>
     (\<forall>xs. line = Some xs \<longrightarrow> cstring m' bp xs \<and> length xs < BUFSIZE) \<and> (\<forall>a. unat (a - bp) \<ge> BUFSIZE \<longrightarrow> m' a = m a))"

lemma line_result_outside:
  "line_result bp m1 e r \<Longrightarrow> (\<And>a. unat (a - bp) \<ge> BUFSIZE \<Longrightarrow> m1 a = m a) \<Longrightarrow> line_result bp m e r"
  by (cases "(bp, m1, e, r)" rule: line_result.cases) auto

lemma outside_buffer: "i < BUFSIZE \<Longrightarrow> unat (a - bp) \<ge> BUFSIZE \<Longrightarrow> (m(bp + of_nat i := x)) a = m a" for bp a :: "64 word"
proof -
  assume i: "i < BUFSIZE" and a: "unat (a - bp) \<ge> BUFSIZE"
  have "a \<noteq> bp + of_nat i" using i a by (auto simp: BUFSIZE_def unat_of_nat64)
  then show ?thesis by simp
qed

lemma readline_step:
  assumes "stdin con = c # cs"
  shows "readline_loop bp i m con = (let con1 = con\<lparr>stdin := cs\<rparr> in
     if c < 0 then Some (None, m, con1)
     else if c \<ge> 32 \<and> i < BUFSIZE - 1 then readline_loop bp (i + 1) (m(bp + of_nat i := word_of_int c)) (cputchar c con1)
     else if c = 8 \<and> i > 0 then readline_loop bp (i - 1) m (cputchar c con1)
     else if c = 10 \<or> c = 13 then Some (Some bp, m(bp + of_nat i := 0), cputchar c con1)
     else readline_loop bp i m con1)"
proof (cases "c = 0")
  case True
  have "readline_loop bp i m con = readline_loop bp i m (con\<lparr>stdin := cs\<rparr>)"
    by (subst (1 2) readline_loop.simps) (use assms True in simp)
  then show ?thesis using True by simp
next
  case False
  then show ?thesis by (subst readline_loop.simps) (use assms in \<open>simp add: Let_def\<close>)
qed

lemma stdin_cputchar [simp]: "stdin (cputchar c con) = stdin con"
  by (simp add: cputchar_def cons_putc_def)

lemma byte_nonzero: "0 < c \<Longrightarrow> c < 256 \<Longrightarrow> (word_of_int c :: 8 word) \<noteq> 0"
  by (simp add: word_of_int_eq_0_iff) (metis zdvd_not_zless)

lemma readline_loop_ok:
  assumes "bytes_at m bp xs" "0 \<notin> set xs" "length xs < BUFSIZE" "\<forall>c \<in> set (stdin con). c < 256"
  shows "line_result bp m (edit_line xs (stdin con)) (readline_loop bp (length xs) m con)"
  using assms
proof (induction "stdin con" arbitrary: con xs m)
  case Nil
  then have "stdin con = []" by simp
  then show ?case by (subst readline_loop.simps) simp
next
  case (Cons c cs)
  define con1 where "con1 = con\<lparr>stdin := cs\<rparr>"
  have con1: "cs = stdin con1" by (simp add: con1_def)
  note step = readline_step [OF Cons.hyps(2) [symmetric], of bp "length xs" m, folded con1_def, unfolded Let_def]
  have in1: "\<forall>x \<in> set (stdin con1). x < 256" "c < 256" using Cons.prems(4) Cons.hyps(2) [symmetric] by (simp_all add: con1_def)
  consider "c < 0" | "32 \<le> c" "length xs < 1023" | "32 \<le> c" "\<not> length xs < 1023" | "c = 8" "xs = []" | "c = 8" "xs \<noteq> []"
    | "c = 10 \<or> c = 13" | "0 \<le> c" "c < 32" "c \<notin> {8, 10, 13}" by (cases "xs = []"; force)
  then show ?case
  proof cases
    case 1
    then show ?thesis unfolding Cons.hyps(2) [symmetric] step by (simp add: con1_def)
  next
    case 2
    let ?x = "word_of_int c :: 8 word"
    define m1 where "m1 = m(bp + of_nat (length xs) := ?x)"
    have b: "bytes_at m1 bp (xs @ [?x])" using bytes_at_extend [OF Cons.prems(1)] Cons.prems(3) by (simp add: m1_def BUFSIZE_def)
    have "line_result bp m1 (edit_line (xs @ [?x]) cs) (readline_loop bp (length (xs @ [?x])) m1 (cputchar c con1))"
      using Cons.hyps(1) [of "cputchar c con1" m1 "xs @ [?x]"] b 2 in1 Cons.prems(2) byte_nonzero [of c] con1 by (simp add: BUFSIZE_def)
    moreover have "readline_loop bp (length xs) m con = readline_loop bp (length (xs @ [?x])) m1 (cputchar c con1)"
      unfolding step using 2 by (simp add: m1_def BUFSIZE_def)
    moreover have "m1 a = m a" if "unat (a - bp) \<ge> BUFSIZE" for a
      unfolding m1_def by (rule outside_buffer [OF Cons.prems(3) that])
    ultimately show ?thesis unfolding Cons.hyps(2) [symmetric] using 2 line_result_outside by simp
  next
    case 3
    then show ?thesis unfolding Cons.hyps(2) [symmetric] step using Cons.hyps(1) [of con1 m xs] Cons.prems in1 con1 by (simp add: BUFSIZE_def)
  next
    case 4
    then show ?thesis unfolding Cons.hyps(2) [symmetric] step using Cons.hyps(1) [of con1 m xs] Cons.prems in1 con1 by simp
  next
    case 5
    have b: "bytes_at m bp (butlast xs)"
      using Cons.prems(1) 5(2) bytes_at_append [of m bp "butlast xs" "[List.last xs]"] by simp
    have "0 \<notin> set (butlast xs)" using Cons.prems(2) in_set_butlastD by fast
    then show ?thesis unfolding Cons.hyps(2) [symmetric] step
      using 5 Cons.hyps(1) [of "cputchar c con1" m "butlast xs"] b Cons.prems in1 con1 by simp
  next
    case 6
    define m1 where "m1 = m(bp + of_nat (length xs) := 0)"
    have "bytes_at m1 bp (xs @ [0])" using bytes_at_extend [OF Cons.prems(1)] Cons.prems(3) by (simp add: m1_def BUFSIZE_def)
    then have "cstring m1 bp xs" using Cons.prems(2) by (simp add: cstring_bytes_at)
    moreover have "m1 a = m a" if "unat (a - bp) \<ge> BUFSIZE" for a
      unfolding m1_def by (rule outside_buffer [OF Cons.prems(3) that])
    ultimately show ?thesis unfolding Cons.hyps(2) [symmetric] step m1_def [symmetric] using 6 Cons.prems(3) con1 by auto
  next
    case 7
    then show ?thesis unfolding Cons.hyps(2) [symmetric] step using Cons.hyps(1) [of con1 m xs] Cons.prems in1 con1 by auto
  qed
qed

section \<open>Printing\<close>

lemma word_of_char: "word_of_int (of_char ch) = ch8 ch"
proof -
  have "word_of_int (of_char ch) = (word_of_int (int (of_char ch)) :: 8 word)" by (simp only: of_nat_of_char)
  also have "\<dots> = of_nat (of_char ch)" by (rule of_int_of_nat_eq)
  also have "\<dots> = ch8 ch" unfolding ch8_def by (rule of_nat_of_char)
  finally show ?thesis .
qed

lemma fold_cputch: "fold (\<lambda>ch. cputch (of_char ch)) out (con, n) = (con\<lparr>stdout := stdout con @ map ch8 out\<rparr>, n + int (length out))"
  by (induction out arbitrary: con n) (simp_all add: cputch_def cons_putc_def word_of_char)

lemma cprintf_ok: "printfmt fmt ap = Inr out \<Longrightarrow> cprintf fmt ap con = Inr (int (length out), con\<lparr>stdout := stdout con @ map ch8 out\<rparr>)"
  by (simp add: cprintf_def vcprintf_def fold_cputch)

lemma printfmt_string: "printfmt ''%s'' [Str_arg (Some s)] = Inr (c_string s)"
proof -
  have p: "parse_spec ''s'' fmt_start [Str_arg (Some s)] = Inr (fmt_start, CHR ''s'', [], [Str_arg (Some s)])"
    by (subst parse_spec.simps) (simp add: is_digit_def less_eq_char_def)
  have "print_str (Some s) fmt_start = c_string s" by (simp add: print_str_def fmt_start_def Let_def)
  then show ?thesis by (simp add: printfmt_def vprintfmt.simps [of "''%s''"] vprintfmt_Nil p va_str_def emit_def)
qed

text \<open>C39: \<open>readline\<close> is the line editor on the characters the console delivers: it waits for ever exactly when they hold no
  end of a line; otherwise it consumes the same characters, returns NULL when the editor gives up, and leaves the edited line,
  shorter than the buffer and ended by a NUL, in the buffer. It writes nowhere else.\<close>
theorem readline_correct:
  assumes "\<forall>c \<in> set (stdin con). c < 256"
  shows "case edit_line [] (stdin con) of None \<Rightarrow> readline bp prompt m con = Inl No_return
    | Some (line, rest) \<Rightarrow> \<exists>m' con'. readline bp prompt m con = Inr (map_option (\<lambda>_. bp) line, m', con') \<and> stdin con' = rest \<and>
        (\<forall>xs. line = Some xs \<longrightarrow> cstring m' bp xs \<and> length xs < 1024) \<and> (\<forall>a. 1024 \<le> unat (a - bp) \<longrightarrow> m' a = m a)"
proof -
  obtain con1 where con1: "stdin con1 = stdin con" "readline bp prompt m con = returns (readline_loop bp 0 m con1)"
  proof (cases prompt)
    case None
    then show thesis using that [of con] by (simp add: readline_def)
  next
    case (Some s)
    then show thesis using that [of "con\<lparr>stdout := stdout con @ map ch8 (c_string s)\<rparr>"]
      by (simp add: readline_def cprintf_ok [OF printfmt_string])
  qed
  have "line_result bp m (edit_line [] (stdin con1)) (readline_loop bp 0 m con1)"
    using readline_loop_ok [of m bp "[]" con1] assms con1(1) by (simp add: BUFSIZE_def)
  then show ?thesis
    unfolding con1(2) con1(1) by (cases "edit_line [] (stdin con)") (auto simp: BUFSIZE_def)
qed

theorem readline_correct_witness:
  "\<exists>m' con'. readline 0x1000 (Some ''K> '') (\<lambda>_. 7) \<lparr>stdin = [104, 0, 120, 8, 105, 10, 33], stdout = []\<rparr> = Inr (Some 0x1000, m', con') \<and>
     stdin con' = [33] \<and> cstring m' 0x1000 [104, 105]"
proof -
  have "edit_line [] [104, 0, 120, 8, 105, 10, 33] = Some (Some [104, 105], [33])" by simp
  then show ?thesis
    using readline_correct [of "\<lparr>stdin = [104, 0, 120, 8, 105, 10, 33], stdout = []\<rparr>" "0x1000" "Some ''K> ''" "\<lambda>_. 7"] by fastforce
qed

end
