(* ===== verification/Monitor.thy ===== *)
theory Monitor
  imports Console Kernel_State "HOL-Library.Signed_Division"
begin

text \<open>
  What the kernel does after a panic: the printing of kern/debug/kdebug.c and of \<open>print_trapframe\<close> in kern/trap/trap.c, the
  command interpreter of kern/debug/kmonitor.c and \<open>__panic\<close> of kern/debug/panic.c. String literals that the code only prints
  are HOL strings; the names of the commands, which it compares, lie in memory.
\<close>

section \<open>Printing\<close>

abbreviation (input) newline :: string where "newline \<equiv> [CHR 0x0A]"

text \<open>A sequence of \<open>cprintf\<close> calls whose results are not used.\<close>

definition cprintf_all :: "(string \<times> arg list) list \<Rightarrow> console \<Rightarrow> console outcome" where
  "cprintf_all calls con = for_each (\<lambda>(fmt, ap) con. obind (cprintf fmt ap con) (\<lambda>(n, con1). Inr con1)) calls con"

definition print_regs :: "trapframe \<Rightarrow> console \<Rightarrow> console outcome" where
  "print_regs gpr con = cprintf_all
    [(''  zero     0x%08x'' @ newline, [Int_arg (gpr_zero gpr)]), (''  ra       0x%08x'' @ newline, [Int_arg (gpr_ra gpr)]),
     (''  sp       0x%08x'' @ newline, [Int_arg (gpr_sp gpr)]), (''  gp       0x%08x'' @ newline, [Int_arg (gpr_gp gpr)]),
     (''  tp       0x%08x'' @ newline, [Int_arg (gpr_tp gpr)]), (''  t0       0x%08x'' @ newline, [Int_arg (gpr_t0 gpr)]),
     (''  t1       0x%08x'' @ newline, [Int_arg (gpr_t1 gpr)]), (''  t2       0x%08x'' @ newline, [Int_arg (gpr_t2 gpr)]),
     (''  s0       0x%08x'' @ newline, [Int_arg (gpr_s0 gpr)]), (''  s1       0x%08x'' @ newline, [Int_arg (gpr_s1 gpr)]),
     (''  a0       0x%08x'' @ newline, [Int_arg (gpr_a0 gpr)]), (''  a1       0x%08x'' @ newline, [Int_arg (gpr_a1 gpr)]),
     (''  a2       0x%08x'' @ newline, [Int_arg (gpr_a2 gpr)]), (''  a3       0x%08x'' @ newline, [Int_arg (gpr_a3 gpr)]),
     (''  a4       0x%08x'' @ newline, [Int_arg (gpr_a4 gpr)]), (''  a5       0x%08x'' @ newline, [Int_arg (gpr_a5 gpr)]),
     (''  a6       0x%08x'' @ newline, [Int_arg (gpr_a6 gpr)]), (''  a7       0x%08x'' @ newline, [Int_arg (gpr_a7 gpr)]),
     (''  s2       0x%08x'' @ newline, [Int_arg (gpr_s2 gpr)]), (''  s3       0x%08x'' @ newline, [Int_arg (gpr_s3 gpr)]),
     (''  s4       0x%08x'' @ newline, [Int_arg (gpr_s4 gpr)]), (''  s5       0x%08x'' @ newline, [Int_arg (gpr_s5 gpr)]),
     (''  s6       0x%08x'' @ newline, [Int_arg (gpr_s6 gpr)]), (''  s7       0x%08x'' @ newline, [Int_arg (gpr_s7 gpr)]),
     (''  s8       0x%08x'' @ newline, [Int_arg (gpr_s8 gpr)]), (''  s9       0x%08x'' @ newline, [Int_arg (gpr_s9 gpr)]),
     (''  s10      0x%08x'' @ newline, [Int_arg (gpr_s10 gpr)]), (''  s11      0x%08x'' @ newline, [Int_arg (gpr_s11 gpr)]),
     (''  t3       0x%08x'' @ newline, [Int_arg (gpr_t3 gpr)]), (''  t4       0x%08x'' @ newline, [Int_arg (gpr_t4 gpr)]),
     (''  t5       0x%08x'' @ newline, [Int_arg (gpr_t5 gpr)]), (''  t6       0x%08x'' @ newline, [Int_arg (gpr_t6 gpr)])] con"

text \<open>\<open>a\<close> is the address of the frame.\<close>

definition print_trapframe :: "64 word \<Rightarrow> trapframe \<Rightarrow> console \<Rightarrow> console outcome" where
  "print_trapframe a frm con =
     obind (cprintf_all [(''trapframe at %p'' @ newline, [Int_arg a])] con) (\<lambda>con1.
     obind (print_regs frm con1) (\<lambda>con2.
     cprintf_all [(''  status   0x%08x'' @ newline, [Int_arg (tf_status frm)]), (''  epc      0x%08x'' @ newline, [Int_arg (tf_epc frm)]),
       (''  tval 0x%08x'' @ newline, [Int_arg (tf_tval frm)]), (''  cause    0x%08x'' @ newline, [Int_arg (tf_cause frm)])] con2))"

text \<open>The addresses of the symbols of the linker.\<close>

record symbols =
  kern_init :: "64 word"
  etext :: "64 word"
  edata :: "64 word"
  kernel_end_sym :: "64 word"

definition print_kerninfo :: "symbols \<Rightarrow> console \<Rightarrow> console outcome" where
  "print_kerninfo y con = cprintf_all
    [(''Special kernel symbols:'' @ newline, []), (''  entry  0x%08x (virtual)'' @ newline, [Int_arg (kern_init y)]),
     (''  etext  0x%08x (virtual)'' @ newline, [Int_arg (etext y)]), (''  edata  0x%08x (virtual)'' @ newline, [Int_arg (edata y)]),
     (''  end    0x%08x (virtual)'' @ newline, [Int_arg (kernel_end_sym y)]),
     (''Kernel executable memory footprint: %dKB'' @ newline, [Int_arg (word_of_int (sint (kernel_end_sym y - kern_init y + 1023) sdiv 1024))])] con"

definition print_stackframe :: "'a outcome" where
  "print_stackframe = Inl (Panic ''Not Implemented!'')"

section \<open>The command line\<close>

definition MAXARGS :: nat where "MAXARGS = 16"

text \<open>\<open>strchr(WHITESPACE, c) != NULL\<close> for a \<open>c\<close> that is not NUL.\<close>

definition WHITESPACE :: "8 word list" where "WHITESPACE = [32, 9, 10, 13]"

definition is_white :: "8 word \<Rightarrow> bool" where
  "is_white c \<longleftrightarrow> c \<in> set WHITESPACE"

partial_function (option) blank_out :: "bytes \<Rightarrow> 64 word \<Rightarrow> (bytes \<times> 64 word) option" where
  "blank_out m bp = (if m bp \<noteq> 0 \<and> is_white (m bp) then blank_out (m(bp := 0)) (bp + 1) else Some (m, bp))"

partial_function (option) scan_word :: "bytes \<Rightarrow> 64 word \<Rightarrow> 64 word option" where
  "scan_word m bp = (if m bp \<noteq> 0 \<and> \<not> is_white (m bp) then scan_word m (bp + 1) else Some bp)"

text \<open>\<open>argv\<close> holds the slots written so far, its length is \<open>argc\<close>; a store beyond its 16 slots is undefined.\<close>

partial_function (option) parse_loop :: "bytes \<Rightarrow> 64 word \<Rightarrow> 64 word list \<Rightarrow> console \<Rightarrow> (64 word list \<times> bytes \<times> console) outcome option" where
  "parse_loop m bp argv con = Option.bind (blank_out m bp) (\<lambda>r.
     let m1 = fst r; bp1 = snd r in
     if m1 bp1 = 0 then Some (Inr (argv, m1, con))
     else loop_bind (if length argv = MAXARGS - 1 then cprintf (''Too many arguments (max %d).'' @ newline) [Int_arg (of_nat MAXARGS)] con else Inr (0, con)) (\<lambda>c.
       if length argv \<ge> MAXARGS then Some (Inl (Undefined ''argv''))
       else Option.bind (scan_word m1 bp1) (\<lambda>bp2. parse_loop m1 bp2 (argv @ [bp1]) (snd c))))"

definition parse :: "bytes \<Rightarrow> 64 word \<Rightarrow> console \<Rightarrow> (64 word list \<times> bytes \<times> console) outcome" where
  "parse m bp con = finish (parse_loop m bp [] con)"

text \<open>An entry of the table of commands: the address of the literal with its name, the text of its description, its function.\<close>

datatype mon_func = Mon_help | Mon_kerninfo | Mon_backtrace

record mon_command =
  cmd_name :: "64 word"
  cmd_desc :: string
  cmd_func :: mon_func

text \<open>The string at an address, as \<open>%s\<close> reads it.\<close>

partial_function (option) c_string_at :: "bytes \<Rightarrow> 64 word \<Rightarrow> string option" where
  "c_string_at m a = (if m a = 0 then Some [] else Option.bind (c_string_at m (a + 1)) (\<lambda>s. Some (char_of (unat (m a)) # s)))"

definition mon_help :: "mon_command list \<Rightarrow> bytes \<Rightarrow> console \<Rightarrow> (int \<times> console) outcome" where
  "mon_help commands m con =
     obind (for_each (\<lambda>c con. obind (returns (c_string_at m (cmd_name c))) (\<lambda>nm.
       cprintf_all [(''%s - %s'' @ newline, [Str_arg (Some nm), Str_arg (Some (cmd_desc c))])] con)) commands con) (\<lambda>con1. Inr (0, con1))"

definition mon_kerninfo :: "symbols \<Rightarrow> console \<Rightarrow> (int \<times> console) outcome" where
  "mon_kerninfo y con = obind (print_kerninfo y con) (\<lambda>con1. Inr (0, con1))"

definition mon_backtrace :: "console \<Rightarrow> (int \<times> console) outcome" where
  "mon_backtrace con = obind print_stackframe (\<lambda>con1. Inr (0, con1))"

fun find_command :: "bytes \<Rightarrow> 64 word \<Rightarrow> mon_command list \<Rightarrow> (mon_func option) outcome" where
  "find_command m a [] = Inr None"
| "find_command m a (c # cs) = obind (strcmp m (cmd_name c) a) (\<lambda>r. if r = 0 then Inr (Some (cmd_func c)) else find_command m a cs)"

definition runcmd :: "symbols \<Rightarrow> mon_command list \<Rightarrow> bytes \<Rightarrow> 64 word \<Rightarrow> console \<Rightarrow> (int \<times> bytes \<times> console) outcome" where
  "runcmd y commands m bp con = obind (parse m bp con) (\<lambda>(argv, m1, con1).
     if length argv = 0 then Inr (0, m1, con1)
     else obind (find_command m1 (argv ! 0) commands) (\<lambda>r. obind (case r of
         Some Mon_help \<Rightarrow> mon_help commands m1 con1
       | Some Mon_kerninfo \<Rightarrow> mon_kerninfo y con1
       | Some Mon_backtrace \<Rightarrow> mon_backtrace con1
       | None \<Rightarrow> obind (returns (c_string_at m1 (argv ! 0))) (\<lambda>nm.
           obind (cprintf (''Unknown command '' @ [CHR 0x27] @ ''%s'' @ [CHR 0x27] @ newline) [Str_arg (Some nm)] con1) (\<lambda>(n, con2). Inr (0, con2))))
       (\<lambda>(r, con2). Inr (r, m1, con2))))"

text \<open>\<open>bp\<close> is the buffer of \<open>readline\<close>.\<close>

partial_function (option) kmonitor_loop :: "symbols \<Rightarrow> mon_command list \<Rightarrow> 64 word \<Rightarrow> bytes \<Rightarrow> console \<Rightarrow> (bytes \<times> console) outcome option" where
  "kmonitor_loop y commands bp m con = loop_bind (readline bp (Some ''K> '') m con) (\<lambda>r.
     case fst r of None \<Rightarrow> kmonitor_loop y commands bp (fst (snd r)) (snd (snd r))
     | Some b \<Rightarrow> loop_bind (runcmd y commands (fst (snd r)) b (snd (snd r))) (\<lambda>q.
         if fst q < 0 then Some (Inr (snd q)) else kmonitor_loop y commands bp (fst (snd q)) (snd (snd q))))"

definition kmonitor :: "symbols \<Rightarrow> mon_command list \<Rightarrow> 64 word \<Rightarrow> (64 word \<times> trapframe) option \<Rightarrow> bytes \<Rightarrow> console \<Rightarrow> (bytes \<times> console) outcome" where
  "kmonitor y commands bp frm m con =
     obind (cprintf_all [(''Welcome to the kernel debug monitor!!'' @ newline, []),
       (''Type '' @ [CHR 0x27] @ ''help'' @ [CHR 0x27] @ '' for a list of commands.'' @ newline, [])] con) (\<lambda>con1.
     obind (case frm of None \<Rightarrow> Inr con1 | Some (a, t) \<Rightarrow> print_trapframe a t con1) (\<lambda>con2.
     finish (kmonitor_loop y commands bp m con2)))"

section \<open>Panic\<close>

text \<open>\<open>off\<close>: the firmware turns the machine off, so that \<open>sbi_shutdown\<close> does not return. Of the state only what the code prints
  and the flag \<open>is_panic\<close> are here; \<open>intr_disable\<close> is in \<open>Cpu_State\<close>.\<close>

partial_function (option) panic_loop :: "symbols \<Rightarrow> mon_command list \<Rightarrow> 64 word \<Rightarrow> bytes \<Rightarrow> console \<Rightarrow> console outcome option" where
  "panic_loop y commands bp m con = loop_bind (kmonitor y commands bp None m con) (\<lambda>r. panic_loop y commands bp (fst r) (snd r))"

definition do_panic :: "bool \<Rightarrow> symbols \<Rightarrow> mon_command list \<Rightarrow> 64 word \<Rightarrow> string \<Rightarrow> int \<Rightarrow> string \<Rightarrow> arg list \<Rightarrow> bool \<Rightarrow> bytes \<Rightarrow> console \<Rightarrow> console outcome" where
  "do_panic off y commands bp file line fmt ap is_panic m con =
     obind (if is_panic then Inr con
       else cprintf_all [(''kernel panic at %s:%d:'' @ newline @ ''    '', [Str_arg (Some file), Int_arg (word_of_int line)]), (fmt, ap), (newline, [])] con) (\<lambda>con1.
     if off then Inl No_return else finish (panic_loop y commands bp m con1))"

definition do_warn :: "string \<Rightarrow> int \<Rightarrow> string \<Rightarrow> arg list \<Rightarrow> console \<Rightarrow> console outcome" where
  "do_warn file line fmt ap con =
     cprintf_all [(''kernel warning at %s:%d:'' @ newline @ ''    '', [Str_arg (Some file), Int_arg (word_of_int line)]), (fmt, ap), (newline, [])] con"

declare blank_out.simps [code] scan_word.simps [code] parse_loop.simps [code] c_string_at.simps [code] kmonitor_loop.simps [code]
  panic_loop.simps [code]

section \<open>The words of a line\<close>

text \<open>The reference: the maximal runs of bytes that are not blank.\<close>

function words_of :: "8 word list \<Rightarrow> 8 word list list" where
  "words_of xs = (case dropWhile is_white xs of [] \<Rightarrow> []
     | y # ys \<Rightarrow> (y # takeWhile (\<lambda>c. \<not> is_white c) ys) # words_of (dropWhile (\<lambda>c. \<not> is_white c) ys))"
  by auto
termination
proof (relation "measure length")
  fix xs y ys
  assume "dropWhile is_white xs = y # ys"
  then have "length (y # ys) \<le> length xs" by (metis length_dropWhile_le)
  moreover have "length (dropWhile (\<lambda>c. \<not> is_white c) ys) \<le> length ys" by (rule length_dropWhile_le)
  ultimately show "(dropWhile (\<lambda>c. \<not> is_white c) ys, xs) \<in> measure length" by simp
qed simp

declare words_of.simps [simp del]

text \<open>What \<open>parse\<close> leaves of the line: its blanks are NULs.\<close>

definition blanked :: "64 word \<Rightarrow> nat \<Rightarrow> bytes \<Rightarrow> bytes" where
  "blanked b n m = (\<lambda>a. if unat (a - b) < n \<and> is_white (m a) then 0 else m a)"

lemma not_white_0 [simp]: "\<not> is_white 0"
  by (simp add: is_white_def WHITESPACE_def)

lemma offset_range:
  fixes a b :: "64 word"
  assumes "k + n < 2 ^ 64"
  shows "unat (a - (b + of_nat k)) < n \<longleftrightarrow> k \<le> unat (a - b) \<and> unat (a - b) < k + n"
proof -
  define d where "d = a - b"
  have k: "unat (of_nat k :: 64 word) = k" using assms by (simp add: unat_of_nat64)
  have e: "a - (b + of_nat k) = d - of_nat k" by (simp add: d_def algebra_simps)
  show ?thesis
  proof (cases "of_nat k \<le> d")
    case True
    then have "unat (d - of_nat k) = unat d - k" by (simp add: unat_sub k)
    then show ?thesis unfolding e d_def [symmetric] using True k by (auto simp: word_le_nat_alt)
  next
    case False
    then have lt: "unat d < k" using k by (simp add: word_le_nat_alt)
    have "unat (d - of_nat k) = 2 ^ 64 + unat d - k"
      using lt k by (simp add: unat_sub_if_size word_le_nat_alt word_size)
    then show ?thesis unfolding e d_def [symmetric] using lt assms by simp
  qed
qed

lemma blanked_0 [simp]: "blanked b 0 m = m"
  by (simp add: blanked_def)

lemma blanked_append: "k + n < 2 ^ 64 \<Longrightarrow> blanked (b + of_nat k) n (blanked b k m) = blanked b (k + n) m"
  by (rule ext) (auto simp: blanked_def offset_range)

lemma blanked_at: "i < n \<Longrightarrow> n < 2 ^ 64 \<Longrightarrow> blanked b n m (b + of_nat i) = (if is_white (m (b + of_nat i)) then 0 else m (b + of_nat i))"
  by (simp add: blanked_def unat_of_nat64)

lemma blanked_beyond: "n \<le> i \<Longrightarrow> i < 2 ^ 64 \<Longrightarrow> blanked b n m (b + of_nat i) = m (b + of_nat i)"
  by (simp add: blanked_def unat_of_nat64)

lemma bytes_at_nth: "bytes_at m a xs \<Longrightarrow> i < length xs \<Longrightarrow> m (a + of_nat i) = xs ! i"
proof (induction xs arbitrary: a i)
  case (Cons x xs)
  then show ?case by (cases i) (auto simp: add.assoc [symmetric] dest!: spec)
qed simp

lemma bytes_at_all: "(\<And>i. i < length xs \<Longrightarrow> m (a + of_nat i) = xs ! i) \<Longrightarrow> bytes_at m a xs"
proof (induction xs arbitrary: a)
  case (Cons x xs)
  have "m (a + 1 + of_nat i) = xs ! i" if "i < length xs" for i
    using Cons.prems [of "Suc i"] that by (simp add: add.assoc)
  then show ?case using Cons.IH [of "a + 1"] Cons.prems [of 0] by simp
qed simp

lemma cstring_cong: "cstring m a xs \<Longrightarrow> (\<And>i. i \<le> length xs \<Longrightarrow> m' (a + of_nat i) = m (a + of_nat i)) \<Longrightarrow> cstring m' a xs"
  unfolding cstring_bytes_at by (auto intro: bytes_at_cong)

lemma cstring_drop: "cstring m a xs \<Longrightarrow> k \<le> length xs \<Longrightarrow> cstring m (a + of_nat k) (drop k xs)"
proof (induction k arbitrary: a xs)
  case (Suc k)
  then obtain x ys where xs: "xs = x # ys" by (cases xs) auto
  then show ?case using Suc.IH [of "a + 1" ys] Suc.prems by (simp add: add.assoc)
qed simp

lemma blank_out_ok:
  assumes "cstring m b xs" "length xs < 2 ^ 63"
  shows "blank_out m b = Some (blanked b (length (takeWhile is_white xs)) m, b + of_nat (length (takeWhile is_white xs)))"
  using assms
proof (induction xs arbitrary: m b)
  case Nil
  then show ?case by (subst blank_out.simps) simp
next
  case (Cons x xs)
  show ?case
  proof (cases "is_white x")
    case False
    then show ?thesis using Cons.prems by (subst blank_out.simps) simp
  next
    case True
    have m1: "m(b := 0) = blanked b 1 m" using True Cons.prems(1) by (auto simp: blanked_def fun_eq_iff unat_eq_0)
    have "cstring (m(b := 0)) (b + 1) xs"
    proof (rule cstring_cong)
      fix i assume "i \<le> length xs"
      then have "b + of_nat (Suc i) \<noteq> b + of_nat 0" using Cons.prems(2) of_nat_offset [of "Suc i" 0 b] by simp
      then show "(m(b := 0)) (b + 1 + of_nat i) = m (b + 1 + of_nat i)" by (simp add: add.assoc)
    qed (use Cons.prems in simp)
    moreover have "length (takeWhile is_white xs) < 2 ^ 63" using Cons.prems(2) length_takeWhile_le [of is_white xs] by simp
    ultimately show ?thesis
      using Cons.IH [of "m(b := 0)" "b + 1"] Cons.prems True blanked_append [of 1 "length (takeWhile is_white xs)" b m]
      by (subst blank_out.simps) (simp add: m1 add.assoc)
  qed
qed

lemma scan_word_ok: "cstring m b xs \<Longrightarrow> scan_word m b = Some (b + of_nat (length (takeWhile (\<lambda>c. \<not> is_white c) xs)))"
proof (induction xs arbitrary: b)
  case Nil
  then show ?case by (subst scan_word.simps) simp
next
  case (Cons x xs)
  then show ?case by (subst scan_word.simps) (simp add: add.assoc)
qed

lemma too_many_text: "\<exists>out. printfmt (''Too many arguments (max %d).'' @ newline) [Int_arg (of_nat MAXARGS)] = Inr out"
proof -
  have "printfmt (''Too many arguments (max %d).'' @ newline) [Int_arg (of_nat MAXARGS)] = Inr (''Too many arguments (max 16).'' @ newline)"
    by code_simp
  then show ?thesis by blast
qed

lemma cstring_nth: "cstring m a xs \<Longrightarrow> i \<le> length xs \<Longrightarrow> m (a + of_nat i) = (if i < length xs then xs ! i else 0)"
  unfolding cstring_bytes_at using bytes_at_nth [of m a "xs @ [0]" i] by (auto simp: nth_append)

text \<open>A word of the line is a string of its own once the blanks are NULs.\<close>

lemma word_cstring:
  assumes "cstring m b xs" "length xs < 2 ^ 63" "xs = bs @ w @ rest" "\<forall>c \<in> set w. \<not> is_white c" "rest = [] \<or> is_white (rest ! 0)"
  shows "cstring (blanked b (length xs) m) (b + of_nat (length bs)) w"
proof -
  have at: "blanked b (length xs) m (b + of_nat i) = (if i < length xs \<and> \<not> is_white (xs ! i) then xs ! i else 0)" if "i \<le> length xs" for i
  proof (cases "i < length xs")
    case True
    then show ?thesis using cstring_nth [OF assms(1) that] blanked_at [of i "length xs" b m] assms(2) by simp
  next
    case False
    then show ?thesis using cstring_nth [OF assms(1) that] blanked_beyond [of "length xs" i b m] assms(2) that by simp
  qed
  have "0 \<notin> set w" using cstring_nonzero [OF assms(1)] assms(3) by auto
  moreover have "bytes_at (blanked b (length xs) m) (b + of_nat (length bs)) (w @ [0])"
  proof -
    have "blanked b (length xs) m (b + of_nat (length bs) + of_nat i) = (w @ [0]) ! i" if "i < length (w @ [0])" for i
    proof -
      have "length bs + i \<le> length xs" using that assms(3) by simp
      from at [OF this] show ?thesis
        using that assms(3-5) by (auto simp: nth_append add.assoc less_Suc_eq split: if_splits)
    qed
    then show ?thesis by (rule bytes_at_all)
  qed
  ultimately show ?thesis by (simp add: cstring_bytes_at)
qed

text \<open>Blanking the rest of a line after a word completes the blanking of the line.\<close>

lemma blanked_word:
  assumes "cstring m b xs" "length xs < 2 ^ 63" "xs = bs @ w @ rest" "\<forall>c \<in> set w. \<not> is_white c"
  shows "blanked (b + of_nat (length bs + length w)) (length rest) (blanked b (length bs) m) = blanked b (length xs) m"
proof
  fix a
  have range: "unat (a - (b + of_nat (length bs + length w))) < length rest \<longleftrightarrow>
      length bs + length w \<le> unat (a - b) \<and> unat (a - b) < length xs"
    using offset_range [of "length bs + length w" "length rest" a b] assms(2,3) by (simp add: add.assoc)
  have "\<not> is_white (m a)" if "length bs \<le> unat (a - b)" "unat (a - b) < length bs + length w"
    using cstring_nth [OF assms(1), of "unat (a - b)"] that assms(3,4) by (simp add: nth_append)
  then show "blanked (b + of_nat (length bs + length w)) (length rest) (blanked b (length bs) m) a = blanked b (length xs) m a"
    unfolding blanked_def range using assms(3) by auto
qed

lemma parse_loop_ok:
  assumes "cstring m b xs" "length xs < 2 ^ 63" "length argv \<le> 16"
  shows "if length argv + length (words_of xs) \<le> 16
    then \<exists>ps con'. parse_loop m b argv con = Some (Inr (argv @ ps, blanked b (length xs) m, con')) \<and> stdin con' = stdin con \<and>
      list_all2 (cstring (blanked b (length xs) m)) ps (words_of xs)
    else parse_loop m b argv con = Some (Inl (Undefined ''argv''))"
  using assms
proof (induction xs arbitrary: m b argv con rule: words_of.induct)
  case (1 xs)
  define bs where "bs = takeWhile is_white xs"
  define ys where "ys = dropWhile is_white xs"
  define m1 b1 where "m1 = blanked b (length bs) m" and "b1 = b + of_nat (length bs)"
  have xs: "xs = bs @ ys" by (simp add: bs_def ys_def)
  have blank: "blank_out m b = Some (m1, b1)" using blank_out_ok [OF 1(2,3)] by (simp add: m1_def b1_def bs_def)
  have ys: "cstring m1 b1 ys"
  proof (rule cstring_cong)
    show "cstring m b1 ys" using cstring_drop [OF 1(2), of "length bs"] xs by (simp add: b1_def)
    fix i assume "i \<le> length ys"
    moreover have e: "b1 + of_nat i = b + of_nat (length bs + i)" by (simp add: b1_def add.assoc)
    ultimately show "m1 (b1 + of_nat i) = m (b1 + of_nat i)"
      unfolding e m1_def using 1(3) xs by (intro blanked_beyond) simp_all
  qed
  show ?case
  proof (cases ys)
    case Nil
    then have "words_of xs = []" by (subst words_of.simps) (simp add: ys_def [symmetric])
    then show ?thesis using 1(4) ys Nil xs by (subst (1 2) parse_loop.simps) (simp add: blank m1_def)
  next
    case (Cons y zs)
    define w where "w = y # takeWhile (\<lambda>c. \<not> is_white c) zs"
    define rest where "rest = dropWhile (\<lambda>c. \<not> is_white c) zs"
    have "\<not> is_white y" using Cons hd_dropWhile [of is_white xs] by (simp add: ys_def)
    then have w: "takeWhile (\<lambda>c. \<not> is_white c) ys = w" "ys = w @ rest" by (simp_all add: Cons w_def rest_def)
    have words: "words_of xs = w # words_of rest"
      by (subst words_of.simps) (simp add: ys_def [symmetric] Cons w_def rest_def)
    define b2 m2 where "b2 = b1 + of_nat (length w)" and "m2 = blanked b (length xs) m"
    have black: "\<forall>c \<in> set w. \<not> is_white c" using w(1) set_takeWhileD by fastforce
    have end_w: "rest = [] \<or> is_white (rest ! 0)" using hd_dropWhile [of "\<lambda>c. \<not> is_white c" zs] by (auto simp: rest_def hd_conv_nth)
    have m2: "blanked b2 (length rest) m1 = m2"
      using blanked_word [OF 1(2,3), of bs w rest] xs w(2) black by (simp add: b2_def b1_def m1_def m2_def add.assoc)
    have rest: "cstring m1 b2 rest" using cstring_drop [OF ys, of "length w"] w by (simp add: b2_def)
    have scan: "scan_word m1 b1 = Some b2" using scan_word_ok [OF ys] w by (simp add: b2_def)
    have head: "cstring m2 b1 w"
      unfolding m2_def b1_def using word_cstring [OF 1(2,3), of bs w rest] xs w(2) black end_w by simp
    have nonzero: "m1 b1 \<noteq> 0" using ys Cons by simp
    obtain c where c: "(if length argv = MAXARGS - 1 then cprintf (''Too many arguments (max %d).'' @ newline) [Int_arg (of_nat MAXARGS)] con
        else Inr (0, con)) = Inr c" "stdin (snd c) = stdin con"
    proof (cases "length argv = MAXARGS - 1")
      case True
      obtain out where "printfmt (''Too many arguments (max %d).'' @ newline) [Int_arg (of_nat MAXARGS)] = Inr out" using too_many_text by blast
      from cprintf_ok [OF this, of con] show thesis using that True by simp
    next
      case False
      then show thesis using that [of "(0, con)"] by simp
    qed
    show ?thesis
    proof (cases "length argv = 16")
      case True
      then show ?thesis using blank nonzero c by (subst (1 2) parse_loop.simps) (simp add: words Let_def MAXARGS_def)
    next
      case False
      then have step: "parse_loop m b argv con = parse_loop m1 b2 (argv @ [b1]) (snd c)"
        using blank nonzero c(1) scan 1(4) by (subst (1) parse_loop.simps) (simp add: Let_def MAXARGS_def)
      have lr: "length rest < 2 ^ 63" using 1(3) xs w(2) by simp
      have la: "length (argv @ [b1]) \<le> 16" using 1(4) False by simp
      have IH: "if length (argv @ [b1]) + length (words_of rest) \<le> 16
        then \<exists>ps con'. parse_loop m1 b2 (argv @ [b1]) (snd c) = Some (Inr ((argv @ [b1]) @ ps, m2, con')) \<and> stdin con' = stdin (snd c) \<and>
          list_all2 (cstring m2) ps (words_of rest)
        else parse_loop m1 b2 (argv @ [b1]) (snd c) = Some (Inl (Undefined ''argv''))"
        by (rule 1(1) [OF ys_def [symmetric, unfolded Cons] rest [unfolded rest_def] lr [unfolded rest_def] la, folded rest_def, unfolded m2])
      show ?thesis unfolding step using IH c(2) head words by (auto simp: m2_def [symmetric])
    qed
  qed
qed

text \<open>C40: \<open>parse\<close> on a line in memory: up to 16 words it returns in \<open>argv\<close> the addresses of strings that are the words of the
  line, in order, having turned exactly the blanks of the line into NULs; with more words it writes beyond \<open>argv\<close>.\<close>
theorem parse_splits_words:
  assumes "cstring m b xs" "length xs < 2 ^ 63"
  shows "if length (words_of xs) \<le> MAXARGS
    then \<exists>argv con'. parse m b con = Inr (argv, blanked b (length xs) m, con') \<and> list_all2 (cstring (blanked b (length xs) m)) argv (words_of xs)
    else parse m b con = Inl (Undefined ''argv'')"
  using parse_loop_ok [OF assms, of "[]" con] by (auto simp: parse_def MAXARGS_def split: if_splits)

definition demo_line :: bytes where
  "demo_line = placed 0x1000 [104, 101, 32, 9, 120]"

theorem parse_splits_words_witness:
  "(\<exists>p q m' con'. parse demo_line 0x1000 \<lparr>stdin = [], stdout = []\<rparr> = Inr ([p, q], m', con') \<and> cstring m' p [104, 101] \<and> cstring m' q [120]) \<and>
   parse (placed 0 (concat (replicate 17 [97, 32]))) 0 \<lparr>stdin = [], stdout = []\<rparr> = Inl (Undefined ''argv'')"
proof -
  have l: "cstring demo_line 0x1000 [104, 101, 32, 9, 120]"
    unfolding cstring_bytes_at by (simp add: demo_line_def placed_def)
  have w: "words_of [104, 101, 32, 9, 120] = [[104, 101], [120]]" by code_simp
  have one: "\<exists>p q m' con'. parse demo_line 0x1000 \<lparr>stdin = [], stdout = []\<rparr> = Inr ([p, q], m', con') \<and> cstring m' p [104, 101] \<and> cstring m' q [120]"
    using parse_splits_words [OF l, of "\<lparr>stdin = [], stdout = []\<rparr>"] by (auto simp: w MAXARGS_def list_all2_Cons2)
  define ys :: "8 word list" where "ys = concat (replicate 17 [97, 32])"
  have "length ys = 34" unfolding ys_def by code_simp
  then have len: "length ys < 2 ^ 63" by simp
  have "bytes_at (placed 0 (ys @ [0])) (0 + of_nat 0) (ys @ [0])" by (rule bytes_at_placed) (simp_all add: \<open>length ys = 34\<close>)
  moreover have "0 \<notin> set ys" by (simp add: ys_def)
  moreover have "placed 0 (ys @ [0]) = placed 0 ys" by (rule ext) (auto simp: placed_def nth_append)
  ultimately have k: "cstring (placed 0 ys) 0 ys" by (simp add: cstring_bytes_at)
  have v: "length (words_of ys) = 17" unfolding ys_def by code_simp
  have "parse (placed 0 ys) 0 \<lparr>stdin = [], stdout = []\<rparr> = Inl (Undefined ''argv'')"
    using parse_splits_words [OF k len, of "\<lparr>stdin = [], stdout = []\<rparr>"] by (simp add: v MAXARGS_def)
  with one show ?thesis unfolding ys_def by (rule conjI)
qed

section \<open>No way out\<close>

lemma mon_result: "mon_help commands m con = Inr (r, con1) \<Longrightarrow> r = 0" "mon_kerninfo y con = Inr (r, con1) \<Longrightarrow> r = 0"
  "mon_backtrace con \<noteq> Inr (r, con1)"
  by (auto simp: mon_help_def mon_kerninfo_def mon_backtrace_def print_stackframe_def obind_eq_Inr)

lemma runcmd_result:
  assumes "runcmd y commands m bp con = Inr (r, m1, con1)"
  shows "r = 0"
proof -
  obtain argv m2 con2 where "parse m bp con = Inr (argv, m2, con2)" using assms by (auto simp: runcmd_def obind_eq_Inr)
  note run = assms [unfolded runcmd_def this obind_Inr, simplified]
  show ?thesis
  proof (cases "argv = []")
    case False
    then obtain g where g: "find_command m2 (argv ! 0) commands = Inr g" using run by (auto simp: obind_eq_Inr)
    show ?thesis
    proof (cases g)
      case None
      then show ?thesis using run False g by (auto simp: obind_eq_Inr)
    next
      case (Some q)
      show ?thesis
      proof (cases q)
        case Mon_help
        then show ?thesis using run False g Some by (auto simp: obind_eq_Inr dest: mon_result(1))
      next
        case Mon_kerninfo
        then show ?thesis using run False g Some by (auto simp: obind_eq_Inr dest: mon_result(2))
      next
        case Mon_backtrace
        then show ?thesis using run False g Some by (simp add: mon_backtrace_def print_stackframe_def)
      qed
    qed
  qed (use run in simp)
qed

lemma loop_bind_eq_Some: "loop_bind x f = Some (Inr r) \<longleftrightarrow> (\<exists>z. x = Inr z \<and> f z = Some (Inr r))"
  by (cases x) auto

lemma kmonitor_loop_stuck: "kmonitor_loop y commands bp m con \<noteq> Some (Inr r)"
proof
  assume "kmonitor_loop y commands bp m con = Some (Inr r)"
  moreover have "x \<noteq> Inr r" if "kmonitor_loop y commands bp m con = Some x" for x
    using that
  proof (rule kmonitor_loop.raw_induct [where P = "\<lambda>y commands bp m con x. x \<noteq> Inr r", rotated])
    fix f y commands bp m con x
    assume IH: "\<And>y commands bp m con x. f y commands bp m con = Some x \<Longrightarrow> x \<noteq> Inr r"
      and eq: "loop_bind (readline bp (Some ''K> '') m con) (\<lambda>r.
        case fst r of None \<Rightarrow> f y commands bp (fst (snd r)) (snd (snd r))
        | Some b \<Rightarrow> loop_bind (runcmd y commands (fst (snd r)) b (snd (snd r))) (\<lambda>q.
            if fst q < 0 then Some (Inr (snd q)) else f y commands bp (fst (snd q)) (snd (snd q)))) = Some x"
    have IH': "f y commands bp m con \<noteq> Some (Inr r)" for y commands bp m con using IH by blast
    show "x \<noteq> Inr r"
    proof
      assume "x = Inr r"
      with eq obtain p m1 con1 where "(case p of None \<Rightarrow> f y commands bp m1 con1
        | Some b \<Rightarrow> loop_bind (runcmd y commands m1 b con1) (\<lambda>q.
            if fst q < 0 then Some (Inr (snd q)) else f y commands bp (fst (snd q)) (snd (snd q)))) = Some (Inr r)"
        by (auto simp: loop_bind_eq_Some)
      with IH' obtain b q where q: "runcmd y commands m1 b con1 = Inr q"
        "(if fst q < 0 then Some (Inr (snd q)) else f y commands bp (fst (snd q)) (snd (snd q))) = Some (Inr r)"
        by (cases p) (auto simp: loop_bind_eq_Some)
      have "fst q = 0" using q(1) by (cases q) (auto dest: runcmd_result)
      with q(2) IH' show False by simp
    qed
  qed
  ultimately show False by blast
qed

lemma kmonitor_stuck: "kmonitor y commands bp frm m con \<noteq> Inr r"
proof -
  have "finish (kmonitor_loop y commands bp m con2) \<noteq> Inr r" for con2
    using kmonitor_loop_stuck [of y commands bp m con2 r] by (cases "kmonitor_loop y commands bp m con2") auto
  then show ?thesis by (auto simp: kmonitor_def obind_eq_Inr)
qed

lemma panic_loop_eq: "panic_loop y commands bp m con \<noteq> Some (Inr r)"
  using kmonitor_stuck by (subst panic_loop.simps) (auto simp: loop_bind_eq_Some)


end
