(* ===== verification/User_Lib.thy ===== *)
theory User_Lib
  imports Demo_Kernel Trap
begin

text \<open>
  The user side of the system calls, user/libs/syscall.c and user/libs/ulib.c. A library function is the request its
  \<open>ecall\<close> makes: a number and five arguments, the ones the caller does not pass (\<open>rest\<close>) being whatever \<open>va_arg\<close> finds.
  The stub loads the registers with \<open>lw\<close> and stores the result with \<open>sw\<close>: both move 32 bits.
\<close>

section \<open>The stubs\<close>

definition lw :: "64 word \<Rightarrow> 64 word" where
  "lw w = scast (ucast w :: 32 word)"

type_synonym request = "64 word \<times> 64 word list"

definition MAX_ARGS :: nat where "MAX_ARGS = 5"

definition request :: "nat \<Rightarrow> 64 word list \<Rightarrow> 64 word list \<Rightarrow> request" where
  "request num args rest = (of_nat num, take MAX_ARGS (args @ rest))"

text \<open>The registers at the \<open>ecall\<close>, and the value of the call when the registers come back.\<close>

definition user_syscall :: "request \<Rightarrow> trapframe \<Rightarrow> trapframe" where
  "user_syscall r f = f\<lparr>gpr_a0 := lw (fst r), gpr_a1 := lw (snd r ! 0), gpr_a2 := lw (snd r ! 1), gpr_a3 := lw (snd r ! 2),
     gpr_a4 := lw (snd r ! 3), gpr_a5 := lw (snd r ! 4)\<rparr>"

definition user_result :: "trapframe \<Rightarrow> int" where
  "user_result f = sint (ucast (gpr_a0 f) :: 32 word)"

definition u_sys_exit :: "64 word \<Rightarrow> 64 word list \<Rightarrow> request" where "u_sys_exit error_code rest = request SYS_exit [error_code] rest"
definition u_sys_fork :: "64 word list \<Rightarrow> request" where "u_sys_fork rest = request SYS_fork [] rest"
definition u_sys_wait :: "64 word \<Rightarrow> 64 word \<Rightarrow> 64 word list \<Rightarrow> request" where "u_sys_wait p store rest = request SYS_wait [p, store] rest"
definition u_sys_yield :: "64 word list \<Rightarrow> request" where "u_sys_yield rest = request SYS_yield [] rest"
definition u_sys_kill :: "64 word \<Rightarrow> 64 word list \<Rightarrow> request" where "u_sys_kill p rest = request SYS_kill [p] rest"
definition u_sys_getpid :: "64 word list \<Rightarrow> request" where "u_sys_getpid rest = request SYS_getpid [] rest"
definition u_sys_putc :: "64 word \<Rightarrow> 64 word list \<Rightarrow> request" where "u_sys_putc c rest = request SYS_putc [c] rest"
definition u_sys_pgdir :: "64 word list \<Rightarrow> request" where "u_sys_pgdir rest = request SYS_pgdir [] rest"
definition u_sys_gettime :: "64 word list \<Rightarrow> request" where "u_sys_gettime rest = request SYS_gettime [] rest"
definition u_sys_lab6_set_priority :: "64 word \<Rightarrow> 64 word list \<Rightarrow> request" where
  "u_sys_lab6_set_priority prio rest = request SYS_lab6_set_priority [prio] rest"

section \<open>The library functions\<close>

text \<open>An \<open>int\<close> argument is widened to the \<open>int64_t\<close> parameter of the stub.\<close>

definition u_exit :: "int \<Rightarrow> 64 word list \<Rightarrow> request" where "u_exit error_code rest = u_sys_exit (word_of_int error_code) rest"
definition u_fork :: "64 word list \<Rightarrow> request" where "u_fork rest = u_sys_fork rest"
definition u_wait :: "64 word list \<Rightarrow> request" where "u_wait rest = u_sys_wait 0 0 rest"
definition u_waitpid :: "int \<Rightarrow> 64 word \<Rightarrow> 64 word list \<Rightarrow> request" where "u_waitpid p store rest = u_sys_wait (word_of_int p) store rest"
definition u_yield :: "64 word list \<Rightarrow> request" where "u_yield rest = u_sys_yield rest"
definition u_kill :: "int \<Rightarrow> 64 word list \<Rightarrow> request" where "u_kill p rest = u_sys_kill (word_of_int p) rest"
definition u_getpid :: "64 word list \<Rightarrow> request" where "u_getpid rest = u_sys_getpid rest"
definition u_print_pgdir :: "64 word list \<Rightarrow> request" where "u_print_pgdir rest = u_sys_pgdir rest"
definition u_gettime_msec :: "64 word list \<Rightarrow> request" where "u_gettime_msec rest = u_sys_gettime rest"
definition u_lab6_setpriority :: "32 word \<Rightarrow> 64 word list \<Rightarrow> request" where "u_lab6_setpriority prio rest = u_sys_lab6_set_priority (ucast prio) rest"

section \<open>Arguments and results cross the border\<close>

lemma low_half: "(ucast (lw w) :: 32 word) = ucast w"
  by (rule bit_word_eqI) (auto simp: lw_def bit_simps)

lemma int_arg_lw [simp]: "int_arg (lw w) = int_arg w"
  by (simp add: int_arg_def low_half)

lemma int_arg_int: "- (2 ^ 31) \<le> v \<Longrightarrow> v < 2 ^ 31 \<Longrightarrow> int_arg (word_of_int v) = v"
proof -
  assume v: "- (2 ^ 31) \<le> v" "v < 2 ^ 31"
  have "(ucast (word_of_int v :: 64 word) :: 32 word) = word_of_int v"
    by (rule bit_word_eqI) (auto simp: bit_simps)
  moreover have "sint (word_of_int v :: 32 word) = v"
    using v by (simp add: signed_of_int signed_take_bit_int_eq_self)
  ultimately show ?thesis by (simp add: int_arg_def)
qed

lemma int_arg_nat: "n < 2 ^ 31 \<Longrightarrow> int_arg (of_nat n) = int n"
  using int_arg_int [of "int n"] by simp

text \<open>What the kernel leaves in the frame of the caller, and what the caller reads from it.\<close>

definition deliver :: "int \<Rightarrow> 'a kernel_scheme \<Rightarrow> 64 word \<Rightarrow> 'a kernel_scheme" where
  "deliver v s a = upd_frame a (\<lambda>x. x\<lparr>gpr_a0 := word_of_int v\<rparr>) s"

lemma user_result_deliver: "- (2 ^ 31) \<le> v \<Longrightarrow> v < 2 ^ 31 \<Longrightarrow> user_result (tframes (deliver v s a) a) = v"
  using int_arg_int [of v] by (simp add: user_result_def deliver_def upd_frame_def int_arg_def)

definition caller_frame :: "'a kernel_scheme \<Rightarrow> 64 word" where
  "caller_frame s = tf (procs s (current s))"

lemma narrow_widen: "ucast (ucast x :: 64 word) = x" for x :: "32 word"
  by (rule bit_word_eqI) (auto simp: bit_simps)

lemma five_elements: "length xs = 5 \<Longrightarrow> \<exists>w0 w1 w2 w3 w4. xs = [w0, w1, w2, w3, w4]"
  by (auto simp: eval_nat_numeral length_Suc_conv)

lemma syscall_request:
  assumes "tframes s (caller_frame s) = user_syscall (request n args rest) f" "n < 256" "5 \<le> length (args @ rest)"
    "syscalls cls resched n = Some h"
  shows "syscall cls resched s = obind (h (map lw (take 5 (args @ rest))) s) (\<lambda>(r, s1). case r of
      Leaves \<Rightarrow> Inr (Leaves, s1) | Returns v \<Rightarrow> Inr (Returns (), deliver v s1 (caller_frame s)))"
proof -
  obtain w0 w1 w2 w3 w4 where w: "take 5 (args @ rest) = [w0, w1, w2, w3, w4]"
    using five_elements [of "take 5 (args @ rest)"] assms(3) by (metis length_take min.absorb2)
  have num: "int_arg (lw (of_nat n)) = int n" using assms(2) int_arg_nat [of n] by simp
  have frame: "user_syscall (request n args rest) f = f\<lparr>gpr_a0 := lw (of_nat n), gpr_a1 := lw w0, gpr_a2 := lw w1, gpr_a3 := lw w2,
      gpr_a4 := lw w3, gpr_a5 := lw w4\<rparr>" unfolding user_syscall_def request_def MAX_ARGS_def snd_conv w by simp
  show ?thesis
    using assms(1,2,4) num unfolding w frame syscall_def caller_frame_def Let_def deliver_def
    by (simp add: NUM_SYSCALLS_def)
qed

lemma syscalls_table [simp]:
  "syscalls cls resched SYS_exit = Some (sys_exit cls)" "syscalls cls resched SYS_fork = Some (sys_fork cls resched)"
  "syscalls cls resched SYS_wait = Some (sys_wait cls resched)" "syscalls cls resched SYS_yield = Some sys_yield"
  "syscalls cls resched SYS_kill = Some (sys_kill cls)" "syscalls cls resched SYS_getpid = Some sys_getpid"
  "syscalls cls resched SYS_gettime = Some sys_gettime" "syscalls cls resched SYS_putc = Some sys_putc"
  "syscalls cls resched SYS_lab6_set_priority = Some sys_lab6_set_priority"
  by (simp_all add: syscalls_def SYS_exit_def SYS_fork_def SYS_wait_def SYS_exec_def SYS_yield_def SYS_kill_def SYS_getpid_def SYS_putc_def
      SYS_pgdir_def SYS_gettime_def SYS_lab6_set_priority_def)

lemma numbers_small: "SYS_exit < 256" "SYS_fork < 256" "SYS_wait < 256" "SYS_yield < 256" "SYS_kill < 256" "SYS_getpid < 256"
  "SYS_gettime < 256" "SYS_putc < 256" "SYS_lab6_set_priority < 256"
  by (simp_all add: SYS_exit_def SYS_fork_def SYS_wait_def SYS_yield_def SYS_kill_def SYS_getpid_def SYS_putc_def
      SYS_gettime_def SYS_lab6_set_priority_def)

lemmas stub_defs = u_sys_exit_def u_sys_fork_def u_sys_wait_def u_sys_yield_def u_sys_kill_def u_sys_getpid_def u_sys_gettime_def
  u_sys_putc_def u_sys_lab6_set_priority_def u_exit_def u_fork_def u_wait_def u_waitpid_def u_yield_def u_kill_def u_getpid_def
  u_gettime_msec_def u_lab6_setpriority_def



end
