(* ===== verification/Spec2Isabelle.thy ===== *)
theory Spec2Isabelle
  imports Sched_Props Page_Checks Vm_Props Printf_Props Hash_Rand Proc_Props Device_Tree Monitor User_Lib
begin

text \<open>
  A verification of the uCore teaching kernel for 64-bit RISC-V (kernel in \<open>src/kern\<close>, shared code in
  \<open>src/libs\<close>, user library in \<open>src/user/libs\<close>). This theory only gathers the development; it says what is
  modelled where, what the theorems show, and what is left out.

  The program. A single processor runs user processes and kernel threads. A trap (kern/trap) enters the kernel with a
  saved trap frame; a system call (kern/syscall) goes to the process manager (kern/process), which keeps the table of
  processes, their family links and numbers, and creates, ends and collects processes. The process manager asks the
  scheduler (kern/schedule) who runs next; the scheduler reaches one of five scheduling classes through a table of
  function pointers. Processes own address spaces (kern/mm/vmm.c), which are page tables (kern/mm/pmm.c) over the frames
  of a physical page allocator (kern/mm/default_pmm.c); records come from a kernel heap (kern/mm/kmalloc.c) on the same
  allocator. The rest is the library (strings, formatted output, lists, skew heaps, bit operations), the reading of the
  device tree, the console, the monitor that a panic ends in, and the user side of the system calls.
\<close>

text \<open>
  How C is rendered.

  \<^item> State is passed explicitly, in records that extend each other as the layers do: \<open>sched\<close> (process records and run
    queue, Proc_Types), \<open>cpu\<close> (running process, interrupt enable, registers, contexts; Cpu_State), \<open>pmm\<close> (page
    descriptors, free list; Page_Alloc), \<open>mem\<close> (contents of the frames; Page_Table), \<open>kheap\<close> (heap blocks; Slob), \<open>vmm\<close> (memory descriptors and
    areas; Vmm), \<open>kernel\<close> (process list, hash table, counters, stack contents; Kernel_State). An operation of one
    layer is a function of every state that extends that layer, so that its frame condition is visible in its type.
  \<^item> Shared mutable structures are stores: the nodes of a list or of a heap are maps from addresses to links
    (Linked_List, Skew_Heap_Store), a page descriptor is an index, memory is words per frame (Page_Table) or bytes per
    address (Strings). Aliasing is what the code has.
  \<^item> Machine integers are words (\<open>32 word\<close>, \<open>64 word\<close>) and wrap; signed comparisons read them with \<open>sint\<close>.
  \<^item> \<open>panic\<close> and a failed \<open>assert\<close> are the left values of a sum (Prelude); an error that C returns as a negative
    number is that negative number (Error_Codes).
  \<^item> A loop that need not end is a \<open>partial_function (option)\<close>, whose value \<open>None\<close> means that it does not return; no
    fuel is chosen anywhere. \<open>returns\<close> and \<open>finish\<close> turn that into an outcome of its own, so that a theorem that shows
    a normal outcome shows termination. Loops that count are recursions over the count (\<open>for_each\<close>).
  \<^item> What is not C of the repository is a parameter: the firmware (the results of its calls are streams in
    Console), the addresses the linker chooses, the string literals in memory, the processor's choice of the next
    interrupt. \<open>resched\<close> in the process manager and the trap handlers is the effect of a call of \<open>schedule\<close> up to its
    return to the caller, that is of everything the other processes do in between; the theorems say what they assume of it.
\<close>

text \<open>
  Which theory models what.

  Foundations: Prelude (outcomes, counted loops, generic lemmas), Linked_List (libs/list.h), Skew_Heap_Store
  (libs/skew_heap.h, with the heaps it stores as trees), Atomic_Bits (libs/atomic.h), Strings (libs/string.c),
  Byte_Memory (lists of bytes in memory), Error_Codes (libs/error.h), Hash_Rand (libs/hash.c, libs/rand.c), Printfmt and
  Printf_Props (libs/printfmt.c).

  Scheduling: Proc_Types (the records of kern/process/proc.h and kern/schedule/sched.h that it shares with the process
  manager; the contract \<open>run_queue_class\<close>), Sched_Queue (default_sched.c, default_sched_fifo.c), Sched_Heap and
  Sched_Stride (default_sched_stride.c, default_sched_sjf.c, default_sched_hpf.c), Cpu_State (kern/driver/intr.c,
  kern/sync/sync.h, kern/process/switch.S), Sched_Core (sched.c), Sched_Fair (runs of the scheduler), Demo_State (a
  concrete state), Sched_Props (the properties).

  Memory: Page_Alloc (default_pmm.c), Page_Table and Page_Range (pmm.c, mmu.h), Page_Map, Page_Insert, Page_Loops,
  Page_Unmap, Page_Copy (what page tables map and how the operations change it), Page_Checks (the self-checks and the set
  up of the free list), Slob, Slob_Alloc, Kmalloc (kmalloc.c), Vmm, Vm_Areas, Vm_Props (vmm.c).

  Processes: Kernel_State (the state; running inside the \<open>mm\<close> of a process), Proc_Table, Proc_Fork, Proc_Exit,
  Proc_Exec, Proc_Init (kern/process/proc.c in the order of its functions, libs/elf.h, entry.S), Syscall
  (kern/syscall/syscall.c), Trap (kern/trap/trap.c, trapentry.S as the saved frame); then the lemmas: Proc_Pids (numbers
  and hash table), Proc_Family (children lists), Proc_Kernel (the contract with the scheduler), Proc_Life (the invariant
  \<open>proc_inv\<close>), Proc_Start, Proc_Heap, Proc_Create (fork), Proc_End, Proc_Wait (exit, wait), Proc_Boot (proc_init),
  Demo_Kernel (a concrete kernel), Proc_Props (the properties).

  Around the kernel: Device_Tree (kern/driver/dtb.c), Console (kern/driver/console.c, kern/libs/stdio.c,
  kern/libs/readline.c), Monitor (kern/debug, \<open>print_trapframe\<close>), User_Lib (user/libs/syscall.c, user/libs/ulib.c).
\<close>

text \<open>
  The interfaces, as locales. Each is interpreted on the definitions of the code.

  \<^item> \<open>run_queue_class\<close> (Proc_Types): what \<open>sched.c\<close> relies on from a \<open>sched_class\<close>; for all five classes.
    \<open>priority_class\<close> and \<open>pool_class\<close> (Sched_Heap) add that the first in the order runs; a pool with any
    linear order is a priority class (a \<open>sublocale\<close>), interpreted for SJF and HPF, whose keys are made
    instances of \<open>linorder\<close>. \<open>list_class\<close> (Sched_Fair) is for the classes that rotate.
  \<^item> \<open>kernel_sched\<close> and \<open>kernel_priority\<close> (Sched_Core): \<open>schedule\<close> and \<open>wakeup_proc\<close> over any class;
    \<open>kernel_procs\<close> (Proc_Kernel): the same for the process manager.
  \<^item> \<open>page_allocator\<close> (Page_Table): what page tables and heap rely on from the allocator. \<open>object_heap\<close>
    (Kmalloc): what vmm.c and proc.c rely on from \<open>kmalloc\<close>.
\<close>

text \<open>
  What the theorems show.

  \<^item> Scheduling. Each class refines a sequence or a heap of processes; \<open>schedule\<close> keeps the invariant
    of the scheduler, runs what the class picks, and runs the idle process just when nobody is ready. Round robin takes
    turns; SJF and HPF run the least process of their orders; stride keeps all strides in a window in which the
    wrapping comparison is the true one, gives each process a share in proportion to its priority up to a constant,
    and starves nobody.
  \<^item> Memory. First-fit allocation and freeing refine operations on a set of free runs and coalesce. Page tables are a
    tree whose frames are disjoint and allocated; insert, remove, unmap and copy change the mapping as a finite map
    changes, keep reference counts, and return. The heap gives disjoint objects and takes them back. Areas stay sorted and
    disjoint; \<open>find_vma\<close>, \<open>mm_map\<close>, \<open>user_mem_check\<close> and \<open>mm_destroy\<close> do what these areas say.
  \<^item> Processes. \<open>proc_inv\<close> ties the process list, the hash table, the numbers, the family links, the run queue and the
    running process together; \<open>procs_heap\<close> says that the records and kernel stacks of the processes are apart and
    allocated. Boot establishes both, fork keeps both; exit and kill keep the first; wait collects
    a dead child and gives its record and stack back. Numbers are fresh and the search for one ends.
  \<^item> Library. \<open>vprintfmt\<close> returns for any format; \<open>vsnprintf\<close> stays in its buffer; printing a number and reading it with
    \<open>strtol\<close> gives it back; \<open>memmove\<close> copies overlapping ranges; \<open>readline\<close> edits a line as its specification
    does and never leaves its buffer; the monitor splits a line into words within its limit.

  Several theorems show behaviour that a reader would not expect of the code, among them: a failed area
  insertion panics, \<open>exit_range\<close> may release a table that is still needed, an undefined system call
  stops the kernel. They are stated as the code behaves.
\<close>

text \<open>
  Not modelled.

  \<^item> kern/init (\<open>kern_init\<close> calls the initialisations in turn; entry.S builds the first page table and stack in
    assembly), kern/driver/clock.c and picirq.c (programming of the timer through the firmware): effects on devices only.
    \<open>ticks\<close> and the timer interrupt are in Trap.
  \<^item> trapentry.S and \<open>idt_init\<close>: the saving and restoring of registers is represented by the trap frame the handler gets.
    Of libs/riscv.h the model has the registers that the kernel reads or writes through it, not the instruction encodings.
  \<^item> \<open>check_boot_pgdir\<close> and the other self-checks that read through the live translation: the model has no translation
    of the kernel's own accesses. Their model-level counterparts are in Page_Checks.
  \<^item> Messages the handlers print, except where printing is the operation (Console, Monitor, Printfmt).
  \<^item> The skew-heap classes with \<open>USE_SKEW_HEAP\<close> 0 (compiled out), the timer list of sched.h (never used), the user
    programs (src/user/*.c), the user copies of stdio and panic, and the host tools (src/tools).
\<close>

end
